(* ===== verification/Ccbt_Prelude.thy ===== *)
theory Ccbt_Prelude
  imports Main "HOL-Library.Word" "HOL-Library.AList"
begin

text \<open>
  Shared vocabulary of the development: Python's \<open>bytes\<close> as lists of 8-bit words, Python's
  exceptions as values, the \<open>struct\<close> integer codecs (network byte order), slicing and indexing
  with negative positions, and two interfaces (locales) that several components implement:
  an encoder/decoder pair (\<open>codec\<close>) and a length-prefixed stream splitter (\<open>framing\<close>).
\<close>

section \<open>Bytes, exceptions and the result type\<close>

type_synonym byte = "8 word"
type_synonym bytes = "8 word list"

text \<open>The exception classes the modelled code raises or lets through.\<close>

datatype py_exc =
    BencodeDecodeError | BencodeEncodeError | HandshakeError | MessageError
  | ProtocolVersionError | StructError | ValueError | TypeError | IndexError | KeyError
  | AttributeError | RuntimeError | UnicodeError | OverflowError
  | IncompleteReadError | TimeoutError | ConnectionError | OSError | TorrentError
  | ZeroDivisionError | FileNotFoundError | FileAssemblerError | DiskError

type_synonym 'a py = "py_exc + 'a"

definition pbind :: "'a py \<Rightarrow> ('a \<Rightarrow> 'b py) \<Rightarrow> 'b py" where
  "pbind m f = (case m of Inl e \<Rightarrow> Inl e | Inr x \<Rightarrow> f x)"

named_theorems py_elims "inversion rules for computations that may raise"

lemma pbind_Inl [simp]: "pbind (Inl e) f = Inl e"
  by (simp add: pbind_def)

lemma pbind_Inr [simp]: "pbind (Inr x) f = f x"
  by (simp add: pbind_def)

lemma pbind_eq_Inr: "pbind m f = Inr y \<longleftrightarrow> (\<exists>x. m = Inr x \<and> f x = Inr y)"
  by (cases m) auto

lemma pbind_eq_Inl: "pbind m f = Inl e \<longleftrightarrow> m = Inl e \<or> (\<exists>x. m = Inr x \<and> f x = Inl e)"
  by (cases m) auto

lemma pbindE [py_elims]:
  assumes "pbind m f = Inr y"
  obtains x where "m = Inr x" and "f x = Inr y"
  using assms by (auto simp: pbind_eq_Inr)

text \<open>Evaluating a list of computations from left to right; the first exception wins.\<close>

fun py_seq :: "'a py list \<Rightarrow> 'a list py" where
  "py_seq [] = Inr []"
| "py_seq (m # ms) = pbind m (\<lambda>x. pbind (py_seq ms) (\<lambda>xs. Inr (x # xs)))"

lemma py_seq_map_Inr [simp]: "py_seq (map (\<lambda>x. Inr (f x)) xs) = Inr (map f xs)"
  by (induction xs) auto

lemma py_seq_map_eq_Inr:
  "(\<And>x. x \<in> set xs \<Longrightarrow> m x = Inr (f x)) \<Longrightarrow> py_seq (map m xs) = Inr (map f xs)"
  by (induction xs) auto

lemma py_seq_eq_InrD: "py_seq ms = Inr xs \<Longrightarrow> ms = map Inr xs"
  by (induction ms arbitrary: xs) (auto simp: pbind_eq_Inr)

text \<open>An ASCII literal \<open>b"..."\<close> of the source.\<close>

definition ascii :: "string \<Rightarrow> bytes" where
  "ascii s = map of_char s"

lemma length_ascii [simp]: "length (ascii s) = length s"
  by (simp add: ascii_def)

section \<open>int.bit_length\<close>

fun bit_length :: "nat \<Rightarrow> nat" where
  "bit_length n = (if n = 0 then 0 else Suc (bit_length (n div 2)))"

declare bit_length.simps [simp del]

lemma bit_length_simps [simp]: "bit_length 0 = 0" "bit_length (Suc 0) = Suc 0"
  by (simp_all add: bit_length.simps)

lemma bit_length_bounds: "0 < n \<Longrightarrow> 2 ^ (bit_length n - 1) \<le> n \<and> n < 2 ^ bit_length n"
proof (induction n rule: bit_length.induct)
  case (1 n)
  show ?case
  proof (cases "n = 1")
    case True
    then show ?thesis by simp
  next
    case False
    then have pos: "0 < n div 2" using 1(2) by linarith
    with 1 have ih: "2 ^ (bit_length (n div 2) - 1) \<le> n div 2" "n div 2 < 2 ^ bit_length (n div 2)" by auto
    have b: "bit_length (n div 2) = Suc (bit_length (n div 2 div 2))" using pos by (simp add: bit_length.simps [of "n div 2"])
    have n: "bit_length n = Suc (bit_length (n div 2))" using 1(2) by (simp add: bit_length.simps [of n])
    show ?thesis using ih unfolding n b by simp linarith
  qed
qed

lemma bit_length_power [simp]: "bit_length (2 ^ k) = Suc k"
proof (induction k)
  case (Suc k)
  then show ?case by (simp add: bit_length.simps [of "2 * 2 ^ k"])
qed simp

section \<open>Strings\<close>

text \<open>A Python \<open>str\<close> is the list of its code points; \<open>lit\<close> is a literal of the source.\<close>

type_synonym pystr = "nat list"

definition lit :: "string \<Rightarrow> pystr" where
  "lit s = map of_char s"

lemma lit_simps [simp]: "lit [] = []" "lit (c # cs) = of_char c # lit cs"
  by (simp_all add: lit_def)

text \<open>\<open>s.split(c)\<close> for a separator of one character.\<close>

fun split_on :: "nat \<Rightarrow> pystr \<Rightarrow> pystr list" where
  "split_on c [] = [[]]"
| "split_on c (x # xs) =
     (if x = c then [] # split_on c xs
      else (case split_on c xs of [] \<Rightarrow> [[x]] | w # ws \<Rightarrow> (x # w) # ws))"

lemma split_on_nonempty [simp]: "split_on c s \<noteq> []"
  by (induction s) (auto split: list.splits)

lemma split_on_single: "c \<notin> set s \<Longrightarrow> split_on c s = [s]"
  by (induction s) auto

lemma split_on_append: "split_on c (p @ c # s) = split_on c p @ split_on c s"
  by (induction p) (auto split: list.splits)

section \<open>Dictionaries\<close>

text \<open>A new key goes to the end of a dictionary.\<close>

lemma update_fresh: "k \<notin> fst ` set d \<Longrightarrow> AList.update k v d = d @ [(k, v)]"
  by (induction d) auto

section \<open>Indexing and slicing\<close>

text \<open>\<open>xs[i]\<close>: a negative index counts from the end, out of range raises \<open>IndexError\<close>.\<close>

definition py_index :: "'a list \<Rightarrow> int \<Rightarrow> 'a py" where
  "py_index xs i =
     (if int (length xs) \<le> i \<or> i < - int (length xs) then Inl IndexError
      else if i < 0 then Inr (xs ! (length xs - nat (- i)))
      else Inr (xs ! nat i))"

text \<open>\<open>xs[a:b]\<close>: negative bounds count from the end, and both are clipped to the list.\<close>

definition py_clip :: "int \<Rightarrow> int \<Rightarrow> int" where
  "py_clip n i = (if i < 0 then max 0 (n + i) else min n i)"

definition py_slice :: "'a list \<Rightarrow> int \<Rightarrow> int \<Rightarrow> 'a list" where
  "py_slice xs a b =
     (let n = int (length xs); lo = nat (py_clip n a); hi = nat (py_clip n b)
      in take (hi - lo) (drop lo xs))"

lemma py_index_nat [simp]:
  "i < length xs \<Longrightarrow> py_index xs (int i) = Inr (xs ! i)"
  by (simp add: py_index_def)

lemma py_index_beyond:
  "int (length xs) \<le> i \<Longrightarrow> py_index xs i = Inl IndexError"
  by (simp add: py_index_def)

lemma py_slice_nat:
  "a \<le> b \<Longrightarrow> b \<le> length xs \<Longrightarrow> py_slice xs (int a) (int b) = take (b - a) (drop a xs)"
  by (simp add: py_slice_def py_clip_def Let_def)

lemma py_slice_middle [simp]:
  "py_slice (pre @ mid @ post) (int (length pre)) (int (length pre) + int (length mid)) = mid"
  by (simp add: py_slice_def py_clip_def Let_def)

lemma py_index_middle [simp]:
  "py_index (pre @ x # post) (int (length pre)) = Inr x"
  by (simp add: py_index_def)

lemma length_py_slice: "length (py_slice xs a b) \<le> length xs"
  by (simp add: py_slice_def Let_def)

text \<open>\<open>[xs[i : i + n] for i in range(0, len(xs), n)]\<close>: the consecutive parts of length \<open>n\<close>.\<close>

definition chunks :: "nat \<Rightarrow> 'a list \<Rightarrow> 'a list list" where
  "chunks n xs = map (\<lambda>k. take n (drop (n * k) xs)) [0..<(length xs + n - 1) div n]"

lemma chunks_Nil [simp]: "chunks n [] = []"
  by (cases n) (simp_all add: chunks_def)

lemma chunks_rec:
  assumes "0 < n" and "xs \<noteq> []"
  shows "chunks n xs = take n xs # chunks n (drop n xs)"
proof -
  let ?N = "(length xs + n - 1) div n" and ?M = "(length (drop n xs) + n - 1) div n"
  from assms(2) have pos: "0 < length xs" by simp
  have "?N = Suc ?M"
  proof (cases "length xs \<le> n")
    case True
    have "(length xs - 1 + n) div n = (length xs - 1) div n + 1"
      using assms(1) by (intro div_add_self2) simp
    moreover have "(length xs - 1) div n = 0" using True pos by (intro div_less) linarith
    moreover have "length xs + n - 1 = length xs - 1 + n" using pos by linarith
    ultimately have "?N = 1" by presburger
    moreover have "?M = 0" using True assms(1) by (intro div_less) simp
    ultimately show ?thesis by presburger
  next
    case False
    then have "length xs + n - 1 = length (drop n xs) + n - 1 + n"
      using assms(1) unfolding length_drop by linarith
    moreover have "(length (drop n xs) + n - 1 + n) div n = ?M + 1"
      using assms(1) by (intro div_add_self2) simp
    ultimately show ?thesis by presburger
  qed
  then have "[0..<?N] = 0 # map Suc [0..<?M]"
    by (simp add: map_Suc_upt upt_conv_Cons del: upt_Suc)
  then show ?thesis
    unfolding chunks_def by (simp add: comp_def add.commute)
qed

lemma concat_chunks: "0 < n \<Longrightarrow> concat (chunks n xs) = xs"
proof (induction xs rule: length_induct)
  case (1 xs)
  then show ?case by (cases "xs = []") (simp_all add: chunks_rec)
qed

lemma length_in_chunks: "c \<in> set (chunks n xs) \<Longrightarrow> length c \<le> n"
  by (auto simp: chunks_def)

lemma chunks_dvd: "0 < n \<Longrightarrow> n dvd length xs \<Longrightarrow> c \<in> set (chunks n xs) \<Longrightarrow> length c = n"
proof (induction xs rule: length_induct)
  case (1 xs)
  show ?case
  proof (cases "xs = []")
    case False
    with 1 have "n \<le> length xs" by (simp add: dvd_imp_le)
    moreover from this 1 have "n dvd length (drop n xs)" by (simp add: dvd_diff_nat)
    moreover have "length (drop n xs) < length xs" using 1 False by simp
    moreover have "c = take n xs \<or> c \<in> set (chunks n (drop n xs))"
      using 1 False by (simp add: chunks_rec)
    ultimately show ?thesis using 1(1,2) by (metis length_take min_absorb2)
  qed (use 1 in simp)
qed

lemma chunks_concat:
  "0 < n \<Longrightarrow> \<forall>c\<in>set cs. length c = n \<Longrightarrow> chunks n (concat cs) = cs"
proof (induction cs)
  case (Cons c cs)
  then have "c @ concat cs \<noteq> []" by auto
  with Cons show ?case by (simp add: chunks_rec)
qed simp

section \<open>Network byte order\<close>

text \<open>
  \<open>be_bytes n v\<close> is the \<open>n\<close>-byte big-endian form of \<open>v\<close> (reduced modulo \<open>256 ^ n\<close>) and
  \<open>be_nat\<close> reads such a form. \<open>pack_be n v\<close> is \<open>struct.pack\<close> with an unsigned format of
  \<open>n\<close> bytes: it raises \<open>struct.error\<close> when the Python integer does not fit.
\<close>

fun be_bytes :: "nat \<Rightarrow> nat \<Rightarrow> bytes" where
  "be_bytes 0 v = []"
| "be_bytes (Suc n) v = be_bytes n (v div 256) @ [of_nat (v mod 256)]"

definition be_nat :: "bytes \<Rightarrow> nat" where
  "be_nat bs = foldl (\<lambda>a b. a * 256 + unat b) 0 bs"

definition pack_be :: "nat \<Rightarrow> int \<Rightarrow> bytes py" where
  "pack_be n v = (if 0 \<le> v \<and> v < 256 ^ n then Inr (be_bytes n (nat v)) else Inl StructError)"

definition unpack_be :: "bytes \<Rightarrow> int" where
  "unpack_be bs = int (be_nat bs)"

lemma length_be_bytes [simp]: "length (be_bytes n v) = n"
  by (induction n arbitrary: v) auto

lemma be_nat_Nil [simp]: "be_nat [] = 0"
  by (simp add: be_nat_def)

lemma be_nat_snoc [simp]: "be_nat (bs @ [b]) = be_nat bs * 256 + unat b"
  by (simp add: be_nat_def)

lemma be_nat_singleton [simp]: "be_nat [b] = unat b"
  by (simp add: be_nat_def)

lemma unat_of_nat_byte: "v < 256 \<Longrightarrow> unat (of_nat v :: byte) = v"
  by (simp add: unat_of_nat take_bit_eq_mod)

lemma be_nat_be_bytes: "v < 256 ^ n \<Longrightarrow> be_nat (be_bytes n v) = v"
proof (induction n arbitrary: v)
  case 0
  then show ?case by simp
next
  case (Suc n)
  then have "v div 256 < 256 ^ n" by (simp add: less_mult_imp_div_less mult.commute)
  with Suc.IH show ?case by (simp add: unat_of_nat_byte)
qed

lemma unat_byte_bound: "unat (b :: byte) < 256"
proof -
  have "unat b < 2 ^ LENGTH(8)" by (rule unsigned_less)
  then show ?thesis by simp
qed

lemma be_nat_bound: "be_nat bs < 256 ^ length bs"
proof (induction bs rule: rev_induct)
  case Nil
  then show ?case by simp
next
  case (snoc b bs)
  then have "be_nat bs * 256 + unat b < 256 ^ length bs * 256"
    using unat_byte_bound [of b] by linarith
  then show ?case by (simp add: mult.commute)
qed

lemma of_nat_unat_byte [simp]: "(of_nat (unat b) :: byte) = b"
  by simp

lemma be_bytes_be_nat [simp]: "be_bytes (length bs) (be_nat bs) = bs"
proof (induction bs rule: rev_induct)
  case Nil
  then show ?case by simp
next
  case (snoc b bs)
  have "unat b < 256" by (rule unat_byte_bound)
  then have "(be_nat bs * 256 + unat b) div 256 = be_nat bs"
    and "(be_nat bs * 256 + unat b) mod 256 = unat b" by simp_all
  with snoc show ?case by simp
qed

lemma be_bytes_be_nat': "length bs = n \<Longrightarrow> be_bytes n (be_nat bs) = bs"
  by auto

lemma pack_be_eq_Inr:
  "pack_be n v = Inr bs \<longleftrightarrow> 0 \<le> v \<and> v < 256 ^ n \<and> bs = be_bytes n (nat v)"
  by (auto simp: pack_be_def)

lemma pack_be_ok: "0 \<le> v \<Longrightarrow> v < 256 ^ n \<Longrightarrow> pack_be n v = Inr (be_bytes n (nat v))"
  by (simp add: pack_be_def)

lemma length_pack_be: "pack_be n v = Inr bs \<Longrightarrow> length bs = n"
  by (auto simp: pack_be_eq_Inr)

lemma unpack_be_be_bytes:
  "0 \<le> v \<Longrightarrow> v < 256 ^ n \<Longrightarrow> unpack_be (be_bytes n (nat v)) = v"
  by (simp add: unpack_be_def be_nat_be_bytes nat_less_iff)

lemma unpack_be_nonneg [simp]: "0 \<le> unpack_be bs"
  by (simp add: unpack_be_def)

lemma unpack_be_bound: "unpack_be bs < 256 ^ length bs"
  using be_nat_bound [of bs] unfolding unpack_be_def
  by (metis of_nat_less_iff of_nat_numeral of_nat_power)

lemma unpack_be_bound_n: "length bs = n \<Longrightarrow> unpack_be bs < 256 ^ n"
  using unpack_be_bound [of bs] by simp

lemma pack_be_unpack_be: "length bs = n \<Longrightarrow> pack_be n (unpack_be bs) = Inr bs"
  using unpack_be_bound [of bs] by (auto simp: pack_be_def) (simp add: unpack_be_def)

section \<open>Fixed layouts: struct formats as lists of field widths\<close>

text \<open>
  \<open>packs\<close> is \<open>struct.pack\<close> for a format of unsigned fields given as (width, value) pairs, and
  \<open>unpacks\<close> is what \<open>struct.unpack\<close> returns for a format given as the list of its widths, on
  data of the right length.
\<close>

definition packs :: "(nat \<times> int) list \<Rightarrow> bytes py" where
  "packs fs = pbind (py_seq (map (\<lambda>(n, v). pack_be n v) fs)) (\<lambda>parts. Inr (concat parts))"

fun unpacks :: "nat list \<Rightarrow> bytes \<Rightarrow> int list" where
  "unpacks [] data = []"
| "unpacks (n # ns) data = unpack_be (take n data) # unpacks ns (drop n data)"

definition fits :: "(nat \<times> int) list \<Rightarrow> bool" where
  "fits fs \<longleftrightarrow> list_all (\<lambda>(n, v). 0 \<le> v \<and> v < 256 ^ n) fs"

lemma fits_simps [simp]:
  "fits []" "fits ((n, v) # fs) \<longleftrightarrow> 0 \<le> v \<and> v < 256 ^ n \<and> fits fs"
  by (simp_all add: fits_def)

lemma packs_Nil [simp]: "packs [] = Inr []"
  by (simp add: packs_def)

lemma packs_Cons:
  "packs ((n, v) # fs) = pbind (pack_be n v) (\<lambda>a. pbind (packs fs) (\<lambda>b. Inr (a @ b)))"
  by (cases "pack_be n v"; cases "py_seq (map (\<lambda>(n, v). pack_be n v) fs)")
    (auto simp: packs_def)

lemma packs_eq_Inr:
  "packs fs = Inr bs \<longleftrightarrow> fits fs \<and> bs = concat (map (\<lambda>(n, v). be_bytes n (nat v)) fs)"
  by (induction fs arbitrary: bs) (auto simp: packs_Cons pbind_eq_Inr pack_be_eq_Inr)

lemma packs_fits: "fits fs \<Longrightarrow> packs fs = Inr (concat (map (\<lambda>(n, v). be_bytes n (nat v)) fs))"
  by (simp add: packs_eq_Inr)

lemma length_packs: "packs fs = Inr bs \<Longrightarrow> length bs = sum_list (map fst fs)"
  by (induction fs arbitrary: bs) (auto simp: packs_Cons pbind_eq_Inr pack_be_eq_Inr)

lemma fields_packs:
  "packs fs = Inr bs \<Longrightarrow> unpacks (map fst fs) (bs @ rest) = map snd fs"
  by (induction fs arbitrary: bs)
    (auto simp: packs_Cons pbind_eq_Inr pack_be_eq_Inr unpack_be_be_bytes)

lemma packs_fields:
  "sum_list ns = length data \<Longrightarrow> packs (zip ns (unpacks ns data)) = Inr data"
proof (induction ns arbitrary: data)
  case Nil
  then show ?case by simp
next
  case (Cons n ns)
  then have "packs (zip ns (unpacks ns (drop n data))) = Inr (drop n data)"
    by (intro Cons.IH) simp
  moreover have "length (take n data) = n" using Cons.prems by simp
  ultimately show ?case by (simp add: packs_Cons pack_be_unpack_be)
qed

text \<open>The two views of a fixed layout agree: this characterisation carries all the codecs.\<close>

lemma packs_iff:
  "packs fs = Inr bs \<longleftrightarrow> length bs = sum_list (map fst fs) \<and> unpacks (map fst fs) bs = map snd fs"
proof
  assume "packs fs = Inr bs"
  then show "length bs = sum_list (map fst fs) \<and> unpacks (map fst fs) bs = map snd fs"
    using length_packs fields_packs [of fs bs "[]"] by simp
next
  assume "length bs = sum_list (map fst fs) \<and> unpacks (map fst fs) bs = map snd fs"
  then show "packs fs = Inr bs"
    using packs_fields [of "map fst fs" bs] by (simp add: zip_map_fst_snd)
qed

lemma fits_fields: "sum_list ns = length data \<Longrightarrow> fits (zip ns (unpacks ns data))"
  using packs_fields packs_eq_Inr by blast

section \<open>Encoder/decoder pairs\<close>

text \<open>
  A \<open>codec\<close> encodes every valid value and decodes what it encoded. A \<open>strict_codec\<close> moreover
  decodes nothing else: it accepts exactly the encodings of valid values.
\<close>

locale codec =
  fixes enc :: "'a \<Rightarrow> bytes py" and dec :: "bytes \<Rightarrow> 'a py" and valid :: "'a \<Rightarrow> bool"
  assumes enc_total: "valid x \<Longrightarrow> \<exists>bs. enc x = Inr bs"
    and dec_enc: "valid x \<Longrightarrow> enc x = Inr bs \<Longrightarrow> dec bs = Inr x"
begin

lemma roundtrip: "valid x \<Longrightarrow> pbind (enc x) dec = Inr x"
  using enc_total dec_enc by fastforce

lemma enc_inject: "valid x \<Longrightarrow> valid y \<Longrightarrow> enc x = enc y \<Longrightarrow> x = y"
  using enc_total dec_enc by (metis sum.inject(2))

end

locale strict_codec = codec +
  assumes dec_valid: "dec bs = Inr x \<Longrightarrow> valid x"
    and enc_dec: "dec bs = Inr x \<Longrightarrow> enc x = Inr bs"
begin

lemma dec_iff: "dec bs = Inr x \<longleftrightarrow> valid x \<and> enc x = Inr bs"
  using dec_valid enc_dec dec_enc by blast

lemma dec_inject: "dec as = Inr x \<Longrightarrow> dec bs = Inr x \<Longrightarrow> as = bs"
  using enc_dec [of as x] enc_dec [of bs x] by simp

end

section \<open>Splitting a byte stream into frames\<close>

text \<open>
  A stream decoder repeatedly takes one frame off its buffer until none is complete.
  \<open>next_frame\<close> returns the first frame and the rest of the buffer, or \<open>None\<close>.
\<close>

function split_frames :: "(bytes \<Rightarrow> ('f \<times> bytes) option) \<Rightarrow> bytes \<Rightarrow> 'f list \<times> bytes" where
  "split_frames nx bs =
     (case nx bs of
        None \<Rightarrow> ([], bs)
      | Some (f, rest) \<Rightarrow>
          if length rest < length bs
          then (let (fs, r) = split_frames nx rest in (f # fs, r))
          else ([], bs))"
  by pat_completeness auto
termination
  by (relation "measure (\<lambda>(nx, bs). length bs)") auto

declare split_frames.simps [simp del]

text \<open>
  The laws of such a splitter: a frame takes at least one byte, and more data at the end of
  the buffer does not change a frame that is already complete.
\<close>

locale framing =
  fixes next_frame :: "bytes \<Rightarrow> ('f \<times> bytes) option"
  assumes next_shorter: "next_frame bs = Some (f, rest) \<Longrightarrow> length rest < length bs"
    and next_extend: "next_frame bs = Some (f, rest) \<Longrightarrow> next_frame (bs @ more) = Some (f, rest @ more)"
begin

lemma split_None: "next_frame bs = None \<Longrightarrow> split_frames next_frame bs = ([], bs)"
  by (simp add: split_frames.simps [of next_frame bs])

lemma split_Some:
  "next_frame bs = Some (f, rest) \<Longrightarrow>
     split_frames next_frame bs = (f # fst (split_frames next_frame rest), snd (split_frames next_frame rest))"
  using next_shorter [of bs f rest]
  by (simp add: split_frames.simps [of next_frame bs] case_prod_unfold Let_def)

lemma split_rest_incomplete: "next_frame (snd (split_frames next_frame bs)) = None"
proof (induction bs rule: length_induct)
  case (1 bs)
  show ?case
  proof (cases "next_frame bs")
    case None
    then show ?thesis by (simp add: split_None)
  next
    case (Some p)
    obtain f rest where p: "p = (f, rest)" by (cases p)
    with Some have "length rest < length bs" by (simp add: next_shorter)
    with 1 Some p show ?thesis by (simp add: split_Some)
  qed
qed

text \<open>Chunk independence: splitting in two steps gives the frames of the whole stream.\<close>

lemma split_append:
  "split_frames next_frame (bs @ more) =
     (fst (split_frames next_frame bs)
        @ fst (split_frames next_frame (snd (split_frames next_frame bs) @ more)),
      snd (split_frames next_frame (snd (split_frames next_frame bs) @ more)))"
proof (induction bs rule: length_induct)
  case (1 bs)
  show ?case
  proof (cases "next_frame bs")
    case None
    then show ?thesis by (simp add: split_None)
  next
    case (Some p)
    obtain f rest where p: "p = (f, rest)" by (cases p)
    with Some have "length rest < length bs" by (simp add: next_shorter)
    with 1 Some p next_extend [of bs f rest more] show ?thesis by (simp add: split_Some)
  qed
qed

end

section \<open>Objects changed by operations\<close>

text \<open>
  A component that is only changed by its operations, each of which keeps an invariant: clients that
  run operations keep it too.
\<close>

definition runs_to :: "('op \<Rightarrow> 's \<Rightarrow> 's) \<Rightarrow> 's \<Rightarrow> 's \<Rightarrow> bool" where
  "runs_to step s t \<longleftrightarrow> (\<exists>ops. t = fold step ops s)"

locale operations =
  fixes step :: "'op \<Rightarrow> 's \<Rightarrow> 's" and inv :: "'s \<Rightarrow> bool"
  assumes step_inv: "inv s \<Longrightarrow> inv (step op s)"
begin

lemma runs_inv: "runs_to step s t \<Longrightarrow> inv s \<Longrightarrow> inv t"
proof -
  have "inv s \<Longrightarrow> inv (fold step ops s)" for ops s
    by (induction ops arbitrary: s) (simp_all add: step_inv)
  then show "runs_to step s t \<Longrightarrow> inv s \<Longrightarrow> inv t" by (auto simp: runs_to_def)
qed

lemma runs_refl [simp, intro]: "runs_to step s s"
  unfolding runs_to_def by (rule exI [of _ "[]"]) simp

lemma runs_step: "runs_to step s (step op s)"
  unfolding runs_to_def by (rule exI [of _ "[op]"]) simp

lemma runs_trans:
  assumes "runs_to step s t" and "runs_to step t u"
  shows "runs_to step s u"
proof -
  obtain xs ys where "t = fold step xs s" "u = fold step ys t" using assms by (auto simp: runs_to_def)
  then have "u = fold step (xs @ ys) s" by simp
  then show ?thesis unfolding runs_to_def by blast
qed

lemma runs_fold: "(\<And>x s. runs_to step s (f x s)) \<Longrightarrow> runs_to step s (fold f xs s)"
  by (induction xs arbitrary: s) (auto intro: runs_trans)

end

section \<open>Paths\<close>

text \<open>\<open>os.path.join\<close> of two parts (POSIX): an absolute second part replaces the first.\<close>

definition path_join :: "pystr \<Rightarrow> pystr \<Rightarrow> pystr" where
  "path_join a b =
     (if take 1 b = lit ''/'' then b
      else if a = [] \<or> last a = 47 then a @ b
      else a @ lit ''/'' @ b)"

section \<open>Coroutines and locks\<close>

text \<open>A coroutine is done, or waits for a lock in a state it leaves behind.\<close>

datatype ('a, 's) outcome = Done 'a | Waits 's

definition obind :: "('a, 's) outcome \<Rightarrow> ('a \<Rightarrow> ('b, 's) outcome) \<Rightarrow> ('b, 's) outcome" where
  "obind r f = (case r of Done x \<Rightarrow> f x | Waits m \<Rightarrow> Waits m)"

lemma obind_simps [simp]: "obind (Done x) f = f x" "obind (Waits m) f = Waits m"
  by (simp_all add: obind_def)

lemma obind_eq_Done: "obind r f = Done y \<longleftrightarrow> (\<exists>x. r = Done x \<and> f x = Done y)"
  by (cases r) auto

text \<open>\<open>async with self.lock\<close>: an \<open>asyncio.Lock\<close> that is held makes every coroutine wait, its holder too.\<close>

definition guarded :: "('s \<Rightarrow> bool) \<Rightarrow> (bool \<Rightarrow> 's \<Rightarrow> 's) \<Rightarrow> ('s \<Rightarrow> ('a \<times> 's, 's) outcome) \<Rightarrow> 's \<Rightarrow> ('a \<times> 's, 's) outcome" where
  "guarded held set_lock body s =
     (if held s then Waits s
      else obind (body (set_lock True s)) (\<lambda>(x, s). Done (x, set_lock False s)))"

locale lock =
  fixes held :: "'s \<Rightarrow> bool" and set_lock :: "bool \<Rightarrow> 's \<Rightarrow> 's"
  assumes held_set: "held (set_lock b s) = b"
begin

lemma guarded_held: "held s \<Longrightarrow> guarded held set_lock body s = Waits s"
  by (simp add: guarded_def)

lemma guarded_free: "\<not> held s \<Longrightarrow>
    guarded held set_lock body s = obind (body (set_lock True s)) (\<lambda>(x, s). Done (x, set_lock False s))"
  by (simp add: guarded_def)

lemma guarded_Done:
  assumes "guarded held set_lock body s = Done (x, t)"
  shows "\<not> held s \<and> \<not> held t \<and> (\<exists>u. body (set_lock True s) = Done (x, u) \<and> t = set_lock False u)"
  using assms by (auto simp: guarded_def obind_eq_Done held_set split: if_splits)

text \<open>A body that asks for the lock again, after steps that keep it, waits for ever.\<close>

lemma guarded_nested:
  assumes "\<not> held s" and "body (set_lock True s) = obind (guarded held set_lock inner t) k" and "held t"
  shows "guarded held set_lock body s = Waits t"
  using assms by (simp add: guarded_def)

end

end
