(* ===== verification/Bencode.thy ===== *)
theory Bencode
  imports Ccbt_Prelude "HOL-Library.List_Lexorder" "HOL-Library.Multiset"
begin

text \<open>
  \<open>ccbt/core/bencode.py\<close>: the bencoding of torrent files, DHT messages, tracker replies and
  extension handshakes. The encoder works on Python objects (\<open>pyobj\<close>), the decoder is the
  recursive-descent parser of \<open>BencodeDecoder\<close> with its position \<open>pos\<close>, which is an \<open>int\<close>
  because a negative string length moves it backwards. Standard-library behaviour that the
  decoder relies on (\<open>bytes.decode("utf-8")\<close>, \<open>str.encode\<close>, \<open>int(str)\<close>) is modelled here too;
  only the value \<open>int()\<close> gives to a text with non-ASCII characters is a parameter \<open>uni\<close>.
\<close>

section \<open>Python objects\<close>

datatype pyobj =
    PInt int
  | PBool bool
  | PBytes bytes
  | PStr "nat list"          \<comment> \<open>a \<open>str\<close>, as its code points\<close>
  | PList "pyobj list"
  | PDict "(pyobj \<times> pyobj) list"   \<comment> \<open>a \<open>dict\<close>, in insertion order\<close>
  | POther                   \<comment> \<open>any other type\<close>

section \<open>UTF-8\<close>

fun utf8_char :: "nat \<Rightarrow> bytes py" where
  "utf8_char c =
     (if c < 0x80 then Inr [of_nat c]
      else if c < 0x800 then Inr [of_nat (0xC0 + c div 64), of_nat (0x80 + c mod 64)]
      else if 0xD800 \<le> c \<and> c < 0xE000 then Inl UnicodeError
      else if c < 0x10000 then
        Inr [of_nat (0xE0 + c div 4096), of_nat (0x80 + c div 64 mod 64), of_nat (0x80 + c mod 64)]
      else Inr [of_nat (0xF0 + c div 262144), of_nat (0x80 + c div 4096 mod 64),
                of_nat (0x80 + c div 64 mod 64), of_nat (0x80 + c mod 64)])"

definition utf8_encode :: "nat list \<Rightarrow> bytes py" where
  "utf8_encode cs = pbind (py_seq (map utf8_char cs)) (\<lambda>bss. Inr (concat bss))"

definition cont :: "nat \<Rightarrow> nat \<Rightarrow> byte \<Rightarrow> bool" where
  "cont lo hi b \<longleftrightarrow> lo \<le> unat b \<and> unat b \<le> hi"

definition pcons :: "'a \<Rightarrow> 'a list py \<Rightarrow> 'a list py" where
  "pcons x m = pbind m (\<lambda>xs. Inr (x # xs))"

fun utf8_decode :: "bytes \<Rightarrow> nat list py" where
  "utf8_decode [] = Inr []"
| "utf8_decode (b # bs) =
     (let x = unat b in
      if x < 0x80 then pcons x (utf8_decode bs)
      else if x < 0xC2 \<or> 0xF4 < x then Inl UnicodeError
      else if x < 0xE0 then
        (case bs of
           c1 # r \<Rightarrow> if cont 0x80 0xBF c1
                     then pcons ((x - 0xC0) * 64 + (unat c1 - 0x80)) (utf8_decode r)
                     else Inl UnicodeError
         | _ \<Rightarrow> Inl UnicodeError)
      else if x < 0xF0 then
        (case bs of
           c1 # c2 # r \<Rightarrow>
             if cont (if x = 0xE0 then 0xA0 else 0x80) (if x = 0xED then 0x9F else 0xBF) c1
                \<and> cont 0x80 0xBF c2
             then pcons ((x - 0xE0) * 4096 + (unat c1 - 0x80) * 64 + (unat c2 - 0x80))
                        (utf8_decode r)
             else Inl UnicodeError
         | _ \<Rightarrow> Inl UnicodeError)
      else
        (case bs of
           c1 # c2 # c3 # r \<Rightarrow>
             if cont (if x = 0xF0 then 0x90 else 0x80) (if x = 0xF4 then 0x8F else 0xBF) c1
                \<and> cont 0x80 0xBF c2 \<and> cont 0x80 0xBF c3
             then pcons ((x - 0xF0) * 262144 + (unat c1 - 0x80) * 4096
                          + (unat c2 - 0x80) * 64 + (unat c3 - 0x80)) (utf8_decode r)
             else Inl UnicodeError
         | _ \<Rightarrow> Inl UnicodeError))"

lemma utf8_decode_ascii:
  "(\<And>b. b \<in> set bs \<Longrightarrow> unat b < 128) \<Longrightarrow> utf8_decode bs = Inr (map unat bs)"
proof (induction bs)
  case Nil
  then show ?case by simp
next
  case (Cons b bs)
  then have "unat b < 128" and "utf8_decode bs = Inr (map unat bs)" by simp_all
  then show ?case by (simp add: pcons_def)
qed

section \<open>Decimal numerals\<close>

text \<open>The characters of \<open>f"{n}"\<close> for a natural number, and for an integer.\<close>

fun dec_nat :: "nat \<Rightarrow> nat list" where
  "dec_nat n = (if n < 10 then [48 + n] else dec_nat (n div 10) @ [48 + n mod 10])"

declare dec_nat.simps [simp del]

definition dec_int :: "int \<Rightarrow> nat list" where
  "dec_int i = (if i < 0 then 45 # dec_nat (nat (- i)) else dec_nat (nat i))"

definition is_digit :: "nat \<Rightarrow> bool" where
  "is_digit c \<longleftrightarrow> 48 \<le> c \<and> c \<le> 57"

text \<open>
  \<open>int(s)\<close> for an ASCII text: surrounding blanks, one optional sign, then digits that may be
  separated by single underscores. \<open>None\<close> is \<open>ValueError\<close>.
\<close>

definition ascii_space :: "nat \<Rightarrow> bool" where
  "ascii_space c \<longleftrightarrow> (9 \<le> c \<and> c \<le> 13) \<or> c = 32"

fun digits_acc :: "nat \<Rightarrow> nat list \<Rightarrow> nat option" where
  "digits_acc a [] = Some a"
| "digits_acc a (c # cs) =
     (if is_digit c then digits_acc (a * 10 + (c - 48)) cs
      else if c = 95 then
        (case cs of [] \<Rightarrow> None | d # _ \<Rightarrow> if is_digit d then digits_acc a cs else None)
      else None)"

definition digits :: "nat list \<Rightarrow> nat option" where
  "digits cs = (case cs of [] \<Rightarrow> None | c # _ \<Rightarrow> if is_digit c then digits_acc 0 cs else None)"

definition strip_blanks :: "nat list \<Rightarrow> nat list" where
  "strip_blanks cs = rev (dropWhile ascii_space (rev (dropWhile ascii_space cs)))"

definition ascii_int :: "nat list \<Rightarrow> int option" where
  "ascii_int s =
     (case strip_blanks s of
        [] \<Rightarrow> None
      | c # cs \<Rightarrow>
          if c = 45 then map_option (\<lambda>n. - int n) (digits cs)
          else if c = 43 then map_option int (digits cs)
          else map_option int (digits (c # cs)))"

definition py_int :: "(nat list \<Rightarrow> int option) \<Rightarrow> nat list \<Rightarrow> int py" where
  "py_int uni s =
     (case (if list_all (\<lambda>c. c < 128) s then ascii_int s else uni s) of
        None \<Rightarrow> Inl ValueError | Some i \<Rightarrow> Inr i)"

section \<open>The encoder\<close>

definition encode_string :: "bytes \<Rightarrow> bytes" where
  "encode_string data = map of_nat (dec_nat (length data)) @ ascii '':'' @ data"

definition encode_integer :: "int \<Rightarrow> bytes" where
  "encode_integer num = ascii ''i'' @ map of_nat (dec_int num) @ ascii ''e''"

text \<open>\<open>f"i{num}e"\<close> for a \<open>bool\<close>, which \<open>isinstance(obj, int)\<close> accepts.\<close>

definition encode_bool :: "bool \<Rightarrow> bytes" where
  "encode_bool b = ascii ''i'' @ ascii (if b then ''True'' else ''False'') @ ascii ''e''"

definition encode_list :: "bytes py list \<Rightarrow> bytes py" where
  "encode_list items =
     pbind (py_seq items) (\<lambda>parts. Inr (ascii ''l'' @ concat parts @ ascii ''e''))"

definition sort_key_of :: "pyobj \<Rightarrow> bytes py" where
  "sort_key_of k =
     (case k of PBytes b \<Rightarrow> Inr b | PStr s \<Rightarrow> utf8_encode s | _ \<Rightarrow> Inl AttributeError)"

definition valid_key :: "pyobj \<Rightarrow> bool" where
  "valid_key k = (case k of PBytes _ \<Rightarrow> True | PStr _ \<Rightarrow> True | _ \<Rightarrow> False)"

text \<open>
  An item is the key with the encodings of key and value; the sort keys are computed first
  (an \<open>AttributeError\<close> becomes \<open>BencodeEncodeError\<close>), then the items are emitted in order.
\<close>

definition encode_dict :: "(pyobj \<times> bytes py \<times> bytes py) list \<Rightarrow> bytes py" where
  "encode_dict items =
     (case py_seq (map (\<lambda>(k, _). sort_key_of k) items) of
        Inl e \<Rightarrow> Inl (if e = AttributeError then BencodeEncodeError else e)
      | Inr keys \<Rightarrow>
          pbind (py_seq (map (\<lambda>(_, k, ek, ev).
                   if \<not> valid_key k then Inl BencodeEncodeError
                   else pbind ek (\<lambda>a. pbind ev (\<lambda>b. Inr (a @ b))))
                 (sort_key fst (zip keys items))))
            (\<lambda>parts. Inr (ascii ''d'' @ concat parts @ ascii ''e'')))"

fun encode :: "pyobj \<Rightarrow> bytes py" where
  "encode (PBytes b) = Inr (encode_string b)"
| "encode (PStr s) = pbind (utf8_encode s) (\<lambda>b. Inr (encode_string b))"
| "encode (PInt n) = Inr (encode_integer n)"
| "encode (PBool b) = Inr (encode_bool b)"
| "encode (PList xs) = encode_list (map encode xs)"
| "encode (PDict d) = encode_dict (map (\<lambda>(k, v). (k, encode k, encode v)) d)"
| "encode POther = Inl BencodeEncodeError"

section \<open>The decoder\<close>

text \<open>\<open>while self.pos < len(self.data) and chr(self.data[self.pos]) != c: self.pos += 1\<close>\<close>

function scan_to :: "byte \<Rightarrow> bytes \<Rightarrow> int \<Rightarrow> int py" where
  "scan_to c data pos =
     (if pos < int (length data) then
        pbind (py_index data pos) (\<lambda>b. if b = c then Inr pos else scan_to c data (pos + 1))
      else Inr pos)"
  by pat_completeness auto
termination
  by (relation "measure (\<lambda>(c, data, pos). nat (int (length data) - pos))") auto

declare scan_to.simps [simp del]

definition decode_integer ::
  "(nat list \<Rightarrow> int option) \<Rightarrow> bytes \<Rightarrow> int \<Rightarrow> (pyobj \<times> int) py" where
  "decode_integer uni data pos =
     (let start = pos + 1 in
      pbind (scan_to (of_char CHR ''e'') data start) (\<lambda>p.
      if int (length data) \<le> p then Inl BencodeDecodeError
      else pbind (utf8_decode (py_slice data start p)) (\<lambda>number_str.
        case number_str of
          [] \<Rightarrow> pbind (py_int uni number_str) (\<lambda>i. Inr (PInt i, p + 1))
        | c # cs \<Rightarrow>
            if c = 45 then
              (if cs = [] then Inl BencodeDecodeError
               else pbind (py_int uni cs) (\<lambda>i. Inr (PInt (- i), p + 1)))
            else if c = 48 \<and> cs \<noteq> [] then Inl BencodeDecodeError
            else pbind (py_int uni number_str) (\<lambda>i. Inr (PInt i, p + 1)))))"

definition decode_string ::
  "(nat list \<Rightarrow> int option) \<Rightarrow> bytes \<Rightarrow> int \<Rightarrow> (bytes \<times> int) py" where
  "decode_string uni data pos =
     pbind (scan_to (of_char CHR '':'') data pos) (\<lambda>p.
     if int (length data) \<le> p then Inl BencodeDecodeError
     else pbind (utf8_decode (py_slice data pos p)) (\<lambda>length_str.
       case py_int uni length_str of
         Inl _ \<Rightarrow> Inl BencodeDecodeError
       | Inr len \<Rightarrow>
           if int (length data) < p + 1 + len then Inl BencodeDecodeError
           else Inr (py_slice data (p + 1) (p + 1 + len), p + 1 + len)))"

text \<open>\<open>chr(b).isdigit()\<close>: the ASCII digits and the superscripts 2, 3 and 1.\<close>

definition byte_isdigit :: "byte \<Rightarrow> bool" where
  "byte_isdigit b \<longleftrightarrow> is_digit (unat b) \<or> unat b \<in> {178, 179, 185}"

definition dict_put :: "pyobj \<Rightarrow> pyobj \<Rightarrow> (pyobj \<times> pyobj) list \<Rightarrow> (pyobj \<times> pyobj) list" where
  "dict_put k v d = AList.update k v d"

text \<open>
  \<open>decode\<close>, \<open>_decode_list\<close> and \<open>_decode_dict\<close>. Every call and every turn of a loop spends one
  unit of fuel; \<open>None\<close> means that the fuel ran out before the code returned or raised.
\<close>

fun bdecode :: "(nat list \<Rightarrow> int option) \<Rightarrow> nat \<Rightarrow> bytes \<Rightarrow> int \<Rightarrow> (pyobj \<times> int) py option"
and bdecode_list :: "(nat list \<Rightarrow> int option) \<Rightarrow> nat \<Rightarrow> bytes \<Rightarrow> int \<Rightarrow> pyobj list
      \<Rightarrow> (pyobj \<times> int) py option"
and bdecode_dict :: "(nat list \<Rightarrow> int option) \<Rightarrow> nat \<Rightarrow> bytes \<Rightarrow> int \<Rightarrow> (pyobj \<times> pyobj) list
      \<Rightarrow> (pyobj \<times> int) py option" where
  "bdecode uni 0 data pos = None"
| "bdecode uni (Suc n) data pos =
     (if int (length data) \<le> pos then Some (Inl BencodeDecodeError)
      else case py_index data pos of
        Inl e \<Rightarrow> Some (Inl e)
      | Inr char \<Rightarrow>
          if char = of_char CHR ''i'' then Some (decode_integer uni data pos)
          else if char = of_char CHR ''l'' then bdecode_list uni n data (pos + 1) []
          else if char = of_char CHR ''d'' then bdecode_dict uni n data (pos + 1) []
          else if byte_isdigit char then
            Some (pbind (decode_string uni data pos) (\<lambda>(s, p). Inr (PBytes s, p)))
          else Some (Inl BencodeDecodeError))"
| "bdecode_list uni 0 data pos acc = None"
| "bdecode_list uni (Suc n) data pos acc =
     (if int (length data) \<le> pos then Some (Inl BencodeDecodeError)
      else case py_index data pos of
        Inl e \<Rightarrow> Some (Inl e)
      | Inr char \<Rightarrow>
          if char = of_char CHR ''e'' then Some (Inr (PList acc, pos + 1))
          else case bdecode uni n data pos of
            None \<Rightarrow> None
          | Some (Inl e) \<Rightarrow> Some (Inl e)
          | Some (Inr (v, p)) \<Rightarrow> bdecode_list uni n data p (acc @ [v]))"
| "bdecode_dict uni 0 data pos acc = None"
| "bdecode_dict uni (Suc n) data pos acc =
     (if int (length data) \<le> pos then Some (Inl BencodeDecodeError)
      else case py_index data pos of
        Inl e \<Rightarrow> Some (Inl e)
      | Inr char \<Rightarrow>
          if char = of_char CHR ''e'' then Some (Inr (PDict acc, pos + 1))
          else case decode_string uni data pos of
            Inl e \<Rightarrow> Some (Inl e)
          | Inr (key, p) \<Rightarrow>
              (case bdecode uni n data p of
                 None \<Rightarrow> None
               | Some (Inl e) \<Rightarrow> Some (Inl e)
               | Some (Inr (v, q)) \<Rightarrow>
                   bdecode_dict uni n data q (dict_put (PBytes key) v acc)))"

text \<open>The module's \<open>decode\<close>: bytes after the first value are ignored.\<close>

definition decode :: "(nat list \<Rightarrow> int option) \<Rightarrow> nat \<Rightarrow> bytes \<Rightarrow> pyobj py option" where
  "decode uni fuel data =
     map_option (\<lambda>r. pbind r (\<lambda>(v, _). Inr v)) (bdecode uni fuel data 0)"


section \<open>Facts about decimal numerals\<close>

lemma dec_nat_digit: "c \<in> set (dec_nat n) \<Longrightarrow> is_digit c"
proof (induction n rule: dec_nat.induct)
  case (1 n)
  then show ?case
    by (cases "n < 10") (auto simp: dec_nat.simps [of n] is_digit_def)
qed

lemma dec_nat_nonempty [simp]: "dec_nat n \<noteq> []"
  by (subst dec_nat.simps) simp

lemma digit_neq: "is_digit c \<Longrightarrow> c \<noteq> 45 \<and> c \<noteq> 43 \<and> c < 128 \<and> \<not> ascii_space c"
  by (auto simp: is_digit_def ascii_space_def)

lemma digits_acc_digits:
  "list_all is_digit cs \<Longrightarrow> digits_acc a cs = Some (foldl (\<lambda>a c. a * 10 + (c - 48)) a cs)"
  by (induction cs arbitrary: a) auto

lemma foldl_dec_nat:
  "foldl (\<lambda>a c. a * 10 + (c - 48)) a (dec_nat n) = a * 10 ^ length (dec_nat n) + n"
proof (induction n arbitrary: a rule: dec_nat.induct)
  case (1 n)
  show ?case
  proof (cases "n < 10")
    case True
    then show ?thesis by (simp add: dec_nat.simps [of n])
  next
    case False
    have "foldl (\<lambda>a c. a * 10 + (c - 48)) a (dec_nat (n div 10))
            = a * 10 ^ length (dec_nat (n div 10)) + n div 10"
      using False by (rule "1.IH")
    with False show ?thesis
      by (simp add: dec_nat.simps [of n] algebra_simps)
  qed
qed

lemma dec_nat_no_leading_zero: "0 < n \<Longrightarrow> hd (dec_nat n) \<noteq> 48"
proof (induction n rule: dec_nat.induct)
  case (1 n)
  then show ?case
    by (cases "n < 10") (auto simp: dec_nat.simps [of n])
qed

lemma dec_nat_0: "dec_nat 0 = [48]"
  by (simp add: dec_nat.simps)

lemma list_all_dec_nat: "list_all is_digit (dec_nat n)"
  by (auto simp: list_all_iff dest: dec_nat_digit)

lemma digits_dec_nat: "digits (dec_nat n) = Some n"
proof -
  have "digits_acc 0 (dec_nat n) = Some n"
    by (simp add: digits_acc_digits list_all_dec_nat foldl_dec_nat)
  moreover have "is_digit (hd (dec_nat n))"
    by (rule dec_nat_digit [of _ n]) simp
  ultimately show ?thesis
    by (cases "dec_nat n") (auto simp: digits_def)
qed

lemma strip_blanks_id:
  "(\<And>c. c \<in> set cs \<Longrightarrow> \<not> ascii_space c) \<Longrightarrow> strip_blanks cs = cs"
proof -
  assume *: "\<And>c. c \<in> set cs \<Longrightarrow> \<not> ascii_space c"
  have "dropWhile ascii_space xs = xs" if "set xs \<subseteq> set cs" for xs
    using that * by (cases xs) auto
  then show ?thesis by (simp add: strip_blanks_def)
qed

lemma py_int_dec_nat: "py_int uni (dec_nat n) = Inr (int n)"
proof -
  have all: "list_all (\<lambda>c. c < 128) (dec_nat n)"
    by (auto simp: list_all_iff dest: dec_nat_digit digit_neq)
  have strip: "strip_blanks (dec_nat n) = dec_nat n"
    by (rule strip_blanks_id) (auto dest: dec_nat_digit digit_neq)
  obtain c cs where cs: "dec_nat n = c # cs" by (cases "dec_nat n") auto
  then have "is_digit c" by (metis dec_nat_digit list.set_intros(1))
  then have "ascii_int (dec_nat n) = map_option int (digits (dec_nat n))"
    using strip cs digit_neq by (auto simp: ascii_int_def)
  then show ?thesis by (simp add: py_int_def all digits_dec_nat)
qed

section \<open>Scanning\<close>

lemma scan_to_found:
  assumes "c \<notin> set mid"
  shows "scan_to c (pre @ mid @ c # post) (int (length pre)) = Inr (int (length pre) + int (length mid))"
  using assms
proof (induction mid arbitrary: pre)
  case Nil
  show ?case by (subst scan_to.simps) simp
next
  case (Cons b mid)
  then have "scan_to c ((pre @ [b]) @ mid @ c # post) (int (length (pre @ [b])))
      = Inr (int (length (pre @ [b])) + int (length mid))" by (intro Cons.IH) simp
  with Cons.prems show ?case by (subst scan_to.simps) (auto simp: algebra_simps)
qed

lemma scan_to_bounds:
  "scan_to c data pos = Inr p \<Longrightarrow> pos \<le> p \<and> (p < int (length data) \<longrightarrow> py_index data p = Inr c)"
proof (induction c data pos rule: scan_to.induct)
  case (1 c data pos)
  show ?case
  proof (cases "pos < int (length data)")
    case True
    with 1 show ?thesis
      by (cases "py_index data pos") (fastforce simp: scan_to.simps [of c data pos] split: if_splits)+
  next
    case False
    with 1 show ?thesis by (simp add: scan_to.simps [of c data pos])
  qed
qed

section \<open>Strings and integers round trip\<close>

lemma unat_of_nat_dec: "map (\<lambda>x. unat (of_nat x :: byte)) (dec_nat n) = dec_nat n"
proof -
  have "unat (of_nat x :: byte) = x" if "x \<in> set (dec_nat n)" for x
    using dec_nat_digit [OF that] by (simp add: unat_of_nat_byte is_digit_def)
  then show ?thesis by (simp add: map_idI)
qed

lemma utf8_decode_dec_nat: "utf8_decode (map of_nat (dec_nat n)) = Inr (dec_nat n)"
proof -
  have "unat b < 128" if "b \<in> set (map of_nat (dec_nat n) :: bytes)" for b
    using that by (auto simp: is_digit_def unat_of_nat_byte dest!: dec_nat_digit)
  then have "utf8_decode (map of_nat (dec_nat n)) = Inr (map unat (map of_nat (dec_nat n) :: bytes))"
    by (rule utf8_decode_ascii)
  then show ?thesis by (simp add: o_def unat_of_nat_dec)
qed


lemma of_nat_byte_inject: "c < 256 \<Longrightarrow> d < 256 \<Longrightarrow> (of_nat c :: byte) = of_nat d \<longleftrightarrow> c = d"
  by (metis unat_of_nat_byte)

lemma not_in_dec_nat:
  assumes "d < 256" and "\<not> is_digit d"
  shows "(of_nat d :: byte) \<notin> of_nat ` set (dec_nat n)"
proof
  assume "(of_nat d :: byte) \<in> of_nat ` set (dec_nat n)"
  then obtain c where c: "c \<in> set (dec_nat n)" and eq: "(of_nat d :: byte) = of_nat c" by auto
  have "is_digit c" using c by (rule dec_nat_digit)
  then have "c < 256" by (simp add: is_digit_def)
  with eq assms(1) have "d = c" by (simp add: of_nat_byte_inject)
  with \<open>is_digit c\<close> assms(2) show False by simp
qed

lemma colon_not_in_dec: "58 \<notin> (of_nat ` set (dec_nat n) :: byte set)"
  using not_in_dec_nat [of 58 n] by (simp add: is_digit_def)

lemma e_not_in_dec: "101 \<notin> (of_nat ` set (dec_nat n) :: byte set)"
  using not_in_dec_nat [of 101 n] by (simp add: is_digit_def)

lemma decode_string_encode_string:
  "decode_string uni (pre @ encode_string s @ post) (int (length pre))
     = Inr (s, int (length pre) + int (length (encode_string s)))"
proof -
  let ?ds = "map of_nat (dec_nat (length s)) :: bytes"
  have data: "pre @ encode_string s @ post = pre @ ?ds @ 58 # (s @ post)"
    by (simp add: encode_string_def ascii_def)
  have scan: "scan_to 58 (pre @ ?ds @ 58 # (s @ post)) (int (length pre))
      = Inr (int (length pre) + int (length ?ds))"
    by (rule scan_to_found) (simp add: colon_not_in_dec)
  have sl: "py_slice (pre @ ?ds @ 58 # s @ post) (int (length pre)) (int (length pre) + int (length ?ds)) = ?ds"
    by (rule py_slice_middle)
  have sl2: "py_slice (pre @ ?ds @ 58 # s @ post) (int (length pre) + int (length ?ds) + 1)
      (int (length pre) + int (length ?ds) + 1 + int (length s)) = s"
    using py_slice_middle [of "pre @ ?ds @ [58]" s post] by (simp add: algebra_simps)
  show ?thesis
    unfolding data decode_string_def
    using scan sl sl2
    by (simp add: utf8_decode_dec_nat py_int_dec_nat encode_string_def)
qed

lemma decode_integer_encode_integer:
  "decode_integer uni (pre @ encode_integer i @ post) (int (length pre))
     = Inr (PInt i, int (length pre) + int (length (encode_integer i)))"
proof -
  let ?ds = "map of_nat (dec_int i) :: bytes"
  let ?data = "(pre @ [105]) @ ?ds @ 101 # post"
  have data: "pre @ encode_integer i @ post = ?data"
    by (simp add: encode_integer_def ascii_def)
  have "101 \<notin> set ?ds"
    using e_not_in_dec by (auto simp: dec_int_def)
  then have scan: "scan_to 101 ?data (int (length (pre @ [105]))) = Inr (int (length (pre @ [105])) + int (length ?ds))"
    by (rule scan_to_found)
  have sl: "py_slice ?data (int (length (pre @ [105]))) (int (length (pre @ [105])) + int (length ?ds)) = ?ds"
    by (rule py_slice_middle)
  have utf: "utf8_decode ?ds = Inr (dec_int i)"
    by (simp add: dec_int_def utf8_decode_dec_nat pcons_def)
  obtain c cs where n: "dec_nat (nat \<bar>i\<bar>) = c # cs" by (cases "dec_nat (nat \<bar>i\<bar>)") auto
  then have c: "is_digit c" by (metis dec_nat_digit list.set_intros(1))
  have zero: "c = 48 \<Longrightarrow> cs = []"
    using dec_nat_no_leading_zero [of "nat \<bar>i\<bar>"] dec_nat_0 n by (cases "nat \<bar>i\<bar> = 0") auto
  have int: "py_int uni (c # cs) = Inr \<bar>i\<bar>"
    using py_int_dec_nat [of uni "nat \<bar>i\<bar>"] n by simp
  show ?thesis
  proof (cases "i < 0")
    case True
    then have "dec_int i = 45 # c # cs" using n by (simp add: dec_int_def)
    with True show ?thesis
      unfolding data decode_integer_def using scan sl utf int
      by (simp add: Let_def encode_integer_def add.commute)
  next
    case False
    then have "dec_int i = c # cs" using n by (simp add: dec_int_def)
    with False show ?thesis
      unfolding data decode_integer_def using scan sl utf int zero digit_neq [OF c]
      by (auto simp add: Let_def encode_integer_def add.commute)
  qed
qed


section \<open>Round trip\<close>

definition parses :: "(nat list \<Rightarrow> int option) \<Rightarrow> bytes \<Rightarrow> pyobj \<Rightarrow> bool" where
  "parses uni bs v \<longleftrightarrow> bs \<noteq> [] \<and> hd bs \<noteq> 101 \<and>
     (\<forall>pre post n. length bs \<le> n \<longrightarrow>
        bdecode uni n (pre @ bs @ post) (int (length pre))
          = Some (Inr (v, int (length pre) + int (length bs))))"

lemma parsesD:
  "parses uni bs v \<Longrightarrow> length bs \<le> n \<Longrightarrow>
     bdecode uni n (pre @ bs @ post) (int (length pre))
       = Some (Inr (v, int (length pre) + int (length bs)))"
  by (simp add: parses_def)

lemma parses_length: "parses uni bs v \<Longrightarrow> 0 < length bs"
  by (auto simp: parses_def)

lemma parses_string: "parses uni (encode_string s) (PBytes s)"
proof -
  obtain c cs where n: "dec_nat (length s) = c # cs" by (cases "dec_nat (length s)") auto
  then have c: "is_digit c" by (metis dec_nat_digit list.set_intros(1))
  then have u: "unat (of_nat c :: byte) = c" by (simp add: is_digit_def unat_of_nat_byte)
  have enc: "encode_string s = of_nat c # (map of_nat cs @ 58 # s)"
    by (simp add: encode_string_def n ascii_def)
  have ne: "(of_nat c :: byte) \<noteq> 105 \<and> (of_nat c :: byte) \<noteq> 108 \<and> (of_nat c :: byte) \<noteq> 100
      \<and> (of_nat c :: byte) \<noteq> 101"
  proof -
    have "(of_nat c :: byte) \<noteq> of_nat d" if "57 < d" "d < 256" for d
      using c that by (simp add: of_nat_byte_inject is_digit_def)
    from this [of 105] this [of 108] this [of 100] this [of 101] show ?thesis by simp
  qed
  have dig: "byte_isdigit (of_nat c)" using c by (simp add: byte_isdigit_def u)
  have "bdecode uni n (pre @ encode_string s @ post) (int (length pre))
      = Some (Inr (PBytes s, int (length pre) + int (length (encode_string s))))"
    if n: "length (encode_string s) \<le> n" for pre post n
  proof -
    obtain m where m: "n = Suc m" using n by (cases n) (auto simp: enc)
    have ix: "py_index (pre @ encode_string s @ post) (int (length pre)) = Inr (of_nat c)"
      by (simp add: enc)
    have "int (length pre) < int (length (pre @ encode_string s @ post))" by (simp add: enc)
    then show ?thesis
      unfolding m by (simp add: ix ne dig decode_string_encode_string)
  qed
  then show ?thesis using ne by (simp add: parses_def enc)
qed

lemma parses_integer: "parses uni (encode_integer i) (PInt i)"
proof -
  have enc: "encode_integer i = 105 # (map of_nat (dec_int i) @ [101])"
    by (simp add: encode_integer_def ascii_def)
  have "bdecode uni n (pre @ encode_integer i @ post) (int (length pre))
      = Some (Inr (PInt i, int (length pre) + int (length (encode_integer i))))"
    if n: "length (encode_integer i) \<le> n" for pre post n
  proof -
    obtain m where m: "n = Suc m" using n by (cases n) (auto simp: enc)
    have ix: "py_index (pre @ encode_integer i @ post) (int (length pre)) = Inr 105"
      by (simp add: enc)
    have "int (length pre) < int (length (pre @ encode_integer i @ post))" by (simp add: enc)
    then show ?thesis
      unfolding m by (simp add: ix decode_integer_encode_integer)
  qed
  then show ?thesis by (simp add: parses_def enc)
qed

lemma bdecode_list_parts:
  "list_all2 (parses uni) parts vs \<Longrightarrow> length (concat parts) < n \<Longrightarrow>
   bdecode_list uni n (pre @ concat parts @ 101 # post) (int (length pre)) acc
     = Some (Inr (PList (acc @ vs), int (length pre) + int (length (concat parts)) + 1))"
proof (induction parts vs arbitrary: n pre acc rule: list_all2_induct)
  case Nil
  then obtain m where "n = Suc m" by (cases n) auto
  then show ?case by simp
next
  case (Cons bs parts v vs)
  from Cons.prems obtain m where m: "n = Suc m" by (cases n) auto
  obtain b r where b: "bs = b # r" "b \<noteq> 101" using Cons.hyps(1) by (cases bs) (auto simp: parses_def)
  have ix: "py_index (pre @ concat (bs # parts) @ 101 # post) (int (length pre)) = Inr b"
    by (simp add: b)
  have "length bs \<le> m" using Cons.prems m by simp
  then have v: "bdecode uni m (pre @ bs @ (concat parts @ 101 # post)) (int (length pre))
      = Some (Inr (v, int (length pre) + int (length bs)))"
    by (rule parsesD [OF Cons.hyps(1)])
  have "length (concat parts) < m" using Cons.prems m b by simp
  then have rest: "bdecode_list uni m ((pre @ bs) @ concat parts @ 101 # post) (int (length (pre @ bs))) (acc @ [v])
      = Some (Inr (PList ((acc @ [v]) @ vs), int (length (pre @ bs)) + int (length (concat parts)) + 1))"
    by (rule Cons.IH)
  show ?case
    unfolding m using ix v rest b(2) by (simp add: add.assoc)
qed

lemma dict_put_new: "k \<notin> fst ` set d \<Longrightarrow> dict_put k v d = d @ [(k, v)]"
  unfolding dict_put_def by (induction d) auto

lemma bdecode_dict_parts:
  "list_all (\<lambda>(k, bs, v). parses uni bs v) items \<Longrightarrow>
   distinct (map fst items) \<Longrightarrow> (\<forall>k \<in> set (map fst items). PBytes k \<notin> fst ` set acc) \<Longrightarrow>
   length (concat (map (\<lambda>(k, bs, v). encode_string k @ bs) items)) < n \<Longrightarrow>
   bdecode_dict uni n (pre @ concat (map (\<lambda>(k, bs, v). encode_string k @ bs) items) @ 101 # post)
       (int (length pre)) acc
     = Some (Inr (PDict (acc @ map (\<lambda>(k, bs, v). (PBytes k, v)) items),
         int (length pre) + int (length (concat (map (\<lambda>(k, bs, v). encode_string k @ bs) items))) + 1))"
proof (induction items arbitrary: n pre acc)
  case Nil
  then obtain m where "n = Suc m" by (cases n) auto
  then show ?case by simp
next
  case (Cons it items)
  obtain k bs v where it: "it = (k, bs, v)" by (cases it) auto
  let ?cat = "\<lambda>items. concat (map (\<lambda>(k, bs, v). encode_string k @ bs) items)"
  from Cons.prems(4) obtain m where m: "n = Suc m" by (cases n) auto
  have pv: "parses uni bs v" using Cons.prems(1) it by simp
  have ks: "parses uni (encode_string k) (PBytes k)" by (rule parses_string)
  obtain b r where b: "encode_string k = b # r" "b \<noteq> 101"
    using ks by (cases "encode_string k") (auto simp: parses_def)
  let ?data = "pre @ ?cat (it # items) @ 101 # post"
  have ix: "py_index ?data (int (length pre)) = Inr b" by (simp add: it b)
  have key: "decode_string uni ?data (int (length pre))
      = Inr (k, int (length pre) + int (length (encode_string k)))"
    using decode_string_encode_string [of uni pre k "bs @ ?cat items @ 101 # post"] by (simp add: it)
  have "length bs \<le> m" using Cons.prems(4) m it by simp
  from parsesD [OF pv this, of "pre @ encode_string k" "?cat items @ 101 # post"]
  have val: "bdecode uni m ?data (int (length pre) + int (length (encode_string k)))
      = Some (Inr (v, int (length pre) + int (length (encode_string k)) + int (length bs)))"
    by (simp add: it)
  have put: "dict_put (PBytes k) v acc = acc @ [(PBytes k, v)]"
    using Cons.prems(3) it by (intro dict_put_new) auto
  have "length (?cat items) < m" using Cons.prems(4) m it b by simp
  then have rest: "bdecode_dict uni m ((pre @ encode_string k @ bs) @ ?cat items @ 101 # post)
      (int (length (pre @ encode_string k @ bs))) (acc @ [(PBytes k, v)])
      = Some (Inr (PDict ((acc @ [(PBytes k, v)]) @ map (\<lambda>(k, bs, v). (PBytes k, v)) items),
         int (length (pre @ encode_string k @ bs)) + int (length (?cat items)) + 1))"
    using Cons.prems it by (intro Cons.IH) auto
  have lt: "int (length pre) < int (length ?data)" by (simp add: it b)
  show ?case
    unfolding m bdecode_dict.simps using lt ix key val put rest b(2)
    by (simp add: it add.assoc)
qed

lemma parses_list:
  assumes "list_all2 (parses uni) parts vs"
  shows "parses uni (108 # concat parts @ [101]) (PList vs)"
proof -
  have "bdecode uni n (pre @ (108 # concat parts @ [101]) @ post) (int (length pre))
      = Some (Inr (PList vs, int (length pre) + int (length (108 # concat parts @ [101 :: byte]))))"
    if n: "length (108 # concat parts @ [101 :: byte]) \<le> n" for pre post n
  proof -
    obtain m where m: "n = Suc m" using n by (cases n) auto
    have "length (concat parts) < m" using n m by simp
    from bdecode_list_parts [OF assms this, of "pre @ [108]" post "[]"]
    have "bdecode_list uni m (pre @ (108 # concat parts @ [101]) @ post) (int (length pre) + 1) []
        = Some (Inr (PList vs, int (length pre) + int (length (108 # concat parts @ [101 :: byte]))))"
      by (simp add: algebra_simps)
    then show ?thesis unfolding m by simp
  qed
  then show ?thesis by (simp add: parses_def)
qed

lemma parses_dict:
  assumes "list_all (\<lambda>(k, bs, v). parses uni bs v) items" and "distinct (map fst items)"
  shows "parses uni (100 # concat (map (\<lambda>(k, bs, v). encode_string k @ bs) items) @ [101])
           (PDict (map (\<lambda>(k, bs, v). (PBytes k, v)) items))"
proof -
  let ?cat = "concat (map (\<lambda>(k, bs, v). encode_string k @ bs) items)"
  have "bdecode uni n (pre @ (100 # ?cat @ [101]) @ post) (int (length pre))
      = Some (Inr (PDict (map (\<lambda>(k, bs, v). (PBytes k, v)) items),
           int (length pre) + int (length (100 # ?cat @ [101 :: byte]))))"
    if n: "length (100 # ?cat @ [101 :: byte]) \<le> n" for pre post n
  proof -
    obtain m where m: "n = Suc m" using n by (cases n) auto
    have "length ?cat < m" using n m by simp
    from bdecode_dict_parts [OF assms _ this, of "[]" "pre @ [100]" post]
    have "bdecode_dict uni m (pre @ (100 # ?cat @ [101]) @ post) (int (length pre) + 1) []
        = Some (Inr (PDict (map (\<lambda>(k, bs, v). (PBytes k, v)) items),
           int (length pre) + int (length (100 # ?cat @ [101 :: byte]))))"
      by (simp add: algebra_simps)
    then show ?thesis unfolding m by simp
  qed
  then show ?thesis by (simp add: parses_def)
qed

section \<open>What the encoder accepts, and what comes back\<close>

definition key_bytes :: "pyobj \<Rightarrow> bytes" where
  "key_bytes k = (case sort_key_of k of Inl _ \<Rightarrow> [] | Inr b \<Rightarrow> b)"

fun bencodable :: "pyobj \<Rightarrow> bool" where
  "bencodable (PStr s) \<longleftrightarrow> (case utf8_encode s of Inl _ \<Rightarrow> False | Inr _ \<Rightarrow> True)"
| "bencodable (PBool b) \<longleftrightarrow> False"
| "bencodable (PList xs) \<longleftrightarrow> list_all bencodable xs"
| "bencodable (PDict d) \<longleftrightarrow>
     list_all (\<lambda>(k, v). valid_key k \<and> bencodable k \<and> bencodable v) d
     \<and> distinct (map (\<lambda>(k, v). key_bytes k) d)"
| "bencodable POther \<longleftrightarrow> False"
| "bencodable v \<longleftrightarrow> True"

fun wire :: "pyobj \<Rightarrow> pyobj" where
  "wire (PStr s) = PBytes (key_bytes (PStr s))"
| "wire (PList xs) = PList (map wire xs)"
| "wire (PDict d) =
     PDict (map (\<lambda>(k, v). (PBytes k, v)) (sort_key fst (map (\<lambda>(k, v). (key_bytes k, wire v)) d)))"
| "wire v = v"

lemma sort_key_map: 
  "sort_key f (map g xs) = map g (sort_key (\<lambda>x. f (g x)) xs)"
proof (induction xs)
  case Nil
  then show ?case by simp
next
  case (Cons x xs)
  have "insort_key f (g x) (map g ys) = map g (insort_key (\<lambda>x. f (g x)) x ys)" for ys
    by (induction ys) auto
  with Cons show ?case by simp
qed

lemma encode_key:
  "valid_key k \<Longrightarrow> bencodable k \<Longrightarrow>
     sort_key_of k = Inr (key_bytes k) \<and> encode k = Inr (encode_string (key_bytes k))"
  by (cases k) (auto simp: key_bytes_def sort_key_of_def valid_key_def split: sum.splits)

lemma encode_dict_ok:
  assumes keys: "\<And>k v. (k, v) \<in> set d \<Longrightarrow> valid_key k \<and> bencodable k"
    and vals: "\<And>k v. (k, v) \<in> set d \<Longrightarrow> encode v = Inr (ev v)"
  shows "encode (PDict d) = Inr (100 # concat (map (\<lambda>(k, v). encode_string (key_bytes k) @ ev v)
           (sort_key (\<lambda>p. key_bytes (fst p)) d)) @ [101])"
proof -
  let ?items = "map (\<lambda>(k, v). (k, encode k, encode v)) d"
  have ks: "py_seq (map (\<lambda>(k, _). sort_key_of k) ?items) = Inr (map (\<lambda>(k, _). key_bytes k) ?items)"
    by (rule py_seq_map_eq_Inr) (auto dest!: keys encode_key)
  have zip: "zip (map (\<lambda>(k, _). key_bytes k) ?items) ?items
      = map (\<lambda>(k, v). (key_bytes k, k, encode k, encode v)) d"
    by (induction d) auto
  have sorted: "sort_key fst (map (\<lambda>(k, v). (key_bytes k, k, encode k, encode v)) d)
      = map (\<lambda>(k, v). (key_bytes k, k, encode k, encode v)) (sort_key (\<lambda>p. key_bytes (fst p)) d)"
    by (simp add: sort_key_map case_prod_beta)
  have parts: "py_seq (map ((\<lambda>(_, k, ek, ev). if \<not> valid_key k then Inl BencodeEncodeError
        else pbind ek (\<lambda>a. pbind ev (\<lambda>b. Inr (a @ b))))
          \<circ> (\<lambda>(k, v). (key_bytes k, k, encode k, encode v))) (sort_key (\<lambda>p. key_bytes (fst p)) d))
      = Inr (map (\<lambda>(k, v). encode_string (key_bytes k) @ ev v) (sort_key (\<lambda>p. key_bytes (fst p)) d))"
    by (rule py_seq_map_eq_Inr) (auto simp: vals, (use keys encode_key in force)+)
  show ?thesis
    unfolding encode.simps encode_dict_def ks sum.case zip sorted
    unfolding map_map parts pbind_Inr
    by (simp add: ascii_def)
qed

lemma encode_parses:
  "bencodable v \<Longrightarrow> \<exists>bs. encode v = Inr bs \<and> parses uni bs (wire v)"
proof (induction v)
  case (PInt i)
  then show ?case by (simp add: parses_integer)
next
  case (PBool b)
  then show ?case by simp
next
  case (PBytes b)
  then show ?case by (simp add: parses_string)
next
  case (PStr s)
  then show ?case
    by (auto simp: key_bytes_def sort_key_of_def parses_string split: sum.splits)
next
  case (PList xs)
  then have "\<forall>x \<in> set xs. \<exists>bs. encode x = Inr bs \<and> parses uni bs (wire x)"
    by (simp add: list_all_iff)
  then obtain f where f: "\<And>x. x \<in> set xs \<Longrightarrow> encode x = Inr (f x) \<and> parses uni (f x) (wire x)"
    by metis
  have "py_seq (map encode xs) = Inr (map f xs)"
    by (rule py_seq_map_eq_Inr) (simp add: f)
  moreover have "list_all2 (parses uni) (map f xs) (map wire xs)"
    by (simp add: list_all2_conv_all_nth f)
  ultimately show ?case
    using parses_list by (auto simp: encode_list_def ascii_def)
next
  case (PDict d)
  have keys: "\<And>k v. (k, v) \<in> set d \<Longrightarrow> valid_key k \<and> bencodable k"
    and dist: "distinct (map (\<lambda>(k, v). key_bytes k) d)"
    using PDict.prems by (auto simp: list_all_iff)
  have "\<forall>v \<in> snd ` set d. \<exists>bs. encode v = Inr bs \<and> parses uni bs (wire v)"
    using PDict by (fastforce simp: list_all_iff)
  then obtain f where f: "\<And>k v. (k, v) \<in> set d \<Longrightarrow> encode v = Inr (f v) \<and> parses uni (f v) (wire v)"
    by (metis (no_types, lifting) imageI snd_conv)
  let ?s = "sort_key (\<lambda>p. key_bytes (fst p)) d"
  let ?items = "map (\<lambda>(k, v). (key_bytes k, f v, wire v)) ?s"
  have "encode (PDict d) = Inr (100 # concat (map (\<lambda>(k, v). encode_string (key_bytes k) @ f v) ?s) @ [101])"
    by (rule encode_dict_ok) (use keys f in auto)
  then have enc: "encode (PDict d) = Inr (100 # concat (map (\<lambda>(k, bs, v). encode_string k @ bs) ?items) @ [101])"
    by (simp add: o_def case_prod_unfold)
  have "distinct (map fst ?items)"
  proof -
    have "distinct (map (\<lambda>(k, v). key_bytes k) ?s)"
      using dist by (simp add: distinct_map)
    then show ?thesis by (simp add: o_def case_prod_unfold)
  qed
  moreover have "list_all (\<lambda>(k, bs, v). parses uni bs v) ?items"
    using f by (auto simp: list_all_iff)
  ultimately have "parses uni (100 # concat (map (\<lambda>(k, bs, v). encode_string k @ bs) ?items) @ [101])
           (PDict (map (\<lambda>(k, bs, v). (PBytes k, v)) ?items))" by (intro parses_dict)
  moreover have "PDict (map (\<lambda>(k, bs, v). (PBytes k, v)) ?items) = wire (PDict d)"
    by (simp add: sort_key_map case_prod_beta)
  ultimately show ?case using enc by auto
next
  case POther
  then show ?case by simp
qed


section \<open>UTF-8 and the minus sign\<close>


lemma utf8_decode_Cons:
  assumes "utf8_decode (b # bs) = Inr cs"
  obtains c r rest where "cs = c # r" and "utf8_decode rest = Inr r" and "set rest \<subseteq> set bs"
    and "length rest \<le> length bs" and "c = unat b \<or> 128 \<le> c"
proof -
  consider "unat b < 128" | "\<not> unat b < 128" "unat b < 224" | "224 \<le> unat b" "unat b < 240" | "240 \<le> unat b"
    by linarith
  then have "\<exists>c r rest. cs = c # r \<and> utf8_decode rest = Inr r \<and> set rest \<subseteq> set bs
      \<and> length rest \<le> length bs \<and> (c = unat b \<or> 128 \<le> c)"
  proof cases
    case 1
    with assms show ?thesis by (auto simp: pcons_def pbind_eq_Inr)
  next
    case 2
    with assms obtain c1 r q where "bs = c1 # r" "128 \<le> unat c1" "utf8_decode r = Inr q" "194 \<le> unat b"
        "cs = ((unat b - 192) * 64 + (unat c1 - 128)) # q"
      by (auto simp: pcons_def pbind_eq_Inr cont_def Let_def split: if_splits list.splits)
    moreover from this(4) have "128 \<le> (unat b - 192) * 64 + (unat c1 - 128)" by arith
    ultimately show ?thesis by (metis length_Cons le_SucI order_refl set_subset_Cons)
  next
    case 3
    with assms obtain c1 c2 r q where *: "bs = c1 # c2 # r" "utf8_decode r = Inr q"
        "(if unat b = 224 then 160 else 128) \<le> unat c1"
        "cs = ((unat b - 224) * 4096 + (unat c1 - 128) * 64 + (unat c2 - 128)) # q"
      by (auto simp: pcons_def pbind_eq_Inr cont_def Let_def split: if_splits list.splits)
    have "128 \<le> (unat b - 224) * 4096 + (unat c1 - 128) * 64 + (unat c2 - 128)"
      using *(3) 3 by (auto split: if_splits)
    with * show ?thesis by auto
  next
    case 4
    with assms obtain c1 c2 c3 r q where *: "bs = c1 # c2 # c3 # r" "utf8_decode r = Inr q"
        "(if unat b = 240 then 144 else 128) \<le> unat c1"
        "cs = ((unat b - 240) * 262144 + (unat c1 - 128) * 4096 + (unat c2 - 128) * 64 + (unat c3 - 128)) # q"
      by (auto simp: pcons_def pbind_eq_Inr cont_def Let_def split: if_splits list.splits)
    have "128 \<le> (unat b - 240) * 262144 + (unat c1 - 128) * 4096 + (unat c2 - 128) * 64 + (unat c3 - 128)"
      using *(3) 4 by (auto split: if_splits)
    with * show ?thesis by auto
  qed
  then show thesis using that by blast
qed

lemma utf8_decode_mem:
  "utf8_decode bs = Inr cs \<Longrightarrow> c \<in> set cs \<Longrightarrow> c < 128 \<Longrightarrow> c \<in> unat ` set bs"
proof (induction bs arbitrary: cs rule: length_induct)
  case (1 bs)
  show ?case
  proof (cases bs)
    case Nil
    with 1 show ?thesis by simp
  next
    case (Cons b bs')
    from 1(2) Cons have "utf8_decode (b # bs') = Inr cs" by simp
    then obtain d r rest where d: "cs = d # r" "utf8_decode rest = Inr r" "set rest \<subseteq> set bs'"
        "length rest \<le> length bs'" "d = unat b \<or> 128 \<le> d"
      by (rule utf8_decode_Cons)
    show ?thesis
    proof (cases "c \<in> set r")
      case True
      with 1 d Cons have "c \<in> unat ` set rest" by auto
      with d(3) Cons show ?thesis by auto
    next
      case False
      with 1(3,4) d Cons show ?thesis by auto
    qed
  qed
qed

section \<open>An input on which the decoder never returns\<close>

text \<open>A list whose second item is a dictionary with the key length \<open>-8\<close>: it steps back into the first item.\<close>

definition poison :: bytes where "poison = ascii ''l4:i1eed-8:''"

lemma poison_eq: "poison = [108, 52, 58, 105, 49, 101, 101, 100, 45, 56, 58]"
  by (simp add: poison_def ascii_def)

lemma poison_string: "decode_string uni poison 8 = Inr ([], 3)"
  unfolding poison_eq
  by (simp add: decode_string_def scan_to.simps py_index_def py_slice_def py_clip_def pcons_def
     py_int_def ascii_int_def strip_blanks_def ascii_space_def digits_def is_digit_def)

lemma poison_int: "decode_integer uni poison 3 = Inr (PInt 1, 6)"
  unfolding poison_eq
  by (simp add: decode_integer_def scan_to.simps py_index_def py_slice_def py_clip_def pcons_def
     py_int_def ascii_int_def strip_blanks_def ascii_space_def digits_def is_digit_def)

lemma poison_bytes:
  "py_index poison 7 = Inr 100" "py_index poison 8 = Inr 45" "py_index poison 3 = Inr 105"
  "py_index poison 6 = Inr 101" "py_index poison 0 = Inr 108" "py_index poison 1 = Inr 52" "length poison = 11"
  by (simp_all add: poison_eq py_index_def)

lemma poison_list_step: "bdecode_list uni n poison 7 acc = None"
proof (induction n arbitrary: acc rule: less_induct)
  case (less n)
  have dict: "bdecode uni m poison 7 \<in> {None, Some (Inr (PDict [(PBytes [], PInt 1)], 7))}" for m
  proof -
    consider "m = 0" | "m = Suc 0" | "m = Suc (Suc 0)" | k where "m = Suc (Suc (Suc k))"
      by (metis not0_implies_Suc)
    then show ?thesis
      by cases (simp_all add: poison_bytes poison_string poison_int dict_put_def)
  qed
  show ?case
  proof (cases n)
    case 0 then show ?thesis by simp
  next
    case (Suc m)
    then show ?thesis using dict [of m] less
      by (auto simp: poison_bytes)
  qed
qed

lemma poison_diverges: "bdecode uni n poison 0 = None"
proof (cases n)
  case (Suc m)
  have str: "decode_string uni poison 1 = Inr ([105, 49, 101, 101], 7)"
    unfolding poison_eq
    by (simp add: decode_string_def scan_to.simps py_index_def py_slice_def py_clip_def pcons_def
       py_int_def ascii_int_def strip_blanks_def ascii_space_def digits_def is_digit_def)
  have "bdecode_list uni m poison 1 [] = None"
  proof (cases m)
    case (Suc k)
    have "bdecode uni k poison 1 \<in> {None, Some (Inr (PBytes [105, 49, 101, 101], 7))}"
      by (cases k) (simp_all add: poison_bytes byte_isdigit_def is_digit_def str)
    with Suc show ?thesis by (auto simp: poison_bytes poison_list_step)
  qed simp
  with Suc show ?thesis by (simp add: poison_bytes)
qed simp

section \<open>Termination when no length is negative\<close>

text \<open>\<open>int()\<close> of a text with no minus sign is not negative.\<close>

definition unsigned_uni :: "(nat list \<Rightarrow> int option) \<Rightarrow> bool" where
  "unsigned_uni uni \<longleftrightarrow> (\<forall>s i. uni s = Some i \<longrightarrow> 45 \<notin> set s \<longrightarrow> 0 \<le> i)"

lemma ascii_int_nonneg: "ascii_int s = Some i \<Longrightarrow> 45 \<notin> set s \<Longrightarrow> 0 \<le> i"
proof -
  assume a: "ascii_int s = Some i" and n: "45 \<notin> set s"
  have "set (strip_blanks s) \<subseteq> set s"
    unfolding strip_blanks_def by (auto dest!: set_dropWhileD)
  with a n show ?thesis
    by (auto simp: ascii_int_def split: list.splits if_splits)
qed

lemma decode_string_advances:
  assumes "45 \<notin> set data" and "unsigned_uni uni" and "decode_string uni data pos = Inr (s, q)"
  shows "pos < q"
proof -
  from assms(3) obtain p str where p: "scan_to 58 data pos = Inr p"
    and str: "utf8_decode (py_slice data pos p) = Inr str"
    and r: "(case py_int uni str of Inl _ \<Rightarrow> Inl BencodeDecodeError
       | Inr len \<Rightarrow> if int (length data) < p + 1 + len then Inl BencodeDecodeError
           else Inr (py_slice data (p + 1) (p + 1 + len), p + 1 + len)) = Inr (s, q)"
    by (auto simp: decode_string_def pbind_eq_Inr split: if_splits)
  from r obtain len where len: "py_int uni str = Inr len" and q: "q = p + 1 + len"
    by (cases "py_int uni str") (auto split: if_splits)
  have "set (py_slice data pos p) \<subseteq> set data"
    by (auto simp: py_slice_def Let_def dest!: in_set_takeD in_set_dropD)
  moreover have "b = 45" if "unat b = 45" for b :: byte
    using that by (simp add: word_unat_eq_iff)
  ultimately have "45 \<notin> unat ` set (py_slice data pos p)"
    using assms(1) by fastforce
  with utf8_decode_mem [OF str, of 45] have "45 \<notin> set str" by auto
  with len assms(2) have "0 \<le> len"
    by (auto simp: py_int_def unsigned_uni_def dest: ascii_int_nonneg split: option.splits if_splits)
  with scan_to_bounds [OF p] q show ?thesis by simp
qed


lemma decode_integer_advances:
  assumes "decode_integer uni data pos = Inr (v, q)"
  shows "pos < q \<and> (\<exists>i. v = PInt i)"
proof -
  from assms obtain p str where p: "scan_to 101 data (pos + 1) = Inr p"
    and str: "utf8_decode (py_slice data (pos + 1) p) = Inr str"
    by (auto simp: decode_integer_def pbind_eq_Inr Let_def split: if_splits)
  have "q = p + 1 \<and> (\<exists>i. v = PInt i)"
    using assms unfolding decode_integer_def Let_def
    by (cases str) (auto simp: p str pbind_eq_Inr split: if_splits)
  with scan_to_bounds [OF p] show ?thesis by simp
qed


lemma bdecode_SucD:
  "bdecode uni (Suc n) data pos = Some (Inr r) \<Longrightarrow>
     decode_integer uni data pos = Inr r
     \<or> bdecode_list uni n data (pos + 1) [] = Some (Inr r)
     \<or> bdecode_dict uni n data (pos + 1) [] = Some (Inr r)
     \<or> (\<exists>s p. decode_string uni data pos = Inr (s, p) \<and> r = (PBytes s, p))"
  by (auto simp: pbind_eq_Inr split: if_splits sum.splits)

lemma bdecode_list_SucD:
  "bdecode_list uni (Suc n) data pos acc = Some (Inr r) \<Longrightarrow>
     r = (PList acc, pos + 1)
     \<or> (\<exists>v p. bdecode uni n data pos = Some (Inr (v, p))
            \<and> bdecode_list uni n data p (acc @ [v]) = Some (Inr r))"
  by (auto split: if_splits sum.splits option.splits prod.splits)

lemma bdecode_dict_SucD:
  "bdecode_dict uni (Suc n) data pos acc = Some (Inr r) \<Longrightarrow>
     r = (PDict acc, pos + 1)
     \<or> (\<exists>k p v q. decode_string uni data pos = Inr (k, p) \<and> bdecode uni n data p = Some (Inr (v, q))
            \<and> bdecode_dict uni n data q (dict_put (PBytes k) v acc) = Some (Inr r))"
  by (auto split: if_splits sum.splits option.splits prod.splits)

lemma bdecode_advances:
  assumes "45 \<notin> set data" and "unsigned_uni uni"
  shows "(bdecode uni n data pos = Some (Inr (v, q)) \<longrightarrow> pos < q)
    \<and> (bdecode_list uni n data pos xs = Some (Inr (v, q)) \<longrightarrow> pos < q)
    \<and> (bdecode_dict uni n data pos d = Some (Inr (v, q)) \<longrightarrow> pos < q)"
proof (induction n arbitrary: pos v q xs d)
  case 0
  then show ?case by simp
next
  case (Suc n)
  note str = decode_string_advances [OF assms]
  note IH1 = Suc [THEN conjunct1, rule_format]
    and IH2 = Suc [THEN conjunct2, THEN conjunct1, rule_format]
    and IH3 = Suc [THEN conjunct2, THEN conjunct2, rule_format]
  have "pos < q" if "bdecode uni (Suc n) data pos = Some (Inr (v, q))"
    using bdecode_SucD [OF that] str decode_integer_advances
    by (elim disjE) (auto dest: IH2 IH3)
  moreover have "pos < q" if "bdecode_list uni (Suc n) data pos xs = Some (Inr (v, q))"
    using bdecode_list_SucD [OF that] by (elim disjE) (auto dest!: IH1 IH2)
  moreover have "pos < q" if "bdecode_dict uni (Suc n) data pos d = Some (Inr (v, q))"
    using bdecode_dict_SucD [OF that] by (elim disjE) (auto dest!: IH1 IH3 str)
  ultimately show ?case by blast
qed

lemma bdecode_total_aux:
  assumes "45 \<notin> set data" and "unsigned_uni uni"
  shows "(2 * nat (int (length data) - pos) < n \<longrightarrow> bdecode uni n data pos \<noteq> None)
    \<and> (2 * nat (int (length data) - pos) + 1 < n \<longrightarrow> bdecode_list uni n data pos xs \<noteq> None)
    \<and> (2 * nat (int (length data) - pos) + 1 < n \<longrightarrow> bdecode_dict uni n data pos d \<noteq> None)"
proof (induction n arbitrary: pos xs d)
  case 0
  then show ?case by simp
next
  case (Suc n)
  note IH = Suc [THEN conjunct1, rule_format] Suc [THEN conjunct2, THEN conjunct1, rule_format]
    Suc [THEN conjunct2, THEN conjunct2, rule_format]
  note adv = bdecode_advances [OF assms, THEN conjunct1, rule_format]
  have "bdecode uni (Suc n) data pos \<noteq> None" if "2 * nat (int (length data) - pos) < Suc n"
    using that IH(2) [of "pos + 1" "[]"] IH(3) [of "pos + 1" "[]"]
    by (auto split: sum.splits)
  moreover have "bdecode_list uni (Suc n) data pos xs \<noteq> None"
    if m: "2 * nat (int (length data) - pos) + 1 < Suc n"
  proof -
    have "bdecode_list uni n data p ys \<noteq> None" if "bdecode uni n data pos = Some (Inr (v, p))"
      "pos < int (length data)" for v p ys
      using adv [OF that(1)] that(2) m by (intro IH(2)) linarith
    with IH(1) [of pos] m show ?thesis by (auto split: sum.splits option.splits)
  qed
  moreover have "bdecode_dict uni (Suc n) data pos d \<noteq> None"
    if m: "2 * nat (int (length data) - pos) + 1 < Suc n"
  proof -
    have a: "bdecode uni n data p \<noteq> None" if "decode_string uni data pos = Inr (k, p)" for k p
      using decode_string_advances [OF assms that] m by (intro IH(1)) linarith
    have b: "bdecode_dict uni n data q e \<noteq> None" if "decode_string uni data pos = Inr (k, p)"
      "bdecode uni n data p = Some (Inr (v, q))" "pos < int (length data)" for k p v q e
      using decode_string_advances [OF assms that(1)] adv [OF that(2)] that(3) m by (intro IH(3)) linarith
    show ?thesis using a b by (auto split: sum.splits option.splits)
  qed
  ultimately show ?case by blast
qed

section \<open>What the decoder can return\<close>

fun wire_form :: "pyobj \<Rightarrow> bool" where
  "wire_form (PInt _) \<longleftrightarrow> True"
| "wire_form (PBytes _) \<longleftrightarrow> True"
| "wire_form (PList xs) \<longleftrightarrow> list_all wire_form xs"
| "wire_form (PDict d) \<longleftrightarrow> list_all (\<lambda>(k, v). (\<exists>b. k = PBytes b) \<and> wire_form v) d \<and> distinct (map fst d)"
| "wire_form _ \<longleftrightarrow> False"

lemma wire_form_dict_put:
  "wire_form (PDict d) \<Longrightarrow> wire_form v \<Longrightarrow> wire_form (PDict (dict_put (PBytes k) v d))"
  unfolding dict_put_def
  by (induction d) (auto simp: list_all_iff dom_update image_iff)

lemma bdecode_wire_form:
  shows "(bdecode uni n data pos = Some (Inr (v, q)) \<longrightarrow> wire_form v)
    \<and> (list_all wire_form xs \<longrightarrow> bdecode_list uni n data pos xs = Some (Inr (v, q)) \<longrightarrow> wire_form v)
    \<and> (wire_form (PDict d) \<longrightarrow> bdecode_dict uni n data pos d = Some (Inr (v, q)) \<longrightarrow> wire_form v)"
proof (induction n arbitrary: pos v q xs d)
  case 0
  then show ?case by simp
next
  case (Suc n)
  note IH1 = Suc [THEN conjunct1, rule_format]
    and IH2 = Suc [THEN conjunct2, THEN conjunct1, rule_format]
    and IH3 = Suc [THEN conjunct2, THEN conjunct2, rule_format]
  have "wire_form v" if "bdecode uni (Suc n) data pos = Some (Inr (v, q))"
    using bdecode_SucD [OF that] IH2 [of "[]" "pos + 1" v q] IH3 [of "[]" "pos + 1" v q]
    by (elim disjE) (auto dest: decode_integer_advances)
  moreover have "wire_form v" if "list_all wire_form xs" "bdecode_list uni (Suc n) data pos xs = Some (Inr (v, q))"
    using bdecode_list_SucD [OF that(2)] that(1) by (elim disjE) (auto dest!: IH1 intro: IH2 [rotated])
  moreover have "wire_form v" if "wire_form (PDict d)" "bdecode_dict uni (Suc n) data pos d = Some (Inr (v, q))"
    using bdecode_dict_SucD [OF that(2)] that(1)
    by (elim disjE exE conjE) (auto simp del: wire_form.simps dest!: IH1 intro: IH3 [OF wire_form_dict_put])
  ultimately show ?case by blast
qed

lemma wire_form_bencodable: "wire_form v \<Longrightarrow> bencodable v"
proof (induction v)
  case (PDict d)
  have "inj_on key_bytes (fst ` set d)"
  proof (rule inj_onI)
    fix j k
    assume jk: "j \<in> fst ` set d" "k \<in> fst ` set d" "key_bytes j = key_bytes k"
    then obtain a b where "j = PBytes a" "k = PBytes b"
      using PDict.prems by (fastforce simp: list_all_iff)
    with jk(3) show "j = k" by (simp add: key_bytes_def sort_key_of_def)
  qed
  with PDict show ?case
    by (fastforce simp: list_all_iff valid_key_def distinct_map case_prod_unfold inj_on_def)
qed (auto simp: list_all_iff)

lemma encode_dict_order:
  assumes "bencodable (PDict d)" and "mset d' = mset d"
  shows "encode (PDict d') = encode (PDict d)"
proof -
  have dist: "distinct (map (\<lambda>p. key_bytes (fst p)) d)"
    and ok: "\<And>k v. (k, v) \<in> set d \<Longrightarrow> valid_key k \<and> bencodable k \<and> bencodable v"
    using assms(1) by (auto simp: list_all_iff case_prod_unfold)
  have sets: "set d' = set d" using assms(2) by (metis set_mset_mset)
  have sorted: "sort_key (\<lambda>p. key_bytes (fst p)) d' = sort_key (\<lambda>p. key_bytes (fst p)) d"
    by (rule sort_key_inj_key_eq) (use assms(2) dist sets in \<open>auto simp: distinct_map\<close>)
  have "\<forall>v \<in> snd ` set d. \<exists>bs. encode v = Inr bs"
    using ok encode_parses by fastforce
  then obtain f where f: "\<And>k v. (k, v) \<in> set d \<Longrightarrow> encode v = Inr (f v)"
    by (metis (no_types, lifting) imageI snd_conv)
  have "encode (PDict e) = Inr (100 # concat (map (\<lambda>(k, v). encode_string (key_bytes k) @ f v)
           (sort_key (\<lambda>p. key_bytes (fst p)) e)) @ [101])" if "set e = set d" for e
    by (rule encode_dict_ok) (use ok f that in auto)
  from this [of d] this [of d'] sets sorted show ?thesis by simp
qed

section \<open>Properties\<close>

text \<open>
  C4: bencode round trip. Whatever the encoder accepts as valid (integers, bytes, encodable
  strings, lists, and dictionaries whose keys have distinct byte forms), the decoder reads back:
  strings as bytes and dictionaries in key order, whatever bytes follow, with fuel
  \<open>length bs\<close> already enough.
\<close>

theorem bencode_roundtrip:
  assumes "bencodable v"
  shows "\<exists>bs. encode v = Inr bs
    \<and> (\<forall>rest n. length bs \<le> n \<longrightarrow> decode uni n (bs @ rest) = Some (Inr (wire v)))"
proof -
  obtain bs where enc: "encode v = Inr bs" and p: "parses uni bs (wire v)"
    using encode_parses [OF assms] by blast
  have "decode uni n (bs @ rest) = Some (Inr (wire v))" if "length bs \<le> n" for n rest
    using parsesD [OF p that, of "[]" rest] by (simp add: decode_def)
  with enc show ?thesis by blast
qed

theorem bencode_roundtrip_witness:
  "\<exists>bs. encode (PDict [(PBytes [98], PList [PInt (- 20), PBytes []]), (PStr [97], PInt 7)]) = Inr bs
    \<and> (\<forall>rest n. length bs \<le> n \<longrightarrow> decode (\<lambda>_. None) n (bs @ rest)
          = Some (Inr (wire (PDict [(PBytes [98], PList [PInt (- 20), PBytes []]), (PStr [97], PInt 7)]))))"
  by (rule bencode_roundtrip)
    (simp add: valid_key_def key_bytes_def sort_key_of_def utf8_encode_def)

text \<open>
  C20: the decoder does not return on the eleven bytes \<open>l4:i1eed-8:\<close>, whatever the fuel. The
  key length \<open>-8\<close> of the dictionary moves the position back into the string of the first item,
  where \<open>i1e\<close> is the value and \<open>e\<close> ends the dictionary; the list loop then meets the same
  dictionary again, and appends to its result for ever.
\<close>

theorem decode_diverges_on_negative_key_length: "decode uni n poison = None"
  by (simp add: decode_def poison_diverges)

text \<open>
  C21: without a minus sign among the bytes no length can be negative, the position only grows,
  and the decoder returns or raises: \<open>2 * length data + 1\<close> units of fuel are enough.
\<close>

theorem decode_terminates:
  assumes "45 \<notin> set data" and "unsigned_uni uni" and "2 * length data < n"
  shows "decode uni n data \<noteq> None"
  using bdecode_total_aux [OF assms(1,2), of 0 n] assms(3) by (simp add: decode_def)

theorem decode_terminates_witness:
  "decode (\<lambda>_. None) 20 (ascii ''d1:ai3ee'') \<noteq> None"
  by (rule decode_terminates) (simp_all add: ascii_def unsigned_uni_def)

text \<open>
  Whatever the decoder returns can be encoded again: it is built from integers, bytes,
  lists, and dictionaries with distinct byte keys, and the encoder accepts it.
\<close>

theorem decoded_values_encodable:
  assumes "decode uni n data = Some (Inr v)"
  shows "wire_form v \<and> (\<exists>bs. encode v = Inr bs)"
proof -
  from assms obtain q where "bdecode uni n data 0 = Some (Inr (v, q))"
    by (auto simp: decode_def pbind_eq_Inr)
  then have wf: "wire_form v" using bdecode_wire_form by blast
  then show ?thesis using encode_parses [OF wire_form_bencodable [OF wf]] by blast
qed

theorem decoded_values_encodable_witness:
  "wire_form (PList [PBytes [97]]) \<and> (\<exists>bs. encode (PList [PBytes [97]]) = Inr bs)"
proof -
  have "decode (\<lambda>_. None) 9 (ascii ''l1:ae'') = Some (Inr (PList [PBytes [97]]))"
    by code_simp
  then show ?thesis by (rule decoded_values_encodable)
qed

text \<open>
  The encoding of a dictionary does not depend on its insertion order, so equal info
  dictionaries have equal info hashes.
\<close>

theorem encode_dict_insertion_order:
  assumes "bencodable (PDict d)" and "mset d' = mset d"
  shows "encode (PDict d') = encode (PDict d)"
  using assms by (rule encode_dict_order)

theorem encode_dict_insertion_order_witness:
  "encode (PDict [(PBytes [98], PInt 1), (PBytes [97], PInt 2)])
     = encode (PDict [(PBytes [97], PInt 2), (PBytes [98], PInt 1)])"
  by (rule encode_dict_insertion_order)
    (simp_all add: valid_key_def key_bytes_def sort_key_of_def)

text \<open>
  A \<open>bool\<close> passes the \<open>isinstance(obj, int)\<close> test of the encoder and comes out as
  \<open>iTruee\<close>, which the decoder rejects with the \<open>ValueError\<close> of \<open>int()\<close>.
\<close>

lemma encoded_bool_not_decodable:
  "encode (PBool True) = Inr (ascii ''iTruee'') \<and> decode (\<lambda>_. None) 9 (ascii ''iTruee'') = Some (Inl ValueError)"
  by (simp add: encode_bool_def ascii_def) code_simp

end
