(* ===== verification/Peer_Wire.thy ===== *)
theory Peer_Wire
  imports Ccbt_Prelude
begin

text \<open>
  The BitTorrent v1 wire format of \<open>ccbt/peer/peer.py\<close>: the 68-byte handshake with its
  reserved bits, the message classes with their \<open>encode\<close> and \<open>decode\<close> methods, the factory
  \<open>create_message\<close> and the send buffer \<open>MessageBuffer\<close>. Message fields are Python integers,
  so encoding an out-of-range field raises \<open>struct.error\<close>.
\<close>

unbundle bit_operations_syntax

section \<open>Handshake\<close>

record handshake =
  info_hash :: bytes
  peer_id :: bytes
  reserved_bytes :: bytes
  ed25519_public_key :: "bytes option"
  ed25519_signature :: "bytes option"

definition PROTOCOL_STRING :: bytes where
  "PROTOCOL_STRING = ascii ''BitTorrent protocol''"

definition RESERVED_BYTES :: bytes where
  "RESERVED_BYTES = replicate 8 0"

definition bad_len :: "bytes option \<Rightarrow> nat \<Rightarrow> bool" where
  "bad_len ob n = (case ob of None \<Rightarrow> False | Some b \<Rightarrow> length b \<noteq> n)"

definition handshake_init ::
  "bytes \<Rightarrow> bytes \<Rightarrow> bytes option \<Rightarrow> bytes option \<Rightarrow> bytes option \<Rightarrow> handshake py" where
  "handshake_init ih pid reserved key sig =
     (if length ih \<noteq> 20 then Inl HandshakeError
      else if length pid \<noteq> 20 then Inl HandshakeError
      else if bad_len reserved 8 then Inl HandshakeError
      else if bad_len key 32 then Inl HandshakeError
      else if bad_len sig 64 then Inl HandshakeError
      else Inr \<lparr>info_hash = ih, peer_id = pid,
                reserved_bytes = (case reserved of Some r \<Rightarrow> r | None \<Rightarrow> RESERVED_BYTES),
                ed25519_public_key = key, ed25519_signature = sig\<rparr>)"

definition handshake_encode :: "handshake \<Rightarrow> bytes py" where
  "handshake_encode h =
     pbind (pack_be 1 (int (length PROTOCOL_STRING))) (\<lambda>len.
     Inr (len @ PROTOCOL_STRING @ reserved_bytes h @ info_hash h @ peer_id h))"

definition handshake_decode :: "bytes \<Rightarrow> handshake py" where
  "handshake_decode data =
     (if length data \<noteq> 68 then Inl HandshakeError
      else if unpack_be (take 1 data) \<noteq> 19 then Inl HandshakeError
      else if take 19 (drop 1 data) \<noteq> PROTOCOL_STRING then Inl HandshakeError
      else handshake_init (take 20 (drop 28 data)) (take 20 (drop 48 data))
             (Some (take 8 (drop 20 data))) None None)"

definition handshake_from_parts :: "int \<Rightarrow> bytes \<Rightarrow> bytes \<Rightarrow> bytes \<Rightarrow> bytes \<Rightarrow> handshake py" where
  "handshake_from_parts protocol_len protocol reserved ih pid =
     (if int (length protocol) \<noteq> protocol_len then Inl HandshakeError
      else if length reserved \<noteq> 8 then Inl HandshakeError
      else handshake_init ih pid (Some reserved) None None)"

subsection \<open>Reserved bits\<close>

definition supports_extension_protocol :: "handshake \<Rightarrow> bool" where
  "supports_extension_protocol h =
     (if length (reserved_bytes h) < 6 then False else reserved_bytes h ! 5 AND 0x10 \<noteq> 0)"

definition supports_v2 :: "handshake \<Rightarrow> bool" where
  "supports_v2 h =
     (if length (reserved_bytes h) < 1 then False else reserved_bytes h ! 0 AND 0x01 \<noteq> 0)"

definition supports_fast_extension :: "handshake \<Rightarrow> bool" where
  "supports_fast_extension h =
     (if length (reserved_bytes h) < 8 then False else reserved_bytes h ! 7 AND 0x04 \<noteq> 0)"

definition supports_dht :: "handshake \<Rightarrow> bool" where
  "supports_dht h =
     (if length (reserved_bytes h) < 8 then False else reserved_bytes h ! 7 AND 0x01 \<noteq> 0)"

text \<open>\<open>reserved[i] |= mask\<close> after the bytearray has been extended with zeros to \<open>n\<close> bytes.\<close>

definition or_byte :: "bytes \<Rightarrow> nat \<Rightarrow> byte \<Rightarrow> bytes" where
  "or_byte r i bits = r[i := r ! i OR bits]"

definition pad_to :: "nat \<Rightarrow> bytes \<Rightarrow> bytes" where
  "pad_to n r = (if length r < n then r @ replicate (n - length r) 0 else r)"

definition set_extension_protocol :: "handshake \<Rightarrow> handshake" where
  "set_extension_protocol h = h\<lparr>reserved_bytes := or_byte (pad_to 6 (reserved_bytes h)) 5 0x10\<rparr>"

definition set_v2_support :: "handshake \<Rightarrow> handshake" where
  "set_v2_support h =
     h\<lparr>reserved_bytes :=
         or_byte (if length (reserved_bytes h) < 1 then replicate 8 0 else reserved_bytes h) 0 0x01\<rparr>"

definition set_fast_extension :: "handshake \<Rightarrow> handshake" where
  "set_fast_extension h = h\<lparr>reserved_bytes := or_byte (pad_to 8 (reserved_bytes h)) 7 0x04\<rparr>"

definition set_dht_support :: "handshake \<Rightarrow> handshake" where
  "set_dht_support h = h\<lparr>reserved_bytes := or_byte (pad_to 8 (reserved_bytes h)) 7 0x01\<rparr>"

text \<open>
  The two options the method reads: \<open>None\<close> when the configuration object has no such
  section (\<open>hasattr\<close> fails).
\<close>

record hs_config =
  cfg_protocol_v2 :: "bool option"
  cfg_enable_dht :: "bool option"

definition configure_from_config :: "hs_config \<Rightarrow> handshake \<Rightarrow> handshake" where
  "configure_from_config cfg h =
     (let h1 = set_extension_protocol h;
          h2 = (if cfg_protocol_v2 cfg = Some True then set_v2_support h1 else h1);
          h3 = (if cfg_enable_dht cfg = Some True then set_dht_support h2 else h2)
      in set_fast_extension h3)"

section \<open>Messages\<close>

datatype peer_message =
    KeepAlive | Choke | Unchoke | Interested | NotInterested
  | Have int
  | Bitfield bytes
  | Request int int int
  | Piece int int bytes
  | Cancel int int int

text \<open>\<open>MessageType\<close> of \<open>models.py\<close>; the keep-alive message has the pseudo id \<open>-1\<close>.\<close>

definition CHOKE :: int where "CHOKE = 0"
definition UNCHOKE :: int where "UNCHOKE = 1"
definition INTERESTED :: int where "INTERESTED = 2"
definition NOT_INTERESTED :: int where "NOT_INTERESTED = 3"
definition HAVE :: int where "HAVE = 4"
definition BITFIELD :: int where "BITFIELD = 5"
definition REQUEST :: int where "REQUEST = 6"
definition PIECE :: int where "PIECE = 7"
definition CANCEL :: int where "CANCEL = 8"

lemmas message_ids = CHOKE_def UNCHOKE_def INTERESTED_def NOT_INTERESTED_def HAVE_def
  BITFIELD_def REQUEST_def PIECE_def CANCEL_def

fun message_id :: "peer_message \<Rightarrow> int" where
  "message_id KeepAlive = -1"
| "message_id Choke = CHOKE"
| "message_id Unchoke = UNCHOKE"
| "message_id Interested = INTERESTED"
| "message_id NotInterested = NOT_INTERESTED"
| "message_id (Have _) = HAVE"
| "message_id (Bitfield _) = BITFIELD"
| "message_id (Request _ _ _) = REQUEST"
| "message_id (Piece _ _ _) = PIECE"
| "message_id (Cancel _ _ _) = CANCEL"

subsection \<open>Keep-alive and the four one-byte messages\<close>

definition keepalive_encode :: "bytes py" where
  "keepalive_encode = packs [(4, 0)]"

definition keepalive_decode :: "bytes \<Rightarrow> peer_message py" where
  "keepalive_decode data =
     (if length data \<noteq> 4 then Inl MessageError
      else if unpack_be data \<noteq> 0 then Inl MessageError
      else Inr KeepAlive)"

definition choke_encode :: "bytes py" where
  "choke_encode = packs [(4, 1), (1, CHOKE)]"

definition choke_decode :: "bytes \<Rightarrow> peer_message py" where
  "choke_decode data =
     (if length data \<noteq> 5 then Inl MessageError
      else let len = unpacks [4, 1] data ! 0; mid = unpacks [4, 1] data ! 1
           in if len \<noteq> 1 then Inl MessageError
              else if mid \<noteq> CHOKE then Inl MessageError
              else Inr Choke)"

definition unchoke_encode :: "bytes py" where
  "unchoke_encode = packs [(4, 1), (1, UNCHOKE)]"

definition unchoke_decode :: "bytes \<Rightarrow> peer_message py" where
  "unchoke_decode data =
     (if length data \<noteq> 5 then Inl MessageError
      else let len = unpacks [4, 1] data ! 0; mid = unpacks [4, 1] data ! 1
           in if len \<noteq> 1 then Inl MessageError
              else if mid \<noteq> UNCHOKE then Inl MessageError
              else Inr Unchoke)"

definition interested_encode :: "bytes py" where
  "interested_encode = packs [(4, 1), (1, INTERESTED)]"

definition interested_decode :: "bytes \<Rightarrow> peer_message py" where
  "interested_decode data =
     (if length data \<noteq> 5 then Inl MessageError
      else let len = unpacks [4, 1] data ! 0; mid = unpacks [4, 1] data ! 1
           in if len \<noteq> 1 then Inl MessageError
              else if mid \<noteq> INTERESTED then Inl MessageError
              else Inr Interested)"

definition not_interested_encode :: "bytes py" where
  "not_interested_encode = packs [(4, 1), (1, NOT_INTERESTED)]"

definition not_interested_decode :: "bytes \<Rightarrow> peer_message py" where
  "not_interested_decode data =
     (if length data \<noteq> 5 then Inl MessageError
      else let len = unpacks [4, 1] data ! 0; mid = unpacks [4, 1] data ! 1
           in if len \<noteq> 1 then Inl MessageError
              else if mid \<noteq> NOT_INTERESTED then Inl MessageError
              else Inr NotInterested)"

subsection \<open>Messages with a payload\<close>

definition have_encode :: "int \<Rightarrow> bytes py" where
  "have_encode piece_index = packs [(4, 5), (1, HAVE), (4, piece_index)]"

definition have_decode :: "bytes \<Rightarrow> peer_message py" where
  "have_decode data =
     (if length data \<noteq> 9 then Inl MessageError
      else let f = unpacks [4, 1, 4] data
           in if f ! 0 \<noteq> 5 then Inl MessageError
              else if f ! 1 \<noteq> HAVE then Inl MessageError
              else Inr (Have (f ! 2)))"

definition bitfield_encode :: "bytes \<Rightarrow> bytes py" where
  "bitfield_encode bf =
     (let len = 1 + int (length bf)
      in pbind (packs [(4, len), (1, BITFIELD)]) (\<lambda>hdr. Inr (hdr @ bf)))"

definition bitfield_decode :: "bytes \<Rightarrow> peer_message py" where
  "bitfield_decode data =
     (if length data < 5 then Inl MessageError
      else let f = unpacks [4, 1] (take 5 data)
           in if f ! 0 < 1 then Inl MessageError
              else if int (length data) \<noteq> 4 + f ! 0 then Inl MessageError
              else if f ! 1 \<noteq> BITFIELD then Inl MessageError
              else Inr (Bitfield (drop 5 data)))"

text \<open>\<open>BitfieldMessage.has_piece\<close>: piece \<open>i\<close> is bit \<open>7 - i % 8\<close> of byte \<open>i // 8\<close>.\<close>

definition has_piece :: "bytes \<Rightarrow> int \<Rightarrow> int \<Rightarrow> bool" where
  "has_piece bf piece_index num_pieces =
     (if piece_index < 0 \<or> num_pieces \<le> piece_index then False
      else let byte_index = nat (piece_index div 8); bit_index = nat (piece_index mod 8)
           in if length bf \<le> byte_index then False
              else bf ! byte_index AND push_bit (7 - bit_index) 1 \<noteq> 0)"

definition request_encode :: "int \<Rightarrow> int \<Rightarrow> int \<Rightarrow> bytes py" where
  "request_encode piece_index begin len =
     packs [(4, 13), (1, REQUEST), (4, piece_index), (4, begin), (4, len)]"

definition request_decode :: "bytes \<Rightarrow> peer_message py" where
  "request_decode data =
     (if length data \<noteq> 17 then Inl MessageError
      else let f = unpacks [4, 1, 4, 4, 4] data
           in if f ! 0 \<noteq> 13 then Inl MessageError
              else if f ! 1 \<noteq> REQUEST then Inl MessageError
              else Inr (Request (f ! 2) (f ! 3) (f ! 4)))"

definition piece_encode :: "int \<Rightarrow> int \<Rightarrow> bytes \<Rightarrow> bytes py" where
  "piece_encode piece_index begin block =
     (let len = 1 + 4 + 4 + int (length block)
      in pbind (packs [(4, len), (1, PIECE), (4, piece_index), (4, begin)])
           (\<lambda>hdr. Inr (hdr @ block)))"

definition piece_decode :: "bytes \<Rightarrow> peer_message py" where
  "piece_decode data =
     (if length data < 13 then Inl MessageError
      else let f = unpacks [4, 1] (take 5 data)
           in if f ! 0 < 9 then Inl MessageError
              else if int (length data) \<noteq> 4 + f ! 0 then Inl MessageError
              else if f ! 1 \<noteq> PIECE then Inl MessageError
              else let g = unpacks [4, 4] (take 8 (drop 5 data))
                   in Inr (Piece (g ! 0) (g ! 1) (drop 13 data)))"

definition cancel_encode :: "int \<Rightarrow> int \<Rightarrow> int \<Rightarrow> bytes py" where
  "cancel_encode piece_index begin len =
     packs [(4, 13), (1, CANCEL), (4, piece_index), (4, begin), (4, len)]"

definition cancel_decode :: "bytes \<Rightarrow> peer_message py" where
  "cancel_decode data =
     (if length data \<noteq> 17 then Inl MessageError
      else let f = unpacks [4, 1, 4, 4, 4] data
           in if f ! 0 \<noteq> 13 then Inl MessageError
              else if f ! 1 \<noteq> CANCEL then Inl MessageError
              else Inr (Cancel (f ! 2) (f ! 3) (f ! 4)))"

text \<open>\<open>m.encode()\<close> and \<open>type(m).decode\<close>: the dynamic dispatch over the message classes.\<close>

fun msg_encode :: "peer_message \<Rightarrow> bytes py" where
  "msg_encode KeepAlive = keepalive_encode"
| "msg_encode Choke = choke_encode"
| "msg_encode Unchoke = unchoke_encode"
| "msg_encode Interested = interested_encode"
| "msg_encode NotInterested = not_interested_encode"
| "msg_encode (Have i) = have_encode i"
| "msg_encode (Bitfield bf) = bitfield_encode bf"
| "msg_encode (Request i b l) = request_encode i b l"
| "msg_encode (Piece i b d) = piece_encode i b d"
| "msg_encode (Cancel i b l) = cancel_encode i b l"

fun decode_as :: "peer_message \<Rightarrow> bytes \<Rightarrow> peer_message py" where
  "decode_as KeepAlive = keepalive_decode"
| "decode_as Choke = choke_decode"
| "decode_as Unchoke = unchoke_decode"
| "decode_as Interested = interested_decode"
| "decode_as NotInterested = not_interested_decode"
| "decode_as (Have _) = have_decode"
| "decode_as (Bitfield _) = bitfield_decode"
| "decode_as (Request _ _ _) = request_decode"
| "decode_as (Piece _ _ _) = piece_decode"
| "decode_as (Cancel _ _ _) = cancel_decode"

subsection \<open>The factory\<close>

record msg_kwargs =
  kw_piece_index :: "int option"
  kw_begin :: "int option"
  kw_length :: "int option"
  kw_bitfield :: "bytes option"
  kw_block :: "bytes option"

definition kwarg :: "'a option \<Rightarrow> 'a py" where
  "kwarg arg = (case arg of None \<Rightarrow> Inl KeyError | Some v \<Rightarrow> Inr v)"

definition create_message :: "int \<Rightarrow> msg_kwargs \<Rightarrow> peer_message py" where
  "create_message mt kw =
     (if mt = CHOKE then Inr Choke
      else if mt = UNCHOKE then Inr Unchoke
      else if mt = INTERESTED then Inr Interested
      else if mt = NOT_INTERESTED then Inr NotInterested
      else if mt = HAVE then pbind (kwarg (kw_piece_index kw)) (\<lambda>i. Inr (Have i))
      else if mt = BITFIELD then pbind (kwarg (kw_bitfield kw)) (\<lambda>b. Inr (Bitfield b))
      else if mt = REQUEST then
        pbind (kwarg (kw_piece_index kw)) (\<lambda>i. pbind (kwarg (kw_begin kw)) (\<lambda>b.
        pbind (kwarg (kw_length kw)) (\<lambda>l. Inr (Request i b l))))
      else if mt = PIECE then
        pbind (kwarg (kw_piece_index kw)) (\<lambda>i. pbind (kwarg (kw_begin kw)) (\<lambda>b.
        pbind (kwarg (kw_block kw)) (\<lambda>d. Inr (Piece i b d))))
      else if mt = CANCEL then
        pbind (kwarg (kw_piece_index kw)) (\<lambda>i. pbind (kwarg (kw_begin kw)) (\<lambda>b.
        pbind (kwarg (kw_length kw)) (\<lambda>l. Inr (Cancel i b l))))
      else Inl MessageError)"

section \<open>The send buffer\<close>

text \<open>
  \<open>MessageBuffer\<close>: a preallocated byte array of \<open>max_size\<close> bytes, a write position, and a
  bounded queue (\<open>deque(maxlen=1000)\<close>) of the messages with their sizes.
\<close>

record msg_buffer =
  max_size :: nat
  buffer :: bytes
  write_pos :: nat
  pending_messages :: "(peer_message \<times> nat) list"

definition deque_append :: "nat \<Rightarrow> 'a list \<Rightarrow> 'a \<Rightarrow> 'a list" where
  "deque_append maxlen q x = drop (length q + 1 - maxlen) (q @ [x])"

definition msg_buffer_init :: "nat \<Rightarrow> msg_buffer" where
  "msg_buffer_init n =
     \<lparr>max_size = n, buffer = replicate n 0, write_pos = 0, pending_messages = []\<rparr>"

definition add_message :: "peer_message \<Rightarrow> msg_buffer \<Rightarrow> bool \<times> msg_buffer" where
  "add_message m b =
     (case msg_encode m of
        Inl _ \<Rightarrow> (False, b)
      | Inr data \<Rightarrow>
          if max_size b < write_pos b + length data then (False, b)
          else (True,
            b\<lparr>buffer := take (write_pos b) (buffer b) @ data
                          @ drop (write_pos b + length data) (buffer b),
              write_pos := write_pos b + length data,
              pending_messages := deque_append 1000 (pending_messages b) (m, length data)\<rparr>))"

definition get_buffered_data :: "msg_buffer \<Rightarrow> bytes" where
  "get_buffered_data b = take (write_pos b) (buffer b)"

definition msg_buffer_clear :: "msg_buffer \<Rightarrow> msg_buffer" where
  "msg_buffer_clear b = b\<lparr>write_pos := 0, pending_messages := []\<rparr>"

section \<open>The message classes are strict codecs\<close>

fun valid_msg :: "peer_message \<Rightarrow> bool" where
  "valid_msg (Have i) \<longleftrightarrow> 0 \<le> i \<and> i < 2 ^ 32"
| "valid_msg (Bitfield bf) \<longleftrightarrow> 1 + int (length bf) < 2 ^ 32"
| "valid_msg (Request i b l) \<longleftrightarrow> 0 \<le> i \<and> i < 2 ^ 32 \<and> 0 \<le> b \<and> b < 2 ^ 32 \<and> 0 \<le> l \<and> l < 2 ^ 32"
| "valid_msg (Piece i b d) \<longleftrightarrow> 0 \<le> i \<and> i < 2 ^ 32 \<and> 0 \<le> b \<and> b < 2 ^ 32 \<and> 9 + int (length d) < 2 ^ 32"
| "valid_msg (Cancel i b l) \<longleftrightarrow> 0 \<le> i \<and> i < 2 ^ 32 \<and> 0 \<le> b \<and> b < 2 ^ 32 \<and> 0 \<le> l \<and> l < 2 ^ 32"
| "valid_msg m \<longleftrightarrow> True"

lemmas encode_defs = keepalive_encode_def choke_encode_def unchoke_encode_def
  interested_encode_def not_interested_encode_def have_encode_def bitfield_encode_def
  request_encode_def piece_encode_def cancel_encode_def

lemmas decode_defs = keepalive_decode_def choke_decode_def unchoke_decode_def
  interested_decode_def not_interested_decode_def have_decode_def bitfield_decode_def
  request_decode_def piece_decode_def cancel_decode_def

lemma valid_msg_iff: "valid_msg m \<longleftrightarrow> (\<exists>bs. msg_encode m = Inr bs)"
  by (cases m) (auto simp: encode_defs message_ids packs_eq_Inr pbind_eq_Inr Let_def)

lemma fixed_class_iff:
  "keepalive_decode data = Inr m \<longleftrightarrow> m = KeepAlive \<and> keepalive_encode = Inr data"
  "choke_decode data = Inr m \<longleftrightarrow> m = Choke \<and> choke_encode = Inr data"
  "unchoke_decode data = Inr m \<longleftrightarrow> m = Unchoke \<and> unchoke_encode = Inr data"
  "interested_decode data = Inr m \<longleftrightarrow> m = Interested \<and> interested_encode = Inr data"
  "not_interested_decode data = Inr m \<longleftrightarrow> m = NotInterested \<and> not_interested_encode = Inr data"
  "have_decode data = Inr m \<longleftrightarrow> (\<exists>i. m = Have i \<and> have_encode i = Inr data)"
  "request_decode data = Inr m \<longleftrightarrow> (\<exists>i b l. m = Request i b l \<and> request_encode i b l = Inr data)"
  "cancel_decode data = Inr m \<longleftrightarrow> (\<exists>i b l. m = Cancel i b l \<and> cancel_encode i b l = Inr data)"
  by (auto simp: encode_defs decode_defs packs_iff Let_def)

lemma bitfield_decode_iff:
  "bitfield_decode data = Inr m \<longleftrightarrow> (\<exists>bf. m = Bitfield bf \<and> bitfield_encode bf = Inr data)"
proof
  assume "bitfield_decode data = Inr m"
  then have "5 \<le> length data" and u: "unpacks [4, 1] (take 5 data) = [1 + int (length (drop 5 data)), BITFIELD]"
    and "m = Bitfield (drop 5 data)"
    by (auto simp: bitfield_decode_def Let_def split: if_splits)
  moreover from this have "bitfield_encode (drop 5 data) = Inr data"
    by (auto simp: bitfield_encode_def Let_def pbind_eq_Inr packs_iff intro!: exI [of _ "take 5 data"])
  ultimately show "\<exists>bf. m = Bitfield bf \<and> bitfield_encode bf = Inr data" by blast
next
  assume "\<exists>bf. m = Bitfield bf \<and> bitfield_encode bf = Inr data"
  then obtain bf hdr where "m = Bitfield bf" "data = hdr @ bf" "length hdr = 5"
      "unpacks [4, 1] hdr = [1 + int (length bf), BITFIELD]"
    by (auto simp: bitfield_encode_def Let_def pbind_eq_Inr packs_iff)
  then show "bitfield_decode data = Inr m"
    by (simp add: bitfield_decode_def Let_def)
qed

lemma piece_decode_iff:
  "piece_decode data = Inr m \<longleftrightarrow> (\<exists>i b d. m = Piece i b d \<and> piece_encode i b d = Inr data)"
proof
  assume "piece_decode data = Inr m"
  then have len: "13 \<le> length data" and u: "unpacks [4, 1] (take 5 data) = [9 + int (length (drop 13 data)), PIECE]"
    and m: "m = Piece (unpacks [4, 4] (take 8 (drop 5 data)) ! 0) (unpacks [4, 4] (take 8 (drop 5 data)) ! 1) (drop 13 data)"
    by (auto simp: piece_decode_def Let_def split: if_splits)
  let ?i = "unpacks [4, 4] (take 8 (drop 5 data)) ! 0" and ?b = "unpacks [4, 4] (take 8 (drop 5 data)) ! 1"
  have "packs [(4, 9 + int (length (drop 13 data))), (1, PIECE), (4, ?i), (4, ?b)] = Inr (take 13 data)"
    using len u by (simp add: packs_iff drop_take min_def)
  then have "piece_encode ?i ?b (drop 13 data) = Inr data"
    by (simp add: piece_encode_def Let_def)
  with m show "\<exists>i b d. m = Piece i b d \<and> piece_encode i b d = Inr data" by blast
next
  assume "\<exists>i b d. m = Piece i b d \<and> piece_encode i b d = Inr data"
  then obtain i b d hdr where "m = Piece i b d" "data = hdr @ d" "length hdr = 13"
      "unpacks [4, 1, 4, 4] hdr = [9 + int (length d), PIECE, i, b]"
    by (auto simp: piece_encode_def Let_def pbind_eq_Inr packs_iff)
  then show "piece_decode data = Inr m"
    by (simp add: piece_decode_def Let_def drop_take min_def)
qed

lemmas class_decode_iff = fixed_class_iff bitfield_decode_iff piece_decode_iff

lemma decode_as_iff:
  "decode_as k data = Inr m \<longleftrightarrow> message_id m = message_id k \<and> msg_encode m = Inr data"
  by (cases k; cases m) (auto simp: class_decode_iff message_ids)

interpretation message_class: strict_codec msg_encode "decode_as k"
    "\<lambda>m. message_id m = message_id k \<and> valid_msg m" for k
  by unfold_locales (auto simp: decode_as_iff valid_msg_iff)

section \<open>The handshake is a strict codec\<close>

definition valid_handshake :: "handshake \<Rightarrow> bool" where
  "valid_handshake h \<longleftrightarrow> length (info_hash h) = 20 \<and> length (peer_id h) = 20
     \<and> length (reserved_bytes h) = 8 \<and> ed25519_public_key h = None \<and> ed25519_signature h = None"

lemma PROTOCOL_STRING_length [simp]: "length PROTOCOL_STRING = 19"
  by (simp add: PROTOCOL_STRING_def)

lemma handshake_encode_eq:
  "handshake_encode h = Inr (be_bytes 1 19 @ PROTOCOL_STRING @ reserved_bytes h @ info_hash h @ peer_id h)"
  by (simp add: handshake_encode_def pack_be_ok)

lemma unpack_be_1: "length bs = 1 \<Longrightarrow> unpack_be bs = v \<Longrightarrow> be_bytes 1 (nat v) = bs"
  using be_bytes_be_nat' [of bs 1] by (auto simp: unpack_be_def simp del: be_bytes.simps)

lemma take_drop_join: "b = a + n \<Longrightarrow> take n (drop a xs) @ drop b xs = drop a xs"
  by (metis add.commute append_take_drop_id drop_drop)

interpretation handshake_codec: strict_codec handshake_encode handshake_decode valid_handshake
proof unfold_locales
  fix h :: handshake
  show "\<exists>bs. handshake_encode h = Inr bs" by (simp add: handshake_encode_eq)
next
  fix h :: handshake and bs
  assume "valid_handshake h" and "handshake_encode h = Inr bs"
  then show "handshake_decode bs = Inr h"
    by (auto simp: handshake_encode_eq handshake_decode_def handshake_init_def valid_handshake_def bad_len_def
        unpack_be_def be_nat_be_bytes simp del: be_bytes.simps)
next
  fix bs and h :: handshake
  assume a: "handshake_decode bs = Inr h"
  then show "valid_handshake h"
    by (auto simp: handshake_decode_def handshake_init_def valid_handshake_def split: if_splits)
  have len: "length bs = 68" and l: "unpack_be (take 1 bs) = 19" and p: "take 19 (drop 1 bs) = PROTOCOL_STRING"
    and h: "reserved_bytes h = take 8 (drop 20 bs)" "info_hash h = take 20 (drop 28 bs)"
      "peer_id h = take 20 (drop 48 bs)"
    using a by (auto simp: handshake_decode_def handshake_init_def split: if_splits)
  have "bs = take 1 bs @ take 19 (drop 1 bs) @ take 8 (drop 20 bs) @ take 20 (drop 28 bs) @ take 20 (drop 48 bs)"
    using take_drop_join [of 20 1 19 bs] take_drop_join [of 28 20 8 bs] take_drop_join [of 48 28 20 bs]
      append_take_drop_id [of 1 bs] len
    by simp
  moreover have "be_bytes 1 19 = take 1 bs"
    using unpack_be_1 [of "take 1 bs" 19] len l by simp
  ultimately show "handshake_encode h = Inr bs"
    using p h by (simp add: handshake_encode_eq)
qed


section \<open>Reserved bits\<close>

lemma or_byte_simps [simp]:
  "length (or_byte r i m) = length r"
  "i < length r \<Longrightarrow> or_byte r i m ! j = (if i = j then r ! j OR m else r ! j)"
  by (auto simp: or_byte_def)

lemma pad_to_id [simp]: "n \<le> length r \<Longrightarrow> pad_to n r = r"
  by (simp add: pad_to_def)

text \<open>The advertised bits: the new reserved bytes are the old ones with a mask or-ed in.\<close>

definition cfg_mask :: "hs_config \<Rightarrow> bytes" where
  "cfg_mask cfg = [if cfg_protocol_v2 cfg = Some True then 1 else 0, 0, 0, 0, 0, 0x10, 0,
     0x04 OR (if cfg_enable_dht cfg = Some True then 1 else 0)]"

lemma or_1_4: "1 OR (b OR 4) = b OR (5::byte)"
proof -
  have "(5::byte) = 1 OR 4" by simp
  then show ?thesis by (simp only: ac_simps)
qed

lemma configure_mask:
  assumes "length (reserved_bytes h) = 8"
  shows "configure_from_config cfg h
    = h\<lparr>reserved_bytes := map2 (OR) (reserved_bytes h) (cfg_mask cfg)\<rparr>"
proof -
  obtain b0 b1 b2 b3 b4 b5 b6 b7 where r: "reserved_bytes h = [b0, b1, b2, b3, b4, b5, b6, b7]"
    using assms by (auto simp: length_Suc_conv numeral_eq_Suc)
  show ?thesis
    by (cases h) (use r in \<open>auto simp: configure_from_config_def Let_def set_extension_protocol_def
        set_v2_support_def set_dht_support_def set_fast_extension_def or_byte_def cfg_mask_def
        ac_simps or_1_4 pad_to_def\<close>)
qed

lemma word_and_1_or: "(x OR y) AND (z::byte) = (x AND z) OR (y AND z)"
  by (simp add: bit.conj_disj_distrib2)

lemma or_eq_0: "(x OR y = (0::byte)) \<longleftrightarrow> x = 0 \<and> y = 0"
  by (metis bit.disj_zero_right or.left_commute or.right_idem or_eq_0_iff)

lemma supports_after_configure:
  assumes "length (reserved_bytes h) = 8"
  shows "supports_extension_protocol (configure_from_config cfg h)"
    and "supports_fast_extension (configure_from_config cfg h)"
    and "supports_v2 (configure_from_config cfg h) \<longleftrightarrow> supports_v2 h \<or> cfg_protocol_v2 cfg = Some True"
    and "supports_dht (configure_from_config cfg h) \<longleftrightarrow> supports_dht h \<or> cfg_enable_dht cfg = Some True"
proof -
  obtain b0 b1 b2 b3 b4 b5 b6 b7 where r: "reserved_bytes h = [b0, b1, b2, b3, b4, b5, b6, b7]"
    using assms by (auto simp: length_Suc_conv numeral_eq_Suc)
  note d = configure_mask [OF assms] r cfg_mask_def word_and_1_or or_eq_0
    supports_extension_protocol_def supports_fast_extension_def supports_v2_def supports_dht_def
  show "supports_extension_protocol (configure_from_config cfg h)"
    and "supports_fast_extension (configure_from_config cfg h)"
    and "supports_v2 (configure_from_config cfg h) \<longleftrightarrow> supports_v2 h \<or> cfg_protocol_v2 cfg = Some True"
    and "supports_dht (configure_from_config cfg h) \<longleftrightarrow> supports_dht h \<or> cfg_enable_dht cfg = Some True"
    by (simp_all add: d)
qed

section \<open>The send buffer\<close>

definition buffer_ok :: "msg_buffer \<Rightarrow> bool" where
  "buffer_ok b \<longleftrightarrow> length (buffer b) = max_size b \<and> write_pos b \<le> max_size b
     \<and> length (pending_messages b) \<le> 1000"

lemma buffer_ok_init: "buffer_ok (msg_buffer_init n)"
  by (simp add: buffer_ok_def msg_buffer_init_def)

lemma buffer_ok_clear: "buffer_ok b \<Longrightarrow> buffer_ok (msg_buffer_clear b)"
  by (simp add: buffer_ok_def msg_buffer_clear_def)

lemma length_deque_append: "length q \<le> n \<Longrightarrow> 0 < n \<Longrightarrow> length (deque_append n q x) \<le> n"
  by (simp add: deque_append_def)

lemma buffer_ok_add: "buffer_ok b \<Longrightarrow> add_message m b = (r, b') \<Longrightarrow> buffer_ok b'"
  by (auto simp: buffer_ok_def add_message_def length_deque_append split: sum.splits if_splits)

fun add_messages :: "peer_message list \<Rightarrow> msg_buffer \<Rightarrow> peer_message list \<times> msg_buffer" where
  "add_messages [] b = ([], b)"
| "add_messages (m # ms) b =
     (let (ok, b1) = add_message m b; (acc, b2) = add_messages ms b1
      in (if ok then m # acc else acc, b2))"

definition encoding :: "peer_message \<Rightarrow> bytes" where
  "encoding m = (case msg_encode m of Inl _ \<Rightarrow> [] | Inr bs \<Rightarrow> bs)"

lemma buffered_data_add:
  assumes "buffer_ok b" and "add_message m b = (ok, b')"
  shows "get_buffered_data b' = get_buffered_data b @ (if ok then encoding m else [])"
    and "ok \<longleftrightarrow> valid_msg m \<and> write_pos b + length (encoding m) \<le> max_size b"
  using assms
  by (auto simp: add_message_def buffer_ok_def get_buffered_data_def encoding_def valid_msg_iff
      split: sum.splits if_splits)

lemma add_messages_data:
  "buffer_ok b \<Longrightarrow> add_messages ms b = (acc, b') \<Longrightarrow>
     buffer_ok b' \<and> get_buffered_data b' = get_buffered_data b @ concat (map encoding acc)
     \<and> list_all valid_msg acc \<and> max_size b' = max_size b"
proof (induction ms arbitrary: b acc b')
  case Nil
  then show ?case by simp
next
  case (Cons m ms)
  obtain ok b1 where a: "add_message m b = (ok, b1)" by (cases "add_message m b")
  obtain acc2 b2 where r: "add_messages ms b1 = (acc2, b2)" by (cases "add_messages ms b1")
  have "max_size b1 = max_size b"
    using a by (auto simp: add_message_def split: sum.splits if_splits)
  with Cons.IH [OF buffer_ok_add [OF Cons.prems(1) a] r] buffered_data_add [OF Cons.prems(1) a]
    Cons.prems(2) a r
  show ?case by (auto split: if_splits)
qed

section \<open>Piece bits\<close>

text \<open>The bits of a bitfield in the order of the pieces: the high bit of a byte comes first.\<close>

definition byte_bits :: "byte \<Rightarrow> bool list" where
  "byte_bits b = map (\<lambda>j. bit b (7 - j)) [0..<8]"

lemma nth_concat_bits:
  "i < 8 * length bf \<Longrightarrow> concat (map byte_bits bf) ! i = bit (bf ! (i div 8)) (7 - i mod 8)"
proof (induction bf arbitrary: i)
  case Nil
  then show ?case by simp
next
  case (Cons b bf)
  show ?case
  proof (cases "i < 8")
    case True
    then show ?thesis by (simp add: nth_append byte_bits_def)
  next
    case False
    then have "i div 8 = Suc ((i - 8) div 8)" and "i mod 8 = (i - 8) mod 8"
      by (simp_all add: le_div_geq le_mod_geq)
    with Cons False show ?thesis by (simp add: nth_append byte_bits_def)
  qed
qed

lemma and_push_bit_1: "(b :: byte) AND push_bit n 1 \<noteq> 0 \<longleftrightarrow> bit b n"
  by (simp add: and_exp_eq_0_iff_not_bit push_bit_eq_mult)

section \<open>Properties\<close>

text \<open>
  The \<open>decode\<close> method of a message class accepts a byte string exactly when it is what
  \<open>encode\<close> produces for a message of that class whose fields fit their width, and returns
  that message.
\<close>

theorem message_decode_iff:
  "decode_as k data = Inr m \<longleftrightarrow>
     message_id m = message_id k \<and> valid_msg m \<and> msg_encode m = Inr data"
  using message_class.dec_iff by blast

text \<open>
  C10: the handshake decoder accepts exactly the encodings of handshakes with a 20-byte info
  hash, a 20-byte peer id and 8 reserved bytes, and returns that handshake.
\<close>

theorem handshake_decode_iff:
  "handshake_decode data = Inr h \<longleftrightarrow> valid_handshake h \<and> handshake_encode h = Inr data"
  using handshake_codec.dec_iff by blast

text \<open>
  Configuring a handshake advertises the extension protocol and the fast extension always,
  v2 and DHT when they are enabled (or were advertised before), changes no other reserved bit
  and no other field.
\<close>

theorem configure_advertises:
  assumes "length (reserved_bytes h) = 8"
  shows "configure_from_config cfg h = h\<lparr>reserved_bytes := map2 (OR) (reserved_bytes h) (cfg_mask cfg)\<rparr>
    \<and> supports_extension_protocol (configure_from_config cfg h)
    \<and> supports_fast_extension (configure_from_config cfg h)
    \<and> (supports_v2 (configure_from_config cfg h) \<longleftrightarrow> supports_v2 h \<or> cfg_protocol_v2 cfg = Some True)
    \<and> (supports_dht (configure_from_config cfg h) \<longleftrightarrow> supports_dht h \<or> cfg_enable_dht cfg = Some True)"
  using configure_mask [OF assms] supports_after_configure [OF assms] by blast

theorem configure_advertises_witness:
  "\<not> supports_dht (configure_from_config \<lparr>cfg_protocol_v2 = Some True, cfg_enable_dht = Some False\<rparr>
       \<lparr>info_hash = [], peer_id = [], reserved_bytes = RESERVED_BYTES,
        ed25519_public_key = None, ed25519_signature = None\<rparr>)"
  (is "\<not> supports_dht (configure_from_config ?cfg ?h)")
proof -
  have "length (reserved_bytes ?h) = 8" and "\<not> supports_dht ?h" and "cfg_enable_dht ?cfg \<noteq> Some True"
    by code_simp+
  then show ?thesis using configure_advertises [of ?h ?cfg] by blast
qed

text \<open>
  \<open>has_piece\<close> reads exactly the bit of that number in the concatenated bits of the bitfield
  (high bit first); pieces outside the torrent or beyond the bitfield are absent.
\<close>

theorem has_piece_iff:
  "has_piece bf i n \<longleftrightarrow>
     0 \<le> i \<and> i < n \<and> i < 8 * int (length bf) \<and> concat (map byte_bits bf) ! nat i"
proof (cases "0 \<le> i \<and> i < 8 * int (length bf)")
  case True
  then have "nat i < 8 * length bf" and "nat (i div 8) = nat i div 8" and "nat (i mod 8) = nat i mod 8"
    by (auto simp: nat_div_distrib nat_mod_distrib)
  then show ?thesis
    using True nth_concat_bits [of "nat i" bf] and_push_bit_1 [of "bf ! (nat i div 8)" "7 - nat i mod 8"]
    by (auto simp: has_piece_def Let_def less_Suc_eq_le)
next
  case False
  then show ?thesis by (auto simp: has_piece_def Let_def nat_le_iff)
qed

text \<open>
  Filling an empty send buffer with messages keeps exactly the encodings of the accepted
  ones, in order, within the buffer's size, and a message is refused exactly when it cannot be
  encoded or does not fit in the space that is left.
\<close>

theorem message_buffer_contents:
  assumes "add_messages ms (msg_buffer_init n) = (acc, b)"
  shows "get_buffered_data b = concat (map encoding acc)
    \<and> length (get_buffered_data b) \<le> n \<and> list_all valid_msg acc
    \<and> (fst (add_message m b) \<longleftrightarrow> valid_msg m \<and> length (get_buffered_data b) + length (encoding m) \<le> n)"
proof -
  from add_messages_data [OF buffer_ok_init assms]
  have b: "buffer_ok b" "get_buffered_data b = concat (map encoding acc)" "list_all valid_msg acc"
      "max_size b = n"
    by (simp_all add: msg_buffer_init_def get_buffered_data_def)
  moreover from b(1,4) have "length (get_buffered_data b) = write_pos b" "write_pos b \<le> n"
    by (simp_all add: buffer_ok_def get_buffered_data_def)
  moreover have "fst (add_message m b) \<longleftrightarrow> valid_msg m \<and> write_pos b + length (encoding m) \<le> n"
    using buffered_data_add(2) [OF b(1), of m "fst (add_message m b)" "snd (add_message m b)"] b(4) by simp
  ultimately show ?thesis by simp
qed

theorem message_buffer_contents_witness:
  "\<exists>b. add_messages [Choke, Have 5, Interested] (msg_buffer_init 12) = ([Choke, Interested], b)
    \<and> \<not> fst (add_message Choke b)"
proof -
  obtain acc b where r: "add_messages [Choke, Have 5, Interested] (msg_buffer_init 12) = (acc, b)"
    by (cases "add_messages [Choke, Have 5, Interested] (msg_buffer_init 12)")
  moreover have "fst (add_messages [Choke, Have 5, Interested] (msg_buffer_init 12)) = [Choke, Interested]"
    by code_simp
  ultimately have "acc = [Choke, Interested]" by (simp only: fst_conv)
  moreover have "length (concat (map encoding [Choke, Interested])) + length (encoding Choke) > 12"
    by code_simp
  ultimately have "\<not> fst (add_message Choke b)"
    using message_buffer_contents [OF r, of Choke] by simp
  with r \<open>acc = [Choke, Interested]\<close> show ?thesis by blast
qed

end
