(* ===== verification/Bittorrent_V2.thy ===== *)
theory Bittorrent_V2
  imports Peer_Wire Bencode
begin

text \<open>
  \<open>ccbt/protocols/bittorrent_v2.py\<close> (BEP 52): detection and parsing of v1, v2 and hybrid
  handshakes, their construction, version negotiation, the handler of an incoming handshake,
  the upgrade of a v1 connection (by extension message or by a second handshake) and the four
  v2 messages. An asyncio stream reader is the record \<open>stream_reader\<close>.
\<close>

section \<open>Handshakes\<close>

datatype protocol_version = V1 | V2 | HYBRID

definition HANDSHAKE_V1_SIZE :: nat where "HANDSHAKE_V1_SIZE = 68"
definition HANDSHAKE_V2_SIZE :: nat where "HANDSHAKE_V2_SIZE = 80"

definition detect_protocol_version :: "bytes \<Rightarrow> protocol_version py" where
  "detect_protocol_version handshake =
     (if length handshake < 1 + 19 then Inl ProtocolVersionError
      else if handshake ! 0 \<noteq> 19 then Inl ProtocolVersionError
      else if take 19 (drop 1 handshake) \<noteq> PROTOCOL_STRING then Inl ProtocolVersionError
      else if length handshake < 1 + 19 + 8 then Inl ProtocolVersionError
      else
        let reserved = take 8 (drop 20 handshake);
            has_v2_support = (reserved ! 0 AND 0x01 \<noteq> 0);
            remaining = length handshake - (1 + 19 + 8)
        in if remaining = 20 + 20 then Inr (if has_v2_support then HYBRID else V1)
           else if remaining = 32 + 20 then Inr V2
           else if remaining = 20 + 32 + 20 then Inr HYBRID
           else Inl ProtocolVersionError)"

text \<open>The dictionary the parser returns; a hash that is not found is left out (\<open>None\<close>).\<close>

record parsed_handshake =
  p_protocol :: bytes
  p_reserved :: bytes
  p_peer_id :: bytes
  p_version :: protocol_version
  p_info_hash_v2 :: "bytes option"
  p_info_hash_v1 :: "bytes option"

definition truthy :: "bytes option \<Rightarrow> bool" where
  "truthy b \<longleftrightarrow> b \<noteq> None \<and> b \<noteq> Some []"

definition parsed_result ::
  "bytes \<Rightarrow> protocol_version \<Rightarrow> bytes option \<Rightarrow> bytes option \<Rightarrow> bytes \<Rightarrow> parsed_handshake" where
  "parsed_result data version v2 v1 pid =
     \<lparr>p_protocol = take 19 (drop 1 data), p_reserved = take 8 (drop 20 data), p_peer_id = pid,
      p_version = version,
      p_info_hash_v2 = (if truthy v2 then v2 else None),
      p_info_hash_v1 = (if truthy v1 then v1 else None)\<rparr>"

definition parse_v2_handshake :: "bytes \<Rightarrow> parsed_handshake py" where
  "parse_v2_handshake data =
     (if length data < HANDSHAKE_V1_SIZE then Inl ProtocolVersionError
      else if data ! 0 \<noteq> 19 then Inl ProtocolVersionError
      else if take 19 (drop 1 data) \<noteq> PROTOCOL_STRING then Inl ProtocolVersionError
      else pbind (detect_protocol_version data) (\<lambda>version.
        case version of
          V2 \<Rightarrow>
            if length data < 28 + 32 + 20 then Inl ProtocolVersionError
            else Inr (parsed_result data version (Some (take 32 (drop 28 data))) None
                        (take 20 (drop 60 data)))
        | HYBRID \<Rightarrow>
            if 28 + 20 + 32 + 20 \<le> length data
            then Inr (parsed_result data version (Some (take 32 (drop 48 data)))
                        (Some (take 20 (drop 28 data))) (take 20 (drop 80 data)))
            else if 28 + 20 + 20 \<le> length data
            then Inr (parsed_result data version None (Some (take 20 (drop 28 data)))
                        (take 20 (drop 48 data)))
            else Inl ProtocolVersionError
        | V1 \<Rightarrow>
            if length data < 28 + 20 + 20 then Inl ProtocolVersionError
            else Inr (parsed_result data version None (Some (take 20 (drop 28 data)))
                        (take 20 (drop 48 data)))))"

definition create_v2_handshake :: "bytes \<Rightarrow> bytes \<Rightarrow> bytes py" where
  "create_v2_handshake info_hash_v2 pid =
     (if length info_hash_v2 \<noteq> 32 then Inl ProtocolVersionError
      else if length pid \<noteq> 20 then Inl ProtocolVersionError
      else Inr ([19] @ PROTOCOL_STRING @ or_byte (replicate 8 0) 0 0x01 @ info_hash_v2 @ pid))"

definition create_hybrid_handshake :: "bytes \<Rightarrow> bytes \<Rightarrow> bytes \<Rightarrow> bytes py" where
  "create_hybrid_handshake info_hash_v1 info_hash_v2 pid =
     (if length info_hash_v1 \<noteq> 20 then Inl ProtocolVersionError
      else if length info_hash_v2 \<noteq> 32 then Inl ProtocolVersionError
      else if length pid \<noteq> 20 then Inl ProtocolVersionError
      else Inr ([19] @ PROTOCOL_STRING @ or_byte (replicate 8 0) 0 0x01
                  @ info_hash_v1 @ info_hash_v2 @ pid))"

text \<open>The senders: a writer is the list of bytes written to it.\<close>

definition send_v2_handshake :: "bytes \<Rightarrow> bytes \<Rightarrow> bytes \<Rightarrow> bytes py" where
  "send_v2_handshake writer info_hash_v2 pid =
     pbind (create_v2_handshake info_hash_v2 pid) (\<lambda>h. Inr (writer @ h))"

definition send_hybrid_handshake :: "bytes \<Rightarrow> bytes \<Rightarrow> bytes \<Rightarrow> bytes \<Rightarrow> bytes py" where
  "send_hybrid_handshake writer info_hash_v1 info_hash_v2 pid =
     pbind (create_hybrid_handshake info_hash_v1 info_hash_v2 pid) (\<lambda>h. Inr (writer @ h))"

section \<open>Negotiation\<close>

definition version_priority :: "protocol_version \<Rightarrow> int" where
  "version_priority v = (case v of HYBRID \<Rightarrow> 3 | V2 \<Rightarrow> 2 | V1 \<Rightarrow> 1)"

definition negotiate_protocol_version ::
  "bytes \<Rightarrow> protocol_version list \<Rightarrow> protocol_version option" where
  "negotiate_protocol_version handshake supported =
     (case detect_protocol_version handshake of
        Inl _ \<Rightarrow> None
      | Inr peer \<Rightarrow>
          let common = filter (\<lambda>v. v = peer \<or> (v = HYBRID \<and> peer \<in> {V1, V2})) supported
          in if common = [] then None
             else case peer of
               HYBRID \<Rightarrow> Some (hd (sort_key (\<lambda>v. - version_priority v) (supported @ [peer])))
             | V2 \<Rightarrow> if V2 \<in> set supported then Some V2
                     else if HYBRID \<in> set supported then Some HYBRID else None
             | V1 \<Rightarrow> if HYBRID \<in> set supported then Some HYBRID
                     else if V1 \<in> set supported then Some V1 else None)"

section \<open>The handler of an incoming handshake\<close>

text \<open>
  An \<open>asyncio.StreamReader\<close>: the bytes that arrive before the deadlines of the reads, and
  whether the peer then closes the stream. \<open>readexactly\<close> takes \<open>n\<close> bytes when they are there;
  at the end of the stream it empties its buffer and raises \<open>IncompleteReadError\<close>; otherwise it
  waits for the rest until \<open>wait_for\<close> cancels it, which leaves the buffer as it is.
\<close>

record stream_reader =
  rd_buffer :: bytes
  rd_eof :: bool

definition readexactly :: "nat \<Rightarrow> stream_reader \<Rightarrow> bytes py \<times> stream_reader" where
  "readexactly n rd =
     (if n \<le> length (rd_buffer rd)
      then (Inr (take n (rd_buffer rd)), rd\<lparr>rd_buffer := drop n (rd_buffer rd)\<rparr>)
      else if rd_eof rd then (Inl IncompleteReadError, rd\<lparr>rd_buffer := []\<rparr>)
      else (Inl TimeoutError, rd))"

text \<open>The part of the handler after the read: parsing and the checks of the info hashes.\<close>

definition check_handshake ::
  "bytes option \<Rightarrow> bytes option \<Rightarrow> bytes \<Rightarrow> (protocol_version \<times> bytes \<times> parsed_handshake) py" where
  "check_handshake our_v2 our_v1 data =
     pbind (parse_v2_handshake data) (\<lambda>p.
       let version = p_version p; peer_v2 = p_info_hash_v2 p;
           peer_v1 = (if \<not> truthy (p_info_hash_v1 p) \<and> HANDSHAKE_V1_SIZE \<le> length data
                      then Some (take 20 (drop 28 data)) else p_info_hash_v1 p)
       in if truthy our_v2 \<and> version \<in> {V2, HYBRID} \<and> truthy peer_v2 \<and> peer_v2 \<noteq> our_v2
          then Inl ValueError
          else if truthy our_v1 \<and> version \<in> {V1, HYBRID} \<and> truthy peer_v1 \<and> peer_v1 \<noteq> our_v1
          then Inl ValueError
          else Inr (version, p_peer_id p, p))"

definition handle_v2_handshake ::
  "stream_reader \<Rightarrow> bytes option \<Rightarrow> bytes option
     \<Rightarrow> (protocol_version \<times> bytes \<times> parsed_handshake) py \<times> stream_reader" where
  "handle_v2_handshake rd our_v2 our_v1 =
     (case readexactly HANDSHAKE_V2_SIZE rd of
        (Inr data, rd1) \<Rightarrow> (check_handshake our_v2 our_v1 data, rd1)
      | (Inl IncompleteReadError, rd1) \<Rightarrow>
          (case readexactly HANDSHAKE_V1_SIZE rd1 of
             (Inr data, rd2) \<Rightarrow> (check_handshake our_v2 our_v1 data, rd2)
           | (Inl IncompleteReadError, rd2) \<Rightarrow> (Inl ProtocolVersionError, rd2)
           | (Inl e, rd2) \<Rightarrow> (Inl e, rd2))
      | (Inl e, rd1) \<Rightarrow> (Inl e, rd1))"

section \<open>Extension messages\<close>

text \<open>\<open>ExtensionProtocol.encode_extension_message\<close> and its inverse.\<close>

definition EXTENDED :: int where "EXTENDED = 20"

definition encode_extension_message :: "int \<Rightarrow> bytes \<Rightarrow> bytes py" where
  "encode_extension_message mid payload =
     pbind (packs [(4, int (length payload) + 1), (1, mid)]) (\<lambda>hdr. Inr (hdr @ payload))"

definition decode_extension_message :: "bytes \<Rightarrow> (int \<times> bytes) py" where
  "decode_extension_message data =
     (if length data < 5 then Inl ValueError
      else let f = unpacks [4, 1] (take 5 data); len = f ! 0; mid = f ! 1
           in if int (length data) < 5 + len - 1 then Inl ValueError
              else Inr (mid, py_slice data 5 (5 + len - 1)))"

text \<open>
  The connection object the upgrade works on. \<open>None\<close> in \<open>c_writer\<close> or \<open>c_reader\<close> is a missing
  stream, \<open>None\<close> in \<open>c_version\<close> or \<open>c_info_hash_v2\<close> a missing attribute. \<open>c_ext_manager\<close> is the
  answer of \<open>extension_manager.is_extension_active("protocol")\<close> when there is such a manager.
\<close>

record v2_connection =
  c_writer :: "bytes option"
  c_reader :: "stream_reader option"
  c_our_peer_id :: "bytes option"
  c_ext_protocol :: bool
  c_ext_manager :: "bool option"
  c_reserved :: "bytes option"
  c_version :: "protocol_version option option"
  c_info_hash_v2 :: "bytes option option"

definition send_extension_message ::
  "v2_connection \<Rightarrow> int \<Rightarrow> bytes \<Rightarrow> bool \<times> v2_connection" where
  "send_extension_message c mid payload =
     (case c_writer c of
        None \<Rightarrow> (False, c)
      | Some w \<Rightarrow>
          (case encode_extension_message mid payload of
             Inl _ \<Rightarrow> (False, c)
           | Inr msg \<Rightarrow> (True, c\<lparr>c_writer := Some (w @ msg)\<rparr>)))"

definition receive_extension_message ::
  "v2_connection \<Rightarrow> (int \<times> bytes) option \<times> v2_connection" where
  "receive_extension_message c =
     (case c_reader c of
        None \<Rightarrow> (None, c)
      | Some rd \<Rightarrow>
          (case readexactly 4 rd of
             (Inl _, rd1) \<Rightarrow> (None, c\<lparr>c_reader := Some rd1\<rparr>)
           | (Inr len_data, rd1) \<Rightarrow>
               if unpack_be len_data = 0 then (None, c\<lparr>c_reader := Some rd1\<rparr>)
               else (case readexactly (nat (unpack_be len_data)) rd1 of
                  (Inl _, rd2) \<Rightarrow> (None, c\<lparr>c_reader := Some rd2\<rparr>)
                | (Inr payload, rd2) \<Rightarrow>
                    (if length payload < 1 then None
                     else if unpack_be (take 1 payload) \<noteq> EXTENDED then None
                     else if length payload < 2 then None
                     else Some (unpack_be (take 1 (drop 1 payload)), drop 2 payload),
                     c\<lparr>c_reader := Some rd2\<rparr>))))"

section \<open>Upgrading a connection\<close>

definition check_extension_protocol_support :: "v2_connection \<Rightarrow> bool" where
  "check_extension_protocol_support c =
     (if c_ext_protocol c then True
      else case c_ext_manager c of
        Some active \<Rightarrow> active
      | None \<Rightarrow>
          (case c_reserved c of
             Some r \<Rightarrow> if 6 \<le> length r then r ! 5 AND 0x10 \<noteq> 0 else False
           | None \<Rightarrow> False))"

definition upgrade_peer_id :: "v2_connection \<Rightarrow> bytes" where
  "upgrade_peer_id c =
     (case c_our_peer_id c of Some p \<Rightarrow> p | None \<Rightarrow> ascii ''-CC0101-'' @ replicate 12 120)"

text \<open>\<open>protocol_version\<close> and \<open>info_hash_v2\<close> are set only where the connection has them.\<close>

definition mark_upgraded :: "bytes \<Rightarrow> v2_connection \<Rightarrow> v2_connection" where
  "mark_upgraded ih c =
     c\<lparr>c_version := map_option (\<lambda>_. Some V2) (c_version c),
       c_info_hash_v2 := map_option (\<lambda>_. Some ih) (c_info_hash_v2 c)\<rparr>"

definition upgrade_request :: "bytes \<Rightarrow> bytes \<Rightarrow> pyobj" where
  "upgrade_request ih pid =
     PDict [(PBytes (ascii ''info_hash_v2''), PBytes ih),
            (PBytes (ascii ''peer_id''), PBytes pid),
            (PBytes (ascii ''version''), PBytes (ascii ''2.0''))]"

definition dict_get :: "pyobj \<Rightarrow> (pyobj \<times> pyobj) list \<Rightarrow> pyobj option" where
  "dict_get k d = map_of d k"

text \<open>\<open>not v\<close> for a value that \<open>dict.get\<close> returned.\<close>

fun falsy :: "pyobj option \<Rightarrow> bool" where
  "falsy None = True"
| "falsy (Some (PInt i)) = (i = 0)"
| "falsy (Some (PBool b)) = (\<not> b)"
| "falsy (Some (PBytes b)) = (b = [])"
| "falsy (Some (PStr s)) = (s = [])"
| "falsy (Some (PList l)) = (l = [])"
| "falsy (Some (PDict d)) = (d = [])"
| "falsy (Some POther) = False"

definition accept_upgrade_response ::
  "bytes \<Rightarrow> pyobj py \<Rightarrow> v2_connection \<Rightarrow> bool \<times> v2_connection" where
  "accept_upgrade_response ih response c =
     (case response of
        Inr (PDict d) \<Rightarrow>
          (let peer = dict_get (PBytes (ascii ''info_hash_v2'')) d
           in if falsy peer then (False, c)
              else if peer \<noteq> Some (PBytes ih) then (False, c)
              else (True, mark_upgraded ih c))
      | _ \<Rightarrow> (False, c))"

text \<open>\<open>None\<close> is the bencode decoder running out of fuel on the response.\<close>

definition upgrade_via_extension_protocol ::
  "(nat list \<Rightarrow> int option) \<Rightarrow> nat \<Rightarrow> v2_connection \<Rightarrow> bytes \<Rightarrow> (bool \<times> v2_connection) option" where
  "upgrade_via_extension_protocol uni fuel c ih =
     (case pbind (encode (upgrade_request ih (upgrade_peer_id c))) (\<lambda>payload.
             pbind (packs [(1, 1)]) (\<lambda>mid. encode_extension_message EXTENDED (mid @ payload))) of
        Inl _ \<Rightarrow> Some (False, c)
      | Inr msg \<Rightarrow>
          let c1 = c\<lparr>c_writer := map_option (\<lambda>w. w @ msg) (c_writer c)\<rparr>
          in if c_reader c1 = None then Some (False, c1)
             else case receive_extension_message c1 of
               (None, c2) \<Rightarrow> Some (False, c2)
             | (Some (ext_id, body), c2) \<Rightarrow>
                 if ext_id \<noteq> 1 then Some (False, c2)
                 else (case decode uni fuel body of
                         None \<Rightarrow> None
                       | Some r \<Rightarrow> Some (accept_upgrade_response ih r c2)))"

definition upgrade_via_direct_handshake ::
  "v2_connection \<Rightarrow> bytes \<Rightarrow> bool \<times> v2_connection" where
  "upgrade_via_direct_handshake c ih =
     (case c_writer c of
        None \<Rightarrow> (False, c)
      | Some w \<Rightarrow>
          (case send_v2_handshake w ih (upgrade_peer_id c) of
             Inl _ \<Rightarrow> (False, c)
           | Inr w' \<Rightarrow>
               let c1 = c\<lparr>c_writer := Some w'\<rparr>
               in case c_reader c1 of
                 None \<Rightarrow> (False, c1)
               | Some rd \<Rightarrow>
                   (case readexactly HANDSHAKE_V2_SIZE rd of
                      (Inl _, rd1) \<Rightarrow> (False, c1\<lparr>c_reader := Some rd1\<rparr>)
                    | (Inr response, rd1) \<Rightarrow>
                        let c2 = c1\<lparr>c_reader := Some rd1\<rparr>
                        in case parse_v2_handshake response of
                          Inl _ \<Rightarrow> (False, c2)
                        | Inr p \<Rightarrow>
                            if truthy (p_info_hash_v2 p) \<and> p_info_hash_v2 p = Some ih
                            then (True, mark_upgraded ih c2) else (False, c2))))"

definition upgrade_to_v2 ::
  "(nat list \<Rightarrow> int option) \<Rightarrow> nat \<Rightarrow> v2_connection \<Rightarrow> bytes \<Rightarrow> (bool \<times> v2_connection) option" where
  "upgrade_to_v2 uni fuel c ih =
     (if length ih \<noteq> 32 then Some (False, c)
      else if c_writer c = None then Some (False, c)
      else if check_extension_protocol_support c then upgrade_via_extension_protocol uni fuel c ih
      else Some (upgrade_via_direct_handshake c ih))"

section \<open>v2 messages\<close>

datatype v2_message =
    PieceLayerRequest bytes
  | PieceLayerResponse bytes "bytes list"
  | FileTreeRequest
  | FileTreeResponse bytes

definition PIECE_LAYER_REQUEST :: int where "PIECE_LAYER_REQUEST = 20"
definition PIECE_LAYER_RESPONSE :: int where "PIECE_LAYER_RESPONSE = 21"
definition FILE_TREE_REQUEST :: int where "FILE_TREE_REQUEST = 22"
definition FILE_TREE_RESPONSE :: int where "FILE_TREE_RESPONSE = 23"

lemmas v2_message_ids = PIECE_LAYER_REQUEST_def PIECE_LAYER_RESPONSE_def FILE_TREE_REQUEST_def
  FILE_TREE_RESPONSE_def

definition piece_layer_request :: "bytes \<Rightarrow> v2_message py" where
  "piece_layer_request root =
     (if length root \<noteq> 32 then Inl ProtocolVersionError else Inr (PieceLayerRequest root))"

definition piece_layer_request_serialize :: "bytes \<Rightarrow> bytes py" where
  "piece_layer_request_serialize root =
     pbind (packs [(4, 1 + int (length root)), (1, PIECE_LAYER_REQUEST)]) (\<lambda>hdr. Inr (hdr @ root))"

definition piece_layer_request_deserialize :: "bytes \<Rightarrow> v2_message py" where
  "piece_layer_request_deserialize data =
     (if length data < 1 + 32 then Inl ProtocolVersionError
      else if unpack_be (take 1 data) \<noteq> PIECE_LAYER_REQUEST then Inl ProtocolVersionError
      else piece_layer_request (take 32 (drop 1 data)))"

definition piece_layer_response :: "bytes \<Rightarrow> bytes list \<Rightarrow> v2_message py" where
  "piece_layer_response root hashes =
     (if length root \<noteq> 32 then Inl ProtocolVersionError
      else if \<exists>h\<in>set hashes. length h \<noteq> 32 then Inl ProtocolVersionError
      else Inr (PieceLayerResponse root hashes))"

definition piece_layer_response_serialize :: "bytes \<Rightarrow> bytes list \<Rightarrow> bytes py" where
  "piece_layer_response_serialize root hashes =
     (let layer = concat hashes
      in pbind (packs [(4, 1 + int (length root) + int (length layer)), (1, PIECE_LAYER_RESPONSE)])
           (\<lambda>hdr. Inr (hdr @ root @ layer)))"

definition piece_layer_response_deserialize :: "bytes \<Rightarrow> v2_message py" where
  "piece_layer_response_deserialize data =
     (if length data < 1 + 32 then Inl ProtocolVersionError
      else if unpack_be (take 1 data) \<noteq> PIECE_LAYER_RESPONSE then Inl ProtocolVersionError
      else let root = take 32 (drop 1 data); layer = drop 33 data
           in if length layer mod 32 \<noteq> 0 then Inl ProtocolVersionError
              else piece_layer_response root (chunks 32 layer))"

definition file_tree_request_serialize :: "bytes py" where
  "file_tree_request_serialize = packs [(4, 1), (1, FILE_TREE_REQUEST)]"

definition file_tree_request_deserialize :: "bytes \<Rightarrow> v2_message py" where
  "file_tree_request_deserialize data =
     (if length data < 1 then Inl ProtocolVersionError
      else if unpack_be (take 1 data) \<noteq> FILE_TREE_REQUEST then Inl ProtocolVersionError
      else Inr FileTreeRequest)"

definition file_tree_response :: "bytes \<Rightarrow> v2_message py" where
  "file_tree_response tree =
     (if tree = [] then Inl ProtocolVersionError else Inr (FileTreeResponse tree))"

definition file_tree_response_serialize :: "bytes \<Rightarrow> bytes py" where
  "file_tree_response_serialize tree =
     pbind (packs [(4, 1 + int (length tree)), (1, FILE_TREE_RESPONSE)]) (\<lambda>hdr. Inr (hdr @ tree))"

definition file_tree_response_deserialize :: "bytes \<Rightarrow> v2_message py" where
  "file_tree_response_deserialize data =
     (if length data < 1 then Inl ProtocolVersionError
      else if unpack_be (take 1 data) \<noteq> FILE_TREE_RESPONSE then Inl ProtocolVersionError
      else if drop 1 data = [] then Inl ProtocolVersionError
      else file_tree_response (drop 1 data))"

fun v2_serialize :: "v2_message \<Rightarrow> bytes py" where
  "v2_serialize (PieceLayerRequest r) = piece_layer_request_serialize r"
| "v2_serialize (PieceLayerResponse r hs) = piece_layer_response_serialize r hs"
| "v2_serialize FileTreeRequest = file_tree_request_serialize"
| "v2_serialize (FileTreeResponse t) = file_tree_response_serialize t"

fun v2_deserialize_as :: "v2_message \<Rightarrow> bytes \<Rightarrow> v2_message py" where
  "v2_deserialize_as (PieceLayerRequest _) = piece_layer_request_deserialize"
| "v2_deserialize_as (PieceLayerResponse _ _) = piece_layer_response_deserialize"
| "v2_deserialize_as FileTreeRequest = file_tree_request_deserialize"
| "v2_deserialize_as (FileTreeResponse _) = file_tree_response_deserialize"

section \<open>Handshake layout\<close>

definition v2_prefix :: "bytes \<Rightarrow> bytes" where
  "v2_prefix reserved = [19] @ PROTOCOL_STRING @ reserved"

lemma length_v2_prefix [simp]: "length (v2_prefix r) = 20 + length r"
  by (simp add: v2_prefix_def)

lemma v2_prefix_fields [simp]:
  "(v2_prefix r @ xs) ! 0 = 19"
  "take 19 (drop 1 (v2_prefix r @ xs)) = PROTOCOL_STRING"
  "length r = 8 \<Longrightarrow> take 8 (drop 20 (v2_prefix r @ xs)) = r"
  "length r = 8 \<Longrightarrow> drop 28 (v2_prefix r @ xs) = xs"
  by (simp_all add: v2_prefix_def)

lemma v2_prefix_drop [simp]:
  "length r = 8 \<Longrightarrow> 28 \<le> n \<Longrightarrow> drop n (v2_prefix r @ xs) = drop (n - 28) xs"
  by (simp add: v2_prefix_def drop_Cons' )

lemma v2_prefix_parts [simp]:
  "take 19 (drop (Suc 0) (v2_prefix r)) = PROTOCOL_STRING"
  "drop 20 (v2_prefix r) = r"
  "v2_prefix r ! 20 = r ! 0"
  by (simp_all add: v2_prefix_def nth_append)

lemma v2_prefixI:
  assumes "28 \<le> length d" and "d ! 0 = 19" and "take 19 (drop 1 d) = PROTOCOL_STRING"
  shows "d = v2_prefix (take 8 (drop 20 d)) @ drop 28 d"
proof -
  have "d = take 1 d @ take 19 (drop 1 d) @ take 8 (drop 20 d) @ drop 28 d"
    using take_drop_join [of 20 1 19 d] take_drop_join [of 28 20 8 d] append_take_drop_id [of 1 d]
    by simp
  moreover have "take 1 d = [19]" using assms(1,2) by (cases d) auto
  ultimately show ?thesis using assms(3) by (simp add: v2_prefix_def)
qed

lemma detect_v2_prefix:
  assumes "length r = 8"
  shows "detect_protocol_version (v2_prefix r @ xs) =
    (if length xs = 40 then Inr (if r ! 0 AND 1 \<noteq> 0 then HYBRID else V1)
     else if length xs = 52 then Inr V2
     else if length xs = 72 then Inr HYBRID else Inl ProtocolVersionError)"
  using assms by (simp add: detect_protocol_version_def Let_def)

lemma detectD:
  assumes "detect_protocol_version d = Inr v"
  obtains r xs where "d = v2_prefix r @ xs" "length r = 8" "length xs \<in> {40, 52, 72}"
proof -
  from assms have "28 \<le> length d" "d ! 0 = 19" "take 19 (drop 1 d) = PROTOCOL_STRING"
      "length d - 28 \<in> {40, 52, 72}"
    by (auto simp: detect_protocol_version_def Let_def split: if_splits)
  then show thesis using v2_prefixI [of d] that [of "take 8 (drop 20 d)" "drop 28 d"] by simp
qed

text \<open>The four layouts a handshake can have.\<close>

fun layout :: "parsed_handshake \<Rightarrow> bytes" where
  "layout p = v2_prefix (p_reserved p)
     @ (case p_info_hash_v1 p of Some h \<Rightarrow> h | None \<Rightarrow> [])
     @ (case p_info_hash_v2 p of Some h \<Rightarrow> h | None \<Rightarrow> []) @ p_peer_id p"

definition opt_len :: "bytes option \<Rightarrow> nat \<Rightarrow> bool" where
  "opt_len ob n \<longleftrightarrow> (\<forall>b. ob = Some b \<longrightarrow> length b = n)"

definition well_formed :: "parsed_handshake \<Rightarrow> bool" where
  "well_formed p \<longleftrightarrow> p_protocol p = PROTOCOL_STRING \<and> length (p_reserved p) = 8
     \<and> length (p_peer_id p) = 20 \<and> opt_len (p_info_hash_v1 p) 20 \<and> opt_len (p_info_hash_v2 p) 32
     \<and> p_version p =
        (if p_info_hash_v2 p = None then (if p_reserved p ! 0 AND 1 \<noteq> 0 then HYBRID else V1)
         else if p_info_hash_v1 p = None then V2 else HYBRID)
     \<and> (p_info_hash_v1 p \<noteq> None \<or> p_info_hash_v2 p \<noteq> None)"

lemma truthy_Some [simp]: "truthy (Some b) \<longleftrightarrow> b \<noteq> []" "\<not> truthy None"
  by (auto simp: truthy_def)

lemma parse_v2_prefix:
  assumes "length r = 8"
  shows "parse_v2_handshake (v2_prefix r @ xs) =
    (if length xs = 40 then Inr \<lparr>p_protocol = PROTOCOL_STRING, p_reserved = r, p_peer_id = drop 20 xs,
          p_version = (if r ! 0 AND 1 \<noteq> 0 then HYBRID else V1),
          p_info_hash_v2 = None, p_info_hash_v1 = Some (take 20 xs)\<rparr>
     else if length xs = 52 then Inr \<lparr>p_protocol = PROTOCOL_STRING, p_reserved = r, p_peer_id = drop 32 xs,
          p_version = V2, p_info_hash_v2 = Some (take 32 xs), p_info_hash_v1 = None\<rparr>
     else if length xs = 72 then Inr \<lparr>p_protocol = PROTOCOL_STRING, p_reserved = r, p_peer_id = drop 52 xs,
          p_version = HYBRID, p_info_hash_v2 = Some (take 32 (drop 20 xs)), p_info_hash_v1 = Some (take 20 xs)\<rparr>
     else Inl ProtocolVersionError)"
  using assms
  by (simp add: parse_v2_handshake_def detect_v2_prefix HANDSHAKE_V1_SIZE_def parsed_result_def)

lemma parse_v2_handshakeD:
  assumes "parse_v2_handshake d = Inr p"
  obtains r xs where "d = v2_prefix r @ xs" "length r = 8" "length xs \<in> {40, 52, 72}"
proof -
  from assms obtain v where "detect_protocol_version d = Inr v"
    by (auto simp: parse_v2_handshake_def pbind_eq_Inr split: if_splits)
  then show thesis using that by (rule detectD)
qed

lemma parse_layout:
  "well_formed p \<Longrightarrow> parse_v2_handshake (layout p) = Inr p"
  by (cases p) (auto simp: well_formed_def parse_v2_prefix opt_len_def split: option.splits)

lemma parse_sound:
  assumes "parse_v2_handshake d = Inr p"
  shows "well_formed p \<and> layout p = d"
proof -
  from assms obtain r xs where d: "d = v2_prefix r @ xs" "length r = 8" "length xs \<in> {40, 52, 72}"
    by (rule parse_v2_handshakeD)
  have "xs = take 20 xs @ take 32 (drop 20 xs) @ drop 52 xs"
    using take_drop_join [of 52 20 32 xs] append_take_drop_id [of 20 xs] by simp
  with d assms show ?thesis
    by (auto simp: parse_v2_prefix well_formed_def opt_len_def split: if_splits)
qed

lemma v2_bit: "or_byte (replicate 8 0) 0 1 = [1, 0, 0, 0, 0, 0, 0, 0]"
  by code_simp

lemma create_v2_handshake_eq_Inr:
  "create_v2_handshake ih pid = Inr h \<longleftrightarrow>
     length ih = 32 \<and> length pid = 20 \<and> h = v2_prefix [1, 0, 0, 0, 0, 0, 0, 0] @ ih @ pid"
  by (auto simp: create_v2_handshake_def v2_bit v2_prefix_def)

lemma create_hybrid_handshake_eq_Inr:
  "create_hybrid_handshake ih1 ih2 pid = Inr h \<longleftrightarrow>
     length ih1 = 20 \<and> length ih2 = 32 \<and> length pid = 20
     \<and> h = v2_prefix [1, 0, 0, 0, 0, 0, 0, 0] @ ih1 @ ih2 @ pid"
  by (auto simp: create_hybrid_handshake_def v2_bit v2_prefix_def)

section \<open>The incoming handshake\<close>

lemma handle_short_stream:
  assumes "length (rd_buffer rd) < 80"
  shows "\<exists>e. fst (handle_v2_handshake rd o2 o1) = Inl e"
  using assms
  by (simp add: handle_v2_handshake_def readexactly_def HANDSHAKE_V2_SIZE_def HANDSHAKE_V1_SIZE_def)

lemma handle_long_stream:
  assumes "80 \<le> length (rd_buffer rd)"
  shows "handle_v2_handshake rd o2 o1 =
    (check_handshake o2 o1 (take 80 (rd_buffer rd)), rd\<lparr>rd_buffer := drop 80 (rd_buffer rd)\<rparr>)"
  using assms by (simp add: handle_v2_handshake_def readexactly_def HANDSHAKE_V2_SIZE_def)

section \<open>Negotiation\<close>

lemma hd_sort_hybrid:
  "hd (sort_key (\<lambda>v. - version_priority v) (vs @ [HYBRID])) = HYBRID"
proof -
  let ?f = "\<lambda>v. - version_priority v" and ?vs = "vs @ [HYBRID]"
  have "sorted (map ?f (sort_key ?f ?vs))" by (rule sorted_sort_key)
  moreover have "HYBRID \<in> set (sort_key ?f ?vs)" by simp
  ultimately have "?f (hd (sort_key ?f ?vs)) \<le> ?f HYBRID"
    by (cases "sort_key ?f ?vs") auto
  then show ?thesis
    by (cases "hd (sort_key ?f ?vs)") (simp_all add: version_priority_def)
qed

lemma negotiate_eq:
  "negotiate_protocol_version hs supported =
     (case detect_protocol_version hs of
        Inl _ \<Rightarrow> None
      | Inr V1 \<Rightarrow> if HYBRID \<in> set supported then Some HYBRID
                  else if V1 \<in> set supported then Some V1 else None
      | Inr V2 \<Rightarrow> if V2 \<in> set supported then Some V2
                  else if HYBRID \<in> set supported then Some HYBRID else None
      | Inr HYBRID \<Rightarrow> if HYBRID \<in> set supported then Some HYBRID else None)"
  by (auto simp: negotiate_protocol_version_def hd_sort_hybrid Let_def filter_empty_conv
      split: sum.splits protocol_version.splits)

section \<open>v2 messages\<close>

fun valid_v2_msg :: "v2_message \<Rightarrow> bool" where
  "valid_v2_msg (PieceLayerRequest r) \<longleftrightarrow> length r = 32"
| "valid_v2_msg (PieceLayerResponse r hs) \<longleftrightarrow> length r = 32 \<and> (\<forall>h\<in>set hs. length h = 32)
     \<and> 33 + 32 * int (length hs) < 2 ^ 32"
| "valid_v2_msg FileTreeRequest \<longleftrightarrow> True"
| "valid_v2_msg (FileTreeResponse t) \<longleftrightarrow> t \<noteq> [] \<and> 1 + int (length t) < 2 ^ 32"

definition v2_frame_decode :: "v2_message \<Rightarrow> bytes \<Rightarrow> v2_message py" where
  "v2_frame_decode k data = v2_deserialize_as k (drop 4 data)"

lemma length_concat_32: "\<forall>h\<in>set hs. length h = 32 \<Longrightarrow> length (concat hs) = 32 * length hs"
  by (induction hs) auto

lemmas v2_serialize_defs = piece_layer_request_serialize_def piece_layer_response_serialize_def
  file_tree_request_serialize_def file_tree_response_serialize_def

lemmas v2_deserialize_defs = piece_layer_request_deserialize_def piece_layer_response_deserialize_def
  file_tree_request_deserialize_def file_tree_response_deserialize_def piece_layer_request_def
  piece_layer_response_def file_tree_response_def

lemma v2_header:
  "packs [(4, n), (1, k)] = Inr hdr \<longleftrightarrow> length hdr = 5 \<and> unpack_be (take 4 hdr) = n \<and> unpack_be (drop 4 hdr) = k"
  by (auto simp: packs_iff)

lemma drop_4_header:
  assumes "length hdr = 5"
  shows "drop 4 (hdr @ xs) = [hdr ! 4] @ xs" and "drop 4 hdr = [hdr ! 4]"
proof -
  show "drop 4 hdr = [hdr ! 4]"
    using assms by (intro nth_equalityI) simp_all
  then show "drop 4 (hdr @ xs) = [hdr ! 4] @ xs" using assms by simp
qed

lemma v2_serialize_total: "valid_v2_msg m \<Longrightarrow> \<exists>bs. v2_serialize m = Inr bs"
  by (cases m) (auto simp: v2_serialize_defs v2_message_ids pbind_eq_Inr packs_eq_Inr Let_def length_concat_32)

text \<open>Every serialised message is a length prefix, the id byte and a body.\<close>

fun v2_body :: "v2_message \<Rightarrow> bytes" where
  "v2_body (PieceLayerRequest r) = r"
| "v2_body (PieceLayerResponse r hs) = r @ concat hs"
| "v2_body FileTreeRequest = []"
| "v2_body (FileTreeResponse t) = t"

fun v2_id :: "v2_message \<Rightarrow> int" where
  "v2_id (PieceLayerRequest r) = PIECE_LAYER_REQUEST"
| "v2_id (PieceLayerResponse r hs) = PIECE_LAYER_RESPONSE"
| "v2_id FileTreeRequest = FILE_TREE_REQUEST"
| "v2_id (FileTreeResponse t) = FILE_TREE_RESPONSE"

lemma v2_serialize_eq:
  "v2_serialize m = pbind (packs [(4, 1 + int (length (v2_body m))), (1, v2_id m)]) (\<lambda>hdr. Inr (hdr @ v2_body m))"
proof (cases m)
  case FileTreeRequest
  then show ?thesis
    by (cases "packs [(4, 1), (1, FILE_TREE_REQUEST)]") (simp_all add: v2_serialize_defs)
qed (simp_all add: v2_serialize_defs Let_def add.assoc)

lemma v2_serializeD:
  assumes "v2_serialize m = Inr bs"
  obtains b where "drop 4 bs = b # v2_body m" and "unpack_be [b] = v2_id m"
    and "unpack_be (take 4 bs) = 1 + int (length (v2_body m))" "length bs = 5 + length (v2_body m)"
proof -
  from assms obtain hdr where bs: "bs = hdr @ v2_body m"
    and "packs [(4, 1 + int (length (v2_body m))), (1, v2_id m)] = Inr hdr"
    unfolding v2_serialize_eq by (auto elim: pbindE)
  then have "length hdr = 5" "unpack_be (take 4 hdr) = 1 + int (length (v2_body m))"
      "unpack_be (drop 4 hdr) = v2_id m"
    unfolding v2_header by simp_all
  with drop_4_header(1) [of hdr "v2_body m"] drop_4_header(2) [of hdr] show thesis
    by (intro that [of "hdr ! 4"]) (simp_all add: bs)
qed

lemma v2_deserialize_body:
  assumes "valid_v2_msg m" and "unpack_be [b] = v2_id m"
  shows "v2_deserialize_as m (b # v2_body m) = Inr m"
proof (cases m)
  case (PieceLayerResponse r hs)
  then have "length r = 32" "\<forall>h\<in>set hs. length h = 32" using assms(1) by simp_all
  with PieceLayerResponse assms(2) show ?thesis
    by (simp add: v2_deserialize_defs Let_def chunks_concat length_concat_32)
qed (use assms in \<open>simp_all add: v2_deserialize_defs\<close>)

lemma v2_deserialize_serialize:
  assumes "valid_v2_msg m" and "v2_serialize m = Inr bs"
  shows "v2_deserialize_as m (drop 4 bs) = Inr m"
  using assms(2) by (rule v2_serializeD) (use assms(1) v2_deserialize_body in simp)

interpretation v2_codec: codec v2_serialize "v2_frame_decode k"
    "\<lambda>m. v2_deserialize_as m = v2_deserialize_as k \<and> valid_v2_msg m" for k
  by unfold_locales
    (auto simp: v2_frame_decode_def dest: v2_serialize_total v2_deserialize_serialize)


section \<open>Upgrades\<close>

lemma receive_keeps:
  "receive_extension_message c = (r, c') \<Longrightarrow>
     c_version c' = c_version c \<and> c_info_hash_v2 c' = c_info_hash_v2 c"
  by (auto simp: receive_extension_message_def split: option.splits prod.splits sum.splits if_splits)

definition upgrade_outcome :: "bytes \<Rightarrow> v2_connection \<Rightarrow> bool \<times> v2_connection \<Rightarrow> bool" where
  "upgrade_outcome ih c r \<longleftrightarrow>
     c_version (snd r) = (if fst r then map_option (\<lambda>_. Some V2) (c_version c) else c_version c)
     \<and> c_info_hash_v2 (snd r) = (if fst r then map_option (\<lambda>_. Some ih) (c_info_hash_v2 c) else c_info_hash_v2 c)"

lemma accept_outcome:
  "c_version c2 = c_version c \<Longrightarrow> c_info_hash_v2 c2 = c_info_hash_v2 c \<Longrightarrow>
     upgrade_outcome ih c (accept_upgrade_response ih r c2)"
  by (auto simp: upgrade_outcome_def accept_upgrade_response_def mark_upgraded_def Let_def
      split: sum.splits pyobj.splits)

lemma extension_outcome:
  assumes "upgrade_via_extension_protocol uni fuel c ih = Some r"
  shows "upgrade_outcome ih c r"
proof (cases "pbind (encode (upgrade_request ih (upgrade_peer_id c))) (\<lambda>payload.
             pbind (packs [(1, 1)]) (\<lambda>mid. encode_extension_message EXTENDED (mid @ payload)))")
  case (Inl e)
  with assms show ?thesis by (auto simp: upgrade_via_extension_protocol_def upgrade_outcome_def)
next
  case (Inr msg)
  let ?c1 = "c\<lparr>c_writer := map_option (\<lambda>w. w @ msg) (c_writer c)\<rparr>"
  obtain q c2 where q: "receive_extension_message ?c1 = (q, c2)"
    by (cases "receive_extension_message ?c1")
  then have keep: "c_version c2 = c_version c" "c_info_hash_v2 c2 = c_info_hash_v2 c"
    using receive_keeps [OF q] by simp_all
  show ?thesis
  proof (cases q)
    case None
    with assms Inr q keep show ?thesis
      by (auto simp: upgrade_via_extension_protocol_def upgrade_outcome_def Let_def split: if_splits)
  next
    case (Some p)
    with assms Inr q keep accept_outcome [OF keep] show ?thesis
      by (cases p)
        (auto simp: upgrade_via_extension_protocol_def upgrade_outcome_def Let_def
          split: if_splits option.splits)
  qed
qed

lemma direct_outcome: "upgrade_outcome ih c (upgrade_via_direct_handshake c ih)"
  by (auto simp: upgrade_via_direct_handshake_def upgrade_outcome_def mark_upgraded_def Let_def
      split: option.splits sum.splits prod.splits)

section \<open>Properties\<close>

text \<open>
  C22: the v2 handshake parser accepts exactly the byte strings laid out as length byte, protocol
  string, 8 reserved bytes, a v1 hash, a v2 hash or both, and a peer id; it returns those parts,
  and a version that follows from the hashes that are present and from the reserved bit.
\<close>

theorem parse_v2_handshake_iff:
  "parse_v2_handshake data = Inr p \<longleftrightarrow> well_formed p \<and> layout p = data"
  using parse_sound parse_layout by blast

text \<open>
  The handler of incoming handshakes never accepts a v1 handshake: at the end of the stream
  the failed read of 80 bytes has emptied the buffer that the second read relies on, and on an
  open stream the first read waits until it times out.
\<close>

theorem v1_handshake_never_accepted:
  assumes "valid_handshake h" and "handshake_encode h = Inr data"
  shows "fst (handle_v2_handshake \<lparr>rd_buffer = data, rd_eof = closed\<rparr> our_v2 our_v1)
    = Inl (if closed then ProtocolVersionError else TimeoutError)"
proof -
  have "length data = 68"
    using assms by (auto simp: handshake_encode_eq valid_handshake_def)
  then show ?thesis
    by (simp add: handle_v2_handshake_def readexactly_def HANDSHAKE_V2_SIZE_def HANDSHAKE_V1_SIZE_def)
qed

theorem v1_handshake_never_accepted_witness:
  "\<exists>data. handshake_encode \<lparr>info_hash = replicate 20 7, peer_id = replicate 20 9,
        reserved_bytes = RESERVED_BYTES, ed25519_public_key = None, ed25519_signature = None\<rparr> = Inr data
    \<and> fst (handle_v2_handshake \<lparr>rd_buffer = data, rd_eof = True\<rparr> None None) = Inl ProtocolVersionError"
  (is "\<exists>data. handshake_encode ?h = Inr data \<and> _")
proof -
  have v: "valid_handshake ?h" by (simp add: valid_handshake_def RESERVED_BYTES_def)
  obtain data where d: "handshake_encode ?h = Inr data"
    using handshake_codec.enc_total [OF v] by blast
  with v1_handshake_never_accepted [OF v d, of True None None] show ?thesis by simp
qed

text \<open>
  The handler misreads the extended hybrid handshake that this module creates: the 80 bytes
  it takes are read as a v2 handshake whose info hash is the v1 hash followed by 12 bytes of the
  v2 hash, whose peer id is the rest of the v2 hash, and the peer id stays in the stream.
\<close>

theorem hybrid_handshake_misread:
  assumes "create_hybrid_handshake ih1 ih2 pid = Inr data"
  shows "\<exists>p rd. handle_v2_handshake \<lparr>rd_buffer = data, rd_eof = closed\<rparr> None our_v1
      = (Inr (V2, drop 12 ih2, p), rd) \<and> p_info_hash_v2 p = Some (ih1 @ take 12 ih2)
      \<and> rd_buffer rd = pid"
proof -
  let ?r = "[1, 0, 0, 0, 0, 0, 0, 0] :: bytes"
  from assms have len: "length ih1 = 20" "length ih2 = 32" "length pid = 20"
    and data: "data = (v2_prefix ?r @ ih1 @ ih2) @ pid"
    by (auto simp: create_hybrid_handshake_eq_Inr)
  then have "take 80 data = v2_prefix ?r @ ih1 @ ih2" and "drop 80 data = pid" and "80 \<le> length data"
    by simp_all
  then show ?thesis
    using len
    by (simp add: handle_long_stream check_handshake_def parse_v2_prefix Let_def)
qed

theorem hybrid_handshake_misread_witness:
  "\<exists>data p rd. create_hybrid_handshake (replicate 20 1) (replicate 32 2) (replicate 20 3) = Inr data
    \<and> handle_v2_handshake \<lparr>rd_buffer = data, rd_eof = False\<rparr> None None = (Inr (V2, replicate 20 2, p), rd)
    \<and> rd_buffer rd = replicate 20 3"
proof -
  obtain data where d: "create_hybrid_handshake (replicate 20 1) (replicate 32 2) (replicate 20 3) = Inr data"
    by (simp add: create_hybrid_handshake_def)
  with hybrid_handshake_misread [OF d, of False None] show ?thesis by auto
qed

text \<open>
  Version negotiation only returns a version from our list, and finds one for a hybrid peer
  exactly when the list itself contains \<open>HYBRID\<close>: a peer that speaks both protocols is refused
  by a client that speaks one of them.
\<close>

theorem negotiate_sound:
  assumes "detect_protocol_version hs = Inr peer"
  shows "(\<forall>v. negotiate_protocol_version hs supported = Some v \<longrightarrow> v \<in> set supported)
    \<and> (negotiate_protocol_version hs supported = None \<longleftrightarrow>
        HYBRID \<notin> set supported \<and> (peer \<in> set supported \<longrightarrow> peer = HYBRID))"
  using assms by (cases peer) (auto simp: negotiate_eq)

theorem negotiate_sound_witness:
  "negotiate_protocol_version (v2_prefix [1, 0, 0, 0, 0, 0, 0, 0] @ replicate 40 0) [V2, V1] = None"
proof -
  have "detect_protocol_version (v2_prefix [1, 0, 0, 0, 0, 0, 0, 0] @ replicate 40 0) = Inr HYBRID"
    by (simp add: detect_v2_prefix)
  from negotiate_sound [OF this, of "[V2, V1]"] show ?thesis by simp
qed

text \<open>
  An upgrade changes the protocol version and the stored hash of a connection exactly when it
  reports success, and then to v2 and to our 32-byte hash.
\<close>

theorem upgrade_sets_version_iff_success:
  assumes "upgrade_to_v2 uni fuel c ih = Some (ok, c')"
  shows "c_version c' = (if ok then map_option (\<lambda>_. Some V2) (c_version c) else c_version c)
    \<and> c_info_hash_v2 c' = (if ok then map_option (\<lambda>_. Some ih) (c_info_hash_v2 c) else c_info_hash_v2 c)
    \<and> (ok \<longrightarrow> length ih = 32 \<and> c_writer c \<noteq> None)"
  using assms extension_outcome [of uni fuel c ih "(ok, c')"] direct_outcome [of ih c]
  by (auto simp: upgrade_to_v2_def upgrade_outcome_def split: if_splits)

theorem upgrade_sets_version_iff_success_witness:
  "\<exists>c. upgrade_to_v2 (\<lambda>_. None) 0 \<lparr>c_writer = Some [],
        c_reader = Some \<lparr>rd_buffer = v2_prefix (replicate 8 0) @ replicate 32 5 @ replicate 20 1, rd_eof = True\<rparr>,
        c_our_peer_id = None, c_ext_protocol = False, c_ext_manager = None, c_reserved = None,
        c_version = Some (Some V1), c_info_hash_v2 = None\<rparr> (replicate 32 5) = Some (True, c)
      \<and> c_version c = Some (Some V2)"
  (is "\<exists>c. upgrade_to_v2 _ _ ?c ?ih = _ \<and> _")
proof -
  have "parse_v2_handshake (v2_prefix (replicate 8 0) @ replicate 32 5 @ replicate 20 1)
      = Inr \<lparr>p_protocol = PROTOCOL_STRING, p_reserved = replicate 8 0, p_peer_id = replicate 20 1,
          p_version = V2, p_info_hash_v2 = Some ?ih, p_info_hash_v1 = None\<rparr>"
    by (subst parse_v2_prefix) simp_all
  moreover obtain w where "send_v2_handshake [] ?ih (upgrade_peer_id ?c) = Inr w"
    by (simp add: send_v2_handshake_def create_v2_handshake_def upgrade_peer_id_def)
  ultimately obtain c where r: "upgrade_to_v2 (\<lambda>_. None) 0 ?c ?ih = Some (True, c)"
    by (simp add: upgrade_to_v2_def check_extension_protocol_support_def
        upgrade_via_direct_handshake_def readexactly_def HANDSHAKE_V2_SIZE_def)
  with upgrade_sets_version_iff_success [OF r] show ?thesis by simp
qed

text \<open>
  A v2 message whose fields are in range can be serialised, and the class's \<open>deserialize\<close>
  reads it back from the bytes after the length prefix.
\<close>

theorem v2_message_roundtrip:
  assumes "valid_v2_msg m"
  shows "\<exists>bs. v2_serialize m = Inr bs \<and> unpack_be (take 4 bs) = int (length bs) - 4
    \<and> v2_deserialize_as m (drop 4 bs) = Inr m"
proof -
  from assms v2_codec.enc_total [of m m] obtain bs where bs: "v2_serialize m = Inr bs" by blast
  with assms have "v2_deserialize_as m (drop 4 bs) = Inr m" by (rule v2_deserialize_serialize)
  moreover from bs have "unpack_be (take 4 bs) = int (length bs) - 4" by (rule v2_serializeD) simp
  ultimately show ?thesis using bs by blast
qed

theorem v2_message_roundtrip_witness:
  "\<exists>bs. v2_serialize (PieceLayerResponse (replicate 32 1) [replicate 32 2, replicate 32 3]) = Inr bs
    \<and> v2_deserialize_as (PieceLayerResponse [] []) (drop 4 bs)
        = Inr (PieceLayerResponse (replicate 32 1) [replicate 32 2, replicate 32 3])"
  using v2_message_roundtrip [of "PieceLayerResponse (replicate 32 1) [replicate 32 2, replicate 32 3]"]
  by auto

end
