(* ===== verification/Message_Decoder.thy ===== *)
theory Message_Decoder
  imports Bittorrent_V2
begin

text \<open>
  The stream decoders of \<open>ccbt/peer/peer.py\<close>: \<open>AsyncMessageDecoder\<close> (also used as
  \<open>MessageDecoder\<close>), which skips a message that does not decode, and
  \<open>OptimizedMessageDecoder\<close>, which lets the exception out and also tries the v2 messages. Both
  reuse message objects from pools, so messages are addresses into the list \<open>objs\<close> of all
  objects, and a pooled object is overwritten when it is used again. The queue of the
  asynchronous decoder is modelled between calls of one feeder: its bound of 1000 only suspends
  \<open>put\<close> until the consumer has taken a message.
\<close>

section \<open>State\<close>

datatype wire_msg = Peer peer_message | Ext v2_message

record decoder =
  rx :: bytes
  pools :: "int \<Rightarrow> nat list"
  objs :: "wire_msg list"
  queue :: "nat list"

definition pool_types :: "int list" where
  "pool_types = [CHOKE, UNCHOKE, INTERESTED, NOT_INTERESTED, HAVE, REQUEST, CANCEL]"

definition decoder_init :: decoder where
  "decoder_init = \<lparr>rx = [], pools = (\<lambda>_. []), objs = [], queue = []\<rparr>"

fun obj_id :: "wire_msg \<Rightarrow> int" where
  "obj_id (Peer m) = message_id m"
| "obj_id (Ext m) = (case m of PieceLayerRequest _ \<Rightarrow> PIECE_LAYER_REQUEST
     | PieceLayerResponse _ _ \<Rightarrow> PIECE_LAYER_RESPONSE | FileTreeRequest \<Rightarrow> FILE_TREE_REQUEST
     | FileTreeResponse _ \<Rightarrow> FILE_TREE_RESPONSE)"

definition alloc :: "wire_msg \<Rightarrow> decoder \<Rightarrow> nat py \<times> decoder" where
  "alloc m d = (Inr (length (objs d)), d\<lparr>objs := objs d @ [m]\<rparr>)"

section \<open>Object pools\<close>

definition get_pooled_message :: "int \<Rightarrow> decoder \<Rightarrow> nat py \<times> decoder" where
  "get_pooled_message t d =
     (case pools d t of
        a # rest \<Rightarrow> (Inr a, d\<lparr>pools := (pools d)(t := rest)\<rparr>)
      | [] \<Rightarrow>
          if t = CHOKE then alloc (Peer Choke) d
          else if t = UNCHOKE then alloc (Peer Unchoke) d
          else if t = INTERESTED then alloc (Peer Interested) d
          else if t = NOT_INTERESTED then alloc (Peer NotInterested) d
          else (Inl MessageError, d))"

text \<open>Assigning the fields of a pooled object, which keeps its class.\<close>

fun set_piece_index :: "int \<Rightarrow> wire_msg \<Rightarrow> wire_msg" where
  "set_piece_index i (Peer (Have _)) = Peer (Have i)"
| "set_piece_index i m = m"

fun set_block :: "int \<Rightarrow> int \<Rightarrow> int \<Rightarrow> wire_msg \<Rightarrow> wire_msg" where
  "set_block i b l (Peer (Request _ _ _)) = Peer (Request i b l)"
| "set_block i b l (Peer (Cancel _ _ _)) = Peer (Cancel i b l)"
| "set_block i b l m = m"

definition get_pooled_have_message :: "int \<Rightarrow> decoder \<Rightarrow> nat py \<times> decoder" where
  "get_pooled_have_message i d =
     (case pools d HAVE of
        a # rest \<Rightarrow> (Inr a, d\<lparr>pools := (pools d)(HAVE := rest),
                            objs := (objs d)[a := set_piece_index i (objs d ! a)]\<rparr>)
      | [] \<Rightarrow> alloc (Peer (Have i)) d)"

definition get_pooled_request_message :: "int \<Rightarrow> int \<Rightarrow> int \<Rightarrow> decoder \<Rightarrow> nat py \<times> decoder" where
  "get_pooled_request_message i b l d =
     (case pools d REQUEST of
        a # rest \<Rightarrow> (Inr a, d\<lparr>pools := (pools d)(REQUEST := rest),
                            objs := (objs d)[a := set_block i b l (objs d ! a)]\<rparr>)
      | [] \<Rightarrow> alloc (Peer (Request i b l)) d)"

definition get_pooled_cancel_message :: "int \<Rightarrow> int \<Rightarrow> int \<Rightarrow> decoder \<Rightarrow> nat py \<times> decoder" where
  "get_pooled_cancel_message i b l d =
     (case pools d CANCEL of
        a # rest \<Rightarrow> (Inr a, d\<lparr>pools := (pools d)(CANCEL := rest),
                            objs := (objs d)[a := set_block i b l (objs d ! a)]\<rparr>)
      | [] \<Rightarrow> alloc (Peer (Cancel i b l)) d)"

definition return_message_to_pool :: "nat \<Rightarrow> decoder \<Rightarrow> decoder" where
  "return_message_to_pool a d =
     (let t = obj_id (objs d ! a) in
      if t \<in> set pool_types then
        if length (pools d t) < 100 then d\<lparr>pools := (pools d)(t := pools d t @ [a])\<rparr> else d
      else d)"

section \<open>Decoding one message\<close>

definition decode_simple_message :: "int \<Rightarrow> decoder \<Rightarrow> nat py \<times> decoder" where
  "decode_simple_message mid d =
     (if mid = CHOKE then get_pooled_message CHOKE d
      else if mid = UNCHOKE then get_pooled_message UNCHOKE d
      else if mid = INTERESTED then get_pooled_message INTERESTED d
      else if mid = NOT_INTERESTED then get_pooled_message NOT_INTERESTED d
      else (Inl MessageError, d))"

definition decode_v2_message :: "int \<Rightarrow> bytes \<Rightarrow> decoder \<Rightarrow> nat py \<times> decoder" where
  "decode_v2_message mid data d =
     (let payload = drop 1 data;
          r = (if mid = PIECE_LAYER_REQUEST then piece_layer_request_deserialize payload
               else if mid = PIECE_LAYER_RESPONSE then piece_layer_response_deserialize payload
               else if mid = FILE_TREE_REQUEST then file_tree_request_deserialize payload
               else if mid = FILE_TREE_RESPONSE then file_tree_response_deserialize payload
               else Inl MessageError)
      in case r of Inl e \<Rightarrow> (Inl e, d) | Inr m \<Rightarrow> alloc (Ext m) d)"

definition async_decode_complex :: "int \<Rightarrow> bytes \<Rightarrow> decoder \<Rightarrow> nat py \<times> decoder" where
  "async_decode_complex mid data d =
     (if mid = HAVE then
        if length data \<noteq> 5 then (Inl MessageError, d)
        else get_pooled_have_message (unpack_be (take 4 (drop 1 data))) d
      else if mid = BITFIELD then
        if length data < 1 then (Inl MessageError, d) else alloc (Peer (Bitfield (drop 1 data))) d
      else if mid = REQUEST then
        if length data \<noteq> 13 then (Inl MessageError, d)
        else let f = unpacks [4, 4, 4] (drop 1 data)
             in get_pooled_request_message (f ! 0) (f ! 1) (f ! 2) d
      else if mid = PIECE then
        if length data < 9 then (Inl MessageError, d)
        else let f = unpacks [4, 4] (take 8 (drop 1 data))
             in alloc (Peer (Piece (f ! 0) (f ! 1) (drop 9 data))) d
      else if mid = CANCEL then
        if length data \<noteq> 13 then (Inl MessageError, d)
        else let f = unpacks [4, 4, 4] (drop 1 data)
             in get_pooled_cancel_message (f ! 0) (f ! 1) (f ! 2) d
      else (Inl MessageError, d))"

definition optimized_decode_complex :: "int \<Rightarrow> bytes \<Rightarrow> decoder \<Rightarrow> nat py \<times> decoder" where
  "optimized_decode_complex mid data d =
     (if mid = HAVE then
        if length data \<noteq> 5 then (Inl MessageError, d)
        else get_pooled_have_message (unpack_be (take 4 (drop 1 data))) d
      else if mid = BITFIELD then
        if length data < 1 then (Inl MessageError, d) else alloc (Peer (Bitfield (drop 1 data))) d
      else if mid = REQUEST then
        if length data \<noteq> 13 then (Inl MessageError, d)
        else let f = unpacks [4, 4, 4] (drop 1 data)
             in get_pooled_request_message (f ! 0) (f ! 1) (f ! 2) d
      else if mid = PIECE then
        if length data < 9 then (Inl MessageError, d)
        else let f = unpacks [4, 4] (take 8 (drop 1 data))
             in alloc (Peer (Piece (f ! 0) (f ! 1) (drop 9 data))) d
      else if mid = CANCEL then
        if length data \<noteq> 13 then (Inl MessageError, d)
        else let f = unpacks [4, 4, 4] (drop 1 data)
             in get_pooled_cancel_message (f ! 0) (f ! 1) (f ! 2) d
      else decode_v2_message mid data d)"

text \<open>The dispatch on the length of a complete message, shared by both loops.\<close>

definition decode_frame ::
  "(int \<Rightarrow> bytes \<Rightarrow> decoder \<Rightarrow> nat py \<times> decoder) \<Rightarrow> bytes \<Rightarrow> decoder \<Rightarrow> nat py \<times> decoder" where
  "decode_frame complex data d =
     (if length data = 0 then alloc (Peer KeepAlive) d
      else let mid = uint (data ! 0)
           in if length data = 1 then decode_simple_message mid d else complex mid data d)"

section \<open>The loops\<close>

function process_buffer :: "decoder \<Rightarrow> decoder" where
  "process_buffer d =
     (if length (rx d) < 4 then d
      else let len = nat (unpack_be (take 4 (rx d)))
           in if length (rx d) < 4 + len then d
              else let data = take len (drop 4 (rx d))
                   in case decode_frame async_decode_complex data d of
                        (Inr a, d1) \<Rightarrow>
                          process_buffer (d1\<lparr>queue := queue d1 @ [a], rx := drop (4 + len) (rx d)\<rparr>)
                      | (Inl _, d1) \<Rightarrow> process_buffer (d1\<lparr>rx := drop (4 + len) (rx d)\<rparr>))"
  by pat_completeness auto
termination
  by (relation "measure (\<lambda>d. length (rx d))") auto

definition feed_data :: "bytes \<Rightarrow> decoder \<Rightarrow> decoder" where
  "feed_data data d = process_buffer (d\<lparr>rx := rx d @ data\<rparr>)"

text \<open>\<open>get_message\<close> returns \<open>None\<close> when its timeout expires on an empty queue.\<close>

definition get_message :: "decoder \<Rightarrow> nat option \<times> decoder" where
  "get_message d =
     (case queue d of [] \<Rightarrow> (None, d) | a # q \<Rightarrow> (Some a, d\<lparr>queue := q\<rparr>))"

fun get_messages :: "nat \<Rightarrow> decoder \<Rightarrow> nat list \<times> decoder" where
  "get_messages 0 d = ([], d)"
| "get_messages (Suc n) d =
     (case get_message d of
        (None, d1) \<Rightarrow> ([], d1)
      | (Some a, d1) \<Rightarrow> (let (rest, d2) = get_messages n d1 in (a # rest, d2)))"

text \<open>
  The loop of \<open>OptimizedMessageDecoder.add_data\<close>: an exception leaves with the message still in
  the buffer and discards the list of the messages decoded before it.
\<close>

function add_data_loop :: "nat list \<Rightarrow> decoder \<Rightarrow> nat list py \<times> decoder" where
  "add_data_loop messages d =
     (if length (rx d) < 4 then (Inr messages, d)
      else let len = nat (unpack_be (take 4 (rx d)))
           in if length (rx d) < 4 + len then (Inr messages, d)
              else let data = take len (drop 4 (rx d))
                   in case decode_frame optimized_decode_complex data d of
                        (Inr a, d1) \<Rightarrow>
                          add_data_loop (messages @ [a]) (d1\<lparr>rx := drop (4 + len) (rx d)\<rparr>)
                      | (Inl e, d1) \<Rightarrow> (Inl e, d1))"
  by pat_completeness auto
termination
  by (relation "measure (\<lambda>(_, d). length (rx d))") auto

definition add_data :: "bytes \<Rightarrow> decoder \<Rightarrow> nat list py \<times> decoder" where
  "add_data data d = add_data_loop [] (d\<lparr>rx := rx d @ data\<rparr>)"

declare process_buffer.simps [simp del] add_data_loop.simps [simp del]

section \<open>What a frame means\<close>

definition frame_wire :: "(bytes \<Rightarrow> wire_msg py) \<Rightarrow> bytes \<Rightarrow> wire_msg py" where
  "frame_wire ext data =
     (if data = [] then Inr (Peer KeepAlive)
      else let mid = uint (data ! 0)
      in if length data = 1 then
           (if mid = CHOKE then Inr (Peer Choke) else if mid = UNCHOKE then Inr (Peer Unchoke)
            else if mid = INTERESTED then Inr (Peer Interested)
            else if mid = NOT_INTERESTED then Inr (Peer NotInterested) else Inl MessageError)
         else if mid = HAVE then
           (if length data \<noteq> 5 then Inl MessageError
            else Inr (Peer (Have (unpack_be (take 4 (drop 1 data))))))
         else if mid = BITFIELD then Inr (Peer (Bitfield (drop 1 data)))
         else if mid = REQUEST then
           (if length data \<noteq> 13 then Inl MessageError
            else let f = unpacks [4, 4, 4] (drop 1 data) in Inr (Peer (Request (f ! 0) (f ! 1) (f ! 2))))
         else if mid = PIECE then
           (if length data < 9 then Inl MessageError
            else let f = unpacks [4, 4] (take 8 (drop 1 data))
                 in Inr (Peer (Piece (f ! 0) (f ! 1) (drop 9 data))))
         else if mid = CANCEL then
           (if length data \<noteq> 13 then Inl MessageError
            else let f = unpacks [4, 4, 4] (drop 1 data) in Inr (Peer (Cancel (f ! 0) (f ! 1) (f ! 2))))
         else ext data)"

definition async_wire :: "bytes \<Rightarrow> wire_msg py" where
  "async_wire = frame_wire (\<lambda>_. Inl MessageError)"

definition v2_wire :: "bytes \<Rightarrow> wire_msg py" where
  "v2_wire data =
     (let mid = uint (data ! 0); payload = drop 1 data in
      pbind (if mid = PIECE_LAYER_REQUEST then piece_layer_request_deserialize payload
             else if mid = PIECE_LAYER_RESPONSE then piece_layer_response_deserialize payload
             else if mid = FILE_TREE_REQUEST then file_tree_request_deserialize payload
             else if mid = FILE_TREE_RESPONSE then file_tree_response_deserialize payload
             else Inl MessageError) (\<lambda>m. Inr (Ext m)))"

definition optimized_wire :: "bytes \<Rightarrow> wire_msg py" where
  "optimized_wire = frame_wire v2_wire"

section \<open>Ownership of message objects\<close>

text \<open>
  \<open>live\<close> are the objects held by the queue or by the client. Pools hold other objects of the
  right class, each once.
\<close>

definition decoder_ok :: "nat set \<Rightarrow> decoder \<Rightarrow> bool" where
  "decoder_ok live d \<longleftrightarrow>
     (\<forall>a\<in>live. a < length (objs d))
     \<and> (\<forall>t. distinct (pools d t) \<and> (pools d t \<noteq> [] \<longrightarrow> t \<in> set pool_types)
          \<and> (\<forall>a\<in>set (pools d t). a < length (objs d) \<and> a \<notin> live \<and> obj_id (objs d ! a) = t
               \<and> (\<exists>m. objs d ! a = Peer m)))"

lemma decoder_ok_init: "decoder_ok {} decoder_init"
  by (simp add: decoder_ok_def decoder_init_def)

definition same_objs :: "nat set \<Rightarrow> decoder \<Rightarrow> decoder \<Rightarrow> bool" where
  "same_objs L d d' \<longleftrightarrow> (\<forall>a\<in>L. objs d' ! a = objs d ! a)"

text \<open>The contract of a routine that delivers one object.\<close>

definition delivers :: "nat set \<Rightarrow> decoder \<Rightarrow> wire_msg py \<Rightarrow> nat py \<times> decoder \<Rightarrow> bool" where
  "delivers L d spec r \<longleftrightarrow>
     (case spec of
        Inl e \<Rightarrow> r = (Inl e, d)
      | Inr m \<Rightarrow> \<exists>a d'. r = (Inr a, d') \<and> a \<notin> L \<and> objs d' ! a = m \<and> decoder_ok (insert a L) d'
                   \<and> same_objs L d d' \<and> rx d' = rx d \<and> queue d' = queue d)"

lemma delivers_Inl [simp]: "delivers L d (Inl e) r \<longleftrightarrow> r = (Inl e, d)"
  by (simp add: delivers_def)

lemma decoder_ok_live: "decoder_ok L d \<Longrightarrow> a \<in> L \<Longrightarrow> a < length (objs d)"
  by (simp add: decoder_ok_def)

lemma delivers_alloc: "decoder_ok L d \<Longrightarrow> delivers L d (Inr m) (alloc m d)"
  by (auto simp: delivers_def alloc_def decoder_ok_def same_objs_def nth_append intro: less_SucI)

lemma delivers_pooled:
  assumes ok: "decoder_ok L d" and p: "pools d t = a # rest" and m: "obj_id m = t" "\<exists>p. m = Peer p"
  shows "delivers L d (Inr m) (Inr a, d\<lparr>pools := (pools d)(t := rest), objs := (objs d)[a := m]\<rparr>)"
proof -
  have a: "a < length (objs d)" "a \<notin> L" "a \<notin> set rest"
    using ok p unfolding decoder_ok_def by (metis list.set_intros(1), metis list.set_intros(1), metis distinct.simps(2))
  have other: "a \<notin> set (pools d t')" if "t' \<noteq> t" for t'
    using ok p that unfolding decoder_ok_def by (metis list.set_intros(1))
  have "decoder_ok (insert a L) (d\<lparr>pools := (pools d)(t := rest), objs := (objs d)[a := m]\<rparr>)"
    unfolding decoder_ok_def
  proof (intro conjI ballI allI impI)
    fix t' b
    let ?p = "(pools d)(t := rest)"
    assume "b \<in> set (pools (d\<lparr>pools := ?p, objs := (objs d)[a := m]\<rparr>) t')"
    then have b: "b \<in> set (?p t')" by simp
    then have "b \<in> set (pools d t')" using p by (auto split: if_splits)
    moreover have "b \<noteq> a" using b a(3) other by (auto split: if_splits)
    ultimately show "b < length (objs (d\<lparr>pools := ?p, objs := (objs d)[a := m]\<rparr>))"
        and "b \<notin> insert a L"
        and "obj_id (objs (d\<lparr>pools := ?p, objs := (objs d)[a := m]\<rparr>) ! b) = t'"
        and "\<exists>q. objs (d\<lparr>pools := ?p, objs := (objs d)[a := m]\<rparr>) ! b = Peer q"
      using ok by (auto simp: decoder_ok_def)
  next
    fix t'
    show "distinct (pools (d\<lparr>pools := (pools d)(t := rest), objs := (objs d)[a := m]\<rparr>) t')"
      using ok p unfolding decoder_ok_def by (auto split: if_splits) (metis distinct.simps(2))
  next
    fix t'
    assume "pools (d\<lparr>pools := (pools d)(t := rest), objs := (objs d)[a := m]\<rparr>) t' \<noteq> []"
    then have "pools d t' \<noteq> []" using p by (auto split: if_splits)
    then show "t' \<in> set pool_types" using ok unfolding decoder_ok_def by blast
  next
    fix b
    assume "b \<in> insert a L"
    then show "b < length (objs (d\<lparr>pools := (pools d)(t := rest), objs := (objs d)[a := m]\<rparr>))"
      using a ok by (auto simp: decoder_ok_def)
  qed
  with a show ?thesis by (auto simp: delivers_def same_objs_def nth_list_update)
qed

lemma pooled_obj:
  assumes "decoder_ok L d" and "pools d t = a # rest"
  shows "\<exists>m. objs d ! a = Peer m \<and> message_id m = t"
  using assms unfolding decoder_ok_def by (metis list.set_intros(1) obj_id.simps(1))

lemma message_id_cases:
  "message_id m = CHOKE \<Longrightarrow> m = Choke" "message_id m = UNCHOKE \<Longrightarrow> m = Unchoke"
  "message_id m = INTERESTED \<Longrightarrow> m = Interested" "message_id m = NOT_INTERESTED \<Longrightarrow> m = NotInterested"
  "message_id m = HAVE \<Longrightarrow> \<exists>i. m = Have i" "message_id m = REQUEST \<Longrightarrow> \<exists>i b l. m = Request i b l"
  "message_id m = CANCEL \<Longrightarrow> \<exists>i b l. m = Cancel i b l"
  by (cases m; simp add: message_ids)+

lemma delivers_get_pooled:
  assumes ok: "decoder_ok L d" and t: "message_id m = t" "m \<in> {Choke, Unchoke, Interested, NotInterested}"
  shows "delivers L d (Inr (Peer m)) (get_pooled_message t d)"
proof (cases "pools d t")
  case Nil
  with ok t show ?thesis
    by (auto simp: get_pooled_message_def message_ids intro: delivers_alloc)
next
  case (Cons a rest)
  then obtain q where q: "objs d ! a = Peer q" "message_id q = t" using pooled_obj [OF ok] by blast
  with t have "q = m" using message_id_cases(1-4) by auto
  then have "(objs d)[a := Peer m] = objs d" using q by (metis list_update_id)
  with delivers_pooled [OF ok Cons, of "Peer m"] Cons t show ?thesis
    by (simp add: get_pooled_message_def)
qed

lemma delivers_get_pooled_have:
  assumes ok: "decoder_ok L d"
  shows "delivers L d (Inr (Peer (Have i))) (get_pooled_have_message i d)"
proof (cases "pools d HAVE")
  case (Cons a rest)
  then obtain q where "objs d ! a = Peer q" "message_id q = HAVE" using pooled_obj [OF ok] by blast
  then have "set_piece_index i (objs d ! a) = Peer (Have i)" using message_id_cases(5) by fastforce
  with delivers_pooled [OF ok Cons, of "Peer (Have i)"] Cons show ?thesis
    by (simp add: get_pooled_have_message_def)
qed (simp add: get_pooled_have_message_def delivers_alloc ok)

lemma delivers_get_pooled_request:
  assumes ok: "decoder_ok L d"
  shows "delivers L d (Inr (Peer (Request i b l))) (get_pooled_request_message i b l d)"
proof (cases "pools d REQUEST")
  case (Cons a rest)
  then obtain q where "objs d ! a = Peer q" "message_id q = REQUEST" using pooled_obj [OF ok] by blast
  then have "set_block i b l (objs d ! a) = Peer (Request i b l)" using message_id_cases(6) by fastforce
  with delivers_pooled [OF ok Cons, of "Peer (Request i b l)"] Cons show ?thesis
    by (simp add: get_pooled_request_message_def)
qed (simp add: get_pooled_request_message_def delivers_alloc ok)

lemma delivers_get_pooled_cancel:
  assumes ok: "decoder_ok L d"
  shows "delivers L d (Inr (Peer (Cancel i b l))) (get_pooled_cancel_message i b l d)"
proof (cases "pools d CANCEL")
  case (Cons a rest)
  then obtain q where "objs d ! a = Peer q" "message_id q = CANCEL" using pooled_obj [OF ok] by blast
  then have "set_block i b l (objs d ! a) = Peer (Cancel i b l)" using message_id_cases(7) by fastforce
  with delivers_pooled [OF ok Cons, of "Peer (Cancel i b l)"] Cons show ?thesis
    by (simp add: get_pooled_cancel_message_def)
qed (simp add: get_pooled_cancel_message_def delivers_alloc ok)

lemmas delivers_intros = delivers_alloc delivers_get_pooled delivers_get_pooled_have
  delivers_get_pooled_request delivers_get_pooled_cancel

lemma delivers_frame:
  assumes ok: "decoder_ok L d"
    and ext: "\<And>data. delivers L d (ext data) (fallback (uint (data ! 0)) data d)"
    and complex: "\<And>mid data. complex mid data d =
      (if mid \<in> {HAVE, BITFIELD, REQUEST, PIECE, CANCEL} then async_decode_complex mid data d
       else fallback mid data d)"
  shows "delivers L d (frame_wire ext data) (decode_frame complex data d)"
  using ok ext
  by (auto simp: frame_wire_def decode_frame_def decode_simple_message_def complex
      async_decode_complex_def Let_def message_ids intro!: delivers_intros)

lemma delivers_async:
  assumes "decoder_ok L d"
  shows "delivers L d (async_wire data) (decode_frame async_decode_complex data d)"
  unfolding async_wire_def
  by (rule delivers_frame [where fallback = "\<lambda>_ _ d. (Inl MessageError, d)"])
    (auto simp: assms async_decode_complex_def)

lemma delivers_v2:
  assumes "decoder_ok L d"
  shows "delivers L d (v2_wire data) (decode_v2_message (uint (data ! 0)) data d)"
  by (auto simp: v2_wire_def decode_v2_message_def Let_def assms delivers_alloc
      split: sum.splits)

lemma delivers_optimized:
  assumes "decoder_ok L d"
  shows "delivers L d (optimized_wire data) (decode_frame optimized_decode_complex data d)"
  unfolding optimized_wire_def
  by (rule delivers_frame [where fallback = decode_v2_message])
    (auto simp: assms optimized_decode_complex_def async_decode_complex_def delivers_v2)


section \<open>Frames\<close>

definition next_frame :: "bytes \<Rightarrow> (bytes \<times> bytes) option" where
  "next_frame bs =
     (if length bs < 4 then None
      else let len = nat (unpack_be (take 4 bs))
           in if length bs < 4 + len then None
              else Some (take len (drop 4 bs), drop (4 + len) bs))"

interpretation stream: framing next_frame
  by unfold_locales (auto simp: next_frame_def Let_def split: if_splits)

fun oks :: "'a py list \<Rightarrow> 'a list" where
  "oks [] = []"
| "oks (Inr x # rs) = x # oks rs"
| "oks (Inl _ # rs) = oks rs"

lemma oks_append [simp]: "oks (xs @ ys) = oks xs @ oks ys"
  by (induction xs rule: oks.induct) auto

lemma oks_map_Inr [simp]: "oks (map (\<lambda>x. Inr (f x)) xs) = map f xs"
  by (induction xs) auto

definition frames_of :: "bytes \<Rightarrow> bytes list" where
  "frames_of bs = fst (split_frames next_frame bs)"

definition rest_of :: "bytes \<Rightarrow> bytes" where
  "rest_of bs = snd (split_frames next_frame bs)"

lemma frames_None: "next_frame bs = None \<Longrightarrow> frames_of bs = [] \<and> rest_of bs = bs"
  by (simp add: frames_of_def rest_of_def stream.split_None)

lemma frames_Some:
  "next_frame bs = Some (f, r) \<Longrightarrow> frames_of bs = f # frames_of r \<and> rest_of bs = rest_of r"
  by (simp add: frames_of_def rest_of_def stream.split_Some)

lemma frames_append:
  "frames_of (bs @ cs) = frames_of bs @ frames_of (rest_of bs @ cs)"
  "rest_of (bs @ cs) = rest_of (rest_of bs @ cs)"
  using stream.split_append [of bs cs] by (simp_all add: frames_of_def rest_of_def)

lemma frames_rest: "frames_of (rest_of bs) = []" "rest_of (rest_of bs) = rest_of bs"
  using frames_None [of "rest_of bs"] stream.split_rest_incomplete [of bs] by (simp_all add: rest_of_def)

section \<open>The asynchronous decoder\<close>

lemma process_buffer_step:
  "process_buffer d =
     (case next_frame (rx d) of
        None \<Rightarrow> d
      | Some (data, rest) \<Rightarrow>
          (case decode_frame async_decode_complex data d of
             (Inr a, d1) \<Rightarrow> process_buffer (d1\<lparr>queue := queue d1 @ [a], rx := rest\<rparr>)
           | (Inl _, d1) \<Rightarrow> process_buffer (d1\<lparr>rx := rest\<rparr>)))"
  by (simp add: process_buffer.simps [of d] next_frame_def Let_def)

definition queued :: "decoder \<Rightarrow> wire_msg list" where
  "queued d = map (\<lambda>a. objs d ! a) (queue d)"

text \<open>The decoder's invariant: queue and client own different objects, and no pool has them.\<close>

definition async_ok :: "nat set \<Rightarrow> decoder \<Rightarrow> bool" where
  "async_ok L d \<longleftrightarrow> decoder_ok (L \<union> set (queue d)) d \<and> distinct (queue d) \<and> L \<inter> set (queue d) = {}"

lemma async_ok_init: "async_ok {} decoder_init"
  using decoder_ok_init by (simp add: async_ok_def decoder_init_def)

lemma decoder_ok_irrelevant [simp]:
  "decoder_ok L (d\<lparr>rx := b\<rparr>) = decoder_ok L d" "decoder_ok L (d\<lparr>queue := q\<rparr>) = decoder_ok L d"
  by (simp_all add: decoder_ok_def)

lemma async_ok_rx [simp]: "async_ok L (d\<lparr>rx := b\<rparr>) = async_ok L d"
  by (simp add: async_ok_def)

lemma async_ok_deliver:
  assumes "async_ok L d" and "delivers (L \<union> set (queue d)) d (Inr m) r"
  obtains a d1 where "r = (Inr a, d1)" and "async_ok L (d1\<lparr>queue := queue d1 @ [a]\<rparr>)"
    and "same_objs L d d1" and "queued (d1\<lparr>queue := queue d1 @ [a]\<rparr>) = queued d @ [m]" and "rx d1 = rx d"
proof -
  from assms(2) obtain a d1 where r: "r = (Inr a, d1)" "a \<notin> L \<union> set (queue d)" "objs d1 ! a = m"
      "decoder_ok (insert a (L \<union> set (queue d))) d1" "same_objs (L \<union> set (queue d)) d d1"
      "rx d1 = rx d" "queue d1 = queue d"
    by (auto simp: delivers_def)
  show thesis
  proof (rule that [OF r(1)])
    show "async_ok L (d1\<lparr>queue := queue d1 @ [a]\<rparr>)"
      using assms(1) r by (auto simp: async_ok_def)
    show "same_objs L d d1" using r(5) by (simp add: same_objs_def)
    show "queued (d1\<lparr>queue := queue d1 @ [a]\<rparr>) = queued d @ [m]"
      using r by (simp add: queued_def same_objs_def)
    show "rx d1 = rx d" by (rule r)
  qed
qed

lemma same_objs_trans: "same_objs L d d1 \<Longrightarrow> same_objs L d1 d2 \<Longrightarrow> same_objs L d d2"
  by (simp add: same_objs_def)

lemma process_buffer_ok:
  "async_ok L d \<Longrightarrow>
     async_ok L (process_buffer d) \<and> same_objs L d (process_buffer d)
     \<and> queued (process_buffer d) = queued d @ oks (map async_wire (frames_of (rx d)))
     \<and> rx (process_buffer d) = rest_of (rx d)"
proof (induction "length (rx d)" arbitrary: d rule: less_induct)
  case less
  show ?case
  proof (cases "next_frame (rx d)")
    case None
    with less.prems show ?thesis
      by (simp add: process_buffer_step [of d] frames_None same_objs_def)
  next
    case (Some p)
    then obtain data rest where n: "next_frame (rx d) = Some (data, rest)" by (cases p) auto
    have shorter: "length rest < length (rx d)" using stream.next_shorter [OF n] .
    have del: "delivers (L \<union> set (queue d)) d (async_wire data) (decode_frame async_decode_complex data d)"
      using less.prems by (intro delivers_async) (simp add: async_ok_def)
    show ?thesis
    proof (cases "async_wire data")
      case (Inl e)
      with del n have "process_buffer d = process_buffer (d\<lparr>rx := rest\<rparr>)"
        by (simp add: process_buffer_step [of d])
      with less.hyps [of "d\<lparr>rx := rest\<rparr>"] less.prems shorter frames_Some [OF n] Inl
      show ?thesis by (simp add: queued_def same_objs_def)
    next
      case (Inr m)
      with del less.prems obtain a d1 where r: "decode_frame async_decode_complex data d = (Inr a, d1)"
        "async_ok L (d1\<lparr>queue := queue d1 @ [a]\<rparr>)" "same_objs L d d1"
        "queued (d1\<lparr>queue := queue d1 @ [a]\<rparr>) = queued d @ [m]"
        by (metis async_ok_deliver)
      let ?d2 = "d1\<lparr>queue := queue d1 @ [a], rx := rest\<rparr>"
      have "process_buffer d = process_buffer ?d2"
        using n r by (simp add: process_buffer_step [of d])
      moreover have "queued ?d2 = queued d @ [m]" "async_ok L ?d2" "same_objs L d ?d2"
        using r by (simp_all add: queued_def same_objs_def async_ok_def)
      ultimately show ?thesis
        using less.hyps [of ?d2] shorter frames_Some [OF n] Inr same_objs_trans [of L d ?d2] by simp
    qed
  qed
qed

lemma feed_data_ok:
  assumes "async_ok L d"
  shows "async_ok L (feed_data data d)" and "same_objs L d (feed_data data d)"
    and "queued (feed_data data d) = queued d @ oks (map async_wire (frames_of (rx d @ data)))"
    and "rx (feed_data data d) = rest_of (rx d @ data)"
  using process_buffer_ok [of L "d\<lparr>rx := rx d @ data\<rparr>"] assms
  by (simp_all add: feed_data_def same_objs_def queued_def)

lemma feed_chunks_ok:
  assumes "async_ok L d" and "rest_of (rx d) = rx d"
  shows "async_ok L (fold feed_data cs d) \<and> same_objs L d (fold feed_data cs d)
    \<and> queued (fold feed_data cs d) = queued d @ oks (map async_wire (frames_of (rx d @ concat cs)))
    \<and> rx (fold feed_data cs d) = rest_of (rx d @ concat cs)"
  using assms
proof (induction cs arbitrary: d)
  case Nil
  then show ?case using frames_rest [of "rx d"] by (simp add: same_objs_def)
next
  case (Cons c cs)
  note f = feed_data_ok [OF Cons.prems(1), of c]
  have "rest_of (rx (feed_data c d)) = rx (feed_data c d)" by (simp add: f(4) frames_rest)
  from Cons.IH [OF f(1) this] f same_objs_trans [OF f(2)] show ?case
    using frames_append [of "rx d @ c" "concat cs"] by simp
qed

section \<open>Returning messages\<close>

lemma return_message_ok:
  assumes "decoder_ok (insert a L) d" and "a \<notin> L" and "\<exists>m. objs d ! a = Peer m"
  shows "decoder_ok L (return_message_to_pool a d)" and "same_objs L d (return_message_to_pool a d)"
    and "queue (return_message_to_pool a d) = queue d" and "rx (return_message_to_pool a d) = rx d"
  using assms by (auto simp: decoder_ok_def return_message_to_pool_def Let_def same_objs_def)


section \<open>The optimized decoder\<close>

lemma decoder_ok_mono: "decoder_ok L d \<Longrightarrow> L' \<subseteq> L \<Longrightarrow> decoder_ok L' d"
  unfolding decoder_ok_def by (intro conjI allI ballI) (meson subsetD)+

lemma add_data_loop_step:
  "add_data_loop ms d =
     (case next_frame (rx d) of
        None \<Rightarrow> (Inr ms, d)
      | Some (data, rest) \<Rightarrow>
          (case decode_frame optimized_decode_complex data d of
             (Inr a, d1) \<Rightarrow> add_data_loop (ms @ [a]) (d1\<lparr>rx := rest\<rparr>)
           | (Inl e, d1) \<Rightarrow> (Inl e, d1)))"
  by (simp add: add_data_loop.simps [of ms d] next_frame_def Let_def)

lemma add_data_loop_ok:
  "decoder_ok (L \<union> set ms) d \<Longrightarrow> map optimized_wire (frames_of (rx d)) = map Inr ws \<Longrightarrow>
     \<exists>as d'. add_data_loop ms d = (Inr (ms @ as), d') \<and> decoder_ok (L \<union> set (ms @ as)) d'
       \<and> same_objs (L \<union> set ms) d d' \<and> map (\<lambda>a. objs d' ! a) as = ws \<and> rx d' = rest_of (rx d)
       \<and> queue d' = queue d"
proof (induction "length (rx d)" arbitrary: d ms ws rule: less_induct)
  case less
  show ?case
  proof (cases "next_frame (rx d)")
    case None
    with less.prems show ?thesis
      by (simp add: add_data_loop_step [of ms d] frames_None same_objs_def)
  next
    case (Some p)
    then obtain data rest where n: "next_frame (rx d) = Some (data, rest)" by (cases p) auto
    have shorter: "length rest < length (rx d)" using stream.next_shorter [OF n] .
    from less.prems(2) frames_Some [OF n] obtain w ws' where w: "optimized_wire data = Inr w"
        "ws = w # ws'" "map optimized_wire (frames_of rest) = map Inr ws'"
      by (cases ws) auto
    with delivers_optimized [OF less.prems(1), of data] obtain a d1 where r:
        "decode_frame optimized_decode_complex data d = (Inr a, d1)" "objs d1 ! a = w"
        "decoder_ok (insert a (L \<union> set ms)) d1" "same_objs (L \<union> set ms) d d1" "queue d1 = queue d"
      by (auto simp: delivers_def)
    let ?d2 = "d1\<lparr>rx := rest\<rparr>"
    have "decoder_ok (L \<union> set (ms @ [a])) ?d2" using r(3) by simp
    from less.hyps [of ?d2, OF _ this, of ws'] shorter w(3) obtain as d' where
        "add_data_loop (ms @ [a]) ?d2 = (Inr (ms @ a # as), d')" "decoder_ok (L \<union> set (ms @ a # as)) d'"
        "same_objs (L \<union> set (ms @ [a])) ?d2 d'" "map (\<lambda>a. objs d' ! a) as = ws'" "rx d' = rest_of rest"
        "queue d' = queue d1"
      by auto
    then show ?thesis using n r w(2) frames_Some [OF n]
      by (intro exI [of _ "a # as"] exI [of _ d']) (simp add: add_data_loop_step [of ms d] same_objs_def)
  qed
qed

lemma add_data_loop_error:
  "decoder_ok (L \<union> set ms) d \<Longrightarrow> frames_of (rx d) = fs @ f # fs' \<Longrightarrow>
     \<forall>g\<in>set fs. \<exists>w. optimized_wire g = Inr w \<Longrightarrow> optimized_wire f = Inl e \<Longrightarrow>
     \<exists>d'. add_data_loop ms d = (Inl e, d') \<and> decoder_ok L d' \<and> same_objs L d d'
        \<and> frames_of (rx d') = f # fs'"
proof (induction "length (rx d)" arbitrary: d ms fs rule: less_induct)
  case less
  from less.prems(2) have "next_frame (rx d) \<noteq> None" using frames_None by fastforce
  then obtain data rest where n: "next_frame (rx d) = Some (data, rest)" by auto
  have shorter: "length rest < length (rx d)" using stream.next_shorter [OF n] .
  have fr: "data # frames_of rest = fs @ f # fs'" using less.prems(2) frames_Some [OF n] by simp
  show ?case
  proof (cases fs)
    case Nil
    then have "data = f" "frames_of rest = fs'" using fr by simp_all
    moreover have "decode_frame optimized_decode_complex data d = (Inl e, d)"
      using delivers_optimized [OF less.prems(1), of data] less.prems(4) \<open>data = f\<close> by simp
    ultimately show ?thesis
      using n less.prems(1,2) Nil
      by (auto simp: add_data_loop_step [of ms d] same_objs_def intro: decoder_ok_mono)
  next
    case (Cons g gs)
    then have g: "data = g" "frames_of rest = gs @ f # fs'" using fr by simp_all
    with less.prems(3) Cons obtain w where w: "optimized_wire data = Inr w" by auto
    with delivers_optimized [OF less.prems(1), of data] obtain a d1 where r:
        "decode_frame optimized_decode_complex data d = (Inr a, d1)"
        "decoder_ok (insert a (L \<union> set ms)) d1" "same_objs (L \<union> set ms) d d1"
      by (auto simp: delivers_def)
    let ?d2 = "d1\<lparr>rx := rest\<rparr>"
    have "decoder_ok (L \<union> set (ms @ [a])) ?d2" using r(2) by simp
    from less.hyps [of ?d2, OF _ this, of gs] shorter g(2) less.prems(3,4) Cons obtain d' where
        "add_data_loop (ms @ [a]) ?d2 = (Inl e, d')" "decoder_ok L d'" "same_objs L ?d2 d'"
        "frames_of (rx d') = f # fs'"
      by auto
    then show ?thesis using n r by (auto simp: add_data_loop_step [of ms d] same_objs_def)
  qed
qed

lemma add_data_stuck:
  assumes "decoder_ok L d" and "frames_of (rx d) = f # fs" and "optimized_wire f = Inl e"
  shows "add_data data d = (Inl e, d\<lparr>rx := rx d @ data\<rparr>)"
proof -
  have "next_frame (rx d) \<noteq> None" using frames_None assms(2) by fastforce
  then obtain rest where "next_frame (rx d) = Some (f, rest)"
    using frames_Some assms(2) by fastforce
  then have "next_frame (rx d @ data) = Some (f, rest @ data)" by (rule stream.next_extend)
  moreover have "decode_frame optimized_decode_complex f (d\<lparr>rx := rx d @ data\<rparr>) = (Inl e, d\<lparr>rx := rx d @ data\<rparr>)"
    using delivers_optimized [of L "d\<lparr>rx := rx d @ data\<rparr>" f] assms by simp
  ultimately show ?thesis by (simp add: add_data_def add_data_loop_step)
qed

text \<open>The decoder after a list of chunks, whatever the calls return.\<close>

definition after_chunks :: "bytes list \<Rightarrow> decoder \<Rightarrow> decoder" where
  "after_chunks cs d = fold (\<lambda>c d. snd (add_data c d)) cs d"

lemma stuck_forever:
  "decoder_ok L d \<Longrightarrow> frames_of (rx d) = f # fs \<Longrightarrow> optimized_wire f = Inl e \<Longrightarrow>
     fst (add_data data (after_chunks cs d)) = Inl e"
proof (induction cs arbitrary: d fs)
  case Nil
  then show ?case by (simp add: after_chunks_def add_data_stuck [OF Nil])
next
  case (Cons c cs)
  let ?d = "d\<lparr>rx := rx d @ c\<rparr>"
  have "decoder_ok L ?d" using Cons.prems(1) by simp
  moreover have "frames_of (rx ?d) = f # (fs @ frames_of (rest_of (rx d) @ c))"
    using Cons.prems(2) frames_append(1) [of "rx d" c] by simp
  ultimately have "fst (add_data data (after_chunks cs ?d)) = Inl e"
    using Cons.IH [of ?d] Cons.prems(3) by blast
  then show ?case by (simp add: after_chunks_def add_data_stuck [OF Cons.prems])
qed

section \<open>From the encoder to the decoder\<close>

lemma unpack_be_byte: "xs \<noteq> [] \<Longrightarrow> unpack_be (take 1 xs) = uint (xs ! 0)"
  by (cases xs) (simp_all add: unpack_be_def)

lemma frame_wire_id:
  "data \<noteq> [] \<Longrightarrow> unpack_be (take 1 data) = mid \<Longrightarrow> uint (data ! 0) = mid"
  using unpack_be_byte [of data] by simp

lemma frame_fixed:
  assumes "packs fs = Inr bs" and "map fst fs = 4 # ns"
  shows "4 \<le> length bs" "length bs = 4 + sum_list ns" "unpack_be (take 4 bs) = snd (hd fs)"
    "unpacks ns (drop 4 bs) = map snd (tl fs)"
  using assms by (auto simp: packs_iff)

lemma encode_frame_header:
  assumes "msg_encode m = Inr bs"
  shows "4 \<le> length bs \<and> unpack_be (take 4 bs) = int (length bs) - 4"
  using assms
  by (cases m) (auto simp: encode_defs packs_iff pbind_eq_Inr Let_def)

lemma encode_frame_wire:
  assumes "msg_encode m = Inr bs" and "m \<noteq> Bitfield []"
  shows "frame_wire ext (drop 4 bs) = Inr (Peer m)"
proof (cases m)
  case (Bitfield bf)
  with assms obtain hdr where "bs = hdr @ bf" "bf \<noteq> []" "length hdr = 5" "unpack_be (take 1 (drop 4 hdr)) = BITFIELD"
    by (auto simp: encode_defs packs_iff pbind_eq_Inr Let_def)
  with Bitfield frame_wire_id [of "drop 4 bs" BITFIELD] show ?thesis
    by (simp add: frame_wire_def Let_def message_ids)
next
  case (Piece i b d)
  with assms obtain hdr where "bs = hdr @ d" "length hdr = 13" "unpacks [1, 4, 4] (drop 4 hdr) = [PIECE, i, b]"
    by (auto simp: encode_defs packs_iff pbind_eq_Inr Let_def)
  with Piece frame_wire_id [of "drop 4 bs" PIECE] show ?thesis
    by (simp add: frame_wire_def Let_def message_ids)
next
  case (Have i)
  with assms have "length bs = 9" "unpacks [1, 4] (drop 4 bs) = [HAVE, i]"
    by (auto simp: encode_defs packs_iff)
  with Have frame_wire_id [of "drop 4 bs" HAVE] show ?thesis
    by (simp add: frame_wire_def Let_def message_ids)
next
  case (Request i b l)
  with assms have "length bs = 17" "unpacks [1, 4, 4, 4] (drop 4 bs) = [REQUEST, i, b, l]"
    by (auto simp: encode_defs packs_iff)
  with Request frame_wire_id [of "drop 4 bs" REQUEST] show ?thesis
    by (simp add: frame_wire_def Let_def message_ids)
next
  case (Cancel i b l)
  with assms have "length bs = 17" "unpacks [1, 4, 4, 4] (drop 4 bs) = [CANCEL, i, b, l]"
    by (auto simp: encode_defs packs_iff)
  with Cancel frame_wire_id [of "drop 4 bs" CANCEL] show ?thesis
    by (simp add: frame_wire_def Let_def message_ids)
next
  case KeepAlive
  with assms show ?thesis by (auto simp: encode_defs packs_iff frame_wire_def)
next
  case Choke
  with assms have "length bs = 5" "unpack_be (take 1 (drop 4 bs)) = CHOKE"
    by (auto simp: encode_defs packs_iff)
  with Choke frame_wire_id [of "drop 4 bs" CHOKE] show ?thesis
    by (simp add: frame_wire_def Let_def)
next
  case Unchoke
  with assms have "length bs = 5" "unpack_be (take 1 (drop 4 bs)) = UNCHOKE"
    by (auto simp: encode_defs packs_iff)
  with Unchoke frame_wire_id [of "drop 4 bs" UNCHOKE] show ?thesis
    by (simp add: frame_wire_def Let_def message_ids)
next
  case Interested
  with assms have "length bs = 5" "unpack_be (take 1 (drop 4 bs)) = INTERESTED"
    by (auto simp: encode_defs packs_iff)
  with Interested frame_wire_id [of "drop 4 bs" INTERESTED] show ?thesis
    by (simp add: frame_wire_def Let_def message_ids)
next
  case NotInterested
  with assms have "length bs = 5" "unpack_be (take 1 (drop 4 bs)) = NOT_INTERESTED"
    by (auto simp: encode_defs packs_iff)
  with NotInterested frame_wire_id [of "drop 4 bs" NOT_INTERESTED] show ?thesis
    by (simp add: frame_wire_def Let_def message_ids)
qed


definition transmissible :: "peer_message \<Rightarrow> bool" where
  "transmissible m \<longleftrightarrow> valid_msg m \<and> m \<noteq> Bitfield []"

lemma transmissible_encoding:
  assumes "transmissible m"
  shows "msg_encode m = Inr (encoding m)"
  using assms by (auto simp: transmissible_def valid_msg_iff encoding_def)

lemma next_frame_encoding:
  assumes "transmissible m"
  shows "next_frame (encoding m @ bs) = Some (drop 4 (encoding m), bs)"
  using encode_frame_header [OF transmissible_encoding [OF assms]]
  by (simp add: next_frame_def Let_def nat_diff_distrib)

lemma frames_encodings:
  "list_all transmissible ms \<Longrightarrow>
     frames_of (concat (map encoding ms)) = map (\<lambda>m. drop 4 (encoding m)) ms
     \<and> rest_of (concat (map encoding ms)) = []"
proof (induction ms)
  case Nil
  then show ?case using frames_None [of "[]"] by (simp add: next_frame_def)
next
  case (Cons m ms)
  then show ?case
    using frames_Some [OF next_frame_encoding [of m "concat (map encoding ms)"]] by simp
qed

lemma wire_encoding:
  assumes "transmissible m"
  shows "frame_wire ext (drop 4 (encoding m)) = Inr (Peer m)"
  using encode_frame_wire [OF transmissible_encoding [OF assms]] assms by (simp add: transmissible_def)

lemma wire_encodings:
  "list_all transmissible ms \<Longrightarrow>
     map (frame_wire ext) (map (\<lambda>m. drop 4 (encoding m)) ms) = map (\<lambda>m. Inr (Peer m)) ms"
  by (induction ms) (simp_all add: wire_encoding)

section \<open>v2 messages at the decoder\<close>

lemma v2_frame_fails:
  assumes "valid_v2_msg m" and "\<And>t. m = FileTreeResponse t \<Longrightarrow> hd t \<noteq> 23" and "v2_serialize m = Inr bs"
  shows "\<exists>e. frames_of bs = [drop 4 bs] \<and> optimized_wire (drop 4 bs) = Inl e"
proof -
  from assms(3) obtain b where b: "drop 4 bs = b # v2_body m" "unpack_be [b] = v2_id m"
    "unpack_be (take 4 bs) = 1 + int (length (v2_body m))" "length bs = 5 + length (v2_body m)"
    by (rule v2_serializeD)
  have "nat (unpack_be (take 4 bs)) = Suc (length (v2_body m))" using b(3) by simp
  with b(4) have "next_frame bs = Some (drop 4 bs, [])"
    by (simp add: next_frame_def)
  from frames_Some [OF this] frames_None [of "[]"] have fr: "frames_of bs = [drop 4 bs]"
    by (simp add: next_frame_def)
  have mid: "uint b = v2_id m" using b(2) unpack_be_byte [of "[b]"] by simp
  have "\<exists>e. optimized_wire (b # v2_body m) = Inl e"
  proof (cases m)
    case (PieceLayerRequest r)
    with assms(1) mid show ?thesis
      by (simp add: optimized_wire_def frame_wire_def v2_wire_def v2_message_ids message_ids
          v2_deserialize_defs)
  next
    case (PieceLayerResponse r hs)
    then have len: "length r = 32" "length (concat hs) = 32 * length hs"
      using assms(1) length_concat_32 [of hs] by auto
    have "length (drop 33 (r @ concat hs)) mod 32 \<noteq> 0 \<or> length (r @ concat hs) < 33"
    proof (cases "length hs")
      case (Suc k)
      then have "length (drop 33 (r @ concat hs)) = 31 + 32 * k" using len by simp
      then show ?thesis by simp
    qed (use len in simp)
    with PieceLayerResponse len mid show ?thesis
      by (auto simp: optimized_wire_def frame_wire_def v2_wire_def v2_message_ids message_ids
          v2_deserialize_defs Let_def)
  next
    case FileTreeRequest
    with mid show ?thesis
      by (simp add: optimized_wire_def frame_wire_def v2_message_ids message_ids)
  next
    case (FileTreeResponse t)
    with assms(1,2) obtain x xs where t: "t = x # xs" "x \<noteq> 23" by (cases t) auto
    have "unpack_be [x] \<noteq> 23"
    proof
      assume "unpack_be [x] = 23"
      then have "uint x = uint (23::byte)" using unpack_be_byte [of "[x]"] by simp
      with t(2) show False by (simp only: word_uint_eq_iff) 
    qed
    with FileTreeResponse t mid show ?thesis
      by (auto simp: optimized_wire_def frame_wire_def v2_wire_def v2_message_ids message_ids
          v2_deserialize_defs Let_def)
  qed
  with fr b(1) show ?thesis by simp
qed


section \<open>Properties\<close>

text \<open>
  The asynchronous decoder is independent of the segmentation of the stream: after any list
  of chunks its queue holds the messages of the frames of the concatenated bytes, in order,
  without those that do not decode; the incomplete rest stays in the buffer, objects the client
  owns are untouched, and no pool holds a queued or owned object.
\<close>

theorem async_decoder_stream:
  assumes "async_ok L d" and "rest_of (rx d) = rx d"
  shows "queued (fold feed_data cs d) = queued d @ oks (map async_wire (frames_of (rx d @ concat cs)))
    \<and> rx (fold feed_data cs d) = rest_of (rx d @ concat cs)
    \<and> same_objs L d (fold feed_data cs d) \<and> async_ok L (fold feed_data cs d)"
  using feed_chunks_ok [OF assms] by blast

theorem async_decoder_stream_witness:
  "queued (fold feed_data [[0, 0], [0, 1, 2, 0, 0, 0, 2, 9], [9, 0, 0, 0, 0, 0]] decoder_init)
     = [Peer Interested, Peer KeepAlive]"
proof -
  have "oks (map async_wire (frames_of (rx decoder_init @ concat [[0, 0], [0, 1, 2, 0, 0, 0, 2, 9], [9, 0, 0, 0, 0, 0]])))
      = [Peer Interested, Peer KeepAlive]"
    by code_simp
  moreover have "queued decoder_init = []" by code_simp
  moreover have r: "rest_of (rx decoder_init) = rx decoder_init" by code_simp
  ultimately show ?thesis
    using async_decoder_stream [OF async_ok_init r, of "[[0, 0], [0, 1, 2, 0, 0, 0, 2, 9], [9, 0, 0, 0, 0, 0]]"]
    by (simp only: append_Nil)
qed



text \<open>
  C23: \<open>add_data\<close> of the optimized decoder returns the messages of all complete frames when they
  decode. When one does not, the exception of the first such frame leaves the call, the messages
  before it are lost, and every later call raises the same exception, whatever data it gets.
\<close>

theorem add_data_outcome:
  assumes "decoder_ok L d"
  shows "(\<forall>ws. map optimized_wire (frames_of (rx d @ data)) = map Inr ws \<longrightarrow>
      (\<exists>as d'. add_data data d = (Inr as, d') \<and> map (\<lambda>a. objs d' ! a) as = ws
         \<and> rx d' = rest_of (rx d @ data) \<and> same_objs L d d'))
    \<and> (\<forall>fs f fs' e. frames_of (rx d @ data) = fs @ f # fs'
         \<and> (\<forall>g\<in>set fs. \<exists>w. optimized_wire g = Inr w) \<and> optimized_wire f = Inl e \<longrightarrow>
      fst (add_data data d) = Inl e
      \<and> (\<forall>cs more. fst (add_data more (after_chunks cs (snd (add_data data d)))) = Inl e))"
proof (intro conjI allI impI)
  fix ws
  assume ws: "map optimized_wire (frames_of (rx d @ data)) = map Inr ws"
  have "decoder_ok (L \<union> set []) (d\<lparr>rx := rx d @ data\<rparr>)" using assms by simp
  from add_data_loop_ok [OF this, of ws] ws
  show "\<exists>as d'. add_data data d = (Inr as, d') \<and> map (\<lambda>a. objs d' ! a) as = ws
         \<and> rx d' = rest_of (rx d @ data) \<and> same_objs L d d'"
    by (auto simp: add_data_def same_objs_def)
next
  fix fs f fs' e
  assume f: "frames_of (rx d @ data) = fs @ f # fs'
         \<and> (\<forall>g\<in>set fs. \<exists>w. optimized_wire g = Inr w) \<and> optimized_wire f = Inl e"
  have "decoder_ok (L \<union> set []) (d\<lparr>rx := rx d @ data\<rparr>)" using assms by simp
  from add_data_loop_error [OF this, of fs f fs' e] f obtain d' where d':
      "add_data data d = (Inl e, d')" "decoder_ok L d'" "frames_of (rx d') = f # fs'"
    by (auto simp: add_data_def)
  then show "fst (add_data data d) = Inl e" by simp
  show "fst (add_data more (after_chunks cs (snd (add_data data d)))) = Inl e" for cs more
    using stuck_forever [OF d'(2,3)] f d'(1) by simp
qed

theorem add_data_outcome_witness:
  "fst (add_data (concat (map encoding [Choke, Have 1])) (after_chunks [[0, 0, 0, 0]]
      (snd (add_data [0, 0, 0, 1, 0, 0, 0, 0, 1, 9] decoder_init)))) = Inl MessageError"
proof -
  have "frames_of (rx decoder_init @ [0, 0, 0, 1, 0, 0, 0, 0, 1, 9]) = [[0]] @ [9] # []"
    and "\<forall>g\<in>set [[0]]. \<exists>w. optimized_wire g = Inr w" and "optimized_wire [9] = Inl MessageError"
    by code_simp
      (simp add: optimized_wire_def frame_wire_def message_ids, code_simp)
  with add_data_outcome [OF decoder_ok_init, of "[0, 0, 0, 1, 0, 0, 0, 0, 1, 9]"] show ?thesis by blast
qed

text \<open>
  The optimized decoder, which is meant to decode v2 messages, rejects every serialised
  piece layer request, piece layer response, file tree request, and every file tree response
  whose tree does not begin with byte 23 (a bencoded tree begins with \<open>d\<close>): it passes
  \<open>deserialize\<close> the bytes after the message id, where the id is expected, and sends a one-byte
  message to the v1 dispatch. After such a message the connection's decoder is stuck.
\<close>

theorem v2_messages_not_received:
  assumes "valid_v2_msg m" and "\<forall>t. m = FileTreeResponse t \<longrightarrow> hd t \<noteq> 23" and "v2_serialize m = Inr bs"
  shows "\<exists>e. fst (add_data bs decoder_init) = Inl e
    \<and> (\<forall>cs more. fst (add_data more (after_chunks cs (snd (add_data bs decoder_init)))) = Inl e)"
proof -
  from v2_frame_fails [of m bs] assms obtain e where e:
      "frames_of bs = [drop 4 bs]" "optimized_wire (drop 4 bs) = Inl e"
    by blast
  have "decoder_ok ({} \<union> set []) (decoder_init\<lparr>rx := bs\<rparr>)" using decoder_ok_init by simp
  from add_data_loop_error [OF this, of "[]" "drop 4 bs" "[]" e] e obtain d' where d':
      "add_data bs decoder_init = (Inl e, d')" "decoder_ok {} d'" "frames_of (rx d') = [drop 4 bs]"
    by (auto simp: add_data_def decoder_init_def)
  with stuck_forever [OF d'(2,3) e(2)] show ?thesis by auto
qed

theorem v2_messages_not_received_witness:
  "\<exists>bs e. v2_serialize (PieceLayerRequest (replicate 32 5)) = Inr bs
    \<and> fst (add_data bs decoder_init) = Inl e"
proof -
  have v: "valid_v2_msg (PieceLayerRequest (replicate 32 5))" by simp
  then obtain bs where bs: "v2_serialize (PieceLayerRequest (replicate 32 5)) = Inr bs"
    using v2_serialize_total by blast
  from v2_messages_not_received [OF v _ bs] bs show ?thesis by auto
qed

text \<open>
  \<open>return_message_to_pool\<close> trusts its caller: returning one object twice makes the decoder
  deliver the same object for two messages, so the second message overwrites the first.
\<close>

theorem double_return_aliases:
  "queued (feed_data (encoding (Have 1) @ encoding (Have 2))
      (return_message_to_pool 0 (return_message_to_pool 0
        (snd (get_message (feed_data (encoding (Have 0)) decoder_init)))))) = [Peer (Have 2), Peer (Have 2)]"
  by code_simp

end
