(* ===== verification/Sha.thy ===== *)
theory Sha
  imports Ccbt_Prelude
begin

text \<open>
  The two hash functions of Python's \<open>hashlib\<close> that the program uses, SHA-1 and SHA-256
  (FIPS 180-4), as executable functions on bytes, and the interface \<open>hash_function\<close> that the
  verification of pieces and of Merkle trees rests on: a digest of fixed length.
\<close>

unbundle bit_operations_syntax

type_synonym w32 = "32 word"

definition rotr :: "nat \<Rightarrow> w32 \<Rightarrow> w32" where
  "rotr n w = drop_bit n w OR push_bit (32 - n) w"

definition word_of_bytes :: "bytes \<Rightarrow> w32" where
  "word_of_bytes bs = foldl (\<lambda>w b. push_bit 8 w OR ucast b) 0 bs"

definition bytes_of_word :: "w32 \<Rightarrow> bytes" where
  "bytes_of_word w = [ucast (drop_bit 24 w), ucast (drop_bit 16 w), ucast (drop_bit 8 w), ucast w]"

text \<open>Padding: one bit 1, zeros up to 56 modulo 64 bytes, the length in bits as 8 bytes.\<close>

definition sha_pad :: "bytes \<Rightarrow> bytes" where
  "sha_pad bs = bs @ [0x80] @ replicate ((119 - length bs mod 64) mod 64) 0
                  @ be_bytes 8 (8 * length bs)"

definition block_words :: "bytes \<Rightarrow> w32 list" where
  "block_words blk = map word_of_bytes (chunks 4 blk)"

section \<open>SHA-256\<close>

text \<open>
  The first 32 bits of the fractional parts of the cube roots (and, for the initial state, the
  square roots) of the first primes, in decimal.
\<close>

definition sha256_k :: "w32 list" where
  "sha256_k =
    [1116352408, 1899447441, 3049323471, 3921009573, 961987163, 1508970993, 2453635748,
     2870763221, 3624381080, 310598401, 607225278, 1426881987, 1925078388, 2162078206,
     2614888103, 3248222580, 3835390401, 4022224774, 264347078, 604807628, 770255983,
     1249150122, 1555081692, 1996064986, 2554220882, 2821834349, 2952996808, 3210313671,
     3336571891, 3584528711, 113926993, 338241895, 666307205, 773529912, 1294757372,
     1396182291, 1695183700, 1986661051, 2177026350, 2456956037, 2730485921, 2820302411,
     3259730800, 3345764771, 3516065817, 3600352804, 4094571909, 275423344, 430227734,
     506948616, 659060556, 883997877, 958139571, 1322822218, 1537002063, 1747873779,
     1955562222, 2024104815, 2227730452, 2361852424, 2428436474, 2756734187, 3204031479,
     3329325298]"

definition sha256_h0 :: "w32 list" where
  "sha256_h0 =
    [1779033703, 3144134277, 1013904242, 2773480762, 1359893119, 2600822924, 528734635,
     1541459225]"

text \<open>The message schedule, from a window of the last 16 words.\<close>

fun sha256_schedule :: "nat \<Rightarrow> w32 list \<Rightarrow> w32 list" where
  "sha256_schedule 0 w = w"
| "sha256_schedule (Suc n) w =
     (let w15 = w ! 1; w2 = w ! 14;
          s0 = rotr 7 w15 XOR rotr 18 w15 XOR drop_bit 3 w15;
          s1 = rotr 17 w2 XOR rotr 19 w2 XOR drop_bit 10 w2
      in hd w # sha256_schedule n (tl w @ [w ! 0 + s0 + w ! 9 + s1]))"

fun sha256_round :: "w32 list \<Rightarrow> w32 \<times> w32 \<Rightarrow> w32 list" where
  "sha256_round [a, b, c, d, e, f, g, h] (k, w) =
     (let t1 = h + (rotr 6 e XOR rotr 11 e XOR rotr 25 e) + ((e AND f) XOR (NOT e AND g)) + k + w;
          t2 = (rotr 2 a XOR rotr 13 a XOR rotr 22 a) + ((a AND b) XOR (a AND c) XOR (b AND c))
      in [t1 + t2, a, b, c, d + t1, e, f, g])"
| "sha256_round st _ = st"

definition sha256_block :: "w32 list \<Rightarrow> bytes \<Rightarrow> w32 list" where
  "sha256_block st blk =
     map2 (+) st (foldl sha256_round st (zip sha256_k (sha256_schedule 48 (block_words blk))))"

definition sha256 :: "bytes \<Rightarrow> bytes" where
  "sha256 bs = concat (map bytes_of_word (foldl sha256_block sha256_h0 (chunks 64 (sha_pad bs))))"

section \<open>SHA-1\<close>

definition rotl :: "nat \<Rightarrow> w32 \<Rightarrow> w32" where
  "rotl n w = push_bit n w OR drop_bit (32 - n) w"

definition sha1_h0 :: "w32 list" where
  "sha1_h0 =
    [1732584193, 4023233417, 2562383102, 271733878, 3285377520]"

fun sha1_schedule :: "nat \<Rightarrow> w32 list \<Rightarrow> w32 list" where
  "sha1_schedule 0 w = w"
| "sha1_schedule (Suc n) w =
     hd w # sha1_schedule n (tl w @ [rotl 1 (w ! 13 XOR w ! 8 XOR w ! 2 XOR w ! 0)])"

fun sha1_round :: "w32 list \<Rightarrow> nat \<times> w32 \<Rightarrow> w32 list" where
  "sha1_round [a, b, c, d, e] (t, w) =
     (let (f, k) =
        (if t < 20 then ((b AND c) OR (NOT b AND d), 0x5a827999)
         else if t < 40 then (b XOR c XOR d, 0x6ed9eba1)
         else if t < 60 then ((b AND c) OR (b AND d) OR (c AND d), 0x8f1bbcdc)
         else (b XOR c XOR d, 0xca62c1d6))
      in [rotl 5 a + f + e + k + w, a, rotl 30 b, c, d])"
| "sha1_round st _ = st"

definition sha1_block :: "w32 list \<Rightarrow> bytes \<Rightarrow> w32 list" where
  "sha1_block st blk =
     map2 (+) st (foldl sha1_round st (enumerate 0 (sha1_schedule 64 (block_words blk))))"

definition sha1 :: "bytes \<Rightarrow> bytes" where
  "sha1 bs = concat (map bytes_of_word (foldl sha1_block sha1_h0 (chunks 64 (sha_pad bs))))"

end
