(* ===== verification/Hash_V2.thy ===== *)
theory Hash_V2
  imports Sha Bencode
begin

text \<open>
  \<open>ccbt/piece/hash_v2.py\<close>: SHA-256 and SHA-1 hashing and verification of pieces (in memory and
  streamed), the Merkle root of a piece layer and the hash of a file tree, with the
  \<open>FileTreeNode\<close> of \<open>ccbt/core/torrent_v2.py\<close>. Text is a list of code points, a \<open>dict\<close> an
  association list in insertion order, and a hasher is the list of bytes it was given.
\<close>

section \<open>Hashing and verifying pieces\<close>

definition hash_piece_v2 :: "bytes \<Rightarrow> bytes py" where
  "hash_piece_v2 data = (if data = [] then Inl ValueError else Inr (sha256 data))"

text \<open>
  A data source: bytes, a file-like object with its contents and position (\<open>seek(0)\<close> may fail,
  which the code suppresses), or an object without \<open>read\<close>. \<open>read(n)\<close> with a negative \<open>n\<close>
  returns everything.
\<close>

record file_like =
  f_content :: bytes
  f_pos :: nat
  f_seekable :: bool

datatype data_source = SBytes bytes | SFile file_like | SOther

definition seek_0 :: "file_like \<Rightarrow> file_like" where
  "seek_0 f = (if f_seekable f then f\<lparr>f_pos := 0\<rparr> else f)"

definition read_n :: "int \<Rightarrow> file_like \<Rightarrow> bytes \<times> file_like" where
  "read_n n f =
     (let rest = drop (f_pos f) (f_content f); got = (if n < 0 then rest else take (nat n) rest)
      in (got, f\<lparr>f_pos := f_pos f + length got\<rparr>))"

text \<open>The read loop, which ends at the first empty chunk; the result is what the hasher was fed.\<close>

function read_loop :: "int \<Rightarrow> bytes \<Rightarrow> file_like \<Rightarrow> bytes" where
  "read_loop chunk_size hasher f =
     (let (chunk, f') = read_n chunk_size f
      in if chunk = [] then hasher else read_loop chunk_size (hasher @ chunk) f')"
  by pat_completeness auto
termination
  by (relation "measure (\<lambda>(n, h, f). length (f_content f) - f_pos f)")
    (auto simp: read_n_def Let_def split: if_splits)

declare read_loop.simps [simp del]

definition hash_piece_v2_streaming :: "data_source \<Rightarrow> int \<Rightarrow> bytes py" where
  "hash_piece_v2_streaming src chunk_size =
     (case src of
        SBytes b \<Rightarrow> Inr (sha256 b)
      | SOther \<Rightarrow> Inl ValueError
      | SFile f \<Rightarrow> Inr (sha256 (read_loop chunk_size [] (seek_0 f))))"

definition verify_piece_v2 :: "bytes \<Rightarrow> bytes \<Rightarrow> bool py" where
  "verify_piece_v2 data expected =
     (if length expected \<noteq> 32 then Inl ValueError
      else pbind (hash_piece_v2 data) (\<lambda>actual. Inr (actual = expected)))"

definition verify_piece_v2_streaming :: "data_source \<Rightarrow> bytes \<Rightarrow> int \<Rightarrow> bool py" where
  "verify_piece_v2_streaming src expected chunk_size =
     (if length expected \<noteq> 32 then Inl ValueError
      else pbind (hash_piece_v2_streaming src chunk_size) (\<lambda>actual. Inr (actual = expected)))"

datatype hash_algorithm = SHA1 | SHA256

definition hash_size :: "hash_algorithm \<Rightarrow> nat" where
  "hash_size alg = (if alg = SHA1 then 20 else 32)"

definition hash_function :: "hash_algorithm \<Rightarrow> bytes \<Rightarrow> bytes" where
  "hash_function alg = (if alg = SHA1 then sha1 else sha256)"

definition verify_piece :: "bytes \<Rightarrow> bytes \<Rightarrow> hash_algorithm option \<Rightarrow> bool py" where
  "verify_piece data expected algorithm =
     pbind (case algorithm of
              Some a \<Rightarrow> Inr a
            | None \<Rightarrow> if length expected = 20 then Inr SHA1
                      else if length expected = 32 then Inr SHA256 else Inl ValueError)
       (\<lambda>alg. if length expected \<noteq> hash_size alg then Inl ValueError
              else Inr (hash_function alg data = expected))"

definition verify_piece_streaming ::
  "data_source \<Rightarrow> bytes \<Rightarrow> hash_algorithm \<Rightarrow> int \<Rightarrow> bool py" where
  "verify_piece_streaming src expected alg chunk_size =
     (if length expected \<noteq> hash_size alg then Inl ValueError
      else case src of
        SBytes b \<Rightarrow> Inr (hash_function alg b = expected)
      | SOther \<Rightarrow> Inl ValueError
      | SFile f \<Rightarrow> Inr (hash_function alg (read_loop chunk_size [] (seek_0 f)) = expected))"

definition hash_piece :: "bytes \<Rightarrow> hash_algorithm \<Rightarrow> bytes py" where
  "hash_piece data alg = (if data = [] then Inl ValueError else Inr (hash_function alg data))"

section \<open>Merkle trees\<close>

text \<open>One pass over a level: adjacent hashes are paired, an odd last one with itself.\<close>

fun pair_level :: "bytes list \<Rightarrow> bytes list" where
  "pair_level [] = []"
| "pair_level [h] = [sha256 (h @ h)]"
| "pair_level (h # h' # hs) = sha256 (h @ h') # pair_level hs"

lemma length_pair_level: "length (pair_level hs) = (length hs + 1) div 2"
  by (induction hs rule: pair_level.induct) auto

function merkle_loop :: "bytes list \<Rightarrow> bytes list" where
  "merkle_loop level = (if 1 < length level then merkle_loop (pair_level level) else level)"
  by pat_completeness auto
termination
  by (relation "measure length") (auto simp: length_pair_level)

declare merkle_loop.simps [simp del]

definition calculate_merkle_root :: "bytes list \<Rightarrow> bytes py" where
  "calculate_merkle_root hashes = py_index (merkle_loop hashes) 0"

definition hash_piece_layer :: "bytes list \<Rightarrow> bytes py" where
  "hash_piece_layer piece_hashes =
     (if piece_hashes = [] then Inl ValueError
      else if \<exists>h\<in>set piece_hashes. length h \<noteq> 32 then Inl ValueError
      else if length piece_hashes = 1 then Inr (piece_hashes ! 0)
      else calculate_merkle_root piece_hashes)"

definition verify_piece_layer :: "bytes list \<Rightarrow> bytes \<Rightarrow> bool py" where
  "verify_piece_layer piece_hashes expected_root =
     (if length expected_root \<noteq> 32 then Inl ValueError
      else pbind (hash_piece_layer piece_hashes) (\<lambda>actual. Inr (actual = expected_root)))"

section \<open>File trees\<close>

datatype file_tree_node =
  FileTreeNode (node_name: pystr) (node_length: int) (node_root: "bytes option")
    (node_children: "(pystr \<times> file_tree_node) list option")

definition is_file :: "file_tree_node \<Rightarrow> bool" where
  "is_file n \<longleftrightarrow> node_root n \<noteq> None \<and> node_children n = None"

definition is_directory :: "file_tree_node \<Rightarrow> bool" where
  "is_directory n \<longleftrightarrow> node_children n \<noteq> None \<and> node_root n = None"

text \<open>The constructor with the checks of \<open>__post_init__\<close>.\<close>

definition file_tree_node ::
  "pystr \<Rightarrow> int \<Rightarrow> bytes option \<Rightarrow> (pystr \<times> file_tree_node) list option \<Rightarrow> file_tree_node py" where
  "file_tree_node name len root children =
     (let n = FileTreeNode name len root children in
      if is_file n \<and> node_root n = None then Inl ValueError
      else if is_file n \<and> length (case root of Some r \<Rightarrow> r | None \<Rightarrow> []) \<noteq> 32 then Inl ValueError
      else if is_directory n \<and> len \<noteq> 0 then Inl ValueError
      else Inr n)"

text \<open>\<open>int.to_bytes(n, "big")\<close>.\<close>

definition int_to_bytes :: "nat \<Rightarrow> int \<Rightarrow> bytes py" where
  "int_to_bytes n v = (if 0 \<le> v \<and> v < 256 ^ n then Inr (be_bytes n (nat v)) else Inl OverflowError)"

definition hash_file_node :: "file_tree_node \<Rightarrow> bytes py" where
  "hash_file_node node =
     (if \<not> is_file node then Inl ValueError
      else case node_root node of
        None \<Rightarrow> Inl ValueError
      | Some root \<Rightarrow>
          if length root \<noteq> 32 then Inl ValueError
          else pbind (utf8_encode (node_name node)) (\<lambda>name_bytes.
               pbind (int_to_bytes 8 (node_length node)) (\<lambda>length_bytes.
               Inr (sha256 (name_bytes @ length_bytes @ root)))))"

text \<open>
  What \<open>hash_file_tree\<close> and \<open>_hash_directory\<close> do with the hashes of the nodes of a dictionary:
  visit them in the order of the names, the first failure wins, a single hash is returned as it
  is, and several are the leaves of a Merkle tree.
\<close>

definition combine_hashes :: "(pystr \<times> bytes py) list \<Rightarrow> bytes py" where
  "combine_hashes items =
     pbind (py_seq (map snd (sort_key fst items))) (\<lambda>hashes.
       if length hashes = 1 then Inr (hashes ! 0) else calculate_merkle_root hashes)"

fun hash_node :: "file_tree_node \<Rightarrow> bytes py"
and hash_directory :: "(pystr \<times> file_tree_node) list \<Rightarrow> bytes py" where
  "hash_node (FileTreeNode name len root children) =
     (if is_file (FileTreeNode name len root children)
      then hash_file_node (FileTreeNode name len root children)
      else case children of
        Some ch \<Rightarrow> if root = None \<and> ch \<noteq> [] then hash_directory ch else Inl ValueError
      | None \<Rightarrow> Inl ValueError)"
| "hash_directory children =
     (if children = [] then Inl ValueError
      else combine_hashes (map (\<lambda>(name, node). (name, hash_node node)) children))"

definition hash_file_tree :: "(pystr \<times> file_tree_node) list \<Rightarrow> bytes py" where
  "hash_file_tree tree =
     (if tree = [] then Inr (sha256 [])
      else combine_hashes (map (\<lambda>(name, node). (name, hash_node node)) tree))"

section \<open>Digests\<close>

locale digest =
  fixes H :: "bytes \<Rightarrow> bytes" and n :: nat
  assumes length_H: "length (H x) = n"
begin

text \<open>Equal digests of two concatenations of the same shape: equal parts, or a collision.\<close>

lemma pair_cases:
  assumes "H (a @ b) = H (c @ d)" and "length a = length c"
  obtains "a = c" and "b = d" | "a @ b \<noteq> c @ d" and "H (a @ b) = H (c @ d)"
  using assms by auto

lemma check_length: "H x = h \<Longrightarrow> length h = n"
  using length_H by auto

end

lemma length_sha256_block: "length st = 8 \<Longrightarrow> length (sha256_block st blk) = 8"
proof -
  have round: "length (sha256_round st kw) = length st" for st kw
    by (cases "(st, kw)" rule: sha256_round.cases) (auto simp: Let_def)
  have "length (foldl sha256_round st xs) = length st" for xs
    by (induction xs arbitrary: st) (auto simp: round)
  then show "length st = 8 \<Longrightarrow> length (sha256_block st blk) = 8"
    by (simp add: sha256_block_def)
qed

lemma length_sha1_block: "length st = 5 \<Longrightarrow> length (sha1_block st blk) = 5"
proof -
  have round: "length (sha1_round st kw) = length st" for st kw
    by (cases "(st, kw)" rule: sha1_round.cases) (auto simp: Let_def)
  have "length (foldl sha1_round st xs) = length st" for xs
    by (induction xs arbitrary: st) (auto simp: round)
  then show "length st = 5 \<Longrightarrow> length (sha1_block st blk) = 5"
    by (simp add: sha1_block_def)
qed

lemma length_concat_words: "length (concat (map bytes_of_word ws)) = 4 * length ws"
  by (induction ws) (simp_all add: bytes_of_word_def)

lemma length_sha256: "length (sha256 x) = 32"
proof -
  have "length (foldl sha256_block st bs) = 8" if "length st = 8" for st bs
    using that by (induction bs arbitrary: st) (auto simp: length_sha256_block)
  then show ?thesis by (simp add: sha256_def length_concat_words sha256_h0_def)
qed

lemma length_sha1: "length (sha1 x) = 20"
proof -
  have "length (foldl sha1_block st bs) = 5" if "length st = 5" for st bs
    using that by (induction bs arbitrary: st) (auto simp: length_sha1_block)
  then show ?thesis by (simp add: sha1_def length_concat_words sha1_h0_def)
qed

interpretation sha256: digest sha256 32
  by unfold_locales (rule length_sha256)

interpretation sha1: digest sha1 20
  by unfold_locales (rule length_sha1)

interpretation algorithm: digest "hash_function alg" "hash_size alg" for alg
  by unfold_locales (cases alg; simp add: hash_function_def hash_size_def length_sha1 length_sha256)

section \<open>Streaming\<close>

lemma take_length_drop: "take m xs @ drop (length (take m xs)) xs = xs"
  by (cases "m \<le> length xs") simp_all

lemma read_loop_eq:
  "read_loop n h f = h @ (if n = 0 then [] else drop (f_pos f) (f_content f))"
proof (induction n h f rule: read_loop.induct)
  case (1 n h f)
  let ?rest = "drop (f_pos f) (f_content f)"
  let ?got = "if n < 0 then ?rest else take (nat n) ?rest"
  have r: "read_n n f = (?got, f\<lparr>f_pos := f_pos f + length ?got\<rparr>)"
    by (simp add: read_n_def Let_def)
  show ?case
  proof (cases "?got = []")
    case True
    then have "n = 0 \<or> ?rest = []" by (auto split: if_splits)
    with True r show ?thesis by (auto simp: read_loop.simps [of n h f])
  next
    case False
    with r have step: "read_loop n h f = read_loop n (h @ ?got) (f\<lparr>f_pos := f_pos f + length ?got\<rparr>)"
      by (simp add: read_loop.simps [of n h f])
    have "read_loop n (h @ ?got) (f\<lparr>f_pos := f_pos f + length ?got\<rparr>)
       = (h @ ?got) @ (if n = 0 then [] else drop (length ?got) ?rest)"
      using 1 [OF r [symmetric] refl False] by (simp add: add.commute)
    moreover have "?got @ drop (length ?got) ?rest = ?rest"
    proof (cases "n < 0")
      case False
      then show ?thesis using take_length_drop [of "nat n" ?rest] by (simp only: if_False)
    qed simp
    ultimately show ?thesis using step False by auto
  qed
qed

section \<open>Verification\<close>

lemma verify_piece_True:
  "verify_piece data expected alg = Inr True \<longleftrightarrow>
     (\<exists>a. (alg = None \<or> alg = Some a) \<and> hash_function a data = expected)"
proof -
  have len: "length (hash_function a data) = (if a = SHA1 then 20 else 32)" for a
    using algorithm.length_H by (simp add: hash_size_def)
  show ?thesis
  proof (cases alg)
    case (Some a)
    then show ?thesis by (auto simp: verify_piece_def hash_size_def len)
  next
    case None
    have ex: "(\<exists>a. hash_function a data = expected) \<longleftrightarrow>
        hash_function SHA1 data = expected \<or> hash_function SHA256 data = expected"
      by (metis hash_algorithm.exhaust)
    have "length (hash_function SHA1 data) = 20" "length (hash_function SHA256 data) = 32"
      using len by simp_all
    then have "verify_piece data expected None = Inr True \<longleftrightarrow>
        hash_function SHA1 data = expected \<or> hash_function SHA256 data = expected"
      by (auto simp: verify_piece_def hash_size_def)
    with None ex show ?thesis by simp
  qed
qed

section \<open>Merkle trees\<close>

text \<open>
  A pair of different 64-byte strings with the same digest that two different layers of the same
  length and with the same root give, found level by level.
\<close>

definition colliding :: "bytes \<Rightarrow> bytes \<Rightarrow> bool" where
  "colliding x y \<longleftrightarrow> x \<noteq> y \<and> sha256 x = sha256 y"

fun level_collision :: "bytes list \<Rightarrow> bytes list \<Rightarrow> (bytes \<times> bytes) option" where
  "level_collision (h # h' # hs) (g # g' # gs) =
     (if colliding (h @ h') (g @ g') then Some (h @ h', g @ g') else level_collision hs gs)"
| "level_collision [h] [g] = (if colliding (h @ h) (g @ g) then Some (h @ h, g @ g) else None)"
| "level_collision _ _ = None"

function layer_collision :: "bytes list \<Rightarrow> bytes list \<Rightarrow> (bytes \<times> bytes) option" where
  "layer_collision hs gs =
     (if length hs \<le> 1 then None
      else case level_collision hs gs of
        Some p \<Rightarrow> Some p
      | None \<Rightarrow> layer_collision (pair_level hs) (pair_level gs))"
  by pat_completeness auto
termination
  by (relation "measure (\<lambda>(hs, gs). length hs)") (auto simp: length_pair_level)

declare layer_collision.simps [simp del]

lemma merkle_step: "1 < length l \<Longrightarrow> merkle_loop l = merkle_loop (pair_level l)"
  by (simp add: merkle_loop.simps [of l])

lemma merkle_one [simp]: "merkle_loop [h] = [h]"
  by (simp add: merkle_loop.simps [of "[h]"])

lemma level_collision_sound: "level_collision hs gs = Some (x, y) \<Longrightarrow> colliding x y"
  by (induction hs gs rule: level_collision.induct) (auto split: if_splits)

lemma layer_collision_sound: "layer_collision hs gs = Some (x, y) \<Longrightarrow> colliding x y"
proof (induction hs gs rule: layer_collision.induct)
  case (1 hs gs)
  then show ?case
    by (auto simp: layer_collision.simps [of hs gs] level_collision_sound
        split: if_splits option.splits)
qed

lemma pair_level_inject:
  "length hs = length gs \<Longrightarrow> \<forall>h\<in>set hs \<union> set gs. length h = 32 \<Longrightarrow>
     pair_level hs = pair_level gs \<Longrightarrow> level_collision hs gs = None \<Longrightarrow> hs = gs"
  by (induction hs gs rule: level_collision.induct) (auto simp: colliding_def split: if_splits)

lemma pair_level_32: "h \<in> set (pair_level hs) \<Longrightarrow> length h = 32"
  by (induction hs rule: pair_level.induct) (auto simp: sha256.length_H)

lemma merkle_loop_inject:
  "length hs = length gs \<Longrightarrow> \<forall>h\<in>set hs \<union> set gs. length h = 32 \<Longrightarrow>
     merkle_loop hs = merkle_loop gs \<Longrightarrow> layer_collision hs gs = None \<Longrightarrow> hs = gs"
proof (induction hs gs rule: layer_collision.induct)
  case (1 hs gs)
  show ?case
  proof (cases "length hs \<le> 1")
    case True
    with "1.prems" show ?thesis
      by (simp add: merkle_loop.simps [of hs] merkle_loop.simps [of gs])
  next
    case False
    with "1.prems"(4) have none: "level_collision hs gs = None"
        "layer_collision (pair_level hs) (pair_level gs) = None"
      by (auto simp: layer_collision.simps [of hs gs] split: option.splits)
    have "merkle_loop (pair_level hs) = merkle_loop (pair_level gs)"
      using "1.prems"(1,3) False by (simp add: merkle_loop.simps [of hs] merkle_loop.simps [of gs])
    moreover have "\<forall>h\<in>set (pair_level hs) \<union> set (pair_level gs). length h = 32"
      using pair_level_32 by blast
    ultimately have "pair_level hs = pair_level gs"
      using "1.IH" [OF False none(1)] none(2) "1.prems"(1) by (simp add: length_pair_level)
    with none(1) "1.prems"(1,2) show ?thesis using pair_level_inject by blast
  qed
qed

lemma length_merkle_loop: "hs \<noteq> [] \<Longrightarrow> length (merkle_loop hs) = 1"
proof (induction hs rule: merkle_loop.induct)
  case (1 hs)
  then have "1 \<le> length hs" by (cases hs) auto
  then have "pair_level hs \<noteq> []" using length_pair_level [of hs] by (cases "pair_level hs") auto
  moreover have "length hs = 1" if "\<not> 1 < length hs" using that \<open>1 \<le> length hs\<close> by linarith
  ultimately show ?case using 1 by (cases "1 < length hs") (simp_all add: merkle_loop.simps [of hs])
qed

lemma merkle_root_eq: "hs \<noteq> [] \<Longrightarrow> calculate_merkle_root hs = Inr (hd (merkle_loop hs))"
  using length_merkle_loop [of hs] by (cases "merkle_loop hs") (auto simp: calculate_merkle_root_def py_index_def)

lemma piece_layer_eq:
  "hash_piece_layer hs = Inr r \<longleftrightarrow>
     hs \<noteq> [] \<and> (\<forall>h\<in>set hs. length h = 32) \<and> r = hd (merkle_loop hs)"
proof (cases "length hs = 1")
  case True
  then obtain h where "hs = [h]" by (cases hs) auto
  then show ?thesis by (auto simp: hash_piece_layer_def merkle_loop.simps [of "[h]"])
next
  case False
  then show ?thesis by (auto simp: hash_piece_layer_def merkle_root_eq)
qed

lemma pair_level_duplicate: "odd (length hs) \<Longrightarrow> pair_level (hs @ [last hs]) = pair_level hs"
  by (induction hs rule: pair_level.induct) auto

lemma merkle_loop_duplicate:
  assumes "odd (length hs)" and "1 < length hs"
  shows "merkle_loop (hs @ [last hs]) = merkle_loop hs"
proof -
  have "merkle_loop (hs @ [last hs]) = merkle_loop (pair_level (hs @ [last hs]))"
    using assms(2) by (intro merkle_step) (cases hs; simp)
  then show ?thesis
    unfolding pair_level_duplicate [OF assms(1)] merkle_step [OF assms(2)] .
qed

section \<open>File trees\<close>

lemma combine_hashes_cong:
  assumes "mset items' = mset items" and "distinct (map fst items)"
  shows "combine_hashes items' = combine_hashes items"
proof -
  have "sort_key fst items' = sort_key fst items"
  proof (rule sort_key_inj_key_eq)
    show "mset items' = mset (sort_key fst items)" using assms(1) by simp
    show "inj_on fst (set items')"
      using assms by (metis distinct_map mset_eq_setD)
    show "sorted (map fst (sort_key fst items))" by (rule sorted_sort_key)
  qed
  then show ?thesis by (simp add: combine_hashes_def)
qed

section \<open>Properties\<close>

text \<open>
  C24: a piece layer is bound by its root: two layers of the same number of pieces with the same
  root are equal, or \<open>layer_collision\<close> computes from them two different inputs on which SHA-256
  collides.
\<close>

theorem piece_layer_binding:
  assumes "hash_piece_layer hs = Inr r" and "hash_piece_layer gs = Inr r" and "length hs = length gs"
  shows "hs = gs \<or> (\<exists>x y. layer_collision hs gs = Some (x, y) \<and> x \<noteq> y \<and> sha256 x = sha256 y)"
proof (cases "layer_collision hs gs")
  case None
  from assms have "hd (merkle_loop hs) = hd (merkle_loop gs)" "hs \<noteq> []" "gs \<noteq> []"
      and len: "\<forall>h\<in>set hs \<union> set gs. length h = 32"
    unfolding piece_layer_eq by auto
  then have "merkle_loop hs = merkle_loop gs"
    using length_merkle_loop [of hs] length_merkle_loop [of gs]
    by (cases "merkle_loop hs"; cases "merkle_loop gs") auto
  with assms(3) len None show ?thesis using merkle_loop_inject by blast
next
  case (Some p)
  then obtain x y where "layer_collision hs gs = Some (x, y)" by (cases p) auto
  with layer_collision_sound show ?thesis by (auto simp: colliding_def)
qed

theorem piece_layer_binding_witness:
  "\<exists>r. hash_piece_layer [replicate 32 1, replicate 32 2] = Inr r
    \<and> ([replicate 32 1, replicate 32 2] = ([replicate 32 1, replicate 32 2] :: bytes list)
       \<or> layer_collision [replicate 32 1, replicate 32 2] [replicate 32 1, replicate 32 2] \<noteq> None)"
proof -
  obtain r where r: "hash_piece_layer [replicate 32 1, replicate 32 2] = Inr r"
    unfolding piece_layer_eq by auto
  from piece_layer_binding [OF r r] r show ?thesis by auto
qed

text \<open>
  The number of pieces is not bound by the root. The last hash of an odd level is paired with
  itself, so a layer with an odd number of pieces and the same layer with its last hash repeated
  have the same root, and \<open>verify_piece_layer\<close> accepts either.
\<close>

theorem piece_layer_length_ambiguous:
  assumes "odd (length hs)" and "1 < length hs" and "verify_piece_layer hs root = Inr True"
  shows "verify_piece_layer (hs @ [last hs]) root = Inr True"
proof -
  from assms(3) have "length root = 32" "hash_piece_layer hs = Inr root"
    by (auto simp: verify_piece_layer_def pbind_eq_Inr split: if_splits)
  moreover from this(2) have "hash_piece_layer (hs @ [last hs]) = Inr root"
    unfolding piece_layer_eq using merkle_loop_duplicate [OF assms(1,2)] last_in_set [of hs] by auto
  ultimately show ?thesis by (simp add: verify_piece_layer_def)
qed

theorem piece_layer_length_ambiguous_witness:
  "\<exists>root. verify_piece_layer [replicate 32 1, replicate 32 2, replicate 32 3] root = Inr True
    \<and> verify_piece_layer [replicate 32 1, replicate 32 2, replicate 32 3, replicate 32 3] root = Inr True"
proof -
  let ?hs = "[replicate 32 1, replicate 32 2, replicate 32 3] :: bytes list"
  obtain root where r: "hash_piece_layer ?hs = Inr root"
    unfolding piece_layer_eq by auto
  then have "length root = 32"
    unfolding piece_layer_eq by (simp add: merkle_step sha256.length_H)
  then have v: "verify_piece_layer ?hs root = Inr True" using r by (simp add: verify_piece_layer_def)
  from piece_layer_length_ambiguous [OF _ _ v] v show ?thesis by auto
qed

text \<open>
  Streaming verification agrees with verification in memory of the whole content (from the
  current position when the source cannot seek), for every chunk size but 0, for which no byte is
  hashed. Verification succeeds exactly when the digest of the algorithm is the expected hash.
\<close>

theorem streaming_verification:
  "verify_piece_streaming (SFile f) expected alg chunk_size =
     verify_piece (if chunk_size = 0 then []
                   else if f_seekable f then f_content f else drop (f_pos f) (f_content f))
       expected (Some alg)
   \<and> (verify_piece data expected alg' = Inr True \<longleftrightarrow>
        (\<exists>a. (alg' = None \<or> alg' = Some a) \<and> hash_function a data = expected))"
  using verify_piece_True [of data expected alg']
  by (simp add: verify_piece_streaming_def verify_piece_def read_loop_eq seek_0_def)

text \<open>The hash of a file tree does not depend on the insertion order of its dictionary.\<close>

lemma file_tree_hash_order:
  assumes "mset tree' = mset tree" and "distinct (map fst tree)"
  shows "hash_file_tree tree' = hash_file_tree tree"
proof -
  let ?f = "\<lambda>(name, node). (name, hash_node node)"
  have "map fst (map ?f tree) = map fst tree" by (simp add: comp_def case_prod_unfold)
  then have "combine_hashes (map ?f tree') = combine_hashes (map ?f tree)"
    using assms by (intro combine_hashes_cong) (simp_all only: mset_map)
  moreover have "tree' = [] \<longleftrightarrow> tree = []" using assms(1) by (metis mset_zero_iff)
  ultimately show ?thesis by (simp add: hash_file_tree_def)
qed

lemma file_tree_hash_order_witness:
  "hash_file_tree [([98], FileTreeNode [98] 1 (Some (replicate 32 0)) None),
                   ([97], FileTreeNode [97] 2 (Some (replicate 32 1)) None)]
     = hash_file_tree [([97], FileTreeNode [97] 2 (Some (replicate 32 1)) None),
                       ([98], FileTreeNode [98] 1 (Some (replicate 32 0)) None)]"
  by (rule file_tree_hash_order) simp_all

text \<open>
  The hash of a file tree does not bind directories: neither the name of a directory nor the
  fact that its only content is nested in it changes the hash.
\<close>

theorem directories_not_hashed:
  assumes "children \<noteq> []"
  shows "hash_file_tree [(name, FileTreeNode name 0 None (Some children))] = hash_file_tree children"
  using assms
  by (cases "combine_hashes (map (\<lambda>(name, node). (name, hash_node node)) children)")
    (simp_all add: hash_file_tree_def combine_hashes_def [of "[_]"] is_file_def)

theorem directories_not_hashed_witness:
  "hash_file_tree [([97], FileTreeNode [97] 0 None (Some [([98], FileTreeNode [98] 1 (Some (replicate 32 0)) None)]))]
     = hash_file_tree [([98], FileTreeNode [98] 1 (Some (replicate 32 0)) None)]"
  by (rule directories_not_hashed) simp

end
