(* ===== verification/Torrent_V2.thy ===== *)
theory Torrent_V2
  imports Hash_V2
begin

text \<open>
  \<open>ccbt/core/torrent_v2.py\<close>: parsing, validation and generation of v2 torrents. The file tree and
  the piece layers are read from and written to bencoded dictionaries (\<open>pyobj\<close>), files on disk
  are their contents. \<open>str_of\<close> is the value of \<open>str()\<close> on a list or dictionary, \<open>resolve\<close> the
  resolution of a path by the operating system (\<open>None\<close> when it fails). The true division in
  \<open>math.ceil(a / b)\<close> is the exact quotient, which is right for lengths below \<open>2 ^ 53\<close>.
\<close>

section \<open>Strings and dictionaries\<close>

fun join_with :: "nat \<Rightarrow> pystr list \<Rightarrow> pystr" where
  "join_with c [] = []"
| "join_with c [w] = w"
| "join_with c (w # ws) = w @ [c] @ join_with c ws"

definition tree_path :: "pystr \<Rightarrow> pystr \<Rightarrow> pystr" where
  "tree_path path name = (if path \<noteq> [] then path @ [47] @ name else name)"

definition last_component :: "pystr \<Rightarrow> pystr" where
  "last_component path = (if path \<noteq> [] then last (split_on 47 path) else [])"

text \<open>
  \<open>bytes.decode("utf-8", errors=...)\<close>: each maximal ill-formed part becomes \<open>r\<close>, which is U+FFFD for
  \<open>"replace"\<close> and nothing for \<open>"ignore"\<close>.
\<close>

fun utf8_lenient :: "pystr \<Rightarrow> bytes \<Rightarrow> pystr" where
  "utf8_lenient r [] = []"
| "utf8_lenient r (b # bs) =
     (let x = unat b in
      if x < 0x80 then x # utf8_lenient r bs
      else if x < 0xC2 \<or> 0xF4 < x then r @ utf8_lenient r bs
      else if x < 0xE0 then
        (case bs of
           c1 # t \<Rightarrow> if cont 0x80 0xBF c1
                     then ((x - 0xC0) * 64 + (unat c1 - 0x80)) # utf8_lenient r t
                     else r @ utf8_lenient r (c1 # t)
         | [] \<Rightarrow> r)
      else if x < 0xF0 then
        (case bs of
           c1 # t \<Rightarrow>
             if cont (if x = 0xE0 then 0xA0 else 0x80) (if x = 0xED then 0x9F else 0xBF) c1
             then (case t of
                     c2 # t' \<Rightarrow>
                       if cont 0x80 0xBF c2
                       then ((x - 0xE0) * 4096 + (unat c1 - 0x80) * 64 + (unat c2 - 0x80)) # utf8_lenient r t'
                       else r @ utf8_lenient r (c2 # t')
                   | [] \<Rightarrow> r)
             else r @ utf8_lenient r (c1 # t)
         | [] \<Rightarrow> r)
      else
        (case bs of
           c1 # t \<Rightarrow>
             if cont (if x = 0xF0 then 0x90 else 0x80) (if x = 0xF4 then 0x8F else 0xBF) c1
             then (case t of
                     c2 # t' \<Rightarrow>
                       if cont 0x80 0xBF c2
                       then (case t' of
                               c3 # t'' \<Rightarrow>
                                 if cont 0x80 0xBF c3
                                 then ((x - 0xF0) * 262144 + (unat c1 - 0x80) * 4096
                                        + (unat c2 - 0x80) * 64 + (unat c3 - 0x80)) # utf8_lenient r t''
                                 else r @ utf8_lenient r (c3 # t'')
                             | [] \<Rightarrow> r)
                       else r @ utf8_lenient r (c2 # t')
                   | [] \<Rightarrow> r)
             else r @ utf8_lenient r (c1 # t)
         | [] \<Rightarrow> r))"

definition utf8_replace :: "bytes \<Rightarrow> pystr" where
  "utf8_replace = utf8_lenient [0xFFFD]"

definition utf8_ignore :: "bytes \<Rightarrow> pystr" where
  "utf8_ignore = utf8_lenient []"

type_synonym pydict = "(pyobj \<times> pyobj) list"

definition key :: "string \<Rightarrow> pyobj" where
  "key s = PBytes (ascii s)"

definition get :: "string \<Rightarrow> pydict \<Rightarrow> pyobj option" where
  "get s d = map_of d (key s)"

text \<open>\<open>isinstance(v, int)\<close>, which a \<open>bool\<close> satisfies.\<close>

fun as_int :: "pyobj \<Rightarrow> int option" where
  "as_int (PInt i) = Some i"
| "as_int (PBool b) = Some (if b then 1 else 0)"
| "as_int _ = None"

section \<open>Parsing a file tree\<close>

text \<open>The name of a file entry without a path: the first other key, if there is one.\<close>

definition other_key_name :: "pydict \<Rightarrow> pystr py" where
  "other_key_name tree_dict =
     pbind (py_seq (map (\<lambda>(k, _). case k of PBytes b \<Rightarrow> Inr (utf8_replace b) | _ \<Rightarrow> Inl AttributeError)
                     (filter (\<lambda>(k, _). k \<noteq> PBytes []) tree_dict)))
       (\<lambda>keys. Inr (if keys = [] then [] else hd keys))"

definition parse_file_entry :: "pystr \<Rightarrow> pydict \<Rightarrow> pyobj \<Rightarrow> file_tree_node py" where
  "parse_file_entry path tree_dict file_info =
     (case file_info of
        PDict fi \<Rightarrow>
          (case get ''length'' fi of
             None \<Rightarrow> Inl TorrentError
           | Some len_obj \<Rightarrow>
               (case as_int len_obj of
                  None \<Rightarrow> Inl TorrentError
                | Some len \<Rightarrow>
                    if len < 0 then Inl TorrentError
                    else case get ''pieces root'' fi of
                      Some (PBytes root) \<Rightarrow>
                        if length root \<noteq> 32 then Inl TorrentError
                        else
                          pbind (if last_component path \<noteq> [] then Inr (last_component path)
                                 else other_key_name tree_dict) (\<lambda>filename.
                          file_tree_node filename len (Some root) None)
                    | _ \<Rightarrow> Inl TorrentError))
      | _ \<Rightarrow> Inl TorrentError)"

text \<open>A key that is not \<open>bytes\<close> has no \<open>decode\<close>; bytes that are not UTF-8 raise \<open>TorrentError\<close>.\<close>

definition tree_key :: "pyobj \<Rightarrow> pystr py" where
  "tree_key k =
     (case k of
        PBytes b \<Rightarrow> (case utf8_decode b of Inl _ \<Rightarrow> Inl TorrentError | Inr s \<Rightarrow> Inr s)
      | _ \<Rightarrow> Inl AttributeError)"

fun parse_file_tree :: "pystr \<Rightarrow> pyobj \<Rightarrow> file_tree_node py"
and parse_tree_items ::
  "pystr \<Rightarrow> pydict \<Rightarrow> (pystr \<times> file_tree_node) list \<Rightarrow> (pystr \<times> file_tree_node) list py" where
  "parse_file_tree path (PDict d) =
     (case map_of d (PBytes []) of
        Some file_info \<Rightarrow> parse_file_entry path d file_info
      | None \<Rightarrow>
          pbind (parse_tree_items path d []) (\<lambda>children.
            file_tree_node (last_component path) 0 None
              (if children = [] then None else Some children)))"
| "parse_file_tree path _ = Inl TorrentError"
| "parse_tree_items path [] children = Inr children"
| "parse_tree_items path ((k, v) # items) children =
     (if k = PBytes [] then parse_tree_items path items children
      else pbind (tree_key k) (\<lambda>name.
           pbind (parse_file_tree (tree_path path name) v) (\<lambda>child.
           parse_tree_items path items (AList.update name child children))))"

section \<open>Traversals\<close>

record file_info =
  fi_name :: pystr
  fi_length :: int
  fi_path :: "pystr list option"
  fi_full_path :: pystr

text \<open>\<open>FileInfo\<close> is a pydantic model whose length must not be negative.\<close>

definition extract_file :: "pystr \<Rightarrow> file_tree_node \<Rightarrow> file_info py" where
  "extract_file current_path node =
     (let full = tree_path current_path (node_name node); parts = split_on 47 full
      in if node_length node < 0 then Inl ValueError
         else Inr \<lparr>fi_name = last parts, fi_length = node_length node,
                   fi_path = (if 1 < length parts then Some (butlast parts) else None),
                   fi_full_path = full\<rparr>)"

fun extract_files_from_tree :: "pystr \<Rightarrow> file_tree_node \<Rightarrow> file_info list py"
and extract_children :: "pystr \<Rightarrow> (pystr \<times> file_tree_node) list \<Rightarrow> file_info list py" where
  "extract_files_from_tree cur (FileTreeNode name len root children) =
     (if is_file (FileTreeNode name len root children)
      then pbind (extract_file cur (FileTreeNode name len root children)) (\<lambda>f. Inr [f])
      else case children of
        Some ch \<Rightarrow> if root = None then extract_children (tree_path cur name) ch else Inr []
      | None \<Rightarrow> Inr [])"
| "extract_children cur [] = Inr []"
| "extract_children cur ((_, node) # ch) =
     pbind (extract_files_from_tree cur node) (\<lambda>fs.
     pbind (extract_children cur ch) (\<lambda>rest. Inr (fs @ rest)))"

fun validate_file_tree :: "file_tree_node \<Rightarrow> unit py"
and validate_children :: "(pystr \<times> file_tree_node) list \<Rightarrow> unit py" where
  "validate_file_tree (FileTreeNode name len root children) =
     (case (root, children) of
        (Some r, None) \<Rightarrow>
          if length r \<noteq> 32 then Inl TorrentError
          else if len < 0 then Inl TorrentError else Inr ()
      | (None, Some ch) \<Rightarrow> if ch = [] then Inl TorrentError else validate_children ch
      | _ \<Rightarrow> Inl TorrentError)"
| "validate_children [] = Inr ()"
| "validate_children ((_, node) # ch) =
     pbind (validate_file_tree node) (\<lambda>_. validate_children ch)"

fun calculate_total_length :: "file_tree_node \<Rightarrow> int"
and total_of_children :: "(pystr \<times> file_tree_node) list \<Rightarrow> int" where
  "calculate_total_length (FileTreeNode name len root children) =
     (if is_file (FileTreeNode name len root children) then len
      else case children of
        Some ch \<Rightarrow> if root = None then total_of_children ch else 0
      | None \<Rightarrow> 0)"
| "total_of_children [] = 0"
| "total_of_children ((_, node) # ch) = calculate_total_length node + total_of_children ch"

fun node_file_paths :: "pystr \<Rightarrow> file_tree_node \<Rightarrow> pystr list"
and children_file_paths :: "pystr \<Rightarrow> (pystr \<times> file_tree_node) list \<Rightarrow> pystr list" where
  "node_file_paths path (FileTreeNode name len root children) =
     (if is_file (FileTreeNode name len root children) then [tree_path path name]
      else case children of
        Some ch \<Rightarrow> if root = None then children_file_paths (tree_path path name) ch else []
      | None \<Rightarrow> [])"
| "children_file_paths path [] = []"
| "children_file_paths path ((_, node) # ch) = node_file_paths path node @ children_file_paths path ch"

section \<open>Piece layers\<close>

record piece_layer =
  pl_piece_length :: int
  pl_pieces :: "bytes list"

definition piece_layer :: "int \<Rightarrow> bytes list \<Rightarrow> piece_layer py" where
  "piece_layer piece_len pieces =
     (if \<exists>h\<in>set pieces. length h \<noteq> 32 then Inl ValueError
      else Inr \<lparr>pl_piece_length = piece_len, pl_pieces = pieces\<rparr>)"

definition get_piece_hash :: "piece_layer \<Rightarrow> int \<Rightarrow> bytes py" where
  "get_piece_hash layer i =
     (if i < 0 \<or> int (length (pl_pieces layer)) \<le> i then Inl IndexError
      else Inr (pl_pieces layer ! nat i))"

definition extract_piece_hashes :: "bytes \<Rightarrow> bytes list py" where
  "extract_piece_hashes layer_data =
     (if length layer_data mod 32 \<noteq> 0 then Inl TorrentError
      else Inr (map (\<lambda>i. take 32 (drop (i * 32) layer_data)) [0..<length layer_data div 32]))"

fun parse_piece_layers ::
  "pydict \<Rightarrow> int \<Rightarrow> (bytes \<times> piece_layer) list \<Rightarrow> (bytes \<times> piece_layer) list py" where
  "parse_piece_layers [] piece_len layers = Inr layers"
| "parse_piece_layers ((k, v) # items) piece_len layers =
     (case k of
        PBytes root \<Rightarrow>
          if length root \<noteq> 32 then Inl TorrentError
          else (case v of
                  PBytes layer_data \<Rightarrow>
                    pbind (extract_piece_hashes layer_data) (\<lambda>hashes.
                    pbind (piece_layer piece_len hashes) (\<lambda>layer.
                    parse_piece_layers items piece_len (AList.update root layer layers)))
                | _ \<Rightarrow> Inl TorrentError)
      | _ \<Rightarrow> Inl TorrentError)"

definition ceil_div :: "int \<Rightarrow> int \<Rightarrow> int" where
  "ceil_div a b = - ((- a) div b)"

definition validate_piece_layer :: "piece_layer \<Rightarrow> int \<Rightarrow> int \<Rightarrow> bool" where
  "validate_piece_layer layer file_length piece_len =
     (if piece_len \<le> 0 then False
      else if file_length < 0 then False
      else int (length (pl_pieces layer)) =
             (if 0 < file_length then ceil_div file_length piece_len else 0))"

section \<open>Info hashes\<close>

definition calculate_info_hash_v2 :: "pydict \<Rightarrow> bytes py" where
  "calculate_info_hash_v2 info =
     (case encode (PDict info) of Inl _ \<Rightarrow> Inl TorrentError | Inr bs \<Rightarrow> Inr (sha256 bs))"

definition v1_keys :: "string list" where
  "v1_keys = [''name'', ''piece length'', ''pieces'', ''length'', ''files'', ''private'']"

definition calculate_info_hash_v1 :: "pydict \<Rightarrow> bytes option py" where
  "calculate_info_hash_v1 info =
     (if get ''pieces'' info = None then Inr None
      else
        let v1_info = [(key k, the (get k info)). k \<leftarrow> v1_keys, get k info \<noteq> None]
        in case encode (PDict v1_info) of Inl _ \<Rightarrow> Inl TorrentError | Inr bs \<Rightarrow> Inr (Some (sha1 bs)))"

section \<open>Building a torrent\<close>

definition empty_path :: "pystr \<Rightarrow> bool" where
  "empty_path p \<longleftrightarrow> p = [] \<or> p = [47]"

text \<open>The files grouped by the first component of their path, in the order of first occurrence.\<close>

fun add_to_group :: "pystr \<Rightarrow> pystr \<times> int \<Rightarrow> (pystr \<times> (pystr \<times> int) list) list
    \<Rightarrow> (pystr \<times> (pystr \<times> int) list) list" where
  "add_to_group k f [] = [(k, [f])]"
| "add_to_group k f ((k', fs) # gs) =
     (if k = k' then (k', fs @ [f]) # gs else (k', fs) # add_to_group k f gs)"

definition group_files :: "(pystr \<times> int) list \<Rightarrow> (pystr \<times> (pystr \<times> int) list) list" where
  "group_files files =
     fold (\<lambda>(p, len) gs.
        if empty_path p then gs
        else let parts = split_on 47 p
             in add_to_group (hd parts) (join_with 47 (tl parts), len) gs) files []"

definition files_weight :: "(pystr \<times> int) list \<Rightarrow> nat" where
  "files_weight files = sum_list (map (\<lambda>f. length (fst f)) files)"

text \<open>
  The recursion stops because each step removes a path component; \<open>fuel\<close> is at most the sum of
  the path lengths (\<open>build_file_tree_node\<close> gives it that much).
\<close>

fun build_node :: "nat \<Rightarrow> pystr \<Rightarrow> (pystr \<times> int) list \<Rightarrow> file_tree_node option" where
  "build_node fuel name files =
     (if files = [] then None
      else if length files = 1 \<and> empty_path (fst (hd files))
      then Some (FileTreeNode (if name \<noteq> [] then name else last (split_on 47 (fst (hd files))))
                  (snd (hd files)) None None)
      else
        let groups = group_files files;
            at_root = filter (\<lambda>f. empty_path (fst f)) files
        in if at_root \<noteq> [] \<and> groups = []
           then (let (p, len) = last at_root
                 in Some (FileTreeNode (if name \<noteq> [] then name else last (split_on 47 p)) len None None))
           else case fuel of
             0 \<Rightarrow> None
           | Suc n \<Rightarrow>
               let children = [(k, the (build_node n k fs)). (k, fs) \<leftarrow> groups, build_node n k fs \<noteq> None]
               in if children \<noteq> [] then Some (FileTreeNode name 0 None (Some children)) else None)"

definition build_file_tree_node :: "pystr \<Rightarrow> (pystr \<times> int) list \<Rightarrow> file_tree_node option" where
  "build_file_tree_node name files = build_node (files_weight files) name files"

definition replace_backslash :: "pystr \<Rightarrow> pystr" where
  "replace_backslash = map (\<lambda>c. if c = 92 then 47 else c)"

definition normalize_path :: "(pystr \<Rightarrow> pystr option) option \<Rightarrow> pystr \<Rightarrow> pystr" where
  "normalize_path resolve p =
     dropWhile (\<lambda>c. c = 47)
       (case resolve of
          None \<Rightarrow> replace_backslash p
        | Some f \<Rightarrow> (case f p of Some q \<Rightarrow> replace_backslash q | None \<Rightarrow> replace_backslash p))"

definition build_file_tree ::
  "(pystr \<Rightarrow> pystr option) option \<Rightarrow> (pystr \<times> int) list \<Rightarrow> (pystr \<times> file_tree_node) list" where
  "build_file_tree resolve files =
     (let normalized = map (\<lambda>(p, len). (normalize_path resolve p, len)) files;
          roots = fold (\<lambda>(p, len) gs.
            let parts = split_on 47 p
            in if 47 \<in> set p then add_to_group (hd parts) (join_with 47 (tl parts), len) gs
               else add_to_group [] (p, len) gs) normalized [];
          built = [(k, the (build_file_tree_node k fs)). (k, fs) \<leftarrow> roots,
                     build_file_tree_node k fs \<noteq> None]
      in fold (\<lambda>(k, n) d. AList.update (if k \<noteq> [] then k else [46]) n d) built [])"

text \<open>The read loop of \<open>_build_piece_layer\<close> on a file with the given contents.\<close>

function hash_pieces_loop :: "int \<Rightarrow> nat \<Rightarrow> file_like \<Rightarrow> bytes list \<Rightarrow> bytes list py" where
  "hash_pieces_loop piece_len bytes_read f hashes =
     (if bytes_read < length (f_content f) then
        let (data, f') = read_n piece_len f
        in if data = [] then Inr hashes
           else pbind (hash_piece_v2 data) (\<lambda>h.
                  hash_pieces_loop piece_len (bytes_read + length data) f' (hashes @ [h]))
      else Inr hashes)"
  by pat_completeness auto
termination
  by (relation "measure (\<lambda>(n, k, f, hs). length (f_content f) - k)")
    (auto simp: read_n_def Let_def)

definition calculate_pieces_root :: "bytes list \<Rightarrow> bytes py" where
  "calculate_pieces_root hashes =
     (if hashes = [] then Inr (replicate 32 0)
      else case hash_piece_layer hashes of
        Inl ValueError \<Rightarrow> Inl TorrentError
      | r \<Rightarrow> r)"

text \<open>\<open>None\<close> is a path that does not exist or is not a file.\<close>

definition build_piece_layer :: "bytes option \<Rightarrow> int \<Rightarrow> (bytes \<times> piece_layer) py" where
  "build_piece_layer file piece_len =
     (case file of
        None \<Rightarrow> Inl TorrentError
      | Some content \<Rightarrow>
          if content = [] then pbind (piece_layer piece_len []) (\<lambda>l. Inr (replicate 32 0, l))
          else pbind (hash_pieces_loop piece_len 0 \<lparr>f_content = content, f_pos = 0, f_seekable = True\<rparr> [])
                 (\<lambda>hashes. pbind (calculate_pieces_root hashes) (\<lambda>root.
                    pbind (piece_layer piece_len hashes) (\<lambda>layer. Inr (root, layer)))))"

fun node_to_dict :: "file_tree_node \<Rightarrow> pyobj py"
and children_to_dict :: "(pystr \<times> file_tree_node) list \<Rightarrow> pydict \<Rightarrow> pydict py" where
  "node_to_dict (FileTreeNode name len root children) =
     (case (root, children) of
        (Some r, None) \<Rightarrow>
          Inr (PDict [(PBytes [], PDict [(key ''length'', PInt len), (key ''pieces root'', PBytes r)])])
      | (None, Some ch) \<Rightarrow>
          if ch = [] then Inl TorrentError
          else pbind (children_to_dict ch []) (\<lambda>d. Inr (PDict d))
      | _ \<Rightarrow> Inl TorrentError)"
| "children_to_dict [] d = Inr d"
| "children_to_dict ((name, node) # ch) d =
     pbind (utf8_encode name) (\<lambda>k.
     pbind (node_to_dict node) (\<lambda>v. children_to_dict ch (AList.update (PBytes k) v d)))"

definition file_tree_to_dict :: "(pystr \<times> file_tree_node) list \<Rightarrow> pyobj py" where
  "file_tree_to_dict tree = pbind (children_to_dict tree []) (\<lambda>d. Inr (PDict d))"

definition piece_layers_to_dict :: "(bytes \<times> piece_layer) list \<Rightarrow> pydict" where
  "piece_layers_to_dict layers =
     map (\<lambda>(root, layer). (PBytes root, PBytes (concat (pl_pieces layer)))) layers"

text \<open>
  \<open>_build_v1_pieces\<close>: one piece is filled across file boundaries; the state is the current piece
  and the finished hashes. \<open>bytes_in_current_piece\<close> is always the length of the piece.
\<close>

function v1_file_loop :: "int \<Rightarrow> file_like \<Rightarrow> bytes \<Rightarrow> bytes list \<Rightarrow> bytes \<times> bytes list" where
  "v1_file_loop piece_len f cur pieces =
     (let (data, f') = read_n (piece_len - int (length cur)) f
      in if data = [] then (cur, pieces)
         else let cur' = cur @ data
              in if piece_len \<le> int (length cur')
                 then v1_file_loop piece_len f' (drop (nat piece_len) cur')
                        (pieces @ [sha1 (take (nat piece_len) cur')])
                 else v1_file_loop piece_len f' cur' pieces)"
  by pat_completeness auto
termination
  by (relation "measure (\<lambda>(n, f, c, ps). length (f_content f) - f_pos f)")
    (auto simp: read_n_def Let_def split: if_splits)

declare hash_pieces_loop.simps [simp del] v1_file_loop.simps [simp del]

text \<open>\<open>sorted(files)\<close> orders the (path, length) pairs; a missing file is skipped.\<close>

definition build_v1_pieces ::
  "(pystr \<Rightarrow> bytes option) \<Rightarrow> (pystr \<times> int) list \<Rightarrow> int \<Rightarrow> bytes" where
  "build_v1_pieces disk files piece_len =
     (let (cur, pieces) = fold (\<lambda>f (cur, pieces).
            case disk (fst f) of
              None \<Rightarrow> (cur, pieces)
            | Some content \<Rightarrow>
                v1_file_loop piece_len \<lparr>f_content = content, f_pos = 0, f_seekable = True\<rparr> cur pieces)
          (sort_key fst (sort_key snd files)) ([], [])
      in concat (if cur \<noteq> [] then pieces @ [sha1 cur] else pieces))"

section \<open>Parsing a torrent\<close>

fun truth :: "pyobj \<Rightarrow> bool" where
  "truth (PInt i) = (i \<noteq> 0)"
| "truth (PBool b) = b"
| "truth (PBytes b) = (b \<noteq> [])"
| "truth (PStr s) = (s \<noteq> [])"
| "truth (PList l) = (l \<noteq> [])"
| "truth (PDict d) = (d \<noteq> [])"
| "truth POther = True"

fun py_str :: "(pyobj \<Rightarrow> pystr) \<Rightarrow> pyobj \<Rightarrow> pystr" where
  "py_str str_of (PStr s) = s"
| "py_str str_of (PInt i) = dec_int i"
| "py_str str_of (PBool b) = map of_char (if b then ''True'' else ''False'')"
| "py_str str_of v = str_of v"

definition to_text :: "(pyobj \<Rightarrow> pystr) \<Rightarrow> pyobj \<Rightarrow> pystr py" where
  "to_text str_of v = (case v of PBytes b \<Rightarrow> utf8_decode b | _ \<Rightarrow> Inr (py_str str_of v))"

text \<open>Iterating over an object in a comprehension.\<close>

fun py_iter :: "pyobj \<Rightarrow> pyobj list py" where
  "py_iter (PList l) = Inr l"
| "py_iter (PBytes b) = Inr (map (\<lambda>x. PInt (uint x)) b)"
| "py_iter (PStr s) = Inr (map (\<lambda>c. PStr [c]) s)"
| "py_iter (PDict d) = Inr (map fst d)"
| "py_iter _ = Inl TypeError"

definition text_if_bytes :: "pyobj option \<Rightarrow> pystr option py" where
  "text_if_bytes v =
     (case v of Some (PBytes b) \<Rightarrow> pbind (utf8_decode b) (\<lambda>s. Inr (Some s)) | _ \<Rightarrow> Inr None)"

record torrent_v2_info =
  v2_name :: pystr
  v2_info_hash_v2 :: bytes
  v2_info_hash_v1 :: "bytes option"
  v2_announce :: pystr
  v2_announce_list :: "pystr list list option"
  v2_comment :: "pystr option"
  v2_created_by :: "pystr option"
  v2_creation_date :: "pyobj option"
  v2_encoding :: "pystr option"
  v2_is_private :: bool
  v2_file_tree :: "(pystr \<times> file_tree_node) list"
  v2_piece_layers :: "(bytes \<times> piece_layer) list"
  v2_piece_length :: int
  v2_files :: "file_info list"
  v2_total_length :: int
  v2_num_pieces :: int

fun parse_roots :: "(pyobj \<Rightarrow> pystr) \<Rightarrow> pydict \<Rightarrow> (pystr \<times> file_tree_node) list
    \<Rightarrow> (pystr \<times> file_tree_node) list py" where
  "parse_roots str_of [] tree = Inr tree"
| "parse_roots str_of ((k, v) # items) tree =
     pbind (to_text str_of k) (\<lambda>name.
     pbind (parse_file_tree name v) (\<lambda>node.
     parse_roots str_of items (AList.update name node tree)))"

definition parse_announce_list ::
  "(pyobj \<Rightarrow> pystr) \<Rightarrow> pydict \<Rightarrow> pystr list list option py" where
  "parse_announce_list str_of torrent =
     (case get ''announce-list'' torrent of
        None \<Rightarrow> Inr None
      | Some tiers \<Rightarrow>
          pbind (py_iter tiers) (\<lambda>ts.
          pbind (py_seq (map (\<lambda>tier. pbind (py_iter tier) (\<lambda>us. py_seq (map (to_text str_of) us))) ts))
            (\<lambda>urls. Inr (Some urls))))"

text \<open>The checks of single fields of the info dictionary at the head of \<open>parse_v2\<close>.\<close>

definition name_field :: "(pyobj \<Rightarrow> pystr) \<Rightarrow> pydict \<Rightarrow> pystr py" where
  "name_field str_of info =
     (case get ''name'' info of
        None \<Rightarrow> Inl TorrentError
      | Some v \<Rightarrow> if truth v then to_text str_of v else Inl TorrentError)"

definition piece_length_field :: "pydict \<Rightarrow> int py" where
  "piece_length_field info =
     (case Option.bind (get ''piece length'' info) as_int of
        None \<Rightarrow> Inl TorrentError
      | Some n \<Rightarrow> if n \<le> 0 then Inl TorrentError else Inr n)"

definition dict_field :: "string \<Rightarrow> pydict \<Rightarrow> pydict py" where
  "dict_field k info =
     (case get k info of
        None \<Rightarrow> Inr []
      | Some (PDict d) \<Rightarrow> Inr d
      | Some _ \<Rightarrow> Inl TorrentError)"

definition parse_v2 ::
  "(pyobj \<Rightarrow> pystr) \<Rightarrow> pydict \<Rightarrow> pydict \<Rightarrow> torrent_v2_info py" where
  "parse_v2 str_of info torrent =
     (if get ''meta version'' info \<noteq> Some (PInt 2) then Inl TorrentError
      else
        pbind (name_field str_of info) (\<lambda>name.
        pbind (piece_length_field info) (\<lambda>piece_len.
        pbind (dict_field ''file tree'' info) (\<lambda>tree_dict.
        pbind (parse_roots str_of tree_dict []) (\<lambda>tree.
        pbind (validate_children tree) (\<lambda>_.
        pbind (extract_children [] tree) (\<lambda>files.
        pbind (dict_field ''piece layers'' info) (\<lambda>layers_dict.
        pbind (parse_piece_layers layers_dict piece_len []) (\<lambda>layers.
        pbind (calculate_info_hash_v2 info) (\<lambda>hash_v2.
        pbind (calculate_info_hash_v1 info) (\<lambda>hash_v1.
        pbind (to_text str_of (case get ''announce'' torrent of None \<Rightarrow> PStr [] | Some v \<Rightarrow> v))
          (\<lambda>announce.
        pbind (parse_announce_list str_of torrent) (\<lambda>announce_list.
        pbind (text_if_bytes (get ''comment'' torrent)) (\<lambda>comm.
        pbind (text_if_bytes (get ''created by'' torrent)) (\<lambda>created_by.
        pbind (text_if_bytes (get ''encoding'' torrent)) (\<lambda>enc.
        Inr \<lparr>v2_name = name, v2_info_hash_v2 = hash_v2, v2_info_hash_v1 = hash_v1,
             v2_announce = announce, v2_announce_list = announce_list,
             v2_comment = comm, v2_created_by = created_by,
             v2_creation_date = get ''creation date'' torrent, v2_encoding = enc,
             v2_is_private = (case get ''private'' info of None \<Rightarrow> False | Some v \<Rightarrow> truth v),
             v2_file_tree = tree, v2_piece_layers = layers, v2_piece_length = piece_len,
             v2_files = files, v2_total_length = total_of_children tree,
             v2_num_pieces = sum_list (map (\<lambda>(_, l). int (length (pl_pieces l))) layers)\<rparr>))))))))))))))))"

section \<open>UTF-8 round trip\<close>

definition scalar :: "nat \<Rightarrow> bool" where
  "scalar c \<longleftrightarrow> c < 0x110000 \<and> \<not> (0xD800 \<le> c \<and> c < 0xE000)"

lemma utf8_char_decode:
  assumes "scalar c"
  obtains bs where "utf8_char c = Inr bs" and "\<And>rest. utf8_decode (bs @ rest) = pcons c (utf8_decode rest)"
    and "bs \<noteq> []"
proof -
  consider "c < 0x80" | "0x80 \<le> c" "c < 0x800" | "0x800 \<le> c" "c < 0x10000" | "0x10000 \<le> c"
    by linarith
  then show thesis
  proof cases
    case 1
    then have "unat (of_nat c :: byte) = c" by (simp add: unat_of_nat_byte)
    with 1 show thesis by (intro that [of "[of_nat c]"]) (simp_all add: Let_def)
  next
    case 2
    let ?a = "0xC0 + c div 64" and ?b = "0x80 + c mod 64"
    have lt: "?a < 256" "?b < 256" and "0xC2 \<le> ?a" "?a < 0xE0" using 2 by linarith+
    note u = lt [THEN unat_of_nat_byte]
    have eq: "utf8_char c = Inr [of_nat ?a, of_nat ?b]" using 2 by simp
    have dec: "utf8_decode ([of_nat ?a, of_nat ?b] @ rest) = pcons c (utf8_decode rest)" for rest
    proof -
      have v: "(?a - 0xC0) * 64 + (?b - 0x80) = c" by simp
      have "cont 0x80 0xBF (of_nat ?b)" unfolding cont_def u by simp
      then show ?thesis
        using \<open>0xC2 \<le> ?a\<close> \<open>?a < 0xE0\<close> 
        by (simp only: append_Cons append_Nil utf8_decode.simps Let_def u v list.case) simp
    qed
    show thesis by (rule that [OF eq dec]) simp
  next
    case 3
    let ?a = "0xE0 + c div 4096" and ?b = "0x80 + c div 64 mod 64" and ?d = "0x80 + c mod 64"
    have lt: "?a < 256" "?b < 256" "?d < 256" and a: "0xE0 \<le> ?a" "?a < 0xF0" using 3 by linarith+
    note u = lt [THEN unat_of_nat_byte]
    have eq: "utf8_char c = Inr [of_nat ?a, of_nat ?b, of_nat ?d]" using 3 assms by (simp add: scalar_def)
    have dec: "utf8_decode ([of_nat ?a, of_nat ?b, of_nat ?d] @ rest) = pcons c (utf8_decode rest)" for rest
    proof -
      have dd: "c div 64 div 64 = c div 4096" by (simp add: div_mult2_eq [symmetric])
      moreover have "c = 64 * (c div 64) + c mod 64" "c div 64 = 64 * (c div 64 div 64) + c div 64 mod 64"
        by (rule mult_div_mod_eq [symmetric])+
      ultimately have v: "(?a - 0xE0) * 4096 + (?b - 0x80) * 64 + (?d - 0x80) = c"
        unfolding diff_add_inverse by linarith
      have "cont (if ?a = 0xE0 then 0xA0 else 0x80) (if ?a = 0xED then 0x9F else 0xBF) (of_nat ?b)"
      proof -
        have "c div 64 = 64 * (c div 4096) + c div 64 mod 64"
          using dd mult_div_mod_eq [of 64 "c div 64"] by linarith
        moreover have "c < 0xD800 \<Longrightarrow> c div 64 \<le> 863" by linarith
        ultimately have "c div 4096 = 13 \<Longrightarrow> c < 0xD800 \<Longrightarrow> c div 64 mod 64 \<le> 31" by linarith
        then show ?thesis unfolding cont_def u using 3 assms by (auto simp: scalar_def)
      qed
      moreover have "cont 0x80 0xBF (of_nat ?d)" unfolding cont_def u by simp
      ultimately show ?thesis
        using a by (simp only: append_Cons append_Nil utf8_decode.simps Let_def u v list.case) simp
    qed
    show thesis by (rule that [OF eq dec]) simp
  next
    case 4
    let ?a = "0xF0 + c div 262144" and ?b = "0x80 + c div 4096 mod 64"
    let ?d = "0x80 + c div 64 mod 64" and ?e = "0x80 + c mod 64"
    have c: "c < 0x110000" using assms by (simp add: scalar_def)
    have lt: "?a < 256" "?b < 256" "?d < 256" "?e < 256" and a: "0xF0 \<le> ?a" "?a \<le> 0xF4" using c by linarith+
    note u = lt [THEN unat_of_nat_byte]
    have eq: "utf8_char c = Inr [of_nat ?a, of_nat ?b, of_nat ?d, of_nat ?e]" using 4 by simp
    have dec: "utf8_decode ([of_nat ?a, of_nat ?b, of_nat ?d, of_nat ?e] @ rest) = pcons c (utf8_decode rest)" for rest
    proof -
      have dd: "c div 64 div 64 = c div 4096" "c div 4096 div 64 = c div 262144"
        by (simp_all add: div_mult2_eq [symmetric])
      moreover have "c = 64 * (c div 64) + c mod 64" "c div 64 = 64 * (c div 64 div 64) + c div 64 mod 64"
          "c div 4096 = 64 * (c div 4096 div 64) + c div 4096 mod 64"
        by simp_all
      ultimately have v: "(?a - 0xF0) * 262144 + (?b - 0x80) * 4096 + (?d - 0x80) * 64 + (?e - 0x80) = c"
        unfolding diff_add_inverse by linarith
      have "cont (if ?a = 0xF0 then 0x90 else 0x80) (if ?a = 0xF4 then 0x8F else 0xBF) (of_nat ?b)"
      proof -
        have "c div 4096 = 64 * (c div 262144) + c div 4096 mod 64"
          using dd mult_div_mod_eq [of 64 "c div 4096"] by linarith
        moreover have "c div 4096 \<le> 271" using c by linarith
        ultimately have "c div 262144 = 4 \<Longrightarrow> c div 4096 mod 64 \<le> 15" by linarith
        then show ?thesis unfolding cont_def u using 4 c by auto
      qed
      moreover have "cont 0x80 0xBF (of_nat ?d)" "cont 0x80 0xBF (of_nat ?e)" unfolding cont_def u by simp_all
      ultimately show ?thesis
        using a by (simp only: append_Cons append_Nil utf8_decode.simps Let_def u v list.case) simp
    qed
    show thesis by (rule that [OF eq dec]) simp
  qed
qed

lemma utf8_roundtrip:
  "list_all scalar s \<Longrightarrow> \<exists>bs. utf8_encode s = Inr bs \<and> utf8_decode bs = Inr s"
proof (induction s)
  case Nil
  then show ?case by (simp add: utf8_encode_def)
next
  case (Cons c s)
  then obtain bs where bs: "utf8_encode s = Inr bs" "utf8_decode bs = Inr s" by auto
  then obtain parts where p: "py_seq (map utf8_char s) = Inr parts" "bs = concat parts"
    by (auto simp: utf8_encode_def pbind_eq_Inr)
  from Cons.prems obtain cs where cs: "utf8_char c = Inr cs" "\<And>rest. utf8_decode (cs @ rest) = pcons c (utf8_decode rest)"
    using utf8_char_decode [of c] by auto
  have "utf8_encode (c # s) = Inr (cs @ bs)" using p cs(1) by (simp add: utf8_encode_def del: utf8_char.simps)
  with cs(2) bs(2) show ?case by (simp add: pcons_def)
qed

lemma utf8_encode_nonempty: "s \<noteq> [] \<Longrightarrow> utf8_encode s = Inr bs \<Longrightarrow> bs \<noteq> []"
proof (cases s)
  case (Cons c s')
  assume "utf8_encode s = Inr bs"
  with Cons obtain b parts where "utf8_char c = Inr b" "bs = b @ concat parts"
    by (auto simp: utf8_encode_def pbind_eq_Inr simp del: utf8_char.simps)
  moreover from this(1) have "b \<noteq> []" by (auto split: if_splits)
  ultimately show ?thesis by simp
qed simp

section \<open>Paths\<close>

lemma last_component_join:
  "name \<noteq> [] \<Longrightarrow> 47 \<notin> set name \<Longrightarrow> last_component (tree_path path name) = name"
  by (simp add: last_component_def tree_path_def split_on_append split_on_single)

section \<open>Writing and reading a file tree\<close>

definition good_name :: "pystr \<Rightarrow> bool" where
  "good_name s \<longleftrightarrow> s \<noteq> [] \<and> 47 \<notin> set s \<and> list_all scalar s"

text \<open>
  A well-formed tree: files with a 32-byte root and no negative length, directories with at
  least one child, every node under its own name, names without \<open>/\<close> that UTF-8 can encode.
\<close>

fun well_formed_node :: "file_tree_node \<Rightarrow> bool"
and well_formed_children :: "(pystr \<times> file_tree_node) list \<Rightarrow> bool" where
  "well_formed_node (FileTreeNode name len root children) \<longleftrightarrow>
     (case (root, children) of
        (Some r, None) \<Rightarrow> length r = 32 \<and> 0 \<le> len
      | (None, Some ch) \<Rightarrow> len = 0 \<and> ch \<noteq> [] \<and> well_formed_children ch
      | _ \<Rightarrow> False)"
| "well_formed_children [] \<longleftrightarrow> True"
| "well_formed_children ((k, n) # ch) \<longleftrightarrow>
     good_name k \<and> node_name n = k \<and> well_formed_node n \<and> k \<notin> fst ` set ch \<and> well_formed_children ch"

definition utf8 :: "pystr \<Rightarrow> bytes" where
  "utf8 s = (case utf8_encode s of Inl _ \<Rightarrow> [] | Inr bs \<Rightarrow> bs)"

lemma utf8_eq: "list_all scalar s \<Longrightarrow> utf8_encode s = Inr (utf8 s) \<and> utf8_decode (utf8 s) = Inr s"
  using utf8_roundtrip [of s] by (auto simp: utf8_def)

lemma utf8_inject: "list_all scalar s \<Longrightarrow> list_all scalar t \<Longrightarrow> utf8 s = utf8 t \<longleftrightarrow> s = t"
  using utf8_eq by (metis sum.inject(2))

lemma good_name_key: "good_name s \<Longrightarrow> utf8 s \<noteq> []"
  using utf8_encode_nonempty utf8_eq by (auto simp: good_name_def)

lemma good_names: "well_formed_children ch \<Longrightarrow> \<forall>c\<in>set ch. good_name (fst c)"
proof (induction ch)
  case (Cons c ch)
  then show ?case by (cases c) simp
qed simp

text \<open>The dictionary a list of children is written to.\<close>

definition child_entry :: "pystr \<times> file_tree_node \<Rightarrow> pyobj \<times> pyobj" where
  "child_entry c = (PBytes (utf8 (fst c)), (case node_to_dict (snd c) of Inl _ \<Rightarrow> POther | Inr v \<Rightarrow> v))"

definition reads_back :: "file_tree_node \<Rightarrow> bool" where
  "reads_back n \<longleftrightarrow> (\<exists>v. node_to_dict n = Inr v
      \<and> (\<forall>path. node_name n \<noteq> [] \<and> last_component path = node_name n \<longrightarrow> parse_file_tree path v = Inr n))"

lemma children_to_dict_ok:
  "well_formed_children ch \<Longrightarrow> \<forall>(k, n)\<in>set ch. reads_back n \<Longrightarrow>
     (\<forall>c\<in>set ch. PBytes (utf8 (fst c)) \<notin> fst ` set d) \<Longrightarrow>
     children_to_dict ch d = Inr (d @ map child_entry ch)"
proof (induction ch arbitrary: d)
  case Nil
  then show ?case by simp
next
  case (Cons c ch)
  obtain k n where c: "c = (k, n)" by (cases c)
  with Cons.prems have g: "good_name k" "k \<notin> fst ` set ch" "well_formed_children ch" "reads_back n"
    and d: "PBytes (utf8 k) \<notin> fst ` set d" by auto
  then obtain v where v: "node_to_dict n = Inr v" by (auto simp: reads_back_def)
  have sc: "list_all scalar k" using g(1) by (simp add: good_name_def)
  have names: "\<forall>c\<in>set ch. good_name (fst c)" using g(3) by (rule good_names)
  have "\<forall>c\<in>set ch. PBytes (utf8 (fst c)) \<notin> fst ` set (d @ [(PBytes (utf8 k), v)])"
  proof
    fix x
    assume x: "x \<in> set ch"
    with g(2) have "fst x \<noteq> k" by auto
    moreover have "list_all scalar (fst x)" using names x by (simp add: good_name_def)
    ultimately have "utf8 (fst x) \<noteq> utf8 k" using utf8_inject sc by blast
    then show "PBytes (utf8 (fst x)) \<notin> fst ` set (d @ [(PBytes (utf8 k), v)])"
      using Cons.prems(3) x by auto
  qed
  with Cons.IH [OF g(3)] Cons.prems(2)
  have "children_to_dict ch (d @ [(PBytes (utf8 k), v)]) = Inr ((d @ [(PBytes (utf8 k), v)]) @ map child_entry ch)"
    by simp
  then show ?case using c v d utf8_eq [OF sc] by (simp add: update_fresh child_entry_def)
qed

lemma parse_items_ok:
  "well_formed_children ch \<Longrightarrow> \<forall>(k, n)\<in>set ch. reads_back n \<Longrightarrow>
     (\<forall>c\<in>set ch. fst c \<notin> fst ` set acc) \<Longrightarrow>
     parse_tree_items path (map child_entry ch) acc = Inr (acc @ ch)"
proof (induction ch arbitrary: acc)
  case Nil
  then show ?case by simp
next
  case (Cons c ch)
  obtain k n where c: "c = (k, n)" by (cases c)
  with Cons.prems have g: "good_name k" "node_name n = k" "k \<notin> fst ` set ch" "well_formed_children ch"
    and acc: "k \<notin> fst ` set acc" by auto
  from Cons.prems(2) c obtain v where v: "node_to_dict n = Inr v"
      "\<And>path. node_name n \<noteq> [] \<and> last_component path = node_name n \<Longrightarrow> parse_file_tree path v = Inr n"
    by (auto simp: reads_back_def)
  have "parse_file_tree (tree_path path k) v = Inr n"
    using g(1,2) by (intro v(2)) (simp add: good_name_def last_component_join)
  moreover have "tree_key (PBytes (utf8 k)) = Inr k"
    using g(1) utf8_eq by (simp add: tree_key_def good_name_def)
  moreover have "parse_tree_items path (map child_entry ch) (acc @ [(k, n)]) = Inr ((acc @ [(k, n)]) @ ch)"
    using Cons.IH [OF g(4), of "acc @ [(k, n)]"] Cons.prems(2,3) g(3) by auto
  moreover have "child_entry c = (PBytes (utf8 k), v)" using c v(1) by (simp add: child_entry_def)
  ultimately show ?case
    using c acc good_name_key [OF g(1)] by (simp add: update_fresh)
qed

lemma no_file_entry: "well_formed_children ch \<Longrightarrow> map_of (map child_entry ch) (PBytes []) = None"
proof (induction ch)
  case (Cons c ch)
  then show ?case using good_name_key [of "fst c"] by (cases c) (auto simp: child_entry_def)
qed simp

lemma node_reads_back:
  "well_formed_node n \<Longrightarrow> reads_back n"
  "well_formed_children ch \<Longrightarrow> \<forall>(k, n)\<in>set ch. reads_back n"
proof (induction n and ch rule: well_formed_node_well_formed_children.induct)
  case (1 name len root children)
  show ?case
  proof (cases root)
    case (Some r)
    with "1.prems" have "children = None" "length r = 32" "0 \<le> len" by (auto split: option.splits)
    with Some show ?thesis
      by (auto simp: reads_back_def parse_file_entry_def get_def key_def ascii_def file_tree_node_def
          is_file_def is_directory_def)
  next
    case None
    with "1.prems" obtain ch where ch: "children = Some ch" "len = 0" "ch \<noteq> []" "well_formed_children ch"
      by (auto split: option.splits)
    with "1.IH" None have rb: "\<forall>(k, n)\<in>set ch. reads_back n" by auto
    have d: "children_to_dict ch [] = Inr (map child_entry ch)"
      using children_to_dict_ok [OF ch(4) rb, of "[]"] by simp
    have "parse_tree_items path (map child_entry ch) [] = Inr ch" for path
      using parse_items_ok [OF ch(4) rb, of "[]"] by simp
    then show ?thesis using None ch d no_file_entry [OF ch(4)]
      by (simp add: reads_back_def file_tree_node_def is_file_def is_directory_def)
  qed
next
  case 2
  then show ?case by simp
next
  case (3 k n ch)
  then show ?case by simp
qed

lemma parse_roots_ok:
  "well_formed_children ch \<Longrightarrow> (\<forall>c\<in>set ch. fst c \<notin> fst ` set acc) \<Longrightarrow>
     parse_roots str_of (map child_entry ch) acc = Inr (acc @ ch)"
proof (induction ch arbitrary: acc)
  case Nil
  then show ?case by simp
next
  case (Cons c ch)
  obtain k n where c: "c = (k, n)" by (cases c)
  with Cons.prems have g: "good_name k" "node_name n = k" "k \<notin> fst ` set ch" "well_formed_children ch"
    "well_formed_node n" and acc: "k \<notin> fst ` set acc" by auto
  from node_reads_back(1) [OF g(5)] obtain v where v: "node_to_dict n = Inr v"
      "\<And>path. node_name n \<noteq> [] \<and> last_component path = node_name n \<Longrightarrow> parse_file_tree path v = Inr n"
    by (auto simp: reads_back_def)
  have "last_component k = k" using last_component_join [of k "[]"] g(1) by (simp add: good_name_def tree_path_def)
  then have "parse_file_tree k v = Inr n" using g(1,2) by (intro v(2)) (simp add: good_name_def)
  moreover have "to_text str_of (PBytes (utf8 k)) = Inr k"
    using g(1) utf8_eq by (simp add: to_text_def good_name_def)
  moreover have "parse_roots str_of (map child_entry ch) (acc @ [(k, n)]) = Inr ((acc @ [(k, n)]) @ ch)"
    using Cons.IH [OF g(4), of "acc @ [(k, n)]"] Cons.prems(2) g(3) by auto
  moreover have "child_entry c = (PBytes (utf8 k), v)" using c v(1) by (simp add: child_entry_def)
  ultimately show ?case using c acc by (simp add: update_fresh)
qed


section \<open>Traversals agree\<close>

lemma extract_total:
  "extract_files_from_tree cur n = Inr fs \<Longrightarrow> calculate_total_length n = sum_list (map fi_length fs)"
  "extract_children cur ch = Inr fs \<Longrightarrow> total_of_children ch = sum_list (map fi_length fs)"
  by (induction cur n and cur ch arbitrary: fs and fs rule: extract_files_from_tree_extract_children.induct)
    (auto simp: pbind_eq_Inr extract_file_def Let_def split: if_splits option.splits)

lemma extract_paths:
  "extract_files_from_tree cur n = Inr fs \<Longrightarrow> node_file_paths cur n = map fi_full_path fs"
  "extract_children cur ch = Inr fs \<Longrightarrow> children_file_paths cur ch = map fi_full_path fs"
  by (induction cur n and cur ch arbitrary: fs and fs rule: extract_files_from_tree_extract_children.induct)
    (auto simp: pbind_eq_Inr extract_file_def Let_def split: if_splits option.splits)

lemma extract_lengths:
  "extract_files_from_tree cur n = Inr fs \<Longrightarrow> \<forall>f\<in>set fs. 0 \<le> fi_length f"
  "extract_children cur ch = Inr fs \<Longrightarrow> \<forall>f\<in>set fs. 0 \<le> fi_length f"
proof (induction cur n and cur ch arbitrary: fs and fs rule: extract_files_from_tree_extract_children.induct)
  case (1 cur name len root children)
  then show ?case
    by (auto simp: pbind_eq_Inr extract_file_def Let_def split: if_splits option.splits)
next
  case (3 cur k node ch)
  then show ?case by (auto simp: pbind_eq_Inr)
qed simp

section \<open>Piece layers\<close>

lemma extract_piece_hashes_eq:
  "extract_piece_hashes d = Inr hs \<longleftrightarrow> 32 dvd length d \<and> hs = chunks 32 d"
proof -
  have "map (\<lambda>i. take 32 (drop (i * 32) d)) [0..<length d div 32] = chunks 32 d" if "32 dvd length d"
  proof -
    have "(length d + 32 - 1) div 32 = length d div 32" using that by (auto elim!: dvdE)
    then show ?thesis unfolding chunks_def by (simp only: mult.commute)
  qed
  then show ?thesis by (auto simp: extract_piece_hashes_def mod_eq_0_iff_dvd)
qed

definition layer_ok :: "int \<Rightarrow> bytes \<times> piece_layer \<Rightarrow> bool" where
  "layer_ok piece_len rl \<longleftrightarrow> length (fst rl) = 32 \<and> pl_piece_length (snd rl) = piece_len
     \<and> (\<forall>h\<in>set (pl_pieces (snd rl)). length h = 32)"

lemma update_Ball: "\<forall>x\<in>set d. P x \<Longrightarrow> P (k, v) \<Longrightarrow> \<forall>x\<in>set (AList.update k v d). P x"
  by (induction d) auto

lemma distinct_update: "distinct (map fst d) \<Longrightarrow> distinct (map fst (AList.update k v d))"
  by (rule distinct_update)

lemma parse_piece_layers_ok:
  "parse_piece_layers items n layers = Inr layers' \<Longrightarrow> \<forall>rl\<in>set layers. layer_ok n rl \<Longrightarrow>
     \<forall>rl\<in>set layers'. layer_ok n rl"
proof (induction items n layers rule: parse_piece_layers.induct)
  case (2 k v items n layers)
  then obtain root d hs where k: "k = PBytes root" "length root = 32" "v = PBytes d"
      "extract_piece_hashes d = Inr hs"
    by (auto simp: pbind_eq_Inr split: pyobj.splits if_splits)
  then have hs: "\<forall>h\<in>set hs. length h = 32" using chunks_dvd [of 32 d] by (auto simp: extract_piece_hashes_eq)
  then have l: "piece_layer n hs = Inr \<lparr>pl_piece_length = n, pl_pieces = hs\<rparr>" by (simp add: piece_layer_def)
  have "\<forall>rl\<in>set (AList.update root \<lparr>pl_piece_length = n, pl_pieces = hs\<rparr> layers). layer_ok n rl"
    using "2.prems"(2) k(2) hs by (intro update_Ball) (auto simp: layer_ok_def)
  with 2 k l show ?case by simp
qed simp

section \<open>Hashing a file\<close>

lemma hash_pieces_loop_eq:
  "0 < n \<Longrightarrow> f_pos f = k \<Longrightarrow>
     hash_pieces_loop n k f hs = Inr (hs @ map sha256 (chunks (nat n) (drop k (f_content f))))"
proof (induction n k f hs rule: hash_pieces_loop.induct)
  case (1 n k f hs)
  let ?rest = "drop k (f_content f)"
  show ?case
  proof (cases "k < length (f_content f)")
    case True
    then have ne: "?rest \<noteq> []" by simp
    then have data: "take (nat n) ?rest \<noteq> []" using "1.prems"(1) by simp
    have r: "read_n n f = (take (nat n) ?rest, f\<lparr>f_pos := k + length (take (nat n) ?rest)\<rparr>)"
      using "1.prems" by (simp add: read_n_def Let_def)
    have d: "drop (k + length (take (nat n) ?rest)) (f_content f) = drop (nat n) ?rest"
      by (auto simp: min_def add.commute)
    show ?thesis
      using "1.IH" [OF True r [symmetric] refl data] "1.prems"(1) True r data d chunks_rec [of "nat n" ?rest] ne
      by (simp add: hash_pieces_loop.simps [of n k f hs] hash_piece_v2_def)
  next
    case False
    then show ?thesis by (simp add: hash_pieces_loop.simps [of n k f hs])
  qed
qed

lemma length_chunks: "length (chunks n xs) = (length xs + n - 1) div n"
  by (simp add: chunks_def)

lemma ceil_div_chunks:
  assumes "0 < n" and "xs \<noteq> []"
  shows "ceil_div (int (length xs)) n = int (length (chunks (nat n) xs))"
proof -
  let ?m = "int (length xs)"
  have "1 \<le> ?m" using assms(2) by (cases xs) auto
  have eq: "- ((- ?m) div n) = (?m + n - 1) div n"
  proof -
    have "(- ?m) div n = - ((?m + n - 1) div n)"
    proof (rule int_div_pos_eq)
      let ?q = "(?m + n - 1) div n" and ?r = "(?m + n - 1) mod n"
      have qr: "?m + n - 1 = n * ?q + ?r" "0 \<le> ?r" "?r < n" using assms(1) by simp_all
      show "- ?m = n * (- ?q) + (n - 1 - ?r)" using qr(1) by (simp add: algebra_simps)
      show "0 \<le> n - 1 - ?r" "n - 1 - ?r < n" using qr by simp_all
    qed
    then show ?thesis by simp
  qed
  have "int (length xs + nat n - 1) = ?m + n - 1" using assms(1) \<open>1 \<le> ?m\<close> by simp
  then show ?thesis
    using assms(1) unfolding ceil_div_def eq length_chunks by (simp add: zdiv_int)
qed

lemma build_piece_layer_eq:
  assumes "0 < n" and "content \<noteq> []"
  shows "build_piece_layer (Some content) n = Inr (r, l) \<longleftrightarrow>
    hash_piece_layer (pl_pieces l) = Inr r
    \<and> l = \<lparr>pl_piece_length = n, pl_pieces = map sha256 (chunks (nat n) content)\<rparr>"
proof -
  let ?hs = "map sha256 (chunks (nat n) content)"
  have ne: "?hs \<noteq> []" using chunks_rec [of "nat n" content] assms by simp
  have len: "\<forall>h\<in>set ?hs. length h = 32" by (auto simp: sha256.length_H)
  then obtain root where root: "hash_piece_layer ?hs = Inr root" using ne unfolding piece_layer_eq by auto
  then have "calculate_pieces_root ?hs = Inr root" using ne by (simp add: calculate_pieces_root_def)
  moreover have "piece_layer n ?hs = Inr \<lparr>pl_piece_length = n, pl_pieces = ?hs\<rparr>"
    using len by (auto simp: piece_layer_def)
  moreover have "hash_pieces_loop n 0 \<lparr>f_content = content, f_pos = 0, f_seekable = True\<rparr> [] = Inr ?hs"
    using hash_pieces_loop_eq [OF assms(1), of "\<lparr>f_content = content, f_pos = 0, f_seekable = True\<rparr>" 0] by simp
  ultimately have "build_piece_layer (Some content) n = Inr (root, \<lparr>pl_piece_length = n, pl_pieces = ?hs\<rparr>)"
    using assms(2) by (simp add: build_piece_layer_def)
  then show ?thesis using root by auto
qed

section \<open>v1 pieces\<close>

text \<open>The finished pieces are full, and they and the current piece are the bytes read so far.\<close>

definition v1_state :: "nat \<Rightarrow> bytes \<Rightarrow> bytes \<times> bytes list \<Rightarrow> bool" where
  "v1_state n seen st \<longleftrightarrow>
     (\<exists>cs. snd st = map sha1 cs \<and> (\<forall>c\<in>set cs. length c = n) \<and> concat cs @ fst st = seen
        \<and> length (fst st) < n)"

lemma v1_file_loop_ok:
  "0 < n \<Longrightarrow> v1_state (nat n) seen (cur, pieces) \<Longrightarrow>
     v1_state (nat n) (seen @ drop (f_pos f) (f_content f)) (v1_file_loop n f cur pieces)"
proof (induction n f cur pieces arbitrary: seen rule: v1_file_loop.induct)
  case (1 n f cur pieces)
  let ?rest = "drop (f_pos f) (f_content f)"
  let ?m = "nat n - length cur"
  let ?data = "take ?m ?rest"
  from "1.prems" obtain cs where cs: "pieces = map sha1 cs" "\<forall>c\<in>set cs. length c = nat n"
      "concat cs @ cur = seen" "length cur < nat n"
    by (auto simp: v1_state_def)
  have m: "nat (n - int (length cur)) = ?m" by (simp add: nat_diff_distrib')
  have r: "read_n (n - int (length cur)) f = (?data, f\<lparr>f_pos := f_pos f + length ?data\<rparr>)"
    using cs(4) by (simp add: read_n_def Let_def m)
  have split: "seen @ ?data @ drop (f_pos f + length ?data) (f_content f) = seen @ ?rest"
    using take_length_drop [of ?m ?rest] by (simp add: add.commute)
  show ?case
  proof (cases "?data = []")
    case True
    then have "?rest = []" using cs(4) by auto
    with True r "1.prems"(2) show ?thesis by (simp add: v1_file_loop.simps [of n f cur pieces])
  next
    case data: False
    show ?thesis
    proof (cases "n \<le> int (length (cur @ ?data))")
      case True
      have full: "length (cur @ ?data) = nat n" using True cs(4) by auto
      then have cut: "take (nat n) (cur @ ?data) = cur @ ?data" "drop (nat n) (cur @ ?data) = []" by simp_all
      have "v1_state (nat n) (seen @ ?data) ([], pieces @ [sha1 (cur @ ?data)])"
        unfolding v1_state_def using cs full "1.prems"(1) by (intro exI [of _ "cs @ [cur @ ?data]"]) auto
      with "1.IH"(1) [OF r [symmetric] refl data refl True "1.prems"(1), of "seen @ ?data"] cut
      have "v1_state (nat n) ((seen @ ?data) @ drop (f_pos f + length ?data) (f_content f))
          (v1_file_loop n (f\<lparr>f_pos := f_pos f + length ?data\<rparr>) [] (pieces @ [sha1 (cur @ ?data)]))"
        by simp
      then show ?thesis
        using split r data True cut "1.prems"(1) by (simp add: v1_file_loop.simps [of n f cur pieces])
    next
      case False
      have "v1_state (nat n) (seen @ ?data) (cur @ ?data, pieces)"
        unfolding v1_state_def using cs False by (intro exI [of _ cs]) auto
      with "1.IH"(2) [OF r [symmetric] refl data refl False "1.prems"(1), of "seen @ ?data"]
      have "v1_state (nat n) ((seen @ ?data) @ drop (f_pos f + length ?data) (f_content f))
          (v1_file_loop n (f\<lparr>f_pos := f_pos f + length ?data\<rparr>) (cur @ ?data) pieces)"
        by simp
      moreover have "v1_file_loop n f cur pieces
          = v1_file_loop n (f\<lparr>f_pos := f_pos f + length ?data\<rparr>) (cur @ ?data) pieces"
        using data False by (simp only: v1_file_loop.simps [of n f cur pieces] r Let_def prod.case if_False)
      ultimately show ?thesis using split by simp
    qed
  qed
qed

lemma chunks_blocks:
  "0 < n \<Longrightarrow> \<forall>c\<in>set cs. length c = n \<Longrightarrow> length r < n \<Longrightarrow>
     chunks n (concat cs @ r) = cs @ (if r = [] then [] else [r])"
proof (induction cs)
  case Nil
  then show ?case by (cases "r = []") (simp_all add: chunks_rec)
next
  case (Cons c cs)
  then have "c @ concat cs @ r \<noteq> []" by auto
  with Cons show ?case by (simp add: chunks_rec)
qed

definition disk_contents :: "(pystr \<Rightarrow> bytes option) \<Rightarrow> (pystr \<times> int) list \<Rightarrow> bytes" where
  "disk_contents disk files = concat (map (\<lambda>f. case disk (fst f) of None \<Rightarrow> [] | Some b \<Rightarrow> b) files)"

lemma v1_files_ok:
  assumes "0 < n" and "v1_state (nat n) seen st"
  shows "v1_state (nat n) (seen @ disk_contents disk files)
    (fold (\<lambda>f (cur, pieces).
            case disk (fst f) of
              None \<Rightarrow> (cur, pieces)
            | Some content \<Rightarrow>
                v1_file_loop n \<lparr>f_content = content, f_pos = 0, f_seekable = True\<rparr> cur pieces) files st)"
  using assms(2)
proof (induction files arbitrary: seen st)
  case Nil
  then show ?case by (simp add: disk_contents_def)
next
  case (Cons f files)
  obtain cur pieces where st: "st = (cur, pieces)" by (cases st)
  show ?case
  proof (cases "disk (fst f)")
    case None
    with Cons st show ?thesis by (simp add: disk_contents_def)
  next
    case (Some content)
    have "v1_state (nat n) (seen @ content)
        (v1_file_loop n \<lparr>f_content = content, f_pos = 0, f_seekable = True\<rparr> cur pieces)"
      using v1_file_loop_ok [OF assms(1) Cons.prems [unfolded st], of "\<lparr>f_content = content, f_pos = 0, f_seekable = True\<rparr>"]
      by simp
    from Cons.IH [OF this] Some st show ?thesis by (simp add: disk_contents_def)
  qed
qed

lemma build_v1_pieces_eq:
  assumes "0 < n"
  shows "build_v1_pieces disk files n =
    concat (map sha1 (chunks (nat n) (disk_contents disk (sort_key fst (sort_key snd files)))))"
proof -
  let ?st = "fold (\<lambda>f (cur, pieces).
            case disk (fst f) of
              None \<Rightarrow> (cur, pieces)
            | Some content \<Rightarrow>
                v1_file_loop n \<lparr>f_content = content, f_pos = 0, f_seekable = True\<rparr> cur pieces)
          (sort_key fst (sort_key snd files)) ([], [])"
  let ?all = "disk_contents disk (sort_key fst (sort_key snd files))"
  have "v1_state (nat n) [] ([], [])" using assms by (auto simp: v1_state_def)
  from v1_files_ok [OF assms this] have "v1_state (nat n) ?all ?st" by simp
  then obtain cs where cs: "snd ?st = map sha1 cs" "\<forall>c\<in>set cs. length c = nat n"
      "concat cs @ fst ?st = ?all" "length (fst ?st) < nat n"
    by (auto simp: v1_state_def)
  then have "chunks (nat n) ?all = cs @ (if fst ?st = [] then [] else [fst ?st])"
    using chunks_blocks [of "nat n" cs "fst ?st"] assms by simp
  then show ?thesis
    using cs(1) by (auto simp: build_v1_pieces_def case_prod_unfold Let_def)
qed


lemma well_formed_valid:
  "well_formed_node n \<Longrightarrow> validate_file_tree n = Inr ()"
  "well_formed_children ch \<Longrightarrow> validate_children ch = Inr ()"
  by (induction n and ch rule: well_formed_node_well_formed_children.induct)
    (auto split: option.splits)

lemma merkle_root_32:
  "hs \<noteq> [] \<and> (\<forall>h\<in>set hs. length h = 32) \<and> r = hd (merkle_loop hs) \<Longrightarrow> length r = 32"
proof (induction hs rule: merkle_loop.induct)
  case (1 hs)
  show ?case
  proof (cases "1 < length hs")
    case True
    then have "pair_level hs \<noteq> []" using length_pair_level [of hs] by (cases "pair_level hs") auto
    with 1 True show ?thesis by (auto simp: merkle_step pair_level_32)
  next
    case False
    with 1 show ?thesis by (auto simp: merkle_loop.simps [of hs])
  qed
qed


section \<open>Enough fuel for the tree builder\<close>

lemma join_split: "join_with 47 (split_on 47 p) = p"
proof (induction p)
  case (Cons x p)
  then show ?case
    by (cases "split_on 47 p" rule: list.exhaust; cases "tl (split_on 47 p)")
      (auto split: list.splits)
qed simp

lemma rest_shorter: "p \<noteq> [] \<Longrightarrow> length (join_with 47 (tl (split_on 47 p))) < length p"
proof -
  assume p: "p \<noteq> []"
  obtain w ws where s: "split_on 47 p = w # ws" by (cases "split_on 47 p") auto
  show ?thesis
  proof (cases ws)
    case Nil
    with s p show ?thesis by simp
  next
    case (Cons v vs)
    with join_split [of p] s have "p = w @ [47] @ join_with 47 ws" by simp
    then have "length p = length w + 1 + length (join_with 47 ws)" by (metis length_append length_Cons list.size(3) add.assoc One_nat_def)
    with s show ?thesis by simp
  qed
qed

definition groups_weight :: "(pystr \<times> (pystr \<times> int) list) list \<Rightarrow> nat" where
  "groups_weight gs = sum_list (map (\<lambda>g. files_weight (snd g)) gs)"

lemma groups_weight_add: "groups_weight (add_to_group k f gs) = groups_weight gs + length (fst f)"
  by (induction gs) (auto simp: groups_weight_def files_weight_def)

lemma group_weight_le: "(k, fs) \<in> set gs \<Longrightarrow> files_weight fs \<le> groups_weight gs"
  by (induction gs) (auto simp: groups_weight_def)

lemma add_to_group_nonempty [simp]: "add_to_group k f gs \<noteq> []"
  by (induction k f gs rule: add_to_group.induct) auto

lemma group_fold_weight:
  "groups_weight (fold (\<lambda>(p, len) gs.
        if empty_path p then gs
        else let parts = split_on 47 p
             in add_to_group (hd parts) (join_with 47 (tl parts), len) gs) files gs)
     + length (filter (\<lambda>f. \<not> empty_path (fst f)) files) \<le> groups_weight gs + files_weight files"
proof (induction files arbitrary: gs)
  case Nil
  then show ?case by (simp add: files_weight_def)
next
  case (Cons f files)
  obtain p len where f: "f = (p, len)" by (cases f)
  show ?case
  proof (cases "empty_path p")
    case True
    with Cons.IH [of gs] f show ?thesis by (simp add: files_weight_def)
  next
    case False
    let ?gs = "add_to_group (hd (split_on 47 p)) (join_with 47 (tl (split_on 47 p)), len) gs"
    have "length (join_with 47 (tl (split_on 47 p))) < length p"
      using False by (intro rest_shorter) (auto simp: empty_path_def)
    with Cons.IH [of ?gs] f False groups_weight_add [of "hd (split_on 47 p)" "(join_with 47 (tl (split_on 47 p)), len)" gs]
    show ?thesis by (simp add: files_weight_def Let_def)
  qed
qed

lemma group_files_Nil: "(\<forall>f\<in>set files. empty_path (fst f)) \<Longrightarrow> group_files files = []"
  by (induction files) (auto simp: group_files_def)

lemma group_files_weight:
  assumes "(k, fs) \<in> set (group_files files)"
  shows "files_weight fs < files_weight files"
proof -
  have "group_files files \<noteq> []" using assms by auto
  with group_files_Nil obtain f where "f \<in> set files" "\<not> empty_path (fst f)" by blast
  then have "filter (\<lambda>f. \<not> empty_path (fst f)) files \<noteq> []" by (auto simp: filter_empty_conv)
  then have "0 < length (filter (\<lambda>f. \<not> empty_path (fst f)) files)" by simp
  moreover have "groups_weight (group_files files) + length (filter (\<lambda>f. \<not> empty_path (fst f)) files)
      \<le> files_weight files"
    using group_fold_weight [of files "[]"] unfolding group_files_def
    by (simp only: groups_weight_def list.map sum_list.Nil add_0)
  ultimately show ?thesis using group_weight_le [OF assms] by linarith
qed

declare build_node.simps [simp del]

lemma build_node_light:
  assumes "files_weight files = 0"
  shows "build_node n name files = build_node m name files"
proof -
  from assms have "\<forall>f\<in>set files. empty_path (fst f)" by (auto simp: files_weight_def empty_path_def)
  then have "group_files files = []" "filter (\<lambda>f. empty_path (fst f)) files = files"
    by (auto intro: group_files_Nil)
  then show ?thesis by (simp add: build_node.simps [of n] build_node.simps [of m])
qed

lemma build_node_fuel:
  "files_weight files \<le> n \<Longrightarrow> files_weight files \<le> m \<Longrightarrow> build_node n name files = build_node m name files"
proof (induction n arbitrary: m name files)
  case 0
  then show ?case by (intro build_node_light) simp
next
  case (Suc n)
  show ?case
  proof (cases m)
    case 0
    with Suc.prems show ?thesis by (intro build_node_light) simp
  next
    case m: (Suc m')
    have eq: "build_node n k fs = build_node m' k fs" if "(k, fs) \<in> set (group_files files)" for k fs
      using Suc.IH [of fs m' k] group_files_weight [OF that] Suc.prems m by simp
    have "[(k, the (build_node n k fs)). (k, fs) \<leftarrow> group_files files, build_node n k fs \<noteq> None]
        = [(k, the (build_node m' k fs)). (k, fs) \<leftarrow> group_files files, build_node m' k fs \<noteq> None]"
      by (intro arg_cong [of _ _ concat] map_cong refl) (auto simp: eq)
    then show ?thesis
      unfolding m build_node.simps [of "Suc n"] build_node.simps [of "Suc m'"] Let_def nat.case by (rule arg_cong)
  qed
qed

lemma build_file_tree_node_fuel:
  "files_weight files \<le> n \<Longrightarrow> build_node n name files = build_file_tree_node name files"
  unfolding build_file_tree_node_def by (rule build_node_fuel) simp_all

section \<open>Properties\<close>

text \<open>
  A well-formed file tree survives the torrent file: written to a bencoded dictionary and
  parsed again it is the same tree.
\<close>

theorem file_tree_roundtrip:
  assumes "well_formed_children tree"
  shows "\<exists>d. file_tree_to_dict tree = Inr (PDict d) \<and> parse_roots str_of d [] = Inr tree
    \<and> validate_children tree = Inr ()"
proof -
  have rb: "\<forall>(k, n)\<in>set tree. reads_back n" using node_reads_back(2) [OF assms] .
  have "validate_children ch = Inr ()" if "well_formed_children ch" for ch
    using that well_formed_valid(2) by blast
  moreover have "children_to_dict tree [] = Inr (map child_entry tree)"
    using children_to_dict_ok [OF assms rb, of "[]"] by simp
  moreover have "parse_roots str_of (map child_entry tree) [] = Inr tree"
    using parse_roots_ok [OF assms, of "[]"] by simp
  ultimately show ?thesis using assms by (simp add: file_tree_to_dict_def)
qed

theorem file_tree_roundtrip_witness:
  "\<exists>d. file_tree_to_dict [([100], FileTreeNode [100] 0 None (Some
          [([0x20AC], FileTreeNode [0x20AC] 5 (Some (replicate 32 7)) None)]))] = Inr (PDict d)
     \<and> parse_roots (\<lambda>_. []) d [] = Inr [([100], FileTreeNode [100] 0 None (Some
          [([0x20AC], FileTreeNode [0x20AC] 5 (Some (replicate 32 7)) None)]))]"
proof -
  have "well_formed_children [([100], FileTreeNode [100] 0 None (Some
          [([0x20AC], FileTreeNode [0x20AC] 5 (Some (replicate 32 7)) None)]))]"
    by (simp add: good_name_def scalar_def)
  from file_tree_roundtrip [OF this, of "\<lambda>_. []"] show ?thesis by blast
qed

text \<open>
  C25: what \<open>parse_v2\<close> returns is consistent: the info hashes are the digests of the bencoded info
  dictionary (32 bytes) and of its v1 part (20 bytes), the tree is valid, file lengths are not
  negative and add up to the total length, the file paths are those of the tree, the piece length
  is positive, and every piece layer has a 32-byte root and 32-byte hashes.
\<close>

theorem parse_v2_consistent:
  assumes "parse_v2 str_of info torrent = Inr t"
  shows "(\<exists>bs. encode (PDict info) = Inr bs \<and> v2_info_hash_v2 t = sha256 bs)
    \<and> length (v2_info_hash_v2 t) = 32
    \<and> (case v2_info_hash_v1 t of None \<Rightarrow> get ''pieces'' info = None | Some h \<Rightarrow> length h = 20)
    \<and> validate_children (v2_file_tree t) = Inr ()
    \<and> v2_total_length t = sum_list (map fi_length (v2_files t)) \<and> (\<forall>f\<in>set (v2_files t). 0 \<le> fi_length f)
    \<and> map fi_full_path (v2_files t) = children_file_paths [] (v2_file_tree t)
    \<and> 0 < v2_piece_length t \<and> (\<forall>rl\<in>set (v2_piece_layers t). layer_ok (v2_piece_length t) rl)"
proof -
  from assms obtain ld where h2: "calculate_info_hash_v2 info = Inr (v2_info_hash_v2 t)"
    and h1: "calculate_info_hash_v1 info = Inr (v2_info_hash_v1 t)"
    and tree: "validate_children (v2_file_tree t) = Inr ()"
    and files: "extract_children [] (v2_file_tree t) = Inr (v2_files t)"
    and total: "v2_total_length t = total_of_children (v2_file_tree t)"
    and plen: "piece_length_field info = Inr (v2_piece_length t)"
    and layers: "parse_piece_layers ld (v2_piece_length t) [] = Inr (v2_piece_layers t)"
    by (auto simp: parse_v2_def pbind_eq_Inr split: if_splits)
  from plen have plen: "0 < v2_piece_length t"
    by (auto simp: piece_length_field_def split: option.splits if_splits)
  have "\<forall>rl\<in>set (v2_piece_layers t). layer_ok (v2_piece_length t) rl"
    using parse_piece_layers_ok [OF layers] by simp
  moreover have "v2_total_length t = sum_list (map fi_length (v2_files t))"
    using extract_total(2) [OF files] total by simp
  moreover have "\<forall>f\<in>set (v2_files t). 0 \<le> fi_length f" using extract_lengths(2) [OF files] .
  moreover have "map fi_full_path (v2_files t) = children_file_paths [] (v2_file_tree t)"
    using extract_paths(2) [OF files] by simp
  moreover have "\<exists>bs. encode (PDict info) = Inr bs \<and> v2_info_hash_v2 t = sha256 bs"
    using h2 by (auto simp: calculate_info_hash_v2_def split: sum.splits)
  moreover from this have "length (v2_info_hash_v2 t) = 32" by (auto simp: sha256.length_H)
  moreover have "case v2_info_hash_v1 t of None \<Rightarrow> get ''pieces'' info = None | Some h \<Rightarrow> length h = 20"
    using h1 by (cases "v2_info_hash_v1 t")
      (auto simp: calculate_info_hash_v1_def Let_def sha1.length_H split: sum.splits if_splits)
  ultimately show ?thesis using tree plen by blast
qed

text \<open>A one-file torrent as the generator writes it.\<close>

definition sample_info :: pydict where
  "sample_info = [(key ''meta version'', PInt 2), (key ''name'', PBytes (ascii ''f'')),
     (key ''piece length'', PInt 16384),
     (key ''file tree'', PDict [(PBytes (ascii ''f''),
        PDict [(PBytes [], PDict [(key ''length'', PInt 5), (key ''pieces root'', PBytes (replicate 32 7))])])])]"

theorem parse_v2_consistent_witness:
  "\<exists>t. parse_v2 (\<lambda>_. []) sample_info [] = Inr t \<and> v2_total_length t = sum_list (map fi_length (v2_files t))"
proof -
  have "bencodable (PDict sample_info)"
    by code_simp
  then obtain bs where "encode (PDict sample_info) = Inr bs" using encode_parses by blast
  then have h: "calculate_info_hash_v2 sample_info = Inr (sha256 bs)" by (simp add: calculate_info_hash_v2_def)
  have g: "get ''meta version'' sample_info = Some (PInt 2)" "get ''name'' sample_info = Some (PBytes [102])"
    "get ''piece length'' sample_info = Some (PInt 16384)" "get ''piece layers'' sample_info = None"
    "get ''pieces'' sample_info = None" "get ''private'' sample_info = None"
    "get ''file tree'' sample_info = Some (PDict [(PBytes [102],
        PDict [(PBytes [], PDict [(key ''length'', PInt 5), (key ''pieces root'', PBytes (replicate 32 7))])])])"
    by code_simp+
  obtain t where t: "parse_v2 (\<lambda>_. []) sample_info [] = Inr t"
    using g h by (simp add: parse_v2_def name_field_def piece_length_field_def dict_field_def to_text_def get_def [of _ "[]"] calculate_info_hash_v1_def
        parse_file_entry_def file_tree_node_def is_file_def is_directory_def extract_file_def
        tree_path_def last_component_def parse_announce_list_def text_if_bytes_def
        pcons_def Let_def get_def [of "''length''"] get_def [of "''pieces root''"] key_def ascii_def)
  from parse_v2_consistent [OF t] t show ?thesis by blast
qed

text \<open>
  The piece layer built for a non-empty file holds the SHA-256 hashes of its consecutive
  pieces, passes \<open>_validate_piece_layer\<close> for the file's length, and is accepted by
  \<open>verify_piece_layer\<close> with the root that was returned.
\<close>

theorem build_piece_layer_valid:
  assumes "0 < n" and "content \<noteq> []"
  shows "\<exists>root layer. build_piece_layer (Some content) n = Inr (root, layer)
    \<and> pl_pieces layer = map sha256 (chunks (nat n) content)
    \<and> validate_piece_layer layer (int (length content)) n
    \<and> verify_piece_layer (pl_pieces layer) root = Inr True"
proof -
  let ?hs = "map sha256 (chunks (nat n) content)"
  have ne: "?hs \<noteq> []" using chunks_rec [of "nat n" content] assms by simp
  have len: "\<forall>h\<in>set ?hs. length h = 32" by (auto simp: sha256.length_H)
  then obtain root where root: "hash_piece_layer ?hs = Inr root" using ne unfolding piece_layer_eq by auto
  then have "build_piece_layer (Some content) n = Inr (root, \<lparr>pl_piece_length = n, pl_pieces = ?hs\<rparr>)"
    using build_piece_layer_eq [OF assms, of root "\<lparr>pl_piece_length = n, pl_pieces = ?hs\<rparr>"] by simp
  moreover have "validate_piece_layer \<lparr>pl_piece_length = n, pl_pieces = ?hs\<rparr> (int (length content)) n"
    using assms ceil_div_chunks [OF assms] by (simp add: validate_piece_layer_def)
  moreover have "length root = 32" using root merkle_root_32 unfolding piece_layer_eq by blast
  ultimately show ?thesis using root by (simp add: verify_piece_layer_def)
qed

theorem build_piece_layer_valid_witness:
  "\<exists>root layer. build_piece_layer (Some [1, 2, 3]) 2 = Inr (root, layer)
    \<and> pl_pieces layer = [sha256 [1, 2], sha256 [3]] \<and> validate_piece_layer layer 3 2"
proof -
  have "chunks 2 [1, 2, 3 :: byte] = [[1, 2], [3]]" by code_simp
  then show ?thesis using build_piece_layer_valid [of 2 "[1, 2, 3]"] by auto
qed

text \<open>
  The v1 pieces of a hybrid torrent are the SHA-1 hashes of the consecutive pieces of the
  contents concatenated in the order of the sorted paths, with a short last piece.
\<close>

theorem build_v1_pieces_stream:
  assumes "0 < n"
  shows "build_v1_pieces disk files n =
    concat (map sha1 (chunks (nat n) (disk_contents disk (sort_key fst (sort_key snd files)))))"
  using assms by (rule build_v1_pieces_eq)

theorem build_v1_pieces_stream_witness:
  "build_v1_pieces [[98] \<mapsto> [1, 2, 3], [97] \<mapsto> [4, 5]] [([98], 3), ([97], 2)] 2
     = sha1 [4, 5] @ sha1 [1, 2] @ sha1 [3]"
proof -
  have "chunks 2 (disk_contents [[98] \<mapsto> [1, 2, 3], [97] \<mapsto> [4, 5]]
      (sort_key fst (sort_key snd [([98], 3 :: int), ([97], 2)]))) = [[4, 5], [1, 2], [3 :: byte]]"
    by code_simp
  then show ?thesis
    using build_v1_pieces_stream [of 2 "[[98] \<mapsto> [1, 2, 3], [97] \<mapsto> [4, 5]]" "[([98], 3), ([97], 2)]"]
    by simp
qed

end
