(* ===== verification/Torrent_Parser.thy ===== *)
theory Torrent_Parser
  imports Torrent_V2
begin

text \<open>
  \<open>ccbt/core/torrent.py\<close>, with the models \<open>FileInfo\<close> and \<open>TorrentInfo\<close> of \<open>ccbt/models.py\<close> and the
  file attributes of \<open>ccbt/core/torrent_attributes.py\<close>: parsing of metainfo files. The bytes of the
  file or URL are an argument. The objects come from the decoder, so they are integers, bytes, lists
  and dictionaries. pydantic turns a bytes object into an integer when it spells one: \<open>lax\<close> is the integer
  it gets. \<open>depth\<close> is the number of nested calls the interpreter still allows; beyond it a call raises
  \<open>RecursionError\<close>, a \<open>RuntimeError\<close>.
\<close>

section \<open>File attributes\<close>

definition has_attr :: "string \<Rightarrow> pystr option \<Rightarrow> bool" where
  "has_attr c attributes \<longleftrightarrow> (case attributes of None \<Rightarrow> False | Some a \<Rightarrow> set (lit c) \<subseteq> set a)"

datatype file_attribute = PADDING | SYMLINK | EXECUTABLE | HIDDEN

text \<open>An \<open>IntFlag\<close> is the set of its flags. A character without a flag is logged.\<close>

definition attribute_flag :: "nat \<Rightarrow> file_attribute option" where
  "attribute_flag c =
     (if c = of_char CHR ''p'' then Some PADDING
      else if c = of_char CHR ''l'' then Some SYMLINK
      else if c = of_char CHR ''x'' then Some EXECUTABLE
      else if c = of_char CHR ''h'' then Some HIDDEN
      else None)"

definition parse_attributes :: "pystr option \<Rightarrow> file_attribute set" where
  "parse_attributes attr_str =
     (case attr_str of
        None \<Rightarrow> {}
      | Some s \<Rightarrow> fold (\<lambda>c flags. case attribute_flag c of Some a \<Rightarrow> insert a flags | None \<Rightarrow> flags) s {})"

definition is_padding_file :: "pystr option \<Rightarrow> bool" where
  "is_padding_file attributes = has_attr ''p'' attributes"

definition should_skip_file :: "pystr option \<Rightarrow> bool" where
  "should_skip_file attributes = is_padding_file attributes"

definition validate_symlink :: "pystr option \<Rightarrow> pystr option \<Rightarrow> bool" where
  "validate_symlink attributes symlink_path =
     (if has_attr ''l'' attributes then symlink_path \<noteq> None else True)"

definition get_attribute_display_string :: "pystr option \<Rightarrow> pystr" where
  "get_attribute_display_string attributes =
     (if has_attr ''p'' attributes then lit ''[p]'' else []) @
     (if has_attr ''l'' attributes then lit ''[l]'' else []) @
     (if has_attr ''x'' attributes then lit ''[x]'' else []) @
     (if has_attr ''h'' attributes then lit ''[h]'' else [])"

text \<open>The file is its content, or there is none at the path; it is read in chunks of 8192 bytes.\<close>

definition verify_file_sha1 :: "bytes option \<Rightarrow> bytes \<Rightarrow> bool py" where
  "verify_file_sha1 content expected_sha1 =
     (if length expected_sha1 \<noteq> 20 then Inl ValueError
      else case content of
        None \<Rightarrow> Inl FileNotFoundError
      | Some c \<Rightarrow> Inr (sha1 (read_loop 8192 [] \<lparr>f_content = c, f_pos = 0, f_seekable = True\<rparr>) = expected_sha1))"

section \<open>The models\<close>

text \<open>\<open>FileInfo\<close>, with its validators.\<close>

record file_entry = file_info +
  fe_attributes :: "pystr option"
  fe_symlink_path :: "pystr option"
  fe_sha1 :: "bytes option"

definition int_field :: "(pyobj \<Rightarrow> int option) \<Rightarrow> pyobj \<Rightarrow> int py" where
  "int_field lax v =
     (case v of
        PInt i \<Rightarrow> Inr i
      | PBytes b \<Rightarrow> (case lax v of Some i \<Rightarrow> Inr i | None \<Rightarrow> Inl ValueError)
      | _ \<Rightarrow> Inl ValueError)"

definition bytes_field :: "pyobj \<Rightarrow> bytes py" where
  "bytes_field v = (case v of PBytes b \<Rightarrow> Inr b | _ \<Rightarrow> Inl ValueError)"

text \<open>An optional field: the default is \<open>None\<close>.\<close>

definition optional :: "('a \<Rightarrow> 'b py) \<Rightarrow> 'a option \<Rightarrow> 'b option py" where
  "optional f v = (case v of None \<Rightarrow> Inr None | Some x \<Rightarrow> pbind (f x) (\<lambda>y. Inr (Some y)))"

definition wrong_length :: "nat \<Rightarrow> bytes option \<Rightarrow> bool" where
  "wrong_length n b \<longleftrightarrow> (case b of None \<Rightarrow> False | Some x \<Rightarrow> length x \<noteq> n)"

definition missing_target :: "pystr option \<Rightarrow> pystr option \<Rightarrow> bool" where
  "missing_target attributes symlink \<longleftrightarrow> has_attr ''l'' attributes \<and> symlink \<in> {None, Some []}"

definition file_info_model ::
  "(pyobj \<Rightarrow> int option) \<Rightarrow> pystr \<Rightarrow> pyobj \<Rightarrow> pystr list option \<Rightarrow> pystr \<Rightarrow> pystr option \<Rightarrow> pystr option
    \<Rightarrow> pyobj option \<Rightarrow> file_entry py" where
  "file_info_model lax name len path full_path attributes symlink sha =
     pbind (int_field lax len) (\<lambda>n.
     pbind (optional bytes_field sha) (\<lambda>h.
     if n < 0 \<or> wrong_length 20 h \<or> missing_target attributes symlink then Inl ValueError
     else Inr \<lparr>fi_name = name, fi_length = n, fi_path = path, fi_full_path = full_path,
               fe_attributes = attributes, fe_symlink_path = symlink, fe_sha1 = h\<rparr>))"

record torrent_meta =
  tm_name :: pystr
  tm_info_hash :: bytes
  tm_announce :: pystr
  tm_announce_list :: "pystr list list option"
  tm_comment :: "pystr option"
  tm_created_by :: "pystr option"
  tm_creation_date :: "int option"
  tm_encoding :: "pystr option"
  tm_is_private :: bool
  tm_files :: "file_entry list"
  tm_total_length :: int
  tm_piece_length :: int
  tm_pieces :: "bytes list"
  tm_num_pieces :: int
  tm_meta_version :: int
  tm_info_hash_v2 :: "bytes option"
  tm_info_hash_v1 :: "bytes option"
  tm_file_tree :: "pyobj option"
  tm_piece_layers :: "(bytes \<times> bytes list) list option"

definition torrent_info_model :: "torrent_meta \<Rightarrow> torrent_meta py" where
  "torrent_info_model t =
     (if length (tm_info_hash t) \<noteq> 20 \<or> tm_total_length t < 0 \<or> tm_piece_length t \<le> 0 \<or> tm_num_pieces t < 0
         \<or> wrong_length 32 (tm_info_hash_v2 t) \<or> wrong_length 20 (tm_info_hash_v1 t)
      then Inl ValueError else Inr t)"

section \<open>Validation\<close>

text \<open>\<open>d[k]\<close> and \<open>v.decode("utf-8")\<close>.\<close>

definition item :: "string \<Rightarrow> pydict \<Rightarrow> pyobj py" where
  "item k d = (case get k d of None \<Rightarrow> Inl KeyError | Some v \<Rightarrow> Inr v)"

definition decode_text :: "pyobj \<Rightarrow> pystr py" where
  "decode_text v = (case v of PBytes b \<Rightarrow> utf8_decode b | _ \<Rightarrow> Inl AttributeError)"

definition has_key :: "string \<Rightarrow> pydict \<Rightarrow> bool" where
  "has_key k d \<longleftrightarrow> get k d \<noteq> None"

text \<open>\<open>meta_version in {2, 3}\<close>, which hashes the object.\<close>

definition v2_version :: "pydict \<Rightarrow> bool py" where
  "v2_version info =
     (case get ''meta version'' info of
        Some (PInt i) \<Rightarrow> Inr (i \<in> {2, 3})
      | Some (PList _) \<Rightarrow> Inl TypeError
      | Some (PDict _) \<Rightarrow> Inl TypeError
      | _ \<Rightarrow> Inr False)"

text \<open>
  Anything but a dictionary fails: in the membership test, as without the keys, or in \<open>data[b"info"]\<close>.
\<close>

definition validate_torrent :: "pyobj \<Rightarrow> unit py" where
  "validate_torrent data =
     (case data of
        PDict d \<Rightarrow>
          if \<not> has_key ''announce'' d \<or> \<not> has_key ''info'' d then Inl TorrentError
          else (case get ''info'' d of
            Some (PDict info) \<Rightarrow>
              pbind (v2_version info) (\<lambda>v2.
              if v2 then
                if \<not> has_key ''file tree'' info \<or> \<not> has_key ''piece layers'' info then Inl TorrentError
                else if get ''meta version'' info = Some (PInt 3) \<and> \<not> has_key ''pieces'' info then Inl TorrentError
                else Inr ()
              else
                if \<not> has_key ''length'' info \<and> \<not> has_key ''files'' info then Inl TorrentError
                else if \<not> has_key ''piece length'' info \<or> \<not> has_key ''pieces'' info then Inl TorrentError
                else Inr ())
          | _ \<Rightarrow> Inl TorrentError)
      | _ \<Rightarrow> Inl TypeError)"

section \<open>v1 torrents\<close>

text \<open>\<open>os.path.join\<close> of a list of parts.\<close>

definition join_parts :: "pystr list \<Rightarrow> pystr py" where
  "join_parts parts = (if parts = [] then Inl TypeError else Inr (foldl path_join (hd parts) (tl parts)))"

definition single_file_info :: "(pyobj \<Rightarrow> int option) \<Rightarrow> pydict \<Rightarrow> pyobj \<Rightarrow> file_entry list py" where
  "single_file_info lax info len =
     pbind (optional decode_text (get ''attr'' info)) (\<lambda>attributes.
     pbind (optional decode_text (get ''symlink path'' info)) (\<lambda>symlink.
     pbind (item ''name'' info) (\<lambda>name_obj.
     pbind (decode_text name_obj) (\<lambda>name.
     pbind (file_info_model lax name len None name attributes symlink (get ''sha1'' info)) (\<lambda>f.
     Inr [f])))))"

definition multi_file_info :: "(pyobj \<Rightarrow> int option) \<Rightarrow> pyobj \<Rightarrow> file_entry py" where
  "multi_file_info lax entry =
     (case entry of
        PDict d \<Rightarrow>
          pbind (item ''length'' d) (\<lambda>len.
          pbind (item ''path'' d) (\<lambda>path_obj.
          pbind (py_iter path_obj) (\<lambda>part_objs.
          pbind (py_seq (map decode_text part_objs)) (\<lambda>parts.
          pbind (join_parts parts) (\<lambda>full_path.
          pbind (optional decode_text (get ''attr'' d)) (\<lambda>attributes.
          pbind (optional decode_text (get ''symlink path'' d)) (\<lambda>symlink.
          file_info_model lax (last parts) len (Some parts) full_path attributes symlink (get ''sha1'' d))))))))
      | _ \<Rightarrow> Inl TypeError)"

definition extract_file_info :: "(pyobj \<Rightarrow> int option) \<Rightarrow> pydict \<Rightarrow> file_entry list py" where
  "extract_file_info lax info =
     (case get ''length'' info of
        Some len \<Rightarrow> single_file_info lax info len
      | None \<Rightarrow>
          pbind (item ''files'' info) (\<lambda>files_obj.
          pbind (py_iter files_obj) (\<lambda>entries.
          py_seq (map (multi_file_info lax) entries))))"

definition chunks20 :: "bytes \<Rightarrow> bytes list" where
  "chunks20 b = map (\<lambda>i. take 20 (drop (i * 20) b)) [0..<length b div 20]"

text \<open>
  Slices of a list or a dictionary are no bytes (\<open>TorrentInfo\<close> rejects them) or raise; an empty one
  has no slices. The product \<open>piece_length * num_pieces\<close> needs a number or a sequence.
\<close>

definition piece_hashes_of :: "pyobj \<Rightarrow> bytes list py" where
  "piece_hashes_of pieces_data =
     (case pieces_data of
        PBytes b \<Rightarrow> if length b mod 20 \<noteq> 0 then Inl TorrentError else Inr (chunks20 b)
      | PList l \<Rightarrow> if length l mod 20 \<noteq> 0 then Inl TorrentError else if l = [] then Inr [] else Inl ValueError
      | PDict d \<Rightarrow> if length d mod 20 \<noteq> 0 then Inl TorrentError else if d = [] then Inr [] else Inl TypeError
      | _ \<Rightarrow> Inl TypeError)"

definition extract_pieces_info :: "pydict \<Rightarrow> (pyobj \<times> bytes list) py" where
  "extract_pieces_info info =
     pbind (item ''piece length'' info) (\<lambda>piece_len.
     pbind (item ''pieces'' info) (\<lambda>pieces_data.
     pbind (piece_hashes_of pieces_data) (\<lambda>hashes.
     case piece_len of PDict _ \<Rightarrow> Inl TypeError | _ \<Rightarrow> Inr (piece_len, hashes))))"

definition announce_tiers :: "pyobj \<Rightarrow> pystr list list py" where
  "announce_tiers v =
     pbind (py_iter v) (\<lambda>tiers.
     py_seq (map (\<lambda>tier. pbind (py_iter tier) (\<lambda>urls. py_seq (map decode_text urls))) tiers))"

definition extract_v1 :: "(pyobj \<Rightarrow> int option) \<Rightarrow> pydict \<Rightarrow> pydict \<Rightarrow> torrent_meta py" where
  "extract_v1 lax data info =
     pbind (pbind (item ''announce'' data) decode_text) (\<lambda>announce.
     pbind (encode (PDict info)) (\<lambda>info_bencoded.
     pbind (extract_file_info lax info) (\<lambda>files.
     pbind (extract_pieces_info info) (\<lambda>(piece_len, hashes).
     pbind (optional announce_tiers (get ''announce-list'' data)) (\<lambda>tiers.
     pbind (optional decode_text (get ''comment'' data)) (\<lambda>comm.
     pbind (optional decode_text (get ''created by'' data)) (\<lambda>creator.
     pbind (optional decode_text (get ''encoding'' data)) (\<lambda>enc.
     pbind (pbind (item ''name'' info) decode_text) (\<lambda>name.
     pbind (optional (int_field lax) (get ''creation date'' data)) (\<lambda>date.
     pbind (int_field lax piece_len) (\<lambda>pl.
     torrent_info_model
       \<lparr>tm_name = name, tm_info_hash = sha1 info_bencoded, tm_announce = announce, tm_announce_list = tiers,
        tm_comment = comm, tm_created_by = creator, tm_creation_date = date, tm_encoding = enc,
        tm_is_private = (case get ''private'' info of None \<Rightarrow> False | Some v \<Rightarrow> truth v),
        tm_files = files, tm_total_length = sum_list (map fi_length files), tm_piece_length = pl,
        tm_pieces = hashes, tm_num_pieces = int (length hashes), tm_meta_version = 1,
        tm_info_hash_v2 = None, tm_info_hash_v1 = None, tm_file_tree = None, tm_piece_layers = None\<rparr>)))))))))))"

section \<open>v2 and hybrid torrents\<close>

definition hex_digit_of :: "nat \<Rightarrow> nat" where
  "hex_digit_of n = (if n < 10 then 48 + n else 87 + n)"

definition hex_text :: "bytes \<Rightarrow> pystr" where
  "hex_text b = concat (map (\<lambda>x. [hex_digit_of (unat x div 16), hex_digit_of (unat x mod 16)]) b)"

text \<open>\<open>_convert_file_tree_to_dict\<close>; \<open>None\<close> is an object of another type.\<close>

definition leaf_dict :: "int \<Rightarrow> bytes option \<Rightarrow> pyobj" where
  "leaf_dict len root = PDict [(PStr [], PDict [(PStr (lit ''length''), PInt len),
     (PStr (lit ''pieces root''), (case root of None \<Rightarrow> POther | Some r \<Rightarrow> if r = [] then POther else PStr (hex_text r)))])]"

fun convert_node_to_dict :: "file_tree_node \<Rightarrow> pyobj" where
  "convert_node_to_dict (FileTreeNode name len root children) =
     (if is_file (FileTreeNode name len root children) then leaf_dict len root
      else if is_directory (FileTreeNode name len root children)
      then (case children of
          Some ch \<Rightarrow> PDict (map (\<lambda>(k, n). (PStr k, convert_node_to_dict n)) ch)
        | None \<Rightarrow> PDict [])
      else PDict [])"

definition convert_file_tree_to_dict :: "(pystr \<times> file_tree_node) list \<Rightarrow> pyobj" where
  "convert_file_tree_to_dict tree =
     PDict (map (\<lambda>(k, n). (PStr k, convert_node_to_dict n))
       (filter (\<lambda>(k, n). is_file n \<or> is_directory n \<and> node_children n \<notin> {None, Some []}) tree))"

definition file_entry_of_v2 :: "file_info \<Rightarrow> file_entry" where
  "file_entry_of_v2 f =
     \<lparr>fi_name = fi_name f, fi_length = fi_length f, fi_path = fi_path f, fi_full_path = fi_full_path f,
      fe_attributes = None, fe_symlink_path = None, fe_sha1 = None\<rparr>"

text \<open>The \<open>TorrentInfo\<close> that v2 and hybrid torrents are turned into; \<open>v1\<close> is there for hybrid ones.\<close>

definition v2_torrent_info :: "(pyobj \<Rightarrow> int option) \<Rightarrow> int \<Rightarrow> torrent_meta option \<Rightarrow> torrent_v2_info \<Rightarrow> torrent_meta py" where
  "v2_torrent_info lax version v1 v2 =
     pbind (optional (int_field lax) (v2_creation_date v2)) (\<lambda>date.
     torrent_info_model
       \<lparr>tm_name = v2_name v2,
        tm_info_hash = (case v1 of Some t \<Rightarrow> tm_info_hash t | None \<Rightarrow> take 20 (v2_info_hash_v2 v2)),
        tm_announce = v2_announce v2, tm_announce_list = v2_announce_list v2,
        tm_comment = v2_comment v2, tm_created_by = v2_created_by v2, tm_creation_date = date,
        tm_encoding = v2_encoding v2, tm_is_private = v2_is_private v2,
        tm_files = map file_entry_of_v2 (v2_files v2), tm_total_length = v2_total_length v2,
        tm_piece_length = v2_piece_length v2, tm_pieces = [], tm_num_pieces = v2_num_pieces v2,
        tm_meta_version = version, tm_info_hash_v2 = Some (v2_info_hash_v2 v2),
        tm_info_hash_v1 = (if version = 3 then map_option tm_info_hash v1 else v2_info_hash_v1 v2),
        tm_file_tree = Some (convert_file_tree_to_dict (v2_file_tree v2)),
        tm_piece_layers = Some (map (\<lambda>(root, layer). (root, pl_pieces layer)) (v2_piece_layers v2))\<rparr>)"

text \<open>The \<open>TorrentInfo\<close> made by \<open>parse_hybrid\<close> when the v1 parser fails.\<close>

definition hybrid_fallback ::
  "(pyobj \<Rightarrow> int option) \<Rightarrow> (pyobj \<Rightarrow> pystr) \<Rightarrow> pydict \<Rightarrow> torrent_v2_info \<Rightarrow> torrent_meta py" where
  "hybrid_fallback lax str_of info v2 =
     pbind (to_text str_of (case get ''name'' info of None \<Rightarrow> PBytes [] | Some v \<Rightarrow> v)) (\<lambda>name.
     pbind (case v2_info_hash_v1 v2 of Some h \<Rightarrow> Inr (Some h) | None \<Rightarrow> calculate_info_hash_v1 info) (\<lambda>h.
     case h of
       None \<Rightarrow> Inl TorrentError
     | Some hash_v1 \<Rightarrow>
         pbind (optional (int_field lax) (v2_creation_date v2)) (\<lambda>date.
         torrent_info_model
           \<lparr>tm_name = name, tm_info_hash = hash_v1, tm_announce = v2_announce v2,
            tm_announce_list = v2_announce_list v2, tm_comment = v2_comment v2, tm_created_by = v2_created_by v2,
            tm_creation_date = date, tm_encoding = v2_encoding v2, tm_is_private = v2_is_private v2,
            tm_files = map file_entry_of_v2 (v2_files v2), tm_total_length = v2_total_length v2,
            tm_piece_length = v2_piece_length v2, tm_pieces = [], tm_num_pieces = 0, tm_meta_version = 1,
            tm_info_hash_v2 = None, tm_info_hash_v1 = None, tm_file_tree = None, tm_piece_layers = None\<rparr>)))"

text \<open>
  \<open>parse_hybrid\<close> sets the version of the dictionary to 2 while it parses the v2 part, sets it back, and
  calls the v1 parser, an argument here.
\<close>

definition parse_hybrid ::
  "(pyobj \<Rightarrow> int option) \<Rightarrow> (pyobj \<Rightarrow> pystr) \<Rightarrow> (pydict \<Rightarrow> torrent_meta py) \<Rightarrow> pydict \<Rightarrow> pydict
    \<Rightarrow> (torrent_meta \<times> torrent_v2_info) py" where
  "parse_hybrid lax str_of v1_parser info data =
     (if get ''meta version'' info \<noteq> Some (PInt 3) then Inl TorrentError
      else
        pbind (parse_v2 str_of (AList.update (key ''meta version'') (PInt 2) info) data) (\<lambda>v2.
        pbind (case v1_parser data of Inr t \<Rightarrow> Inr t | Inl _ \<Rightarrow> hybrid_fallback lax str_of info v2) (\<lambda>v1.
        Inr (v1, v2))))"

text \<open>\<open>_extract_torrent_data\<close>, which gives itself to \<open>parse_hybrid\<close> as the v1 parser.\<close>

primrec extract_torrent_data ::
  "(pyobj \<Rightarrow> int option) \<Rightarrow> (pyobj \<Rightarrow> pystr) \<Rightarrow> nat \<Rightarrow> pydict \<Rightarrow> torrent_meta py" where
  "extract_torrent_data lax str_of 0 data = Inl RuntimeError"
| "extract_torrent_data lax str_of (Suc depth) data =
     (case get ''info'' data of
        Some (PDict info) \<Rightarrow>
          pbind (v2_version info) (\<lambda>v2.
          if v2 then
            if get ''meta version'' info = Some (PInt 3)
            then pbind (parse_hybrid lax str_of (extract_torrent_data lax str_of depth) info data) (\<lambda>(v1, v2).
                 v2_torrent_info lax 3 (Some v1) v2)
            else pbind (parse_v2 str_of info data) (\<lambda>v2. v2_torrent_info lax 2 None v2)
          else extract_v1 lax data info)
      | _ \<Rightarrow> Inl TypeError)"

section \<open>The parser\<close>

text \<open>What reading the file or URL gives, decoded, validated, extracted; every error is a \<open>TorrentError\<close>.\<close>

definition parse_object :: "(pyobj \<Rightarrow> int option) \<Rightarrow> (pyobj \<Rightarrow> pystr) \<Rightarrow> nat \<Rightarrow> pyobj \<Rightarrow> torrent_meta py" where
  "parse_object lax str_of depth v =
     pbind (validate_torrent v) (\<lambda>_.
     case v of PDict data \<Rightarrow> extract_torrent_data lax str_of depth data | _ \<Rightarrow> Inl TypeError)"

definition torrent_error :: "'a py \<Rightarrow> 'a py" where
  "torrent_error r = (case r of Inl _ \<Rightarrow> Inl TorrentError | Inr x \<Rightarrow> Inr x)"

lemma torrent_error_simps [simp]:
  "torrent_error r = Inl e \<longleftrightarrow> e = TorrentError \<and> (\<exists>e. r = Inl e)" "torrent_error r = Inr x \<longleftrightarrow> r = Inr x"
  by (auto simp: torrent_error_def split: sum.split)

definition parse ::
  "(pyobj \<Rightarrow> int option) \<Rightarrow> (pyobj \<Rightarrow> pystr) \<Rightarrow> (nat list \<Rightarrow> int option) \<Rightarrow> nat \<Rightarrow> nat \<Rightarrow> bytes py
    \<Rightarrow> torrent_meta py option" where
  "parse lax str_of uni depth fuel torrent_data =
     (case torrent_data of
        Inl _ \<Rightarrow> Some (Inl TorrentError)
      | Inr bs \<Rightarrow>
          map_option (\<lambda>r. torrent_error (pbind r (parse_object lax str_of depth))) (decode uni fuel bs))"

definition get_piece_hash_v1 :: "torrent_meta \<Rightarrow> int \<Rightarrow> bytes py" where
  "get_piece_hash_v1 t i =
     (if i < 0 \<or> tm_num_pieces t \<le> i then Inl TorrentError
      else if nat i < length (tm_pieces t) then Inr (tm_pieces t ! nat i) else Inl IndexError)"

section \<open>Dictionaries on the wire\<close>

lemma ascii_inject [simp]: "ascii s = ascii t \<longleftrightarrow> s = t"
proof
  assume "ascii s = ascii t"
  moreover have "inj (of_char :: char \<Rightarrow> byte)"
  proof (rule injI)
    fix a b :: char
    assume eq: "(of_char a :: byte) = of_char b"
    have "unat (of_char c :: byte) = of_char c" for c
    proof -
      have "(of_char c :: byte) = of_nat (of_char c)" by (rule of_nat_of_char [symmetric])
      moreover have "(of_char c :: nat) < 256" by (metis char_of_mod_256 of_char_mod_256 mod_less_divisor zero_less_numeral)
      ultimately show ?thesis using unat_of_nat_byte by metis
    qed
    then have "(of_char a :: nat) = of_char b" using eq by metis
    then show "a = b" by simp
  qed
  ultimately show "s = t" by (auto simp: ascii_def dest: map_injective)
qed simp

lemma key_inject [simp]: "key s = key t \<longleftrightarrow> s = t"
  by (simp add: key_def)

text \<open>The entries of a dictionary that are there, by name.\<close>

definition entries :: "(string \<times> pyobj option) list \<Rightarrow> pydict" where
  "entries ps = concat (map (\<lambda>(k, v). case v of None \<Rightarrow> [] | Some x \<Rightarrow> [(key k, x)]) ps)"

lemma entries_simps:
  "entries [] = []" "entries ((k, None) # ps) = entries ps" "entries ((k, Some x) # ps) = (key k, x) # entries ps"
  by (simp_all add: entries_def)

lemma keys_entries: "fst ` set (entries ps) \<subseteq> key ` fst ` set ps"
proof (induction ps)
  case (Cons p ps)
  then show ?case by (cases p; cases "snd p") (auto simp: entries_simps)
qed (simp add: entries_simps)

lemma key_in_entries: "key k \<in> fst ` set (entries ps) \<Longrightarrow> k \<in> fst ` set ps"
proof -
  assume "key k \<in> fst ` set (entries ps)"
  then have "key k \<in> key ` fst ` set ps" using keys_entries by blast
  then show ?thesis by (simp add: image_iff)
qed

lemma get_entries: "distinct (map fst ps) \<Longrightarrow> get k (entries ps) = (case map_of ps k of None \<Rightarrow> None | Some v \<Rightarrow> v)"
proof (induction ps)
  case (Cons p ps)
  obtain j v where p: "p = (j, v)" by (cases p)
  show ?case
  proof (cases v)
    case None
    have "get k (entries ps) = None" if "k = j"
    proof -
      have "k \<notin> fst ` set ps" using Cons.prems p that by simp
      then have "key k \<notin> fst ` set (entries ps)" using key_in_entries by blast
      then show ?thesis by (simp add: get_def map_of_eq_None_iff)
    qed
    moreover have "map_of ps k = None" if "k = j" using Cons.prems p that by (simp add: map_of_eq_None_iff)
    ultimately show ?thesis using Cons p None by (auto simp: entries_simps)
  next
    case (Some x)
    then show ?thesis using Cons p by (simp add: get_def entries_simps)
  qed
qed (simp add: get_def entries_simps)

lemma distinct_entries: "distinct (map fst ps) \<Longrightarrow> distinct (map fst (entries ps))"
proof (induction ps)
  case (Cons p ps)
  obtain j v where p: "p = (j, v)" by (cases p)
  have "key j \<notin> fst ` set (entries ps)" using key_in_entries [of j ps] Cons.prems p by auto
  with Cons p show ?case by (cases v) (auto simp: entries_simps)
qed (simp add: entries_simps)

lemma wire_form_entries:
  assumes "distinct (map fst ps)" and "\<forall>(k, v)\<in>set ps. \<forall>x. v = Some x \<longrightarrow> wire_form x"
  shows "wire_form (PDict (entries ps))"
proof -
  have "\<forall>(k, x)\<in>set (entries ps). (\<exists>b. k = PBytes b) \<and> wire_form x"
    using assms(2) by (fastforce simp: entries_def key_def split: option.splits)
  then show ?thesis using distinct_entries [OF assms(1)] by (simp add: list_all_iff)
qed

lemma distinct_fst_mset: "mset xs = mset ys \<Longrightarrow> distinct (map fst xs) \<longleftrightarrow> distinct (map fst ys)"
  by (metis mset_eq_imp_distinct_iff mset_map)

text \<open>A decoded dictionary is sorted, and its values are on the wire.\<close>

lemma wire_dict:
  assumes "wire_form (PDict d)"
  obtains d' where "wire (PDict d) = PDict d'" and "mset d' = mset (map (\<lambda>(k, v). (k, wire v)) d)"
    and "\<And>k. get k d' = map_option wire (get k d)"
proof -
  let ?e = "map (\<lambda>(k, v). (key_bytes k, wire v)) d"
  let ?d' = "map (\<lambda>(k, v). (PBytes k, v)) (sort_key fst ?e)"
  have k: "\<forall>(k, v)\<in>set d. PBytes (key_bytes k) = k" and dist: "distinct (map fst d)"
    using assms by (auto simp: list_all_iff key_bytes_def sort_key_of_def)
  have ms: "mset ?d' = mset (map (\<lambda>(k, v). (k, wire v)) d)"
  proof -
    have "mset ?d' = mset (map (\<lambda>(k, v). (PBytes k, v)) ?e)" by (simp only: mset_map mset_sort)
    also have "map (\<lambda>(k, v). (PBytes k, v)) ?e = map (\<lambda>(k, v). (k, wire v)) d" using k by auto
    finally show ?thesis .
  qed
  have get: "get i ?d' = map_option wire (get i d)" for i
  proof -
    have d1: "distinct (map fst (map (\<lambda>(k, v). (k, wire v)) d))"
      using dist by (simp add: o_def case_prod_unfold)
    moreover have d2: "distinct (map fst ?d')"
      using distinct_fst_mset [OF ms] d1 by simp
    moreover have "set ?d' = set (map (\<lambda>(k, v). (k, wire v)) d)" using ms by (metis set_mset_mset)
    ultimately have "map_of ?d' = map_of (map (\<lambda>(k, v). (k, wire v)) d)" by (metis map_of_inject_set)
    then show ?thesis by (simp add: get_def map_of_map)
  qed
  show thesis by (rule that [OF _ ms get]) simp
qed

lemma wire_form_wire: "wire_form v \<Longrightarrow> wire_form (wire v)"
proof (induction v)
  case (PDict d)
  obtain d' where d': "wire (PDict d) = PDict d'" "mset d' = mset (map (\<lambda>(k, v). (k, wire v)) d)"
    using wire_dict [OF PDict.prems] by blast
  have "set d' = (\<lambda>(k, v). (k, wire v)) ` set d" using d'(2) by (metis list.set_map set_mset_mset)
  moreover have "distinct (map fst d')"
  proof -
    have "distinct (map fst (map (\<lambda>(k, v). (k, wire v)) d))" using PDict.prems by (simp add: o_def case_prod_unfold)
    then show ?thesis using distinct_fst_mset [OF d'(2)] by blast
  qed
  ultimately show ?case using PDict d'(1) by (fastforce simp: list_all_iff)
qed (auto simp: list_all_iff)

lemma encode_wire: "wire_form v \<Longrightarrow> encode (wire v) = encode v"
proof (induction v)
  case (PList xs)
  then have "map encode (map wire xs) = map encode xs" by (simp add: list_all_iff)
  then show ?case by (simp del: map_map)
next
  case (PDict d)
  obtain d' where d': "wire (PDict d) = PDict d'" "mset d' = mset (map (\<lambda>(k, v). (k, wire v)) d)"
    using wire_dict [OF PDict.prems] by blast
  have wf: "wire_form (PDict (map (\<lambda>(k, v). (k, wire v)) d))"
    using PDict wire_form_wire by (fastforce simp: list_all_iff o_def case_prod_unfold)
  have "encode (PDict d') = encode (PDict (map (\<lambda>(k, v). (k, wire v)) d))"
    by (rule encode_dict_order [OF wire_form_bencodable [OF wf] d'(2)])
  also have "\<dots> = encode (PDict d)"
  proof -
    have "map (\<lambda>(k, v). (k, encode k, encode v)) (map (\<lambda>(k, v). (k, wire v)) d) = map (\<lambda>(k, v). (k, encode k, encode v)) d"
      using PDict by (fastforce simp: list_all_iff)
    then show ?thesis by (simp del: map_map)
  qed
  finally show ?case using d'(1) by simp
qed simp_all

section \<open>Writing and reading a v1 torrent\<close>

definition text_obj :: "pystr \<Rightarrow> pyobj" where
  "text_obj s = PBytes (utf8 s)"

definition attr_items :: "file_entry \<Rightarrow> (string \<times> pyobj option) list" where
  "attr_items f =
     [(''attr'', map_option text_obj (fe_attributes f)),
      (''symlink path'', map_option text_obj (fe_symlink_path f)),
      (''sha1'', map_option PBytes (fe_sha1 f))]"

definition file_dict :: "file_entry \<Rightarrow> pydict" where
  "file_dict f = entries (
     (''length'', Some (PInt (fi_length f))) #
     (''path'', Some (PList (map text_obj (the (fi_path f))))) # attr_items f)"

definition single_file :: "torrent_meta \<Rightarrow> file_entry option" where
  "single_file t = (case tm_files t of [f] \<Rightarrow> if fi_path f = None then Some f else None | _ \<Rightarrow> None)"

definition info_dict :: "torrent_meta \<Rightarrow> pydict" where
  "info_dict t = entries (
     (''name'', Some (text_obj (tm_name t))) #
     (''piece length'', Some (PInt (tm_piece_length t))) #
     (''pieces'', Some (PBytes (concat (tm_pieces t)))) #
     (''private'', if tm_is_private t then Some (PInt 1) else None) #
     (case single_file t of
        Some f \<Rightarrow> (''length'', Some (PInt (fi_length f))) # attr_items f
      | None \<Rightarrow> [(''files'', Some (PList (map (\<lambda>f. PDict (file_dict f)) (tm_files t))))]))"

definition tiers_obj :: "pystr list list \<Rightarrow> pyobj" where
  "tiers_obj tiers = PList (map (\<lambda>tier. PList (map text_obj tier)) tiers)"

definition metainfo :: "torrent_meta \<Rightarrow> pydict" where
  "metainfo t = entries [
     (''announce'', Some (text_obj (tm_announce t))),
     (''announce-list'', map_option tiers_obj (tm_announce_list t)),
     (''comment'', map_option text_obj (tm_comment t)),
     (''created by'', map_option text_obj (tm_created_by t)),
     (''creation date'', map_option PInt (tm_creation_date t)),
     (''encoding'', map_option text_obj (tm_encoding t)),
     (''info'', Some (PDict (info_dict t)))]"

definition opt_text :: "pystr option \<Rightarrow> bool" where
  "opt_text s \<longleftrightarrow> (case s of None \<Rightarrow> True | Some x \<Rightarrow> list_all scalar x)"

definition entry_ok :: "file_entry \<Rightarrow> bool" where
  "entry_ok f \<longleftrightarrow> 0 \<le> fi_length f \<and> opt_text (fe_attributes f) \<and> opt_text (fe_symlink_path f) \<and>
     \<not> wrong_length 20 (fe_sha1 f) \<and> \<not> missing_target (fe_attributes f) (fe_symlink_path f)"

definition multi_ok :: "file_entry \<Rightarrow> bool" where
  "multi_ok f \<longleftrightarrow> entry_ok f \<and> (case fi_path f of None \<Rightarrow> False
     | Some ps \<Rightarrow> ps \<noteq> [] \<and> list_all (list_all scalar) ps \<and> fi_name f = last ps \<and> join_parts ps = Inr (fi_full_path f))"

text \<open>The v1 torrents that can be written: the texts have UTF-8, and the fields fit together.\<close>

definition v1_torrent :: "torrent_meta \<Rightarrow> bool" where
  "v1_torrent t \<longleftrightarrow>
     list_all scalar (tm_name t) \<and> list_all scalar (tm_announce t) \<and> opt_text (tm_comment t) \<and>
     opt_text (tm_created_by t) \<and> opt_text (tm_encoding t) \<and>
     (case tm_announce_list t of None \<Rightarrow> True | Some tiers \<Rightarrow> list_all (list_all (list_all scalar)) tiers) \<and>
     (case single_file t of
        Some f \<Rightarrow> entry_ok f \<and> fi_name f = tm_name t \<and> fi_full_path f = tm_name t
      | None \<Rightarrow> list_all multi_ok (tm_files t)) \<and>
     tm_total_length t = sum_list (map fi_length (tm_files t)) \<and> 0 < tm_piece_length t \<and>
     list_all (\<lambda>h. length h = 20) (tm_pieces t) \<and> tm_num_pieces t = int (length (tm_pieces t)) \<and>
     tm_meta_version t = 1 \<and> tm_info_hash_v2 t = None \<and> tm_info_hash_v1 t = None \<and>
     tm_file_tree t = None \<and> tm_piece_layers t = None"

lemma decode_text_obj [simp]: "list_all scalar s \<Longrightarrow> decode_text (text_obj s) = Inr s"
  using utf8_eq by (simp add: decode_text_def text_obj_def)

lemma wire_text_obj [simp]: "wire (text_obj s) = text_obj s" "wire_form (text_obj s)"
  by (simp_all add: text_obj_def)

lemma optional_text_back [simp]: "opt_text s \<Longrightarrow> optional decode_text (map_option text_obj s) = Inr s"
  by (cases s) (simp_all add: optional_def opt_text_def)

lemma optional_bytes_back [simp]: "optional bytes_field (map_option PBytes b) = Inr b"
  by (cases b) (simp_all add: optional_def bytes_field_def)

lemma wire_option_simps [simp]:
  "map_option wire (map_option text_obj s) = map_option text_obj s"
  "map_option wire (map_option PBytes b) = map_option PBytes b"
  "map_option wire (map_option PInt i) = map_option PInt i"
  by (simp_all add: option.map_comp o_def)

lemma wire_tiers [simp]: "map_option wire (map_option tiers_obj x) = map_option tiers_obj x"
  by (cases x) (simp_all add: tiers_obj_def o_def)

lemma option_cases_id [simp]: "(case map_option f x of None \<Rightarrow> None | Some v \<Rightarrow> Some v) = map_option f x"
  by (cases x) simp_all

lemma attr_items_simps [simp]:
  "map fst (attr_items f) = [''attr'', ''symlink path'', ''sha1'']"
  "map_of (attr_items f) = [''attr'' \<mapsto> map_option text_obj (fe_attributes f),
     ''symlink path'' \<mapsto> map_option text_obj (fe_symlink_path f), ''sha1'' \<mapsto> map_option PBytes (fe_sha1 f)]"
  by (auto simp: attr_items_def fun_eq_iff)

lemma attr_items_wire: "(k, v) \<in> set (attr_items f) \<Longrightarrow> v = Some x \<Longrightarrow> wire_form x"
  by (cases "fe_attributes f"; cases "fe_symlink_path f"; cases "fe_sha1 f") (auto simp: attr_items_def)

lemma wire_form_file: "wire_form (PDict (file_dict f))"
  unfolding file_dict_def
  by (rule wire_form_entries) (auto simp: list_all_iff dest: attr_items_wire)

lemma wire_form_info: "wire_form (PDict (info_dict t))"
  unfolding info_dict_def
proof (rule wire_form_entries, goal_cases)
  case 1
  show ?case by (auto simp: attr_items_def split: option.split)
next
  case 2
  show ?case
    by (auto simp: list_all_iff wire_form_file simp del: wire_form.simps(4) split: option.splits dest: attr_items_wire)
qed

lemma wire_form_metainfo: "wire_form (PDict (metainfo t))"
  unfolding metainfo_def
  by (rule wire_form_entries) (auto simp: list_all_iff wire_form_info tiers_obj_def simp del: wire_form.simps(4))

lemma multi_file_back:
  assumes "multi_ok f"
  shows "multi_file_info lax (wire (PDict (file_dict f))) = Inr f"
proof -
  obtain d' where d': "wire (PDict (file_dict f)) = PDict d'" "\<And>k. get k d' = map_option wire (get k (file_dict f))"
    using wire_dict [OF wire_form_file] by metis
  obtain ps where ps: "fi_path f = Some ps" "ps \<noteq> []" "list_all (list_all scalar) ps" "fi_name f = last ps"
      "join_parts ps = Inr (fi_full_path f)" and ok: "entry_ok f"
    using assms by (auto simp: multi_ok_def split: option.splits)
  have g: "get ''length'' d' = Some (PInt (fi_length f))" "get ''path'' d' = Some (PList (map text_obj ps))"
    "get ''attr'' d' = map_option text_obj (fe_attributes f)"
    "get ''symlink path'' d' = map_option text_obj (fe_symlink_path f)" "get ''sha1'' d' = map_option PBytes (fe_sha1 f)"
    unfolding d'(2) file_dict_def by (simp_all add: get_entries ps(1) o_def)
  have parts: "py_seq (map decode_text (map text_obj ps)) = Inr ps"
    using py_seq_map_eq_Inr [of ps "\<lambda>s. decode_text (text_obj s)" id] ps(3) by (simp add: list_all_iff o_def)
  show ?thesis
    using ok ps parts unfolding d'(1)
    by (cases f) (simp add: multi_file_info_def item_def g file_info_model_def int_field_def entry_ok_def)
qed

lemma chunks20_concat:
  "list_all (\<lambda>h. length h = 20) hs \<Longrightarrow> length (concat hs) = 20 * length hs \<and> chunks20 (concat hs) = hs"
proof (induction hs)
  case (Cons h hs)
  then have l: "length (concat hs) = 20 * length hs" and c: "chunks20 (concat hs) = hs" and h: "length h = 20" by simp_all
  have "[0..<length (h @ concat hs) div 20] = 0 # map Suc [0..<length (concat hs) div 20]"
    by (simp add: h l upt_conv_Cons map_Suc_upt del: upt_Suc)
  then have "chunks20 (h @ concat hs) = h # chunks20 (concat hs)"
    using h by (simp add: chunks20_def o_def)
  then show ?case using c l h by simp
qed (simp add: chunks20_def)

lemma announce_tiers_back:
  assumes "list_all (list_all (list_all scalar)) tiers"
  shows "announce_tiers (tiers_obj tiers) = Inr tiers"
proof -
  have one: "py_seq (map decode_text (map text_obj tier)) = Inr tier" if "tier \<in> set tiers" for tier
    using py_seq_map_eq_Inr [of tier "\<lambda>s. decode_text (text_obj s)" id] assms that by (simp add: list_all_iff o_def)
  have "py_seq (map (\<lambda>tier. pbind (py_iter (PList (map text_obj tier))) (\<lambda>urls. py_seq (map decode_text urls))) tiers)
      = Inr (map id tiers)"
    by (rule py_seq_map_eq_Inr) (use one in simp)
  then show ?thesis by (simp add: announce_tiers_def tiers_obj_def o_def)
qed

lemma single_fileD: "single_file t = Some f \<Longrightarrow> tm_files t = [f] \<and> fi_path f = None"
  by (auto simp: single_file_def split: list.splits if_splits)

text \<open>What the parser finds in the decoded info dictionary.\<close>

definition info_names :: "torrent_meta \<Rightarrow> (string \<times> pyobj option) list" where
  "info_names t =
     (''name'', Some (text_obj (tm_name t))) #
     (''piece length'', Some (PInt (tm_piece_length t))) #
     (''pieces'', Some (PBytes (concat (tm_pieces t)))) #
     (''private'', if tm_is_private t then Some (PInt 1) else None) #
     (case single_file t of
        Some f \<Rightarrow> (''length'', Some (PInt (fi_length f))) # attr_items f
      | None \<Rightarrow> [(''files'', Some (PList (map (\<lambda>f. PDict (file_dict f)) (tm_files t))))])"

lemma get_info: "get k (info_dict t) = (case map_of (info_names t) k of None \<Rightarrow> None | Some v \<Rightarrow> v)"
  unfolding info_dict_def info_names_def
  by (rule get_entries) (auto simp: attr_items_def split: option.split)

lemma extract_files_back:
  assumes t: "v1_torrent t" and g: "\<And>k. get k d' = map_option wire (get k (info_dict t))"
  shows "extract_file_info lax d' = Inr (tm_files t)"
proof (cases "single_file t")
  case None
  then have f: "get ''length'' d' = None" "get ''files'' d' = Some (PList (map wire (map (\<lambda>f. PDict (file_dict f)) (tm_files t))))"
    by (simp_all add: g get_info info_names_def)
  have "\<forall>f\<in>set (tm_files t). multi_file_info lax (wire (PDict (file_dict f))) = Inr f"
    using t None multi_file_back by (simp add: v1_torrent_def list_all_iff)
  then have "py_seq (map (multi_file_info lax \<circ> (wire \<circ> (\<lambda>f. PDict (file_dict f)))) (tm_files t)) = Inr (map id (tm_files t))"
    by (intro py_seq_map_eq_Inr) (simp del: wire.simps)
  then show ?thesis by (simp add: extract_file_info_def f item_def del: wire.simps)
next
  case (Some f)
  then have l: "get ''length'' d' = Some (PInt (fi_length f))"
    "get ''attr'' d' = map_option text_obj (fe_attributes f)" "get ''sha1'' d' = map_option PBytes (fe_sha1 f)"
    "get ''symlink path'' d' = map_option text_obj (fe_symlink_path f)" "get ''name'' d' = Some (text_obj (tm_name t))"
    by (simp_all add: g get_info info_names_def)
  have ok: "entry_ok f" "fi_name f = tm_name t" "fi_full_path f = tm_name t" "list_all scalar (tm_name t)"
    using t Some by (simp_all add: v1_torrent_def)
  have "file_info_model lax (tm_name t) (PInt (fi_length f)) None (tm_name t) (fe_attributes f) (fe_symlink_path f)
      (map_option PBytes (fe_sha1 f)) = Inr f"
    using ok single_fileD [OF Some] by (cases f) (simp add: file_info_model_def int_field_def entry_ok_def)
  then show ?thesis
    using ok single_fileD [OF Some] by (simp add: extract_file_info_def single_file_info_def l item_def entry_ok_def)
qed

lemma extract_v1_back:
  assumes t: "v1_torrent t"
    and gd: "\<And>k. get k D' = map_option wire (get k (metainfo t))"
    and gi: "\<And>k. get k I' = map_option wire (get k (info_dict t))"
    and enc: "encode (PDict I') = Inr e"
  shows "extract_v1 lax D' I' = Inr (t\<lparr>tm_info_hash := sha1 e\<rparr>)"
proof -
  have d: "get ''announce'' D' = Some (text_obj (tm_announce t))"
    "get ''announce-list'' D' = map_option tiers_obj (tm_announce_list t)"
    "get ''comment'' D' = map_option text_obj (tm_comment t)"
    "get ''created by'' D' = map_option text_obj (tm_created_by t)"
    "get ''creation date'' D' = map_option PInt (tm_creation_date t)"
    "get ''encoding'' D' = map_option text_obj (tm_encoding t)"
    unfolding gd metainfo_def by (simp_all add: get_entries)
  have i: "get ''name'' I' = Some (text_obj (tm_name t))" "get ''piece length'' I' = Some (PInt (tm_piece_length t))"
    "get ''pieces'' I' = Some (PBytes (concat (tm_pieces t)))"
    "get ''private'' I' = (if tm_is_private t then Some (PInt 1) else None)"
    by (cases "single_file t", simp_all add: gi get_info info_names_def)+
  note ok = t [unfolded v1_torrent_def]
  have pieces: "extract_pieces_info I' = Inr (PInt (tm_piece_length t), tm_pieces t)"
    using chunks20_concat [of "tm_pieces t"] ok
    by (simp add: extract_pieces_info_def item_def i piece_hashes_of_def)
  have tiers: "optional announce_tiers (map_option tiers_obj (tm_announce_list t)) = Inr (tm_announce_list t)"
    using ok announce_tiers_back by (cases "tm_announce_list t") (simp_all add: optional_def)
  have date: "optional (int_field lax) (map_option PInt (tm_creation_date t)) = Inr (tm_creation_date t)"
    by (cases "tm_creation_date t") (simp_all add: optional_def int_field_def)
  have "0 \<le> sum_list (map fi_length (tm_files t))"
  proof (rule sum_list_nonneg)
    fix x
    assume "x \<in> set (map fi_length (tm_files t))"
    then show "0 \<le> x" using ok single_fileD
      by (cases "single_file t") (auto simp: list_all_iff multi_ok_def entry_ok_def)
  qed
  moreover have "(case if tm_is_private t then Some (PInt 1) else None of None \<Rightarrow> False | Some v \<Rightarrow> truth v) = tm_is_private t"
    by simp
  moreover have "\<lparr>tm_name = tm_name t, tm_info_hash = h, tm_announce = tm_announce t, tm_announce_list = tm_announce_list t,
      tm_comment = tm_comment t, tm_created_by = tm_created_by t, tm_creation_date = tm_creation_date t,
      tm_encoding = tm_encoding t, tm_is_private = tm_is_private t, tm_files = tm_files t,
      tm_total_length = sum_list (map fi_length (tm_files t)), tm_piece_length = tm_piece_length t,
      tm_pieces = tm_pieces t, tm_num_pieces = int (length (tm_pieces t)), tm_meta_version = 1, tm_info_hash_v2 = None,
      tm_info_hash_v1 = None, tm_file_tree = None, tm_piece_layers = None\<rparr> = t\<lparr>tm_info_hash := h\<rparr>" for h
  proof -
    have "tm_total_length t = sum_list (map fi_length (tm_files t))" "tm_num_pieces t = int (length (tm_pieces t))"
      "tm_meta_version t = 1" "tm_info_hash_v2 t = None" "tm_info_hash_v1 t = None" "tm_file_tree t = None"
      "tm_piece_layers t = None" using ok by blast+
    then show ?thesis by (cases t) simp
  qed
  moreover have "list_all scalar (tm_name t)" "list_all scalar (tm_announce t)" "opt_text (tm_comment t)"
    "opt_text (tm_created_by t)" "opt_text (tm_encoding t)" "0 < tm_piece_length t" using ok by blast+
  ultimately show ?thesis
    by (simp add: extract_v1_def d i item_def enc pieces tiers date extract_files_back [OF t gi]
        int_field_def torrent_info_model_def wrong_length_def sha1.length_H del: encode.simps)
qed

lemma decoded_metainfo:
  obtains bs D' I' e where "encode (PDict (metainfo t)) = Inr bs" and "encode (PDict (info_dict t)) = Inr e"
    and "\<forall>rest n uni. length bs \<le> n \<longrightarrow> decode uni n (bs @ rest) = Some (Inr (PDict D'))"
    and "\<forall>k. get k D' = map_option wire (get k (metainfo t))"
    and "get ''info'' D' = Some (PDict I')" and "\<forall>k. get k I' = map_option wire (get k (info_dict t))"
    and "encode (PDict I') = Inr e"
proof -
  obtain D' where D': "wire (PDict (metainfo t)) = PDict D'" "\<forall>k. get k D' = map_option wire (get k (metainfo t))"
    using wire_dict [OF wire_form_metainfo] by metis
  obtain I' where I': "wire (PDict (info_dict t)) = PDict I'" "\<forall>k. get k I' = map_option wire (get k (info_dict t))"
    using wire_dict [OF wire_form_info] by metis
  obtain bs where bs: "encode (PDict (metainfo t)) = Inr bs" "\<And>uni. parses uni bs (PDict D')"
    using encode_parses [OF wire_form_bencodable [OF wire_form_metainfo [of t]]] D'(1) by (metis sum.inject(2))
  obtain e where e: "encode (PDict (info_dict t)) = Inr e"
    using encode_parses [OF wire_form_bencodable [OF wire_form_info [of t]]] by blast
  have "decode uni n (bs @ rest) = Some (Inr (PDict D'))" if "length bs \<le> n" for rest n uni
    using parsesD [OF bs(2) [of uni] that, of "[]" rest] by (simp add: decode_def)
  then have "\<forall>rest n uni. length bs \<le> n \<longrightarrow> decode uni n (bs @ rest) = Some (Inr (PDict D'))" by blast
  moreover have "get ''info'' (metainfo t) = Some (PDict (info_dict t))"
    by (simp add: metainfo_def get_entries)
  then have "get ''info'' D' = Some (PDict I')" using D'(2) I'(1) by simp
  moreover have "encode (PDict I') = Inr e" using encode_wire [OF wire_form_info, of t] e I'(1) by metis
  ultimately show thesis using that bs(1) e D'(2) I'(2) by blast
qed

lemma metainfo_parsed:
  assumes "v1_torrent t"
  shows "\<exists>bs e. encode (PDict (metainfo t)) = Inr bs \<and> encode (PDict (info_dict t)) = Inr e \<and>
     (\<forall>rest fuel. length bs \<le> fuel \<longrightarrow>
        parse lax str_of uni (Suc depth) fuel (Inr (bs @ rest)) = Some (Inr (t\<lparr>tm_info_hash := sha1 e\<rparr>)))"
proof -
  obtain bs D' I' e where bs: "encode (PDict (metainfo t)) = Inr bs" and e: "encode (PDict (info_dict t)) = Inr e"
    and dec: "\<forall>rest n uni. length bs \<le> n \<longrightarrow> decode uni n (bs @ rest) = Some (Inr (PDict D'))"
    and D': "\<forall>k. get k D' = map_option wire (get k (metainfo t))"
    and info: "get ''info'' D' = Some (PDict I')" and I': "\<forall>k. get k I' = map_option wire (get k (info_dict t))"
    and enc: "encode (PDict I') = Inr e" by (rule decoded_metainfo)
  have v1: "extract_v1 lax D' I' = Inr (t\<lparr>tm_info_hash := sha1 e\<rparr>)"
    by (rule extract_v1_back [OF assms _ _ enc]) (simp_all add: D' I')
  have ann: "has_key ''announce'' D'" using D' by (simp add: has_key_def metainfo_def get_entries)
  have "get ''meta version'' I' = None" using I' by (cases "single_file t") (simp_all add: get_info info_names_def)
  then have ver: "v2_version I' = Inr False" by (simp add: v2_version_def)
  have keys: "has_key ''length'' I' \<or> has_key ''files'' I'" "has_key ''piece length'' I'" "has_key ''pieces'' I'"
    using I' by (cases "single_file t"; simp add: has_key_def get_info info_names_def)+
  have "validate_torrent (PDict D') = Inr ()"
    using ann info ver keys by (auto simp: validate_torrent_def has_key_def)
  then have "parse_object lax str_of (Suc depth) (PDict D') = Inr (t\<lparr>tm_info_hash := sha1 e\<rparr>)"
    by (simp add: parse_object_def info ver v1)
  then have "parse lax str_of uni (Suc depth) fuel (Inr (bs @ rest)) = Some (Inr (t\<lparr>tm_info_hash := sha1 e\<rparr>))"
    if "length bs \<le> fuel" for rest fuel
    using that dec by (simp add: parse_def)
  then show ?thesis using bs e by blast
qed

section \<open>What the parser returns\<close>

lemma single_file_info_ok:
  "single_file_info lax info len = Inr fs \<Longrightarrow> f \<in> set fs \<Longrightarrow>
     0 \<le> fi_length f \<and> \<not> wrong_length 20 (fe_sha1 f) \<and> \<not> missing_target (fe_attributes f) (fe_symlink_path f)"
  by (auto simp: single_file_info_def pbind_eq_Inr file_info_model_def split: if_splits)

lemma multi_file_info_ok:
  "multi_file_info lax e = Inr f \<Longrightarrow>
     0 \<le> fi_length f \<and> \<not> wrong_length 20 (fe_sha1 f) \<and> \<not> missing_target (fe_attributes f) (fe_symlink_path f)"
  by (auto simp: multi_file_info_def pbind_eq_Inr file_info_model_def split: pyobj.splits if_splits)

lemma extract_file_info_ok:
  assumes "extract_file_info lax info = Inr fs" and "f \<in> set fs"
  shows "0 \<le> fi_length f \<and> \<not> wrong_length 20 (fe_sha1 f) \<and> \<not> missing_target (fe_attributes f) (fe_symlink_path f)"
proof (cases "get ''length'' info")
  case None
  then obtain es where "py_seq (map (multi_file_info lax) es) = Inr fs"
    using assms(1) by (auto simp: extract_file_info_def pbind_eq_Inr)
  then have "set (map (multi_file_info lax) es) = Inr ` set fs" using py_seq_eq_InrD by (metis list.set_map)
  then have "Inr f \<in> multi_file_info lax ` set es" using assms(2) by simp
  then obtain e where "multi_file_info lax e = Inr f" by (metis imageE)
  then show ?thesis by (rule multi_file_info_ok)
next
  case (Some len)
  then show ?thesis using assms single_file_info_ok by (simp add: extract_file_info_def)
qed

lemma chunks20_lengths: "length b mod 20 = 0 \<Longrightarrow> h \<in> set (chunks20 b) \<Longrightarrow> length h = 20"
  by (auto simp: chunks20_def mod_eq_0_iff_dvd elim!: dvdE)

lemma piece_hashes_ok: "piece_hashes_of v = Inr hashes \<Longrightarrow> h \<in> set hashes \<Longrightarrow> length h = 20"
proof (cases v)
  case (PBytes b)
  assume "piece_hashes_of v = Inr hashes" and h: "h \<in> set hashes"
  then have l: "length b mod 20 = 0" and "hashes = chunks20 b"
    using PBytes by (simp_all add: piece_hashes_of_def split: if_splits)
  then have "h \<in> set (chunks20 b)" using h by simp
  with l show ?thesis by (rule chunks20_lengths)
qed (simp_all add: piece_hashes_of_def split: if_splits)

lemma extract_pieces_ok:
  assumes "extract_pieces_info info = Inr (pl, hashes)" and "h \<in> set hashes"
  shows "length h = 20"
proof -
  obtain v n hs where v: "piece_hashes_of v = Inr hs" "(case n of PDict _ \<Rightarrow> Inl TypeError | _ \<Rightarrow> Inr (n, hs)) = Inr (pl, hashes)"
    using assms(1) unfolding extract_pieces_info_def pbind_eq_Inr by blast
  then have "hs = hashes" by (cases n) simp_all
  then show ?thesis using piece_hashes_ok v(1) assms(2) by blast
qed

definition torrent_ok :: "torrent_meta \<Rightarrow> bool" where
  "torrent_ok t \<longleftrightarrow> length (tm_info_hash t) = 20 \<and> 0 < tm_piece_length t \<and>
     tm_total_length t = sum_list (map fi_length (tm_files t)) \<and>
     (\<forall>f\<in>set (tm_files t). 0 \<le> fi_length f \<and> \<not> wrong_length 20 (fe_sha1 f) \<and>
        \<not> missing_target (fe_attributes f) (fe_symlink_path f)) \<and>
     (if tm_meta_version t = 1
      then (\<forall>h\<in>set (tm_pieces t). length h = 20) \<and> tm_num_pieces t = int (length (tm_pieces t))
      else tm_meta_version t \<in> {2, 3} \<and> tm_pieces t = [] \<and> 0 \<le> tm_num_pieces t \<and>
        (\<exists>h. tm_info_hash_v2 t = Some h \<and> length h = 32) \<and> tm_piece_layers t \<noteq> None)"

lemma torrent_info_modelD: "torrent_info_model t = Inr t' \<Longrightarrow>
    t' = t \<and> length (tm_info_hash t) = 20 \<and> 0 < tm_piece_length t \<and> 0 \<le> tm_num_pieces t \<and>
    \<not> wrong_length 32 (tm_info_hash_v2 t)"
  by (simp add: torrent_info_model_def split: if_splits)

lemma extract_v1_ok:
  assumes "extract_v1 lax data info = Inr t"
  shows "torrent_ok t \<and> tm_meta_version t = 1"
proof -
  obtain files pl hashes n where f: "extract_file_info lax info = Inr files"
      and p: "extract_pieces_info info = Inr (pl, hashes)" "int_field lax pl = Inr n"
      and t: "length (tm_info_hash t) = 20" "0 < tm_piece_length t" "tm_files t = files"
        "tm_total_length t = sum_list (map fi_length files)" "tm_pieces t = hashes"
        "tm_num_pieces t = int (length hashes)" "tm_meta_version t = 1"
    using assms by (auto simp: extract_v1_def pbind_eq_Inr dest!: torrent_info_modelD)
  then show ?thesis using extract_file_info_ok [OF f] extract_pieces_ok [OF p(1)] by (simp add: torrent_ok_def)
qed

lemma v2_files_ok:
  assumes "parse_v2 str_of info data = Inr v2"
  shows "v2_total_length v2 = sum_list (map fi_length (v2_files v2)) \<and> (\<forall>f\<in>set (v2_files v2). 0 \<le> fi_length f)"
proof -
  obtain "extract_children [] (v2_file_tree v2) = Inr (v2_files v2)" "v2_total_length v2 = total_of_children (v2_file_tree v2)"
    using assms by (auto simp: parse_v2_def pbind_eq_Inr split: if_splits)
  then show ?thesis using extract_total(2) extract_lengths(2) by metis
qed

lemma v2_torrent_info_ok:
  assumes "parse_v2 str_of info data = Inr v2" and "v2_torrent_info lax version v1 v2 = Inr t" and "version \<in> {2, 3}"
  shows "torrent_ok t"
proof -
  have "\<forall>f. \<not> wrong_length 20 (fe_sha1 (file_entry_of_v2 f)) \<and>
      \<not> missing_target (fe_attributes (file_entry_of_v2 f)) (fe_symlink_path (file_entry_of_v2 f)) \<and>
      fi_length (file_entry_of_v2 f) = fi_length f"
    by (simp add: file_entry_of_v2_def wrong_length_def missing_target_def has_attr_def)
  then show ?thesis
    using v2_files_ok [OF assms(1)] assms(2,3)
    by (auto simp: v2_torrent_info_def pbind_eq_Inr torrent_ok_def wrong_length_def o_def dest!: torrent_info_modelD)
qed

lemma extract_torrent_data_ok:
  "extract_torrent_data lax str_of depth data = Inr t \<Longrightarrow> torrent_ok t"
proof (cases depth)
  case (Suc n)
  assume a: "extract_torrent_data lax str_of depth data = Inr t"
  then obtain info v2 where i: "get ''info'' data = Some (PDict info)" "v2_version info = Inr v2"
    using Suc by (auto simp: pbind_eq_Inr split: option.splits pyobj.splits)
  show ?thesis
  proof (cases v2)
    case False
    then show ?thesis using a Suc i extract_v1_ok by simp
  next
    case True
    then show ?thesis using a Suc i v2_torrent_info_ok
      by (fastforce simp: parse_hybrid_def pbind_eq_Inr split: if_splits)
  qed
qed simp

lemma parse_extracted:
  assumes "parse lax str_of uni depth fuel torrent_data = Some (Inr t)"
  shows "\<exists>data. extract_torrent_data lax str_of depth data = Inr t"
proof -
  obtain v where "pbind (Inr v) (parse_object lax str_of depth) = Inr t"
    using assms by (auto simp: parse_def pbind_eq_Inr split: sum.splits)
  then show ?thesis by (auto simp: parse_object_def pbind_eq_Inr split: pyobj.splits)
qed

text \<open>
  C15: every error of the parser is a \<open>TorrentError\<close>, and a torrent it returns has an info hash of 20
  bytes, a positive piece length, files with no negative length that add up to the total length, with
  targets for symbolic links; as a v1 torrent it has piece hashes of 20 bytes, as many as pieces, as v2
  or hybrid torrent it has none, but a v2 info hash of 32 bytes and piece layers.
\<close>

theorem parsed_torrent_valid:
  assumes "parse lax str_of uni depth fuel torrent_data = Some r"
  shows "case r of Inl e \<Rightarrow> e = TorrentError | Inr t \<Rightarrow> torrent_ok t"
proof (cases r)
  case (Inl e)
  then show ?thesis using assms by (auto simp: parse_def split: sum.splits)
next
  case (Inr t)
  then obtain data where "extract_torrent_data lax str_of depth data = Inr t" using assms parse_extracted by blast
  then show ?thesis using extract_torrent_data_ok Inr by simp
qed

section \<open>Hybrid torrents\<close>

definition hybrid_result ::
  "(pyobj \<Rightarrow> int option) \<Rightarrow> (pyobj \<Rightarrow> pystr) \<Rightarrow> pydict \<Rightarrow> pydict \<Rightarrow> torrent_meta py" where
  "hybrid_result lax str_of info data =
     pbind (parse_v2 str_of (AList.update (key ''meta version'') (PInt 2) info) data) (\<lambda>v2.
     pbind (hybrid_fallback lax str_of info v2) (\<lambda>v1. v2_torrent_info lax 3 (Some v1) v2))"

lemma pbind_assoc: "pbind (pbind m f) g = pbind m (\<lambda>x. pbind (f x) g)"
  by (cases m) simp_all

text \<open>Only the info hash of the v1 part is used.\<close>

lemma v2_torrent_info_hash:
  "tm_info_hash v1 = tm_info_hash v1' \<Longrightarrow> v2_torrent_info lax 3 (Some v1) v2 = v2_torrent_info lax 3 (Some v1') v2"
  by (simp add: v2_torrent_info_def)

lemma v2_torrent_info_3:
  "v2_torrent_info lax 3 (Some v1) v2 = Inr t \<Longrightarrow>
     tm_info_hash t = tm_info_hash v1 \<and> tm_pieces t = [] \<and> tm_meta_version t = 3 \<and>
     tm_info_hash_v2 t = Some (v2_info_hash_v2 v2) \<and> tm_num_pieces t = v2_num_pieces v2"
  by (auto simp: v2_torrent_info_def pbind_eq_Inr dest!: torrent_info_modelD)

lemma extract_hybrid:
  assumes "get ''info'' data = Some (PDict info)" and "get ''meta version'' info = Some (PInt 3)"
  shows "extract_torrent_data lax str_of (Suc n) data = hybrid_result lax str_of info data"
proof (induction n)
  case 0
  show ?case
    using assms by (simp add: v2_version_def parse_hybrid_def hybrid_result_def pbind_assoc)
next
  case (Suc n)
  let ?r = "hybrid_result lax str_of info data"
  let ?p = "parse_v2 str_of (AList.update (key ''meta version'') (PInt 2) info) data"
  have "extract_torrent_data lax str_of (Suc (Suc n)) data =
      pbind ?p (\<lambda>v2. pbind (case ?r of Inr t \<Rightarrow> Inr t | Inl _ \<Rightarrow> hybrid_fallback lax str_of info v2)
        (\<lambda>v1. v2_torrent_info lax 3 (Some v1) v2))"
  proof -
    have "extract_torrent_data lax str_of (Suc (Suc n)) data =
        pbind (parse_hybrid lax str_of (extract_torrent_data lax str_of (Suc n)) info data)
          (\<lambda>(v1, v2). v2_torrent_info lax 3 (Some v1) v2)"
      unfolding extract_torrent_data.simps(2) [of lax str_of "Suc n"] using assms
      by (simp add: v2_version_def del: extract_torrent_data.simps)
    then show ?thesis
      using assms by (simp add: parse_hybrid_def pbind_assoc Suc del: extract_torrent_data.simps)
  qed
  also have "\<dots> = ?r"
  proof (cases ?p)
    case (Inl e)
    then show ?thesis by (simp add: hybrid_result_def)
  next
    case p: (Inr v2)
    show ?thesis
    proof (cases "hybrid_fallback lax str_of info v2")
      case (Inl e)
      then show ?thesis using p by (simp add: hybrid_result_def)
    next
      case f: (Inr v1)
      then have r: "?r = v2_torrent_info lax 3 (Some v1) v2" using p by (simp add: hybrid_result_def)
      show ?thesis
      proof (cases "v2_torrent_info lax 3 (Some v1) v2")
        case (Inl e)
        then show ?thesis by (simp add: p r f)
      next
        case (Inr t)
        then have "v2_torrent_info lax 3 (Some t) v2 = Inr t"
          using v2_torrent_info_hash [of t v1] v2_torrent_info_3 [OF Inr] by simp
        then show ?thesis by (simp add: p r Inr)
      qed
    qed
  qed
  finally show ?case .
qed

text \<open>The part of the info dictionary that \<open>_calculate_info_hash_v1\<close> hashes.\<close>

definition v1_part :: "pydict \<Rightarrow> pydict" where
  "v1_part info = [(key k, the (get k info)). k \<leftarrow> v1_keys, get k info \<noteq> None]"

lemma get_update [simp]: "get k (AList.update (key j) v d) = (if k = j then Some v else get k d)"
  by (simp add: get_def update_conv')

lemma v1_part_update [simp]: "v1_part (AList.update (key ''meta version'') v info) = v1_part info"
  by (simp add: v1_part_def v1_keys_def)

lemma info_hash_v1_eq:
  "calculate_info_hash_v1 info = Inr (Some h) \<longleftrightarrow>
     get ''pieces'' info \<noteq> None \<and> (\<exists>x. encode (PDict (v1_part info)) = Inr x \<and> h = sha1 x)"
  by (auto simp: calculate_info_hash_v1_def v1_part_def Let_def split: sum.splits if_splits)

lemma get_v1_part: "get ''meta version'' (v1_part info) = None"
  by (simp add: v1_part_def v1_keys_def get_def)

lemma wire_form_get: "wire_form (PDict d) \<Longrightarrow> get k d = Some v \<Longrightarrow> wire_form v"
  by (auto simp: get_def list_all_iff dest!: map_of_SomeD)

lemma wire_form_v1_part: "wire_form (PDict info) \<Longrightarrow> wire_form (PDict (v1_part info))"
proof -
  assume wf: "wire_form (PDict info)"
  have e: "v1_part info = entries (map (\<lambda>k. (k, get k info)) v1_keys)"
    by (auto simp: v1_part_def v1_keys_def entries_def)
  show ?thesis unfolding e
    by (rule wire_form_entries) (auto simp: v1_keys_def intro: wire_form_get [OF wf])
qed

lemma wire_form_update:
  "wire_form (PDict d) \<Longrightarrow> wire_form v \<Longrightarrow> wire_form (PDict (AList.update (key k) v d))"
  using wire_form_dict_put [of d v "ascii k"] by (simp add: dict_put_def key_def)

lemma encode_same_get:
  assumes "wire_form (PDict d)" and "wire_form (PDict d')" and "encode (PDict d) = encode (PDict d')"
  shows "map_option wire (get k d) = map_option wire (get k d')"
proof -
  obtain w where w: "wire (PDict d) = PDict w" "\<And>k. get k w = map_option wire (get k d)"
    using wire_dict [OF assms(1)] by blast
  obtain w' where w': "wire (PDict d') = PDict w'" "\<And>k. get k w' = map_option wire (get k d')"
    using wire_dict [OF assms(2)] by blast
  obtain bs where bs: "encode (PDict d) = Inr bs" "parses (\<lambda>_. None) bs (PDict w)"
    using encode_parses [OF wire_form_bencodable [OF assms(1)]] w(1) by metis
  have bs': "parses (\<lambda>_. None) bs (PDict w')"
    using encode_parses [OF wire_form_bencodable [OF assms(2)]] w'(1) bs(1) assms(3) by (metis sum.inject(2))
  from parsesD [OF bs(2) order_refl, of "[]" "[]"] parsesD [OF bs' order_refl, of "[]" "[]"] have "w = w'" by simp
  then show ?thesis using w(2) w'(2) by metis
qed

lemma hybrid_fallback_hash:
  assumes "hybrid_fallback lax str_of info v2 = Inr v1"
  shows "v2_info_hash_v1 v2 = Some (tm_info_hash v1) \<or> calculate_info_hash_v1 info = Inr (Some (tm_info_hash v1))"
proof -
  let ?ho = "case v2_info_hash_v1 v2 of Some h \<Rightarrow> Inr (Some h) | None \<Rightarrow> calculate_info_hash_v1 info"
  obtain ho where ho: "?ho = Inr ho" using assms unfolding hybrid_fallback_def pbind_eq_Inr by blast
  then obtain h where h: "ho = Some h"
    using assms by (cases ho) (auto simp: hybrid_fallback_def pbind_eq_Inr)
  obtain t where m: "torrent_info_model t = Inr v1" and t: "tm_info_hash t = h"
    using assms ho h unfolding hybrid_fallback_def by (simp add: pbind_eq_Inr) (metis torrent_meta.select_convs(2))
  have "tm_info_hash v1 = h" using torrent_info_modelD [OF m] t by simp
  then show ?thesis using ho h by (cases "v2_info_hash_v1 v2") simp_all
qed

text \<open>
  C18: a hybrid torrent (\<open>meta version\<close> 3) is parsed by calling the extractor from itself until the
  interpreter stops it: the result is that of the fallback, whatever the depth. It has no piece hashes;
  its info hash is the SHA-1 hash of six keys of the info dictionary, its v2 info hash the SHA-256 hash
  of the dictionary with version 2; both texts differ from the encoding of the info dictionary.
\<close>

theorem hybrid_parsed_by_recursion_error:
  assumes "decode uni fuel bs = Some (Inr (PDict data))" and "get ''info'' data = Some (PDict info)"
    and "get ''meta version'' info = Some (PInt 3)"
    and "parse lax str_of uni (Suc depth) fuel (Inr bs) = Some (Inr t)"
  shows "(\<forall>n. parse lax str_of uni (Suc n) fuel (Inr bs) = Some (Inr t)) \<and>
     hybrid_result lax str_of info data = Inr t \<and> tm_pieces t = [] \<and>
     (\<exists>e x y. encode (PDict info) = Inr e \<and> tm_info_hash t = sha1 x \<and> x \<noteq> e \<and>
        encode (PDict (v1_part info)) = Inr x \<and> tm_info_hash_v2 t = Some (sha256 y) \<and> y \<noteq> e)"
proof -
  have "wire_form (PDict data)"
  proof -
    from assms(1) obtain q where "bdecode uni fuel bs 0 = Some (Inr (PDict data, q))"
      by (auto simp: decode_def pbind_eq_Inr)
    then show ?thesis using bdecode_wire_form by blast
  qed
  then have wf: "wire_form (PDict info)" using assms(2) by (rule wire_form_get)
  have any: "parse lax str_of uni (Suc n) fuel (Inr bs) =
      Some (torrent_error (pbind (validate_torrent (PDict data)) (\<lambda>_. hybrid_result lax str_of info data)))" for n
    using extract_hybrid [OF assms(2,3)] by (simp add: parse_def parse_object_def assms(1))
  then have r: "hybrid_result lax str_of info data = Inr t" using assms(4) by (simp add: pbind_eq_Inr)
  let ?info2 = "AList.update (key ''meta version'') (PInt 2) info"
  from r obtain v2 v1 where v2: "parse_v2 str_of ?info2 data = Inr v2" and v1: "hybrid_fallback lax str_of info v2 = Inr v1"
    and t: "v2_torrent_info lax 3 (Some v1) v2 = Inr t"
    by (auto simp: hybrid_result_def pbind_eq_Inr)
  obtain e where e: "encode (PDict info) = Inr e" using encode_parses [OF wire_form_bencodable [OF wf]] by blast
  have h2: "calculate_info_hash_v2 ?info2 = Inr (v2_info_hash_v2 v2)"
    and h1: "calculate_info_hash_v1 ?info2 = Inr (v2_info_hash_v1 v2)"
    using v2 by (auto simp: parse_v2_def pbind_eq_Inr split: if_splits)
  from h2 obtain y where y: "encode (PDict ?info2) = Inr y" "v2_info_hash_v2 v2 = sha256 y"
    by (auto simp: calculate_info_hash_v2_def simp del: encode.simps split: sum.splits)
  have "calculate_info_hash_v1 ?info2 = Inr (Some (tm_info_hash v1)) \<or> calculate_info_hash_v1 info = Inr (Some (tm_info_hash v1))"
    using hybrid_fallback_hash [OF v1] h1 by auto
  then obtain x where x: "encode (PDict (v1_part info)) = Inr x" "tm_info_hash v1 = sha1 x"
    unfolding info_hash_v1_eq v1_part_update by blast
  have "y \<noteq> e"
  proof
    assume "y = e"
    then have "encode (PDict ?info2) = encode (PDict info)" using y(1) e by simp
    from encode_same_get [OF wire_form_update [OF wf] wf this, of "''meta version''"] assms(3) show False by simp
  qed
  moreover have "x \<noteq> e"
  proof
    assume "x = e"
    then have "encode (PDict (v1_part info)) = encode (PDict info)" using x(1) e by simp
    from encode_same_get [OF wire_form_v1_part [OF wf] wf this, of "''meta version''"] assms(3) show False
      by (simp add: get_v1_part)
  qed
  ultimately have "encode (PDict info) = Inr e \<and> tm_info_hash t = sha1 x \<and> x \<noteq> e \<and>
      encode (PDict (v1_part info)) = Inr x \<and> tm_info_hash_v2 t = Some (sha256 y) \<and> y \<noteq> e"
    using x y e v2_torrent_info_3 [OF t] by (simp del: encode.simps)
  moreover have "\<forall>n. parse lax str_of uni (Suc n) fuel (Inr bs) = Some (Inr t)" using any assms(4) by simp
  ultimately show ?thesis using r v2_torrent_info_3 [OF t] by blast
qed

text \<open>
  C14: a v1 torrent whose fields fit together, written as a metainfo dictionary and bencoded, is parsed
  back from these bytes, whatever bytes follow, with the SHA-1 hash of its bencoded info dictionary
  as info hash.
\<close>

theorem metainfo_roundtrip:
  assumes "v1_torrent t"
  shows "\<exists>bs e. encode (PDict (metainfo t)) = Inr bs \<and> encode (PDict (info_dict t)) = Inr e \<and>
     (\<forall>rest fuel. length bs \<le> fuel \<longrightarrow>
        parse lax str_of uni (Suc depth) fuel (Inr (bs @ rest)) = Some (Inr (t\<lparr>tm_info_hash := sha1 e\<rparr>)))"
  using assms by (rule metainfo_parsed)

definition sample_file_entry :: file_entry where
  "sample_file_entry = \<lparr>fi_name = lit ''b'', fi_length = 3, fi_path = Some [lit ''a'', lit ''b''], fi_full_path = lit ''a/b'',
     fe_attributes = Some (lit ''x''), fe_symlink_path = None, fe_sha1 = None\<rparr>"

definition sample_torrent :: torrent_meta where
  "sample_torrent = \<lparr>tm_name = lit ''t'', tm_info_hash = [], tm_announce = lit ''http://x'', tm_announce_list = Some [[lit ''u'']],
     tm_comment = None, tm_created_by = Some [233], tm_creation_date = Some 7, tm_encoding = None, tm_is_private = True,
     tm_files = [sample_file_entry], tm_total_length = 3, tm_piece_length = 2,
     tm_pieces = [replicate 20 1, replicate 20 2], tm_num_pieces = 2, tm_meta_version = 1, tm_info_hash_v2 = None,
     tm_info_hash_v1 = None, tm_file_tree = None, tm_piece_layers = None\<rparr>"

lemma sample_torrent_ok: "v1_torrent sample_torrent"
  by (simp add: sample_torrent_def sample_file_entry_def v1_torrent_def single_file_def multi_ok_def entry_ok_def
      opt_text_def scalar_def lit_def wrong_length_def missing_target_def has_attr_def join_parts_def path_join_def)

theorem metainfo_roundtrip_witness:
  "\<exists>bs e. encode (PDict (metainfo sample_torrent)) = Inr bs \<and> encode (PDict (info_dict sample_torrent)) = Inr e \<and>
     (\<forall>rest fuel. length bs \<le> fuel \<longrightarrow>
        parse (\<lambda>_. None) (\<lambda>_. []) (\<lambda>_. None) (Suc 0) fuel (Inr (bs @ rest)) = Some (Inr (sample_torrent\<lparr>tm_info_hash := sha1 e\<rparr>)))"
  by (rule metainfo_roundtrip) (rule sample_torrent_ok)

theorem parsed_torrent_valid_witness:
  "\<exists>bs t. parse (\<lambda>_. None) (\<lambda>_. []) (\<lambda>_. None) 1 (length bs) (Inr bs) = Some (Inr t) \<and> torrent_ok t \<and> tm_num_pieces t = 2"
proof -
  obtain bs e where p: "parse (\<lambda>_. None) (\<lambda>_. []) (\<lambda>_. None) (Suc 0) (length bs) (Inr (bs @ [])) =
      Some (Inr (sample_torrent\<lparr>tm_info_hash := sha1 e\<rparr>))"
    using metainfo_parsed [OF sample_torrent_ok] by blast
  then have "torrent_ok (sample_torrent\<lparr>tm_info_hash := sha1 e\<rparr>)" using parsed_torrent_valid [OF p] by simp
  moreover have "tm_num_pieces (sample_torrent\<lparr>tm_info_hash := sha1 e\<rparr>) = 2" by (simp add: sample_torrent_def)
  ultimately show ?thesis using p by (metis One_nat_def append_Nil2)
qed

text \<open>A hybrid torrent with one file and no v1 pieces.\<close>

definition sample_hybrid_info :: pydict where
  "sample_hybrid_info =
     [(key ''file tree'', PDict [(PBytes (ascii ''f''),
        PDict [(PBytes [], PDict [(key ''length'', PInt 5), (key ''pieces root'', PBytes (replicate 32 7))])])]),
      (key ''meta version'', PInt 3), (key ''name'', PBytes (ascii ''f'')), (key ''piece layers'', PDict [(PBytes (replicate 32 7), PBytes (replicate 32 9))]),
      (key ''piece length'', PInt 16384), (key ''pieces'', PBytes [])]"

definition sample_hybrid :: pydict where
  "sample_hybrid = [(key ''announce'', PBytes []), (key ''info'', PDict sample_hybrid_info)]"

lemma sample_hybrid_wire: "wire (PDict sample_hybrid) = PDict sample_hybrid" "bencodable (PDict sample_hybrid)"
  by code_simp+

lemma sample_hybrid_parsed: "\<exists>t. hybrid_result lax (\<lambda>_. []) sample_hybrid_info sample_hybrid = Inr t \<and> tm_num_pieces t = 1"
proof -
  let ?info = "AList.update (key ''meta version'') (PInt 2) sample_hybrid_info"
  have g: "get ''meta version'' ?info = Some (PInt 2)" "get ''name'' ?info = Some (PBytes [102])"
    "get ''piece length'' ?info = Some (PInt 16384)" "get ''piece layers'' ?info = Some (PDict [(PBytes (replicate 32 7), PBytes (replicate 32 9))])"
    "get ''pieces'' ?info = Some (PBytes [])" "get ''private'' ?info = None"
    "get ''file tree'' ?info = Some (PDict [(PBytes [102],
        PDict [(PBytes [], PDict [(key ''length'', PInt 5), (key ''pieces root'', PBytes (replicate 32 7))])])])"
    "get ''name'' sample_hybrid_info = Some (PBytes [102])"
    by code_simp+
  have top: "get ''announce'' sample_hybrid = Some (PBytes [])" "get ''announce-list'' sample_hybrid = None"
    "get ''comment'' sample_hybrid = None" "get ''created by'' sample_hybrid = None"
    "get ''encoding'' sample_hybrid = None" "get ''creation date'' sample_hybrid = None" by code_simp+
  have "bencodable (PDict ?info)" "bencodable (PDict (v1_part ?info))" by code_simp+
  then obtain y x where "encode (PDict ?info) = Inr y" "encode (PDict (v1_part ?info)) = Inr x"
    using encode_parses by blast
  then have h: "calculate_info_hash_v2 ?info = Inr (sha256 y)" "calculate_info_hash_v1 ?info = Inr (Some (sha1 x))"
    using g(5) by (simp_all add: calculate_info_hash_v2_def info_hash_v1_eq del: encode.simps)
  have layers: "parse_piece_layers [(PBytes (replicate 32 7), PBytes (replicate 32 9))] 16384 [] =
      Inr [(replicate 32 7, \<lparr>pl_piece_length = 16384, pl_pieces = [replicate 32 9]\<rparr>)]"
    by (simp add: extract_piece_hashes_def piece_layer_def)
  obtain v2 where v2: "parse_v2 (\<lambda>_. []) ?info sample_hybrid = Inr v2"
    and f: "v2_info_hash_v1 v2 = Some (sha1 x)" "v2_info_hash_v2 v2 = sha256 y" "v2_creation_date v2 = None"
      "v2_piece_length v2 = 16384" "v2_total_length v2 = 5" "v2_num_pieces v2 = 1"
    using g h top layers by (simp add: parse_v2_def name_field_def piece_length_field_def dict_field_def to_text_def
        parse_file_entry_def file_tree_node_def is_file_def is_directory_def extract_file_def
        tree_path_def last_component_def parse_announce_list_def text_if_bytes_def
        pcons_def Let_def get_def [of "''length''"] get_def [of "''pieces root''"] key_def ascii_def)
  obtain v1 where v1: "hybrid_fallback lax (\<lambda>_. []) sample_hybrid_info v2 = Inr v1" "tm_info_hash v1 = sha1 x"
    using f g(8) by (simp add: hybrid_fallback_def to_text_def pcons_def Let_def optional_def torrent_info_model_def
        wrong_length_def sha1.length_H)
  then have "\<exists>t. v2_torrent_info lax 3 (Some v1) v2 = Inr t \<and> tm_num_pieces t = 1"
    using f by (simp add: v2_torrent_info_def optional_def torrent_info_model_def wrong_length_def sha1.length_H sha256.length_H)
  then show ?thesis using v2 v1 by (simp add: hybrid_result_def)
qed

lemma sample_hybrid_bytes:
  obtains bs t where "decode (\<lambda>_. None) (length bs) bs = Some (Inr (PDict sample_hybrid))"
    and "parse (\<lambda>_. None) (\<lambda>_. []) (\<lambda>_. None) (Suc 0) (length bs) (Inr bs) = Some (Inr t)"
    and "tm_num_pieces t = 1" and "tm_meta_version t = 3"
proof -
  obtain bs where "parses (\<lambda>_. None) bs (PDict sample_hybrid)"
    using encode_parses [OF sample_hybrid_wire(2)] sample_hybrid_wire(1) by metis
  from parsesD [OF this order_refl, of "[]" "[]"]
  have dec: "decode (\<lambda>_. None) (length bs) bs = Some (Inr (PDict sample_hybrid))" by (simp add: decode_def)
  have i: "get ''info'' sample_hybrid = Some (PDict sample_hybrid_info)" "get ''meta version'' sample_hybrid_info = Some (PInt 3)"
    by code_simp+
  have val: "validate_torrent (PDict sample_hybrid) = Inr ()" by code_simp
  obtain t where t: "hybrid_result (\<lambda>_. None) (\<lambda>_. []) sample_hybrid_info sample_hybrid = Inr t" "tm_num_pieces t = 1"
    using sample_hybrid_parsed by blast
  then have "parse (\<lambda>_. None) (\<lambda>_. []) (\<lambda>_. None) (Suc 0) (length bs) (Inr bs) = Some (Inr t)"
    using extract_hybrid [OF i, of "\<lambda>_. None" "\<lambda>_. []" 0] val
    by (simp add: parse_def parse_object_def dec del: extract_torrent_data.simps)
  moreover have "tm_meta_version t = 3" using t(1) v2_torrent_info_3 by (auto simp: hybrid_result_def pbind_eq_Inr)
  ultimately show thesis using that dec t(2) by blast
qed

theorem hybrid_parsed_by_recursion_error_witness:
  "\<exists>bs t. (\<forall>n. parse (\<lambda>_. None) (\<lambda>_. []) (\<lambda>_. None) (Suc n) (length bs) (Inr bs) = Some (Inr t)) \<and> tm_pieces t = []"
proof -
  obtain bs t where dec: "decode (\<lambda>_. None) (length bs) bs = Some (Inr (PDict sample_hybrid))"
    and p: "parse (\<lambda>_. None) (\<lambda>_. []) (\<lambda>_. None) (Suc 0) (length bs) (Inr bs) = Some (Inr t)"
    by (rule sample_hybrid_bytes)
  have i: "get ''info'' sample_hybrid = Some (PDict sample_hybrid_info)" "get ''meta version'' sample_hybrid_info = Some (PInt 3)"
    by code_simp+
  from hybrid_parsed_by_recursion_error [OF dec i p] show ?thesis by blast
qed

section \<open>What is rejected and what is not\<close>

text \<open>
  A v2 torrent that has its piece layers beside the info dictionary, where BEP 52 puts them, is rejected,
  and so is every torrent without a tracker.
\<close>

lemma bep52_layers_rejected:
  assumes "decode uni fuel bs = Some (Inr (PDict data))" and "get ''info'' data = Some (PDict info)"
    and "get ''meta version'' info = Some (PInt 2)" and "get ''piece layers'' info = None"
  shows "parse lax str_of uni depth fuel (Inr bs) = Some (Inl TorrentError)"
  using assms by (simp add: parse_def parse_object_def validate_torrent_def has_key_def v2_version_def torrent_error_def)

lemma trackerless_rejected:
  assumes "decode uni fuel bs = Some (Inr (PDict data))" and "get ''announce'' data = None"
  shows "parse lax str_of uni depth fuel (Inr bs) = Some (Inl TorrentError)"
  using assms by (simp add: parse_def parse_object_def validate_torrent_def has_key_def torrent_error_def)

text \<open>The number of pieces need not fit the total length: no pieces for a file of three bytes.\<close>

lemma pieces_unchecked:
  "\<exists>bs t. parse (\<lambda>_. None) (\<lambda>_. []) (\<lambda>_. None) 1 (length bs) (Inr bs) = Some (Inr t) \<and> tm_num_pieces t = 0 \<and> tm_total_length t = 3"
proof -
  let ?t = "sample_torrent\<lparr>tm_pieces := [], tm_num_pieces := 0\<rparr>"
  have "v1_torrent ?t" 
    by (simp add: sample_torrent_def sample_file_entry_def v1_torrent_def single_file_def multi_ok_def entry_ok_def
      opt_text_def scalar_def lit_def wrong_length_def missing_target_def has_attr_def join_parts_def path_join_def)
  then obtain bs e where p: "parse (\<lambda>_. None) (\<lambda>_. []) (\<lambda>_. None) (Suc 0) (length bs) (Inr (bs @ [])) =
      Some (Inr (?t\<lparr>tm_info_hash := sha1 e\<rparr>))"
    using metainfo_parsed by blast
  moreover have "tm_num_pieces (?t\<lparr>tm_info_hash := sha1 e\<rparr>) = 0" "tm_total_length (?t\<lparr>tm_info_hash := sha1 e\<rparr>) = 3"
    by (simp_all add: sample_torrent_def)
  ultimately show ?thesis by (metis One_nat_def append_Nil2)
qed

text \<open>For a v2 torrent every piece index in range makes \<open>get_piece_hash\<close> raise an \<open>IndexError\<close>.\<close>

lemma v2_piece_hash_raises:
  "torrent_ok t \<Longrightarrow> tm_meta_version t \<noteq> 1 \<Longrightarrow> 0 \<le> i \<Longrightarrow> i < tm_num_pieces t \<Longrightarrow> get_piece_hash_v1 t i = Inl IndexError"
  by (simp add: get_piece_hash_v1_def torrent_ok_def split: if_splits)

text \<open>The validators of attributes disagree on an empty target of a symbolic link.\<close>

lemma empty_symlink_target:
  "validate_symlink (Some (lit ''l'')) (Some []) \<and> missing_target (Some (lit ''l'')) (Some [])"
  by (simp add: validate_symlink_def missing_target_def has_attr_def)

lemma parse_attributes_iff:
  "PADDING \<in> parse_attributes a \<longleftrightarrow> is_padding_file a" "SYMLINK \<in> parse_attributes a \<longleftrightarrow> has_attr ''l'' a"
proof -
  have "fold (\<lambda>c flags. case attribute_flag c of Some a \<Rightarrow> insert a flags | None \<Rightarrow> flags) s F =
      F \<union> {a. \<exists>c\<in>set s. attribute_flag c = Some a}" for s F
    by (induction s arbitrary: F) (auto split: option.split)
  moreover have "attribute_flag c = Some PADDING \<longleftrightarrow> c = 112" "attribute_flag c = Some SYMLINK \<longleftrightarrow> c = 108" for c
    by (simp_all add: attribute_flag_def)
  ultimately show "PADDING \<in> parse_attributes a \<longleftrightarrow> is_padding_file a" "SYMLINK \<in> parse_attributes a \<longleftrightarrow> has_attr ''l'' a"
    by (simp_all add: parse_attributes_def is_padding_file_def has_attr_def lit_def split: option.split)
qed

text \<open>Reading in chunks does not change the hash of a file.\<close>

lemma verify_file_sha1_iff:
  "length h = 20 \<Longrightarrow> verify_file_sha1 (Some c) h = Inr (sha1 c = h)"
  by (simp add: verify_file_sha1_def read_loop_eq)

end
