(* ===== verification/Utp_Packet.thy ===== *)
theory Utp_Packet
  imports Ccbt_Prelude
begin

text \<open>
  The uTP wire format: the extensions of \<open>ccbt/transport/utp_extensions.py\<close> (selective ACK,
  window scaling, ECN) with the chain of type, length and data, and \<open>UTPPacket\<close> of
  \<open>ccbt/transport/utp.py\<close> with \<open>pack\<close> and \<open>unpack\<close>. Header fields are Python integers that
  \<open>pack\<close> checks against their width.
\<close>

unbundle bit_operations_syntax

section \<open>Extensions\<close>

definition EXT_SACK :: int where "EXT_SACK = 1"
definition EXT_WINDOW_SCALING :: int where "EXT_WINDOW_SCALING = 2"
definition EXT_ECN :: int where "EXT_ECN = 4"

lemmas ext_types = EXT_SACK_def EXT_WINDOW_SCALING_def EXT_ECN_def

text \<open>A SACK block is a range of sequence numbers, the end excluded.\<close>

type_synonym sack_block = "int \<times> int"

datatype utp_extension =
    Sack "sack_block list"
  | WindowScaling int
  | Ecn bool bool

fun extension_type :: "utp_extension \<Rightarrow> int" where
  "extension_type (Sack _) = EXT_SACK"
| "extension_type (WindowScaling _) = EXT_WINDOW_SCALING"
| "extension_type (Ecn _ _) = EXT_ECN"

definition sack_block :: "int \<Rightarrow> int \<Rightarrow> sack_block py" where
  "sack_block start_seq end_seq =
     (if \<not> (0 \<le> start_seq \<and> start_seq \<le> 0xFFFF) then Inl ValueError
      else if \<not> (0 \<le> end_seq \<and> end_seq \<le> 0xFFFF) then Inl ValueError
      else if end_seq \<le> start_seq then Inl ValueError
      else Inr (start_seq, end_seq))"

definition sack_extension :: "sack_block list \<Rightarrow> utp_extension" where
  "sack_extension blocks = Sack (take 4 blocks)"

definition sack_pack :: "sack_block list \<Rightarrow> bytes py" where
  "sack_pack blocks =
     (if blocks = [] then Inr [0]
      else packs ((1, int (length blocks)) # concat (map (\<lambda>(s, e). [(2, s), (2, e)]) blocks)))"

definition sack_unpack :: "bytes \<Rightarrow> utp_extension py" where
  "sack_unpack data =
     (if length data < 1 then Inl ValueError
      else let block_count = unat (data ! 0)
           in if block_count = 0 then Inr (sack_extension [])
              else if length data < 1 + block_count * 4 then Inl ValueError
              else pbind (py_seq (map (\<lambda>k. let f = unpacks [2, 2] (take 4 (drop (1 + 4 * k) data))
                                          in sack_block (f ! 0) (f ! 1)) [0..<block_count]))
                     (\<lambda>blocks. Inr (sack_extension blocks)))"

definition window_scaling_extension :: "int \<Rightarrow> utp_extension py" where
  "window_scaling_extension scale_factor =
     (if \<not> (0 \<le> scale_factor \<and> scale_factor \<le> 14) then Inl ValueError
      else Inr (WindowScaling scale_factor))"

definition window_scaling_pack :: "int \<Rightarrow> bytes py" where
  "window_scaling_pack scale_factor = packs [(1, scale_factor)]"

definition window_scaling_unpack :: "bytes \<Rightarrow> utp_extension py" where
  "window_scaling_unpack data =
     (if length data < 1 then Inl ValueError else window_scaling_extension (uint (data ! 0)))"

definition ecn_pack :: "bool \<Rightarrow> bool \<Rightarrow> bytes py" where
  "ecn_pack ecn_echo ecn_cwr =
     (let flags = (if ecn_echo then 0 OR 0x01 else (0 :: int));
          flags = (if ecn_cwr then flags OR 0x02 else flags)
      in packs [(1, flags)])"

definition ecn_unpack :: "bytes \<Rightarrow> utp_extension py" where
  "ecn_unpack data =
     (if length data < 1 then Inl ValueError
      else let flags = data ! 0 in Inr (Ecn (flags AND 0x01 \<noteq> 0) (flags AND 0x02 \<noteq> 0)))"

fun extension_pack :: "utp_extension \<Rightarrow> bytes py" where
  "extension_pack (Sack blocks) = sack_pack blocks"
| "extension_pack (WindowScaling s) = window_scaling_pack s"
| "extension_pack (Ecn echo cwr) = ecn_pack echo cwr"

text \<open>The body of the parsing loop for a type; \<open>None\<close> skips an unknown or malformed extension.\<close>

definition unpack_extension :: "int \<Rightarrow> bytes \<Rightarrow> utp_extension option" where
  "unpack_extension ext_type ext_data =
     (case (if ext_type = EXT_SACK then sack_unpack ext_data
            else if ext_type = EXT_WINDOW_SCALING then window_scaling_unpack ext_data
            else if ext_type = EXT_ECN then ecn_unpack ext_data
            else Inl KeyError) of
        Inl _ \<Rightarrow> None
      | Inr e \<Rightarrow> Some e)"

function parse_extensions :: "bytes \<Rightarrow> nat \<Rightarrow> utp_extension list \<times> nat" where
  "parse_extensions data offset =
     (if length data \<le> offset then ([], offset)
      else if data ! offset = 0 then ([], offset + 1)
      else if length data \<le> offset + 1 then ([], offset)
      else
        let ext_length = unat (data ! (offset + 1)) in
        if length data < offset + 2 + ext_length then ([], offset)
        else
          let ext_data = take ext_length (drop (offset + 2) data);
              (rest, end_offset) = parse_extensions data (offset + 2 + ext_length)
          in case unpack_extension (uint (data ! offset)) ext_data of
               None \<Rightarrow> (rest, end_offset)
             | Some e \<Rightarrow> (e # rest, end_offset))"
  by pat_completeness auto
termination
  by (relation "measure (\<lambda>(data, offset). length data - offset)") auto

declare parse_extensions.simps [simp del]

text \<open>\<open>bytearray.append\<close> raises \<open>ValueError\<close> for a value that is not a byte.\<close>

definition append_byte :: "int \<Rightarrow> bytes py" where
  "append_byte v = (if 0 \<le> v \<and> v < 256 then Inr [of_int v] else Inl ValueError)"

fun encode_extension_chain :: "utp_extension list \<Rightarrow> bytes py" where
  "encode_extension_chain [] = Inr []"
| "encode_extension_chain (e # es) =
     pbind (extension_pack e) (\<lambda>ext_data.
     pbind (append_byte (extension_type e)) (\<lambda>t.
     pbind (append_byte (int (length ext_data))) (\<lambda>len.
     pbind (encode_extension_chain es) (\<lambda>rest.
     Inr (t @ len @ ext_data @ rest)))))"

definition encode_extensions :: "utp_extension list \<Rightarrow> bytes py" where
  "encode_extensions exts = (if exts = [] then Inr [0] else encode_extension_chain exts)"

section \<open>Packets\<close>

definition ST_DATA :: int where "ST_DATA = 0"
definition ST_FIN :: int where "ST_FIN = 1"
definition ST_STATE :: int where "ST_STATE = 2"
definition ST_RESET :: int where "ST_RESET = 3"
definition ST_SYN :: int where "ST_SYN = 4"

lemmas packet_types = ST_DATA_def ST_FIN_def ST_STATE_def ST_RESET_def ST_SYN_def

record utp_packet =
  pk_type :: int
  pk_ver :: int
  pk_extension :: int
  pk_connection_id :: int
  pk_seq_nr :: int
  pk_ack_nr :: int
  pk_wnd_size :: int
  pk_timestamp :: int
  pk_timestamp_diff :: int
  pk_data :: bytes
  pk_extensions :: "utp_extension list"

definition HEADER_SIZE :: nat where "HEADER_SIZE = 22"

definition utp_packet :: "int \<Rightarrow> utp_packet" where
  "utp_packet t = \<lparr>pk_type = t, pk_ver = 1, pk_extension = 0, pk_connection_id = 0, pk_seq_nr = 0,
     pk_ack_nr = 0, pk_wnd_size = 0, pk_timestamp = 0, pk_timestamp_diff = 0, pk_data = [],
     pk_extensions = []\<rparr>"

definition header_fields :: "utp_packet \<Rightarrow> int \<Rightarrow> (nat \<times> int) list" where
  "header_fields p extension_field =
     [(1, pk_type p), (1, pk_ver p), (1, extension_field), (1, 0), (2, pk_connection_id p),
      (2, pk_seq_nr p), (2, pk_ack_nr p), (4, pk_wnd_size p), (4, pk_timestamp p),
      (4, pk_timestamp_diff p)]"

definition packet_pack :: "utp_packet \<Rightarrow> bytes py" where
  "packet_pack p =
     (if \<not> (0 \<le> pk_type p \<and> pk_type p \<le> 4) then Inl ValueError
      else if \<not> (0 \<le> pk_connection_id p \<and> pk_connection_id p \<le> 0xFFFF) then Inl ValueError
      else if \<not> (0 \<le> pk_seq_nr p \<and> pk_seq_nr p \<le> 0xFFFF) then Inl ValueError
      else if \<not> (0 \<le> pk_ack_nr p \<and> pk_ack_nr p \<le> 0xFFFF) then Inl ValueError
      else if \<not> (0 \<le> pk_wnd_size p \<and> pk_wnd_size p \<le> 0xFFFFFFFF) then Inl ValueError
      else if \<not> (0 \<le> pk_timestamp p \<and> pk_timestamp p \<le> 0xFFFFFFFF) then Inl ValueError
      else if \<not> (0 \<le> pk_timestamp_diff p \<and> pk_timestamp_diff p \<le> 0xFFFFFFFF) then Inl ValueError
      else
        let extension_field = (case pk_extensions p of [] \<Rightarrow> 0 | e # _ \<Rightarrow> extension_type e)
        in pbind (packs (header_fields p extension_field)) (\<lambda>header.
           pbind (if pk_extensions p = [] then Inr [] else encode_extensions (pk_extensions p))
             (\<lambda>extension_bytes. Inr (header @ extension_bytes @ pk_data p))))"

definition packet_unpack :: "bytes \<Rightarrow> utp_packet py" where
  "packet_unpack data =
     (if length data < HEADER_SIZE then Inl ValueError
      else
        let f = unpacks [1, 1, 1, 1, 2, 2, 2, 4, 4, 4] (take HEADER_SIZE data);
            (extensions, payload_start) =
              (if f ! 2 \<noteq> 0 then parse_extensions data HEADER_SIZE else ([], HEADER_SIZE))
        in Inr \<lparr>pk_type = f ! 0, pk_ver = f ! 1, pk_extension = f ! 2, pk_connection_id = f ! 4,
                pk_seq_nr = f ! 5, pk_ack_nr = f ! 6, pk_wnd_size = f ! 7, pk_timestamp = f ! 8,
                pk_timestamp_diff = f ! 9, pk_data = drop payload_start data,
                pk_extensions = extensions\<rparr>)"

section \<open>Extensions round trip\<close>

fun valid_ext :: "utp_extension \<Rightarrow> bool" where
  "valid_ext (Sack blocks) \<longleftrightarrow> length blocks \<le> 4 \<and> (\<forall>(s, e)\<in>set blocks. 0 \<le> s \<and> s < e \<and> e \<le> 0xFFFF)"
| "valid_ext (WindowScaling s) \<longleftrightarrow> 0 \<le> s \<and> s \<le> 14"
| "valid_ext (Ecn _ _) \<longleftrightarrow> True"

definition block_fields :: "sack_block list \<Rightarrow> (nat \<times> int) list" where
  "block_fields blocks = concat (map (\<lambda>(s, e). [(2, s), (2, e)]) blocks)"

lemma block_fields_widths: "sum_list (map fst (block_fields blocks)) = 4 * length blocks"
  by (induction blocks) (auto simp: block_fields_def)

lemma block_fields_read:
  "packs (block_fields blocks) = Inr bs \<Longrightarrow> \<forall>(s, e)\<in>set blocks. 0 \<le> s \<and> s < e \<and> e \<le> 0xFFFF \<Longrightarrow>
     py_seq (map (\<lambda>k. let f = unpacks [2, 2] (take 4 (drop (4 * k) bs))
                      in sack_block (f ! 0) (f ! 1)) [0..<length blocks]) = Inr blocks"
proof (induction blocks arbitrary: bs)
  case Nil
  then show ?case by simp
next
  case (Cons b blocks)
  obtain s e where b: "b = (s, e)" by (cases b)
  have "packs ((2, s) # (2, e) # block_fields blocks) = Inr bs"
    using Cons.prems(1) b by (simp add: block_fields_def)
  then obtain hd1 hd2 tl where p: "pack_be 2 s = Inr hd1" "pack_be 2 e = Inr hd2"
      "packs (block_fields blocks) = Inr tl" and bs: "bs = hd1 @ hd2 @ tl"
    by (auto simp: packs_Cons pbind_eq_Inr)
  from p have len: "length hd1 = 2" "length hd2 = 2" and val: "unpack_be hd1 = s" "unpack_be hd2 = e"
    by (auto simp: pack_be_eq_Inr unpack_be_be_bytes simp del: be_bytes.simps)
  have first: "(let f = unpacks [2, 2] (take 4 (drop (4 * 0) bs)) in sack_block (f ! 0) (f ! 1)) = Inr b"
    using len val bs b Cons.prems(2) by (simp add: sack_block_def Let_def)
  have rest: "(\<lambda>k. let f = unpacks [2, 2] (take 4 (drop (4 * Suc k) bs)) in sack_block (f ! 0) (f ! 1))
      = (\<lambda>k. let f = unpacks [2, 2] (take 4 (drop (4 * k) tl)) in sack_block (f ! 0) (f ! 1))"
    using len bs by (simp add: fun_eq_iff)
  have ups: "[0..<length (b # blocks)] = 0 # map Suc [0..<length blocks]"
    by (simp add: map_Suc_upt upt_conv_Cons del: upt_Suc)
  show ?case
    using Cons.IH [OF p(3)] Cons.prems(2) first
    unfolding ups list.map py_seq.simps map_map comp_def rest by simp
qed

lemma valid_ext_type: "extension_type e = 1 \<or> extension_type e = 2 \<or> extension_type e = 4"
  by (cases e) (simp_all add: ext_types)

lemma extension_type_bounds: "0 < extension_type e" "extension_type e < 256"
  using valid_ext_type [of e] by auto

lemma block_fields_fits:
  "\<forall>(s, e)\<in>set blocks. 0 \<le> s \<and> s < e \<and> e \<le> 0xFFFF \<Longrightarrow> fits (block_fields blocks)"
  by (induction blocks) (auto simp: block_fields_def)

lemma sack_pack_fields:
  "blocks \<noteq> [] \<Longrightarrow> sack_pack blocks = packs ((1, int (length blocks)) # block_fields blocks)"
  by (simp add: sack_pack_def block_fields_def)

lemma sack_pack_total:
  assumes "valid_ext (Sack blocks)"
  shows "\<exists>bs. sack_pack blocks = Inr bs \<and> length bs = 1 + 4 * length blocks"
proof (cases "blocks = []")
  case False
  let ?fs = "(1, int (length blocks)) # block_fields blocks"
  have "fits ?fs" using assms by (auto intro: block_fields_fits)
  then obtain bs where "packs ?fs = Inr bs" by (auto simp: packs_eq_Inr)
  then show ?thesis
    using False length_packs [of ?fs bs] by (simp add: sack_pack_fields block_fields_widths)
qed (simp add: sack_pack_def)

lemma sack_pack_unpack:
  assumes v: "valid_ext (Sack blocks)" and p: "sack_pack blocks = Inr bs"
  shows "sack_unpack bs = Inr (Sack blocks)"
proof (cases "blocks = []")
  case True
  then show ?thesis using p by (auto simp: sack_pack_def sack_unpack_def sack_extension_def)
next
  case False
  from p False obtain h tl where h: "pack_be 1 (int (length blocks)) = Inr h"
      and tl: "packs (block_fields blocks) = Inr tl" and bs: "bs = h @ tl"
    unfolding sack_pack_fields [OF False] packs_Cons by (auto simp: pbind_eq_Inr)
  have h': "h = [of_nat (length blocks)]" using h by (auto simp: pack_be_eq_Inr)
  have cnt: "unat (bs ! 0) = length blocks"
    using v unfolding bs h' by (simp add: unat_of_nat_byte)
  have len: "length bs = 1 + length blocks * 4"
    using length_packs [OF tl] unfolding bs h' block_fields_widths by simp
  have shift: "drop (Suc k) bs = drop k tl" for k unfolding bs h' by simp
  show ?thesis
    using block_fields_read [OF tl] v cnt len False
    unfolding sack_unpack_def Let_def
    by (simp add: shift sack_extension_def)
qed

lemma extension_pack_total:
  assumes "valid_ext e"
  shows "\<exists>bs. extension_pack e = Inr bs \<and> length bs < 18"
proof (cases e)
  case (Sack blocks)
  with assms sack_pack_total [of blocks] show ?thesis by fastforce
next
  case (WindowScaling s)
  with assms show ?thesis
    by (auto simp: window_scaling_pack_def packs_Cons pack_be_def)
next
  case (Ecn a b)
  then show ?thesis
    by (cases a; cases b) (simp_all add: ecn_pack_def packs_Cons pack_be_def)
qed

lemma uint_byte_of_int: "0 \<le> v \<Longrightarrow> v < 256 \<Longrightarrow> uint (of_int v :: byte) = v"
  by (simp add: uint_word_of_int)

interpretation sack_codec: codec extension_pack sack_unpack
  "\<lambda>e. valid_ext e \<and> extension_type e = EXT_SACK"
proof unfold_locales
  fix e bs
  assume "valid_ext e \<and> extension_type e = EXT_SACK" "extension_pack e = Inr bs"
  then show "sack_unpack bs = Inr e"
    by (cases e) (auto simp: ext_types sack_pack_unpack simp del: valid_ext.simps)
qed (use extension_pack_total in blast)

interpretation scaling_codec: codec extension_pack window_scaling_unpack
  "\<lambda>e. valid_ext e \<and> extension_type e = EXT_WINDOW_SCALING"
proof unfold_locales
  fix e bs
  assume "valid_ext e \<and> extension_type e = EXT_WINDOW_SCALING" "extension_pack e = Inr bs"
  then show "window_scaling_unpack bs = Inr e"
    by (cases e)
      (auto simp: ext_types window_scaling_pack_def window_scaling_unpack_def packs_Cons
         pbind_eq_Inr pack_be_eq_Inr window_scaling_extension_def uint_byte_of_int)
qed (use extension_pack_total in blast)

interpretation ecn_codec: codec extension_pack ecn_unpack
  "\<lambda>e. valid_ext e \<and> extension_type e = EXT_ECN"
proof unfold_locales
  fix e bs
  assume "valid_ext e \<and> extension_type e = EXT_ECN" "extension_pack e = Inr bs"
  then show "ecn_unpack bs = Inr e"
    by (cases e rule: utp_extension.exhaust)
      (auto simp: ext_types ecn_pack_def ecn_unpack_def packs_Cons
         pbind_eq_Inr pack_be_eq_Inr split: if_splits)
qed (use extension_pack_total in blast)

lemma unpack_extension_pack:
  assumes "valid_ext e" and "extension_pack e = Inr bs"
  shows "unpack_extension (extension_type e) bs = Some e"
  using assms sack_codec.dec_enc [of e bs] scaling_codec.dec_enc [of e bs] ecn_codec.dec_enc [of e bs]
  by (cases e) (simp_all add: unpack_extension_def ext_types del: valid_ext.simps)

text \<open>The parser stops at the end, at the terminator or at an incomplete extension.\<close>

definition parse_stops :: "bytes \<Rightarrow> nat \<Rightarrow> bool" where
  "parse_stops data offset \<longleftrightarrow>
     length data \<le> offset \<or> data ! offset = 0 \<or> length data \<le> offset + 1 \<or>
     length data < offset + 2 + unat (data ! (offset + 1))"

lemma parse_extensions_stop:
  "parse_stops data offset \<Longrightarrow> parse_extensions data offset =
     ([], if offset < length data \<and> data ! offset = 0 then offset + 1 else offset)"
  by (subst parse_extensions.simps) (auto simp: parse_stops_def Let_def)

lemma parse_extensions_go:
  "\<not> parse_stops data offset \<Longrightarrow> parse_extensions data offset =
     (let n = unat (data ! (offset + 1)); r = parse_extensions data (offset + 2 + n)
      in (case unpack_extension (uint (data ! offset)) (take n (drop (offset + 2) data)) of
            None \<Rightarrow> fst r | Some e \<Rightarrow> e # fst r, snd r))"
  by (subst parse_extensions.simps)
    (simp add: parse_stops_def Let_def case_prod_unfold split: option.split)

lemma parse_extensions_induct [case_names stop go]:
  assumes "\<And>offset. parse_stops data offset \<Longrightarrow> P offset"
    and "\<And>offset. \<not> parse_stops data offset \<Longrightarrow> P (offset + 2 + unat (data ! (offset + 1))) \<Longrightarrow> P offset"
  shows "P offset"
proof (induction "length data - offset" arbitrary: offset rule: less_induct)
  case less
  show ?case
  proof (cases "parse_stops data offset")
    case False
    then have "length data - (offset + 2 + unat (data ! (offset + 1))) < length data - offset"
      by (auto simp: parse_stops_def)
    with less False assms(2) show ?thesis by blast
  qed (rule assms(1))
qed

text \<open>The parser never runs past the end of the data.\<close>

lemma parse_extensions_offset:
  "offset \<le> length data \<Longrightarrow>
     offset \<le> snd (parse_extensions data offset) \<and> snd (parse_extensions data offset) \<le> length data"
proof (induction offset rule: parse_extensions_induct [of data])
  case (stop offset)
  then show ?case by (simp add: parse_extensions_stop)
next
  case (go offset)
  then have "offset + 2 + unat (data ! (offset + 1)) \<le> length data" by (simp add: parse_stops_def)
  with go show ?case by (simp add: parse_extensions_go Let_def)
qed

text \<open>One encoded extension is one step of the parser.\<close>

lemma parse_extensions_step:
  assumes "valid_ext e" and "extension_pack e = Inr ext_data"
  shows "parse_extensions (pre @ [of_int (extension_type e)] @ [of_int (int (length ext_data))] @ ext_data @ post)
           (length pre) =
         (let r = parse_extensions (pre @ [of_int (extension_type e)] @ [of_int (int (length ext_data))] @ ext_data @ post)
                    (length pre + 2 + length ext_data)
          in (e # fst r, snd r))"
proof -
  let ?data = "pre @ [of_int (extension_type e)] @ [of_int (int (length ext_data))] @ ext_data @ post"
  have len: "length ext_data < 18" using extension_pack_total [OF assms(1)] assms(2) by auto
  have ty: "?data ! length pre = of_int (extension_type e)" by (simp add: nth_append)
  have nz: "(of_int (extension_type e) :: byte) \<noteq> 0" and
    ui: "uint (of_int (extension_type e) :: byte) = extension_type e"
    using valid_ext_type [of e] by auto
  have ln: "?data ! (length pre + 1) = of_int (int (length ext_data))" by (simp add: nth_append)
  have un: "unat (of_int (int (length ext_data)) :: byte) = length ext_data"
    using len by (simp add: unat_of_nat_byte)
  have dr: "take (length ext_data) (drop (length pre + 2) ?data) = ext_data" by simp
  have go: "\<not> parse_stops ?data (length pre)"
    unfolding parse_stops_def ty ln un using nz by simp
  show ?thesis
    unfolding parse_extensions_go [OF go] Let_def ty ln un dr ui unpack_extension_pack [OF assms] by simp
qed

lemma encode_extension_chain_parse:
  "\<forall>e\<in>set es. valid_ext e \<Longrightarrow> encode_extension_chain es = Inr bs \<Longrightarrow>
     parse_extensions (pre @ bs @ post) (length pre) =
       (es @ fst (parse_extensions (pre @ bs @ post) (length pre + length bs)),
        snd (parse_extensions (pre @ bs @ post) (length pre + length bs)))"
proof (induction es arbitrary: pre bs)
  case Nil
  then show ?case by simp
next
  case (Cons e es)
  from Cons.prems obtain d rest where d: "extension_pack e = Inr d"
      and rest: "encode_extension_chain es = Inr rest"
      and bs: "bs = [of_int (extension_type e)] @ [of_int (int (length d))] @ d @ rest"
    by (auto simp: pbind_eq_Inr append_byte_def split: if_splits)
  let ?pre = "pre @ [of_int (extension_type e)] @ [of_int (int (length d))] @ d"
  have "parse_extensions (?pre @ rest @ post) (length ?pre) =
       (es @ fst (parse_extensions (?pre @ rest @ post) (length ?pre + length rest)),
        snd (parse_extensions (?pre @ rest @ post) (length ?pre + length rest)))"
    using Cons.prems rest by (intro Cons.IH) auto
  moreover have "length ?pre = length pre + 2 + length d" by simp
  moreover have "length ?pre + length rest = length pre + length bs" using bs by simp
  moreover have "?pre @ rest @ post = pre @ bs @ post" using bs by simp
  ultimately show ?case
    using parse_extensions_step [of e d pre "rest @ post"] Cons.prems(1) d unfolding bs by (simp add: add.assoc)
qed

lemma encode_extension_chain_total:
  "\<forall>e\<in>set es. valid_ext e \<Longrightarrow> \<exists>bs. encode_extension_chain es = Inr bs"
proof (induction es)
  case (Cons e es)
  then obtain d where "extension_pack e = Inr d" "length d < 18" using extension_pack_total [of e] by auto
  with Cons valid_ext_type [of e] show ?case by (auto simp: append_byte_def)
qed simp


text \<open>Parsing starts at an offset: what stands before it does not matter.\<close>

lemma parse_extensions_shift:
  "parse_extensions (pre @ data) (length pre + offset) =
     (fst (parse_extensions data offset), length pre + snd (parse_extensions data offset))"
proof (induction offset rule: parse_extensions_induct [of data])
  case (stop offset)
  then have "parse_stops (pre @ data) (length pre + offset)"
    by (auto simp: parse_stops_def nth_append)
  with stop show ?case by (simp add: parse_extensions_stop nth_append)
next
  case (go offset)
  then have go': "\<not> parse_stops (pre @ data) (length pre + offset)"
    by (auto simp: parse_stops_def nth_append)
  have n: "(pre @ data) ! (length pre + k) = data ! k" for k by (simp add: nth_append)
  have n1: "length pre + offset + 1 = length pre + (offset + 1)" by simp
  have d: "drop (length pre + offset + 2) (pre @ data) = drop (offset + 2) data" by simp
  have sh: "length pre + offset + 2 + k = length pre + (offset + 2 + k)" for k by simp
  show ?case
    unfolding parse_extensions_go [OF go'] parse_extensions_go [OF go(1)] Let_def n n1 d sh go(2)
    by (simp split: option.split)
qed

section \<open>Packets round trip\<close>

definition extension_field :: "utp_packet \<Rightarrow> int" where
  "extension_field p = (case pk_extensions p of [] \<Rightarrow> 0 | e # _ \<Rightarrow> extension_type e)"


definition valid_packet :: "utp_packet \<Rightarrow> bool" where
  "valid_packet p \<longleftrightarrow> 0 \<le> pk_type p \<and> pk_type p \<le> 4 \<and> 0 \<le> pk_ver p \<and> pk_ver p \<le> 0xFF \<and>
     0 \<le> pk_connection_id p \<and> pk_connection_id p \<le> 0xFFFF \<and>
     0 \<le> pk_seq_nr p \<and> pk_seq_nr p \<le> 0xFFFF \<and> 0 \<le> pk_ack_nr p \<and> pk_ack_nr p \<le> 0xFFFF \<and>
     0 \<le> pk_wnd_size p \<and> pk_wnd_size p \<le> 0xFFFFFFFF \<and>
     0 \<le> pk_timestamp p \<and> pk_timestamp p \<le> 0xFFFFFFFF \<and>
     0 \<le> pk_timestamp_diff p \<and> pk_timestamp_diff p \<le> 0xFFFFFFFF \<and>
     (\<forall>e\<in>set (pk_extensions p). valid_ext e)"

lemma extension_field_bounds: "0 \<le> extension_field p \<and> extension_field p < 256"
  by (simp add: extension_field_def extension_type_bounds order.strict_implies_order split: list.split)

lemma extension_field_zero: "extension_field p = 0 \<longleftrightarrow> pk_extensions p = []"
  using extension_type_bounds by (auto simp: extension_field_def order.strict_iff_order split: list.split)

text \<open>What the extension parser makes of the bytes that follow the last encoded extension.\<close>

definition trailing :: "utp_packet \<Rightarrow> utp_extension list \<times> nat" where
  "trailing p = (if pk_extensions p = [] then ([], 0) else parse_extensions (pk_data p) 0)"

definition received :: "utp_packet \<Rightarrow> utp_packet" where
  "received p = p\<lparr>pk_extension := extension_field p,
     pk_extensions := pk_extensions p @ fst (trailing p), pk_data := drop (snd (trailing p)) (pk_data p)\<rparr>"

lemma packet_pack_eq:
  assumes "valid_packet p"
  obtains header ext_bytes where
    "packs (header_fields p (extension_field p)) = Inr header" and "length header = 22"
    and "encode_extension_chain (pk_extensions p) = Inr ext_bytes"
    and "packet_pack p = Inr (header @ ext_bytes @ pk_data p)"
proof -
  have "fits (header_fields p (extension_field p))"
    using assms extension_field_bounds [of p] by (simp add: header_fields_def valid_packet_def)
  then obtain header where h: "packs (header_fields p (extension_field p)) = Inr header"
    by (auto simp: packs_eq_Inr)
  moreover have "length header = 22" using length_packs [OF h] by (simp add: header_fields_def)
  moreover obtain eb where eb: "encode_extension_chain (pk_extensions p) = Inr eb"
    using encode_extension_chain_total [of "pk_extensions p"] assms by (auto simp: valid_packet_def)
  moreover have "packet_pack p = Inr (header @ eb @ pk_data p)"
    using assms h eb
    by (auto simp: packet_pack_def valid_packet_def encode_extensions_def extension_field_def [symmetric])
  ultimately show ?thesis using that by blast
qed

lemma packet_unpack_pack:
  assumes "valid_packet p"
  shows "pbind (packet_pack p) packet_unpack = Inr (received p)"
proof -
  obtain header eb where h: "packs (header_fields p (extension_field p)) = Inr header"
      and len: "length header = 22" and eb: "encode_extension_chain (pk_extensions p) = Inr eb"
      and pk: "packet_pack p = Inr (header @ eb @ pk_data p)"
    by (rule packet_pack_eq [OF assms])
  let ?data = "header @ eb @ pk_data p"
  have fields: "unpacks [1, 1, 1, 1, 2, 2, 2, 4, 4, 4] header =
      [pk_type p, pk_ver p, extension_field p, 0, pk_connection_id p, pk_seq_nr p, pk_ack_nr p,
       pk_wnd_size p, pk_timestamp p, pk_timestamp_diff p]"
    using fields_packs [OF h, of "[]"] unfolding header_fields_def list.map fst_conv snd_conv by simp
  have take: "take HEADER_SIZE ?data = header" using len by (simp add: HEADER_SIZE_def)
  have ext: "(if extension_field p \<noteq> 0 then parse_extensions ?data HEADER_SIZE else ([], HEADER_SIZE)) =
      (pk_extensions p @ fst (trailing p), 22 + length eb + snd (trailing p))"
  proof (cases "pk_extensions p = []")
    case True
    then show ?thesis using eb by (simp add: extension_field_zero trailing_def HEADER_SIZE_def)
  next
    case False
    have "parse_extensions ?data (length header) =
       (pk_extensions p @ fst (parse_extensions ?data (length header + length eb)),
        snd (parse_extensions ?data (length header + length eb)))"
      using assms eb by (intro encode_extension_chain_parse) (auto simp: valid_packet_def)
    then show ?thesis
      using parse_extensions_shift [of "header @ eb" "pk_data p" 0] False len
      by (simp add: extension_field_zero trailing_def HEADER_SIZE_def)
  qed
  have drop: "drop (22 + length eb + k) ?data = drop k (pk_data p)" for k using len by simp
  have big: "\<not> length ?data < HEADER_SIZE" using len by (simp add: HEADER_SIZE_def)
  show ?thesis
    unfolding pk pbind_Inr packet_unpack_def Let_def take fields
    using big ext drop by (simp add: received_def del: drop_append)
qed

text \<open>
  C26: a packet with fields in range and valid extensions serialises, and parsing the bytes gives
  the packet back, its header's extension field set to the first extension's type, provided it
  has no extensions or no payload.
\<close>

theorem packet_roundtrip:
  assumes "valid_packet p" and "pk_extensions p = [] \<or> pk_data p = []"
  shows "pbind (packet_pack p) packet_unpack = Inr (p\<lparr>pk_extension := extension_field p\<rparr>)"
proof -
  have "parse_extensions [] 0 = ([], 0)" by (simp add: parse_extensions.simps)
  with assms(2) have "received p = p\<lparr>pk_extension := extension_field p\<rparr>"
    by (auto simp: received_def trailing_def)
  with packet_unpack_pack [OF assms(1)] show ?thesis by simp
qed

theorem packet_roundtrip_witness:
  "pbind (packet_pack ((utp_packet ST_SYN)\<lparr>pk_connection_id := 7, pk_wnd_size := 65535,
      pk_extensions := [Ecn False False, WindowScaling 3, Sack [(3, 5), (8, 9)]]\<rparr>)) packet_unpack =
   Inr ((utp_packet ST_SYN)\<lparr>pk_connection_id := 7, pk_wnd_size := 65535, pk_extension := 4,
      pk_extensions := [Ecn False False, WindowScaling 3, Sack [(3, 5), (8, 9)]]\<rparr>)"
  using packet_roundtrip [of "(utp_packet ST_SYN)\<lparr>pk_connection_id := 7, pk_wnd_size := 65535,
      pk_extensions := [Ecn False False, WindowScaling 3, Sack [(3, 5), (8, 9)]]\<rparr>"]
  by (simp add: valid_packet_def utp_packet_def packet_types extension_field_def ext_types)

text \<open>
  The extension chain has no terminator, so in a packet that carries extensions and a
  payload the parser goes on into the payload: it reads the payload's bytes as further
  extensions, and what they use up is lost. A payload that starts with a zero byte loses it.
\<close>

theorem packet_payload_reparsed:
  assumes "valid_packet p" and "pk_extensions p \<noteq> []"
  shows "\<exists>q. pbind (packet_pack p) packet_unpack = Inr q \<and>
           pk_extensions q = pk_extensions p @ fst (parse_extensions (pk_data p) 0) \<and>
           pk_data q = drop (snd (parse_extensions (pk_data p) 0)) (pk_data p) \<and>
           (\<forall>rest. pk_data p = 0 # rest \<longrightarrow> pk_data q = rest \<and> pk_extensions q = pk_extensions p)"
proof -
  have "parse_extensions (0 # rest) 0 = ([], 1)" for rest by (simp add: parse_extensions.simps)
  with assms packet_unpack_pack [OF assms(1)] show ?thesis by (auto simp: received_def trailing_def)
qed

theorem packet_payload_reparsed_witness:
  "\<exists>q. pbind (packet_pack ((utp_packet ST_DATA)\<lparr>pk_data := [0, 9], pk_extensions := [Ecn True False]\<rparr>))
         packet_unpack = Inr q \<and> pk_data q = [9]"
  using packet_payload_reparsed [of "(utp_packet ST_DATA)\<lparr>pk_data := [0, 9], pk_extensions := [Ecn True False]\<rparr>"]
  by (auto simp: valid_packet_def utp_packet_def packet_types)

end
