(* ===== verification/Utp_Connection.thy ===== *)
theory Utp_Connection
  imports Utp_Packet
begin

text \<open>
  \<open>UTPConnection\<close> of \<open>ccbt/transport/utp.py\<close>: the state of one uTP connection and its
  handlers, one definition per method. The clock (\<open>time.perf_counter\<close>) is an argument \<open>now\<close> in
  microseconds, read once per handler; the datagrams given to the transport are collected in
  \<open>u_sent\<close>. Dictionaries are association lists in insertion order. The floating point round-trip
  estimate enters only as the retransmission timeout, an argument of \<open>check_retransmissions\<close>.
\<close>

unbundle bit_operations_syntax

section \<open>State\<close>

datatype utp_state =
  IDLE | SYN_SENT | SYN_RECEIVED | CONNECTED | FIN_SENT | FIN_RECEIVED | CLOSED | RESET

record utp_config =
  uc_mtu :: int
  uc_max_window_size :: int
  uc_max_retransmits :: nat

text \<open>The ranges that the configuration model validates.\<close>

definition valid_utp_config :: "utp_config \<Rightarrow> bool" where
  "valid_utp_config cfg \<longleftrightarrow> 576 \<le> uc_mtu cfg \<and> uc_mtu cfg \<le> 65507 \<and>
     8192 \<le> uc_max_window_size cfg \<and> uc_max_window_size cfg \<le> 65535 \<and>
     3 \<le> uc_max_retransmits cfg \<and> uc_max_retransmits cfg \<le> 50"

text \<open>A packet in flight, the time it was sent and how often it was sent again.\<close>

type_synonym packet_info = "utp_packet \<times> int \<times> nat"

record utp_conn =
  u_state :: utp_state
  u_connection_id :: int
  u_remote_connection_id :: int
  u_id_generated :: bool
  u_seq_nr :: int
  u_ack_nr :: int
  u_send_window :: int
  u_recv_window :: int
  u_max_unacked :: nat
  u_start_time :: int
  u_last_timestamp_diff :: int
  u_retransmitted :: "int set"
  u_send_buffer :: "(int \<times> packet_info) list"
  u_recv_buffer :: "(int \<times> utp_packet) list"
  u_expected_seq :: int
  u_recv_data :: bytes
  u_data_available :: bool
  u_received_seqs :: "int set"
  u_duplicate_acks :: nat
  u_last_ack_nr :: int
  u_pending_acks :: "utp_packet list"
  u_ack_timer :: bool
  u_ack_packet_count :: nat
  u_transport :: bool
  u_registered :: bool
  u_background :: bool
  u_timeout_task :: bool
  u_closing :: nat
  u_bytes_sent :: nat
  u_bytes_received :: nat
  u_packets_sent :: nat
  u_packets_received :: nat
  u_packets_retransmitted :: nat
  u_supported :: "int set"
  u_negotiated :: "int set"
  u_window_scale :: nat
  u_ecn_ce_received :: bool
  u_ecn_echo :: bool
  u_ecn_cwr :: bool
  u_sent :: "bytes list"

definition utp_init :: "int option \<Rightarrow> int \<Rightarrow> int \<Rightarrow> utp_conn" where
  "utp_init connection_id recv_window_size now =
     \<lparr>u_state = IDLE,
      u_connection_id = (case connection_id of None \<Rightarrow> 0 | Some i \<Rightarrow> i),
      u_remote_connection_id = 0, u_id_generated = (connection_id \<noteq> None),
      u_seq_nr = 0, u_ack_nr = 0, u_send_window = 0, u_recv_window = recv_window_size,
      u_max_unacked = 100, u_start_time = now, u_last_timestamp_diff = 0, u_retransmitted = {},
      u_send_buffer = [], u_recv_buffer = [], u_expected_seq = 0, u_recv_data = [],
      u_data_available = False, u_received_seqs = {}, u_duplicate_acks = 0, u_last_ack_nr = 0,
      u_pending_acks = [], u_ack_timer = False, u_ack_packet_count = 0, u_transport = False,
      u_registered = False, u_background = False, u_timeout_task = False, u_closing = 0,
      u_bytes_sent = 0, u_bytes_received = 0, u_packets_sent = 0, u_packets_received = 0,
      u_packets_retransmitted = 0, u_supported = {EXT_SACK, EXT_WINDOW_SCALING, EXT_ECN},
      u_negotiated = {}, u_window_scale = 0, u_ecn_ce_received = False, u_ecn_echo = False,
      u_ecn_cwr = False, u_sent = []\<rparr>"

definition set_transport :: "utp_conn \<Rightarrow> utp_conn" where
  "set_transport c = c\<lparr>u_transport := True\<rparr>"

text \<open>\<open>generated\<close> is the identifier the socket manager draws.\<close>

definition initialize_transport :: "int \<Rightarrow> utp_conn \<Rightarrow> utp_conn" where
  "initialize_transport generated c =
     (let c = c\<lparr>u_transport := True\<rparr>;
          c = (if \<not> u_id_generated c
               then c\<lparr>u_connection_id := generated, u_id_generated := True\<rparr> else c)
      in c\<lparr>u_registered := True\<rparr>)"

section \<open>Sending packets\<close>

definition timestamp :: "int \<Rightarrow> utp_conn \<Rightarrow> int" where
  "timestamp now c = (now - u_start_time c) AND 0xFFFFFFFF"

definition stamp :: "int \<Rightarrow> utp_conn \<Rightarrow> utp_packet \<Rightarrow> utp_packet" where
  "stamp now c p = p\<lparr>pk_timestamp := timestamp now c\<rparr>"

definition send_packet :: "int \<Rightarrow> utp_packet \<Rightarrow> utp_conn \<Rightarrow> utp_conn py" where
  "send_packet now p c =
     (if \<not> u_transport c then Inl RuntimeError
      else pbind (packet_pack (stamp now c p)) (\<lambda>packet_bytes.
           Inr (c\<lparr>u_sent := u_sent c @ [packet_bytes], u_packets_sent := u_packets_sent c + 1,
                  u_bytes_sent := u_bytes_sent c + length packet_bytes\<rparr>)))"

section \<open>Extensions\<close>

text \<open>The loop that finds the scale factor; at most 14 turns.\<close>

function scale_factor_loop :: "int \<Rightarrow> nat \<Rightarrow> nat" where
  "scale_factor_loop max_window scale_factor =
     (if drop_bit scale_factor max_window > 65535 \<and> scale_factor < 14
      then scale_factor_loop max_window (scale_factor + 1) else scale_factor)"
  by pat_completeness auto
termination by (relation "measure (\<lambda>(_, s). 14 - s)") auto

declare scale_factor_loop.simps [simp del]

definition advertise_extensions :: "utp_config \<Rightarrow> utp_conn \<Rightarrow> utp_extension list py" where
  "advertise_extensions cfg c =
     (let extensions = (if EXT_ECN \<in> u_supported c then [Ecn False False] else [])
      in if EXT_WINDOW_SCALING \<in> u_supported c
         then let scale_factor = scale_factor_loop (uc_max_window_size cfg) 0
              in if scale_factor > 0
                 then pbind (window_scaling_extension (int scale_factor)) (\<lambda>e. Inr (extensions @ [e]))
                 else Inr extensions
         else Inr extensions)"

fun negotiate_extension :: "utp_extension \<Rightarrow> utp_conn \<Rightarrow> utp_conn" where
  "negotiate_extension (WindowScaling peer_scale) c =
     (if EXT_WINDOW_SCALING \<in> u_supported c
      then c\<lparr>u_window_scale := (if u_window_scale c = 0 then nat peer_scale
                                else min (nat peer_scale) (u_window_scale c)),
             u_negotiated := insert EXT_WINDOW_SCALING (u_negotiated c)\<rparr>
      else c)"
| "negotiate_extension (Sack _) c =
     (if EXT_SACK \<in> u_supported c
      then c\<lparr>u_negotiated := insert EXT_SACK (u_negotiated c)\<rparr> else c)"
| "negotiate_extension (Ecn _ _) c =
     (if EXT_ECN \<in> u_supported c
      then c\<lparr>u_negotiated := insert EXT_ECN (u_negotiated c)\<rparr> else c)"

definition process_extension_negotiation :: "utp_extension list \<Rightarrow> utp_conn \<Rightarrow> utp_conn" where
  "process_extension_negotiation peer_extensions c = fold negotiate_extension peer_extensions c"

definition scaled_window :: "utp_packet \<Rightarrow> utp_conn \<Rightarrow> int" where
  "scaled_window p c =
     (if u_window_scale c > 0 then push_bit (u_window_scale c) (pk_wnd_size p) else pk_wnd_size p)"

section \<open>Handshake\<close>

definition syn_packet :: "utp_config \<Rightarrow> int \<Rightarrow> int \<Rightarrow> utp_conn \<Rightarrow> utp_packet py" where
  "syn_packet cfg now ack c =
     pbind (advertise_extensions cfg c) (\<lambda>exts.
     Inr ((utp_packet ST_SYN)\<lparr>pk_connection_id := u_connection_id c, pk_seq_nr := 0,
            pk_ack_nr := ack, pk_wnd_size := u_recv_window c, pk_timestamp := timestamp now c,
            pk_extensions := exts\<rparr>))"

text \<open>\<open>connect\<close> up to the point where it waits for the SYN-ACK, and the end of its timer.\<close>

definition utp_connect :: "utp_config \<Rightarrow> int \<Rightarrow> utp_conn \<Rightarrow> utp_conn py" where
  "utp_connect cfg now c =
     (if \<not> u_transport c then Inl RuntimeError
      else let c = c\<lparr>u_state := SYN_SENT, u_start_time := now\<rparr>
           in pbind (syn_packet cfg now 0 c) (\<lambda>syn.
              pbind (send_packet now syn c) (\<lambda>c.
              Inr (c\<lparr>u_send_buffer := AList.update 0 (syn, now, 0) (u_send_buffer c),
                     u_timeout_task := True\<rparr>))))"

definition connection_timeout :: "utp_conn \<Rightarrow> utp_conn" where
  "connection_timeout c =
     (if u_timeout_task c then c\<lparr>u_state := CLOSED, u_timeout_task := False\<rparr> else c)"

definition complete_handshake :: "utp_conn \<Rightarrow> utp_conn" where
  "complete_handshake c =
     c\<lparr>u_state := CONNECTED, u_seq_nr := 1, u_background := True, u_ack_timer := True,
       u_send_buffer := AList.delete 0 (u_send_buffer c)\<rparr>"

definition handle_syn_ack :: "int \<Rightarrow> utp_packet \<Rightarrow> utp_conn \<Rightarrow> utp_conn py" where
  "handle_syn_ack now p c =
     (if u_state c \<noteq> SYN_SENT then Inr c
      else let c = c\<lparr>u_remote_connection_id := pk_connection_id p\<rparr>;
               c = process_extension_negotiation (pk_extensions p) c;
               c = c\<lparr>u_send_window := scaled_window p c\<rparr>;
               ack = (utp_packet ST_STATE)\<lparr>pk_connection_id := u_connection_id c, pk_seq_nr := 1,
                        pk_ack_nr := 1, pk_wnd_size := u_recv_window c,
                        pk_timestamp := timestamp now c\<rparr>
           in pbind (send_packet now ack c) (\<lambda>c.
              Inr (complete_handshake (c\<lparr>u_timeout_task := False\<rparr>))))"

definition send_syn_ack :: "utp_config \<Rightarrow> int \<Rightarrow> int \<Rightarrow> utp_conn \<Rightarrow> utp_conn py" where
  "send_syn_ack cfg now peer_seq_nr c =
     pbind (syn_packet cfg now peer_seq_nr c) (\<lambda>syn_ack.
     send_packet now syn_ack
       (c\<lparr>u_send_buffer := AList.update 0 (syn_ack, now, 0) (u_send_buffer c)\<rparr>))"

definition handle_syn :: "utp_config \<Rightarrow> int \<Rightarrow> utp_packet \<Rightarrow> utp_conn \<Rightarrow> utp_conn py" where
  "handle_syn cfg now p c =
     (if u_state c \<notin> {IDLE, SYN_RECEIVED} then Inr c
      else let c = c\<lparr>u_remote_connection_id := pk_connection_id p, u_send_window := pk_wnd_size p,
                     u_ack_nr := pk_seq_nr p\<rparr>;
               c = process_extension_negotiation (pk_extensions p) c
           in pbind (send_syn_ack cfg now (pk_seq_nr p) c) (\<lambda>c.
              Inr (if u_state c = IDLE then c\<lparr>u_state := SYN_RECEIVED\<rparr> else c)))"

section \<open>Selective acknowledgement\<close>

definition wrap_end :: "int \<Rightarrow> int" where
  "wrap_end v = (if v > 0xFFFF then 0 else v)"

definition close_block :: "int \<Rightarrow> int \<Rightarrow> sack_block list \<Rightarrow> sack_block list py" where
  "close_block block_start block_end blocks =
     (if block_start \<noteq> block_end
      then if block_end = 0
           then if block_start < 0xFFFF
                then pbind (sack_block block_start 0xFFFF) (\<lambda>b. Inr (blocks @ [b]))
                else Inr blocks
           else pbind (sack_block block_start block_end) (\<lambda>b. Inr (blocks @ [b]))
      else Inr blocks)"

fun sack_loop :: "int list \<Rightarrow> int \<Rightarrow> int \<Rightarrow> sack_block list \<Rightarrow> sack_block list py" where
  "sack_loop [] block_start block_end blocks = close_block block_start block_end blocks"
| "sack_loop (seq # seqs) block_start block_end blocks =
     (if (if block_end = 0 then seq = 0 else seq = block_end)
      then sack_loop seqs block_start (wrap_end (seq + 1)) blocks
      else pbind (close_block block_start block_end blocks)
             (\<lambda>blocks. sack_loop seqs seq (wrap_end (seq + 1)) blocks))"

definition generate_sack_blocks :: "int set \<Rightarrow> sack_block list py" where
  "generate_sack_blocks received_seqs =
     (case sorted_list_of_set received_seqs of
        [] \<Rightarrow> Inr []
      | s # seqs \<Rightarrow> pbind (sack_loop seqs s (wrap_end (s + 1)) []) (\<lambda>blocks. Inr (take 4 blocks)))"

definition process_sack_blocks :: "sack_block list \<Rightarrow> utp_conn \<Rightarrow> utp_conn" where
  "process_sack_blocks blocks c =
     c\<lparr>u_send_buffer :=
         fold (\<lambda>(s, e) buf. filter (\<lambda>(k, _). \<not> (s \<le> k \<and> k < e)) buf) blocks (u_send_buffer c)\<rparr>"

section \<open>Retransmission\<close>

text \<open>Sending the packet of a buffer entry again.\<close>

definition retransmit :: "int \<Rightarrow> int \<Rightarrow> utp_conn \<Rightarrow> utp_conn py" where
  "retransmit now seq c =
     (case map_of (u_send_buffer c) seq of
        None \<Rightarrow> Inl KeyError
      | Some (p, _, retry_count) \<Rightarrow>
          pbind (send_packet now p c) (\<lambda>c.
          Inr (c\<lparr>u_send_buffer := AList.update seq (stamp now c p, now, retry_count + 1) (u_send_buffer c),
                 u_packets_retransmitted := u_packets_retransmitted c + 1\<rparr>)))"

definition mark_retransmitted :: "int \<Rightarrow> utp_conn \<Rightarrow> utp_conn" where
  "mark_retransmitted seq c = c\<lparr>u_retransmitted := insert seq (u_retransmitted c)\<rparr>"

definition fast_retransmit :: "int \<Rightarrow> utp_conn \<Rightarrow> utp_conn py" where
  "fast_retransmit now c =
     (if u_send_buffer c = [] then Inr c
      else let oldest_seq = Min (set (map fst (u_send_buffer c)))
           in pbind (retransmit now oldest_seq (mark_retransmitted oldest_seq c)) (\<lambda>c.
              Inr (c\<lparr>u_duplicate_acks := 0\<rparr>)))"

fun selective_retransmit :: "int \<Rightarrow> int list \<Rightarrow> utp_conn \<Rightarrow> utp_conn py" where
  "selective_retransmit now [] c = Inr c"
| "selective_retransmit now (seq # missing_seqs) c =
     (if seq \<in> set (map fst (u_send_buffer c))
      then pbind (retransmit now seq (mark_retransmitted seq c)) (selective_retransmit now missing_seqs)
      else selective_retransmit now missing_seqs c)"

text \<open>
  The scan over the packets in flight: those whose timeout has passed, in order, and whether a
  packet without retries left ended the scan. The timeout doubles with every retry.
\<close>

fun scan_timeouts :: "int \<Rightarrow> int \<Rightarrow> nat \<Rightarrow> (int \<times> packet_info) list \<Rightarrow> int list \<times> bool" where
  "scan_timeouts now rto max_retries [] = ([], False)"
| "scan_timeouts now rto max_retries ((seq, _, send_time, retry_count) # rest) =
     (if now - send_time > rto * 2 ^ retry_count
      then if retry_count \<ge> max_retries then ([], True)
           else let (seqs, failed) = scan_timeouts now rto max_retries rest in (seq # seqs, failed)
      else scan_timeouts now rto max_retries rest)"

fun retransmit_all :: "int \<Rightarrow> int list \<Rightarrow> utp_conn \<Rightarrow> utp_conn py" where
  "retransmit_all now [] c = Inr c"
| "retransmit_all now (seq # seqs) c = pbind (retransmit now seq c) (retransmit_all now seqs)"

definition check_retransmissions :: "utp_config \<Rightarrow> int \<Rightarrow> int \<Rightarrow> utp_conn \<Rightarrow> utp_conn py" where
  "check_retransmissions cfg now rto c =
     (let (seqs, failed) = scan_timeouts now rto (uc_max_retransmits cfg) (u_send_buffer c);
          c = c\<lparr>u_retransmitted := u_retransmitted c \<union> set seqs\<rparr>
      in if failed then Inr (c\<lparr>u_state := CLOSED\<rparr>) else retransmit_all now seqs c)"

section \<open>Sending data\<close>

definition can_send :: "utp_conn \<Rightarrow> bool" where
  "can_send c \<longleftrightarrow>
     \<not> length (u_send_buffer c) \<ge> u_max_unacked c \<and>
     \<not> int (length (u_send_buffer c)) * 1200 \<ge> u_send_window c"

text \<open>One turn of the loop of \<open>send\<close> that sends its chunk.\<close>

definition send_chunk :: "int \<Rightarrow> bytes \<Rightarrow> utp_conn \<Rightarrow> utp_conn py" where
  "send_chunk now chunk c =
     (let c = c\<lparr>u_seq_nr := (u_seq_nr c + 1) mod 0x10000\<rparr>;
          p = (utp_packet ST_DATA)\<lparr>pk_connection_id := u_connection_id c, pk_seq_nr := u_seq_nr c,
                 pk_ack_nr := u_ack_nr c, pk_wnd_size := u_recv_window c, pk_data := chunk,
                 pk_timestamp := timestamp now c\<rparr>
      in send_packet now p
           (c\<lparr>u_send_buffer := AList.update (u_seq_nr c) (p, now, 0) (u_send_buffer c)\<rparr>))"

text \<open>
  The loop up to its end or to the first \<open>sleep\<close>: it returns the chunks that are left when it
  goes to sleep. The chunk that could not be sent is not among them: \<open>continue\<close> goes on with
  the next one.
\<close>

fun send_chunks :: "int \<Rightarrow> bytes list \<Rightarrow> utp_conn \<Rightarrow> (bytes list \<times> utp_conn) py" where
  "send_chunks now [] c = Inr ([], c)"
| "send_chunks now (chunk # rest) c =
     (if \<not> can_send c then Inr (rest, c)
      else pbind (send_chunk now chunk c) (send_chunks now rest))"

definition utp_send :: "utp_config \<Rightarrow> int \<Rightarrow> bytes \<Rightarrow> utp_conn \<Rightarrow> (bytes list \<times> utp_conn) py" where
  "utp_send cfg now data c =
     (if u_state c \<noteq> CONNECTED then Inl RuntimeError
      else let payload_size = nat (uc_mtu cfg - int HEADER_SIZE)
           in send_chunks now (chunks payload_size data) c)"

section \<open>Acknowledgements\<close>

definition is_sequence_acked :: "int \<Rightarrow> int \<Rightarrow> bool" where
  "is_sequence_acked seq ack_nr =
     (if ack_nr < 0x8000 then seq \<le> ack_nr
      else seq \<le> ack_nr \<or> seq < (ack_nr + 0x8000) mod 0x10000)"

text \<open>\<open>_process_ecn_extension\<close> only logs, so an ECN extension has no effect here.\<close>

definition process_state_extensions :: "utp_extension list \<Rightarrow> utp_conn \<Rightarrow> utp_conn" where
  "process_state_extensions exts c =
     fold (\<lambda>e c. case e of Sack blocks \<Rightarrow> process_sack_blocks blocks c | _ \<Rightarrow> c) exts c"

definition handle_state_packet :: "int \<Rightarrow> utp_packet \<Rightarrow> utp_conn \<Rightarrow> utp_conn py" where
  "handle_state_packet now p c =
     (if u_state c = SYN_RECEIVED \<and> pk_ack_nr p = 0 then Inr (complete_handshake c)
      else let c = process_state_extensions (pk_extensions p) c;
               c = c\<lparr>u_send_window := scaled_window p c\<rparr>
           in pbind (if pk_ack_nr p = u_last_ack_nr c
                     then let c = c\<lparr>u_duplicate_acks := u_duplicate_acks c + 1\<rparr>
                          in if u_duplicate_acks c \<ge> 3 then fast_retransmit now c else Inr c
                     else Inr (c\<lparr>u_duplicate_acks := 0, u_last_ack_nr := pk_ack_nr p\<rparr>))
                (\<lambda>c. Inr (c\<lparr>u_send_buffer :=
                   filter (\<lambda>(seq, _). \<not> is_sequence_acked seq (pk_ack_nr p)) (u_send_buffer c)\<rparr>)))"

text \<open>The decision, and the count of packets it keeps.\<close>

definition should_send_immediate_ack :: "utp_packet \<Rightarrow> utp_conn \<Rightarrow> bool \<times> utp_conn" where
  "should_send_immediate_ack p c =
     (if pk_seq_nr p \<noteq> u_expected_seq c then (True, c)
      else let c = c\<lparr>u_ack_packet_count := u_ack_packet_count c + 1\<rparr>
           in (u_ack_packet_count c \<ge> 2, c))"

definition queue_ack :: "utp_packet \<Rightarrow> utp_conn \<Rightarrow> utp_conn" where
  "queue_ack ack_packet c = c\<lparr>u_pending_acks := [ack_packet]\<rparr>"

definition send_batched_acks :: "int \<Rightarrow> utp_conn \<Rightarrow> utp_conn py" where
  "send_batched_acks now c =
     (if u_pending_acks c = [] then Inr c
      else pbind (send_packet now (last (u_pending_acks c)) c) (\<lambda>c.
           Inr (c\<lparr>u_pending_acks := [], u_ack_packet_count := 0\<rparr>)))"

text \<open>The extensions of an acknowledgement; sending an ECN extension clears its flags.\<close>

definition ack_extensions :: "utp_conn \<Rightarrow> (utp_extension list \<times> utp_conn) py" where
  "ack_extensions c =
     pbind (if EXT_SACK \<in> u_negotiated c \<and> u_received_seqs c \<noteq> {}
            then pbind (generate_sack_blocks (u_received_seqs c)) (\<lambda>sack_blocks.
                 Inr (if sack_blocks \<noteq> [] then [sack_extension sack_blocks] else []))
            else Inr [])
       (\<lambda>exts.
          Inr (if EXT_ECN \<in> u_negotiated c \<and> (u_ecn_echo c \<or> u_ecn_cwr c)
               then (exts @ [Ecn (u_ecn_echo c) (u_ecn_cwr c)],
                     c\<lparr>u_ecn_echo := False, u_ecn_cwr := False\<rparr>)
               else (exts, c)))"

definition send_ack :: "int \<Rightarrow> utp_packet option \<Rightarrow> bool \<Rightarrow> utp_conn \<Rightarrow> utp_conn py" where
  "send_ack now packet immediate c =
     (let (immediate, c) =
        (case packet of
           Some p \<Rightarrow> (if \<not> immediate
                      then let (imm, c) = should_send_immediate_ack p c in (imm, c)
                      else (immediate, c))
         | None \<Rightarrow> (immediate, c))
      in pbind (ack_extensions c) (\<lambda>(exts, c).
         let ack_packet = (utp_packet ST_STATE)\<lparr>pk_connection_id := u_connection_id c,
               pk_seq_nr := u_seq_nr c, pk_ack_nr := u_ack_nr c, pk_wnd_size := u_recv_window c,
               pk_timestamp := timestamp now c, pk_timestamp_diff := u_last_timestamp_diff c,
               pk_extensions := exts\<rparr>
         in if immediate
            then pbind (send_packet now ack_packet c) (\<lambda>c.
                 Inr (c\<lparr>u_pending_acks := [], u_ack_packet_count := 0\<rparr>))
            else Inr (queue_ack ack_packet c)))"

section \<open>Receiving data\<close>

function process_out_of_order_packets :: "utp_conn \<Rightarrow> utp_conn" where
  "process_out_of_order_packets c =
     (case map_of (u_recv_buffer c) (u_expected_seq c) of
        None \<Rightarrow> c
      | Some p \<Rightarrow>
          process_out_of_order_packets
            (c\<lparr>u_recv_buffer := AList.delete (u_expected_seq c) (u_recv_buffer c),
               u_recv_data := u_recv_data c @ pk_data p,
               u_expected_seq := (u_expected_seq c + 1) mod 0x10000\<rparr>))"
  by pat_completeness auto
termination
proof (relation "measure (length \<circ> u_recv_buffer)", goal_cases)
  case (2 c p)
  then have "(u_expected_seq c, p) \<in> set (u_recv_buffer c)" by (rule map_of_SomeD)
  then show ?case
    by (auto simp: AList.delete_eq intro!: length_filter_less)
qed simp

declare process_out_of_order_packets.simps [simp del]

definition update_ack_nr :: "utp_packet \<Rightarrow> utp_conn \<Rightarrow> utp_conn" where
  "update_ack_nr p c =
     (if pk_seq_nr p > u_ack_nr c \<or> (pk_seq_nr p < u_ack_nr c \<and> pk_seq_nr p > 0x8000)
      then c\<lparr>u_ack_nr := pk_seq_nr p\<rparr> else c)"

definition accept_data :: "utp_packet \<Rightarrow> utp_conn \<Rightarrow> utp_conn" where
  "accept_data p c =
     (if pk_seq_nr p = u_expected_seq c
      then process_out_of_order_packets
             (c\<lparr>u_recv_data := u_recv_data c @ pk_data p,
                u_expected_seq := (u_expected_seq c + 1) mod 0x10000\<rparr>)
      else c\<lparr>u_recv_buffer := AList.update (pk_seq_nr p) p (u_recv_buffer c)\<rparr>)"

definition handle_data_packet :: "int \<Rightarrow> utp_packet \<Rightarrow> utp_conn \<Rightarrow> utp_conn py" where
  "handle_data_packet now p c =
     (let c = update_ack_nr p c;
          c = (if EXT_SACK \<in> u_negotiated c
               then c\<lparr>u_received_seqs := insert (pk_seq_nr p) (u_received_seqs c)\<rparr> else c);
          c = accept_data p c
      in pbind (send_ack now (Some p) False c) (\<lambda>c.
         Inr (if length (u_recv_data c) > 0 then c\<lparr>u_data_available := True\<rparr> else c)))"

text \<open>
  \<open>receive\<close> up to its end (\<open>Some\<close> the data) or to the point where it waits for the event
  (\<open>None\<close>); \<open>wait\<close> passes when the event is set, and the event is then cleared.
\<close>

definition receive_all_woken :: "utp_conn \<Rightarrow> bytes option \<times> utp_conn" where
  "receive_all_woken c =
     (Some (u_recv_data c), c\<lparr>u_data_available := False, u_recv_data := []\<rparr>)"

definition receive_all :: "utp_conn \<Rightarrow> bytes option \<times> utp_conn" where
  "receive_all c =
     (if length (u_recv_data c) = 0
      then if u_data_available c then receive_all_woken c else (None, c)
      else (Some (u_recv_data c), c\<lparr>u_recv_data := []\<rparr>))"

definition receive_n :: "nat \<Rightarrow> utp_conn \<Rightarrow> bytes option \<times> utp_conn" where
  "receive_n max_bytes c =
     (if length (u_recv_data c) < max_bytes
      then (None, c\<lparr>u_data_available := False\<rparr>)
      else let data = take max_bytes (u_recv_data c);
               c = c\<lparr>u_recv_data := drop max_bytes (u_recv_data c)\<rparr>
           in (Some data, if length (u_recv_data c) > 0 then c\<lparr>u_data_available := True\<rparr> else c))"

text \<open>The call that waited goes on when the event is set: it clears the event first.\<close>

definition receive_woken :: "int \<Rightarrow> utp_conn \<Rightarrow> bytes option \<times> utp_conn" where
  "receive_woken max_bytes c =
     (if max_bytes < 0 then receive_all_woken c
      else receive_n (nat max_bytes) (c\<lparr>u_data_available := False\<rparr>))"

definition utp_receive :: "int \<Rightarrow> utp_conn \<Rightarrow> bytes option \<times> utp_conn" where
  "utp_receive max_bytes c =
     (if max_bytes < 0 then receive_all c else receive_n (nat max_bytes) c)"

section \<open>Closing\<close>

definition fin_packet :: "utp_conn \<Rightarrow> utp_packet" where
  "fin_packet c = (utp_packet ST_FIN)\<lparr>pk_connection_id := u_connection_id c, pk_seq_nr := u_seq_nr c,
     pk_ack_nr := u_ack_nr c, pk_wnd_size := u_recv_window c\<rparr>"

text \<open>A \<open>close\<close> started as a task runs later; \<open>u_closing\<close> counts these tasks.\<close>

definition handle_fin_packet :: "int \<Rightarrow> utp_conn \<Rightarrow> utp_conn py" where
  "handle_fin_packet now c =
     (if u_state c = CONNECTED
      then let c = c\<lparr>u_state := FIN_RECEIVED\<rparr>
           in pbind (send_packet now (fin_packet c) c) (\<lambda>c.
              Inr (c\<lparr>u_closing := u_closing c + 1\<rparr>))
      else Inr c)"

definition handle_reset_packet :: "utp_conn \<Rightarrow> utp_conn" where
  "handle_reset_packet c = c\<lparr>u_state := RESET, u_closing := u_closing c + 1\<rparr>"

definition stop_ack_timer :: "int \<Rightarrow> utp_conn \<Rightarrow> utp_conn py" where
  "stop_ack_timer now c =
     (if u_ack_timer c
      then pbind (send_batched_acks now c) (\<lambda>c. Inr (c\<lparr>u_ack_timer := False\<rparr>))
      else Inr c)"

definition utp_close :: "int \<Rightarrow> utp_conn \<Rightarrow> utp_conn py" where
  "utp_close now c =
     (if u_state c \<in> {CLOSED, RESET} then Inr c
      else pbind (if u_state c = CONNECTED
                  then pbind (send_packet now (fin_packet c) c) (\<lambda>c. Inr (c\<lparr>u_state := FIN_SENT\<rparr>))
                  else Inr c) (\<lambda>c.
           pbind (stop_ack_timer now c) (\<lambda>c.
           pbind (send_batched_acks now c) (\<lambda>c.
           Inr (c\<lparr>u_state := CLOSED, u_registered := False\<rparr>)))))"

section \<open>Incoming packets\<close>

text \<open>\<open>int(current_window * 0.8)\<close>, exact for the windows that occur (below \<open>2 ^ 46\<close>).\<close>

definition handle_ecn_congestion :: "utp_conn \<Rightarrow> utp_conn" where
  "handle_ecn_congestion c =
     (if EXT_ECN \<notin> u_negotiated c then c
      else let current_window = (if u_send_window c > 0 then u_send_window c else 1500);
               new_window = current_window * 4 div 5
           in c\<lparr>u_send_window := max 2 new_window, u_ecn_cwr := True\<rparr>)"

text \<open>The part of \<open>_update_rtt\<close> that other handlers read: the last delay the peer reported.\<close>

definition update_rtt :: "utp_packet \<Rightarrow> utp_conn \<Rightarrow> utp_conn" where
  "update_rtt p c =
     (if pk_ack_nr p \<in> u_retransmitted c then c
      else if pk_timestamp_diff p > 0 then c\<lparr>u_last_timestamp_diff := pk_timestamp_diff p\<rparr>
      else c)"

definition route_packet :: "utp_config \<Rightarrow> int \<Rightarrow> utp_packet \<Rightarrow> utp_conn \<Rightarrow> utp_conn py" where
  "route_packet cfg now p c =
     (if pk_type p = ST_SYN
      then if u_state c = SYN_SENT then handle_syn_ack now p c
           else if u_state c \<in> {IDLE, SYN_RECEIVED} then handle_syn cfg now p c
           else Inr c
      else if pk_type p = ST_STATE then handle_state_packet now p c
      else if pk_type p = ST_DATA then handle_data_packet now p c
      else if pk_type p = ST_FIN then handle_fin_packet now c
      else if pk_type p = ST_RESET then Inr (handle_reset_packet c)
      else Inr c)"

definition handle_packet :: "utp_config \<Rightarrow> int \<Rightarrow> bytes \<Rightarrow> bool \<Rightarrow> utp_conn \<Rightarrow> utp_conn py" where
  "handle_packet cfg now packet_data ecn_ce c =
     (case packet_unpack packet_data of
        Inl e \<Rightarrow> if e = ValueError then Inr c else Inl e
      | Inr p \<Rightarrow>
          let c = c\<lparr>u_packets_received := u_packets_received c + 1,
                    u_bytes_received := u_bytes_received c + length packet_data\<rparr>;
              c = (if ecn_ce
                   then handle_ecn_congestion (c\<lparr>u_ecn_ce_received := True, u_ecn_echo := True\<rparr>)
                   else c);
              c = (if pk_type p = ST_STATE \<and> pk_ack_nr p > 0 \<and>
                      pk_ack_nr p \<in> set (map fst (u_send_buffer c))
                   then update_rtt p c else c)
          in route_packet cfg now p c)"

section \<open>The connection as a transition system\<close>

text \<open>
  What can happen to a connection: a call of its interface, an incoming datagram, or a turn of
  one of its background tasks. A suspended \<open>send\<close> is resumed with the chunks it has left.
\<close>

datatype utp_event =
    SetTransport
  | InitTransport int
  | Connect int
  | TimeoutFires
  | Datagram int bytes bool
  | Send int bytes
  | ResumeSend int "bytes list"
  | Receive int
  | ReceiveWoken int
  | AckTimer int
  | CheckRetransmissions int int
  | SelectiveRetransmit int "int list"
  | Close int

fun utp_handle :: "utp_config \<Rightarrow> utp_event \<Rightarrow> utp_conn \<Rightarrow> utp_conn py" where
  "utp_handle cfg SetTransport c = Inr (set_transport c)"
| "utp_handle cfg (InitTransport i) c = Inr (initialize_transport i c)"
| "utp_handle cfg (Connect now) c = utp_connect cfg now c"
| "utp_handle cfg TimeoutFires c = Inr (connection_timeout c)"
| "utp_handle cfg (Datagram now data ecn) c = handle_packet cfg now data ecn c"
| "utp_handle cfg (Send now data) c = pbind (utp_send cfg now data c) (\<lambda>(_, c). Inr c)"
| "utp_handle cfg (ResumeSend now rest) c = pbind (send_chunks now rest c) (\<lambda>(_, c). Inr c)"
| "utp_handle cfg (Receive n) c = Inr (snd (utp_receive n c))"
| "utp_handle cfg (ReceiveWoken n) c = Inr (snd (receive_woken n c))"
| "utp_handle cfg (AckTimer now) c = send_batched_acks now c"
| "utp_handle cfg (CheckRetransmissions now rto) c = check_retransmissions cfg now rto c"
| "utp_handle cfg (SelectiveRetransmit now seqs) c = selective_retransmit now seqs c"
| "utp_handle cfg (Close now) c = utp_close now c"

text \<open>The states a new connection can reach. Identifiers that are drawn are 16-bit numbers.\<close>

inductive utp_reachable :: "utp_config \<Rightarrow> utp_conn \<Rightarrow> bool" for cfg where
  init: "(case connection_id of None \<Rightarrow> True | Some i \<Rightarrow> 0 \<le> i \<and> i \<le> 0xFFFF) \<Longrightarrow>
     0 \<le> recv_window_size \<Longrightarrow> recv_window_size \<le> 0xFFFFFFFF \<Longrightarrow>
     utp_reachable cfg (utp_init connection_id recv_window_size now)"
| step: "utp_reachable cfg c \<Longrightarrow> (\<And>i. ev = InitTransport i \<Longrightarrow> 0 \<le> i \<and> i \<le> 0xFFFF) \<Longrightarrow>
     utp_handle cfg ev c = Inr c' \<Longrightarrow> utp_reachable cfg c'"

section \<open>No handler fails: the invariant of a connection\<close>

definition valid_send_buffer :: "(int \<times> packet_info) list \<Rightarrow> bool" where
  "valid_send_buffer buf \<longleftrightarrow> distinct (map fst buf) \<and>
     (\<forall>(k, p, _)\<in>set buf. 0 \<le> k \<and> k \<le> 0xFFFF \<and> valid_packet p)"

definition valid_recv_buffer :: "int \<Rightarrow> (int \<times> utp_packet) list \<Rightarrow> bool" where
  "valid_recv_buffer expected buf \<longleftrightarrow> distinct (map fst buf) \<and> expected \<notin> fst ` set buf \<and>
     (\<forall>(k, p)\<in>set buf. pk_seq_nr p = k \<and> 0 \<le> k \<and> k \<le> 0xFFFF)"

definition valid_conn :: "utp_conn \<Rightarrow> bool" where
  "valid_conn c \<longleftrightarrow>
     0 \<le> u_connection_id c \<and> u_connection_id c \<le> 0xFFFF \<and>
     0 \<le> u_seq_nr c \<and> u_seq_nr c \<le> 0xFFFF \<and> 0 \<le> u_ack_nr c \<and> u_ack_nr c \<le> 0xFFFF \<and>
     0 \<le> u_recv_window c \<and> u_recv_window c \<le> 0xFFFFFFFF \<and>
     0 \<le> u_last_timestamp_diff c \<and> u_last_timestamp_diff c \<le> 0xFFFFFFFF \<and>
     u_window_scale c \<le> 14 \<and> 0 \<le> u_send_window c \<and> u_send_window c < 2 ^ 46 \<and>
     0 \<le> u_expected_seq c \<and> u_expected_seq c \<le> 0xFFFF \<and>
     u_received_seqs c \<subseteq> {0..0xFFFF} \<and>
     valid_send_buffer (u_send_buffer c) \<and>
     valid_recv_buffer (u_expected_seq c) (u_recv_buffer c) \<and>
     list_all valid_packet (u_pending_acks c)"

text \<open>An outcome is safe when it is a valid state, or a \<open>RuntimeError\<close> for want of a transport.\<close>

definition safe :: "utp_conn \<Rightarrow> utp_conn py \<Rightarrow> bool" where
  "safe c m \<longleftrightarrow>
     (case m of Inl e \<Rightarrow> e = RuntimeError \<and> \<not> u_transport c
      | Inr c' \<Rightarrow> valid_conn c' \<and> u_transport c' = u_transport c)"

lemma safe_Inr [simp]: "safe c (Inr c') \<longleftrightarrow> valid_conn c' \<and> u_transport c' = u_transport c"
  by (simp add: safe_def)

lemma safe_Inl [simp]: "safe c (Inl e) \<longleftrightarrow> e = RuntimeError \<and> \<not> u_transport c"
  by (simp add: safe_def)

lemma safe_pbind:
  assumes "safe c m"
    and "\<And>c'. m = Inr c' \<Longrightarrow> valid_conn c' \<Longrightarrow> u_transport c' = u_transport c \<Longrightarrow> safe c' (f c')"
  shows "safe c (pbind m f)"
  using assms by (cases m) (auto simp: safe_def split: sum.splits)

lemma timestamp_bounds: "0 \<le> timestamp now c" "timestamp now c \<le> 0xFFFFFFFF"
proof -
  have "timestamp now c = take_bit 32 (now - u_start_time c)"
    unfolding timestamp_def by (simp add: take_bit_eq_mask mask_eq_exp_minus_1)
  then show "0 \<le> timestamp now c" "timestamp now c \<le> 0xFFFFFFFF"
    using take_bit_int_less_exp [of 32 "now - u_start_time c"] by simp_all
qed

lemma valid_stamp: "valid_packet (stamp now c p) \<longleftrightarrow> valid_packet (p\<lparr>pk_timestamp := 0\<rparr>)"
  using timestamp_bounds [of now c] by (simp add: stamp_def valid_packet_def)

lemma valid_packet_timestamp [simp]: "valid_packet p \<Longrightarrow> valid_packet (p\<lparr>pk_timestamp := 0\<rparr>)"
  by (simp add: valid_packet_def)

lemma packet_pack_valid:
  assumes "valid_packet p"
  shows "\<exists>bs. packet_pack p = Inr bs"
  using packet_pack_eq [OF assms] by metis

lemma send_packet_safe:
  assumes "valid_conn c" and "valid_packet (p\<lparr>pk_timestamp := 0\<rparr>)"
  shows "safe c (send_packet now p c)"
proof -
  obtain bs where "packet_pack (stamp now c p) = Inr bs"
    using packet_pack_valid [of "stamp now c p"] assms by (auto simp: valid_stamp)
  with assms show ?thesis by (simp add: send_packet_def valid_conn_def)
qed

lemma send_packet_InrD:
  "send_packet now p c = Inr c' \<Longrightarrow>
     \<exists>bs. packet_pack (stamp now c p) = Inr bs \<and> u_transport c \<and>
       c' = c\<lparr>u_sent := u_sent c @ [bs], u_packets_sent := u_packets_sent c + 1,
             u_bytes_sent := u_bytes_sent c + length bs\<rparr>"
  by (auto simp: send_packet_def pbind_eq_Inr split: if_splits)

text \<open>What a new packet of the connection needs.\<close>

lemma valid_new_packet:
  "valid_conn c \<Longrightarrow> t \<in> {0..4} \<Longrightarrow> \<forall>e\<in>set exts. valid_ext e \<Longrightarrow> 0 \<le> seq \<Longrightarrow> seq \<le> 0xFFFF \<Longrightarrow>
     0 \<le> ack \<Longrightarrow> ack \<le> 0xFFFF \<Longrightarrow>
     valid_packet ((utp_packet t)\<lparr>pk_connection_id := u_connection_id c, pk_seq_nr := seq,
        pk_ack_nr := ack, pk_wnd_size := u_recv_window c, pk_data := d, pk_extensions := exts\<rparr>)"
  by (simp add: valid_conn_def valid_packet_def utp_packet_def)


text \<open>Buffer updates.\<close>

lemma set_alist_update: "set (AList.update k v al) \<subseteq> insert (k, v) (set al)"
  by (induction al) auto

lemma set_alist_delete: "set (AList.delete k al) \<subseteq> set al"
  by (auto simp: AList.delete_eq)

lemma valid_send_buffer_update:
  "valid_send_buffer buf \<Longrightarrow> 0 \<le> k \<Longrightarrow> k \<le> 0xFFFF \<Longrightarrow> valid_packet p \<Longrightarrow>
     valid_send_buffer (AList.update k (p, t, r) buf)"
  using set_alist_update [of k "(p, t, r)" buf]
  by (fastforce simp: valid_send_buffer_def intro: distinct_update)

lemma valid_send_buffer_filter: "valid_send_buffer buf \<Longrightarrow> valid_send_buffer (filter P buf)"
  by (auto simp: valid_send_buffer_def intro: distinct_map_filter)

lemma valid_send_buffer_delete: "valid_send_buffer buf \<Longrightarrow> valid_send_buffer (AList.delete k buf)"
  unfolding AList.delete_eq by (rule valid_send_buffer_filter)

lemma valid_recv_buffer_update:
  "valid_recv_buffer e buf \<Longrightarrow> pk_seq_nr p \<noteq> e \<Longrightarrow> 0 \<le> pk_seq_nr p \<Longrightarrow> pk_seq_nr p \<le> 0xFFFF \<Longrightarrow>
     valid_recv_buffer e (AList.update (pk_seq_nr p) p buf)"
  using set_alist_update [of "pk_seq_nr p" p buf]
  by (fastforce simp: valid_recv_buffer_def dom_update intro: distinct_update)

text \<open>Changes of the fields that the invariant does not mention.\<close>

lemma valid_conn_irrelevant [simp]:
  "valid_conn (c\<lparr>u_state := st\<rparr>) = valid_conn c"
  "valid_conn (c\<lparr>u_start_time := t\<rparr>) = valid_conn c"
  "valid_conn (c\<lparr>u_timeout_task := b\<rparr>) = valid_conn c"
  "valid_conn (c\<lparr>u_transport := b\<rparr>) = valid_conn c"
  "valid_conn (c\<lparr>u_registered := b\<rparr>) = valid_conn c"
  "valid_conn (c\<lparr>u_ack_timer := b\<rparr>) = valid_conn c"
  "valid_conn (c\<lparr>u_background := b\<rparr>) = valid_conn c"
  "valid_conn (c\<lparr>u_closing := n\<rparr>) = valid_conn c"
  "valid_conn (c\<lparr>u_remote_connection_id := i\<rparr>) = valid_conn c"
  "valid_conn (c\<lparr>u_id_generated := b\<rparr>) = valid_conn c"
  "valid_conn (c\<lparr>u_recv_data := d\<rparr>) = valid_conn c"
  "valid_conn (c\<lparr>u_data_available := b\<rparr>) = valid_conn c"
  "valid_conn (c\<lparr>u_duplicate_acks := n\<rparr>) = valid_conn c"
  "valid_conn (c\<lparr>u_last_ack_nr := i\<rparr>) = valid_conn c"
  "valid_conn (c\<lparr>u_ack_packet_count := n\<rparr>) = valid_conn c"
  "valid_conn (c\<lparr>u_retransmitted := S\<rparr>) = valid_conn c"
  "valid_conn (c\<lparr>u_negotiated := S\<rparr>) = valid_conn c"
  "valid_conn (c\<lparr>u_ecn_ce_received := b\<rparr>) = valid_conn c"
  "valid_conn (c\<lparr>u_ecn_echo := b\<rparr>) = valid_conn c"
  "valid_conn (c\<lparr>u_ecn_cwr := b\<rparr>) = valid_conn c"
  "valid_conn (c\<lparr>u_packets_retransmitted := n\<rparr>) = valid_conn c"
  "valid_conn (c\<lparr>u_packets_received := n\<rparr>) = valid_conn c"
  "valid_conn (c\<lparr>u_bytes_received := n\<rparr>) = valid_conn c"
  by (simp_all add: valid_conn_def)

lemma valid_conn_pending_Nil [simp]: "valid_conn c \<Longrightarrow> valid_conn (c\<lparr>u_pending_acks := []\<rparr>)"
  by (simp add: valid_conn_def)

lemma valid_conn_send_buffer:
  "valid_conn c \<Longrightarrow> valid_send_buffer buf \<Longrightarrow> valid_conn (c\<lparr>u_send_buffer := buf\<rparr>)"
  by (simp add: valid_conn_def)

lemma valid_conn_buffer: "valid_conn c \<Longrightarrow> valid_send_buffer (u_send_buffer c)"
  by (simp add: valid_conn_def)

text \<open>Extensions and the handshake.\<close>

lemma scale_factor_loop_le: "s \<le> 14 \<Longrightarrow> scale_factor_loop w s \<le> 14"
  by (induction w s rule: scale_factor_loop.induct) (subst scale_factor_loop.simps, simp)

lemma advertise_extensions_ok:
  "\<exists>exts. advertise_extensions cfg c = Inr exts \<and> (\<forall>e\<in>set exts. valid_ext e)"
  using scale_factor_loop_le [of 0 "uc_max_window_size cfg"]
  by (simp add: advertise_extensions_def window_scaling_extension_def Let_def)

lemma negotiate_extension_valid:
  "valid_conn c \<Longrightarrow> valid_ext e \<Longrightarrow>
     valid_conn (negotiate_extension e c) \<and> u_transport (negotiate_extension e c) = u_transport c \<and>
     u_state (negotiate_extension e c) = u_state c"
  by (cases e) (auto simp: valid_conn_def)

lemma process_extension_negotiation_valid:
  "valid_conn c \<Longrightarrow> \<forall>e\<in>set exts. valid_ext e \<Longrightarrow>
     valid_conn (process_extension_negotiation exts c) \<and>
     u_transport (process_extension_negotiation exts c) = u_transport c \<and>
     u_state (process_extension_negotiation exts c) = u_state c"
  unfolding process_extension_negotiation_def
  by (induction exts arbitrary: c) (simp_all add: negotiate_extension_valid)

text \<open>A packet from the wire: any type, the other fields in range.\<close>

definition wire_packet :: "utp_packet \<Rightarrow> bool" where
  "wire_packet p \<longleftrightarrow> valid_packet (p\<lparr>pk_type := 0\<rparr>)"

lemma scaled_window_bounds:
  assumes "wire_packet p" and "valid_conn c"
  shows "0 \<le> scaled_window p c \<and> scaled_window p c < 2 ^ 46"
proof -
  have "(2 :: int) ^ u_window_scale c \<le> 2 ^ 14"
    using assms(2) by (intro power_increasing) (auto simp: valid_conn_def)
  then have "pk_wnd_size p * 2 ^ u_window_scale c \<le> (2 ^ 32 - 1) * 2 ^ 14"
    using assms(1) by (intro mult_mono) (auto simp: wire_packet_def valid_packet_def)
  then show ?thesis
    using assms by (auto simp: scaled_window_def push_bit_eq_mult wire_packet_def valid_packet_def)
qed

lemma syn_packet_ok:
  assumes "valid_conn c" and "0 \<le> ack" and "ack \<le> 0xFFFF"
  obtains syn where "syn_packet cfg now ack c = Inr syn" and "valid_packet syn"
proof -
  obtain exts where "advertise_extensions cfg c = Inr exts" "\<forall>e\<in>set exts. valid_ext e"
    using advertise_extensions_ok by blast
  with assms timestamp_bounds [of now c] that show ?thesis
    by (simp add: syn_packet_def valid_packet_def utp_packet_def packet_types valid_conn_def)
qed

lemma utp_connect_safe:
  assumes "valid_conn c"
  shows "safe c (utp_connect cfg now c)"
proof -
  let ?c = "c\<lparr>u_state := SYN_SENT, u_start_time := now\<rparr>"
  have v: "valid_conn ?c" using assms by simp
  obtain syn where syn: "syn_packet cfg now 0 ?c = Inr syn" "valid_packet syn"
    using syn_packet_ok [OF v, of 0] by auto
  have "safe ?c (pbind (send_packet now syn ?c) (\<lambda>c.
      Inr (c\<lparr>u_send_buffer := AList.update 0 (syn, now, 0) (u_send_buffer c), u_timeout_task := True\<rparr>)))"
    using v syn by (intro safe_pbind send_packet_safe)
      (auto intro!: valid_conn_send_buffer valid_send_buffer_update dest: valid_conn_buffer)
  then show ?thesis using syn by (simp add: utp_connect_def safe_def Let_def split: sum.splits)
qed

lemma complete_handshake_valid:
  "valid_conn c \<Longrightarrow> valid_conn (complete_handshake c) \<and> u_transport (complete_handshake c) = u_transport c"
  by (simp add: complete_handshake_def valid_conn_def valid_send_buffer_delete)

lemma handle_syn_ack_safe:
  assumes "valid_conn c" and "wire_packet p"
  shows "safe c (handle_syn_ack now p c)"
proof (cases "u_state c = SYN_SENT")
  case True
  let ?c0 = "c\<lparr>u_remote_connection_id := pk_connection_id p\<rparr>"
  let ?c1 = "process_extension_negotiation (pk_extensions p) ?c0"
  have 1: "valid_conn ?c1" "u_transport ?c1 = u_transport c"
    using process_extension_negotiation_valid [of ?c0 "pk_extensions p"] assms
    by (auto simp: wire_packet_def valid_packet_def)
  let ?c2 = "?c1\<lparr>u_send_window := scaled_window p ?c1\<rparr>"
  let ?ack = "(utp_packet ST_STATE)\<lparr>pk_connection_id := u_connection_id ?c2, pk_seq_nr := 1,
     pk_ack_nr := 1, pk_wnd_size := u_recv_window ?c2, pk_timestamp := timestamp now ?c2\<rparr>"
  have 2: "valid_conn ?c2" using 1 scaled_window_bounds [OF assms(2) 1(1)] by (simp add: valid_conn_def)
  then have "valid_packet (?ack\<lparr>pk_timestamp := 0\<rparr>)"
    by (simp add: valid_packet_def utp_packet_def packet_types valid_conn_def)
  with 2 have "safe ?c2 (pbind (send_packet now ?ack ?c2)
      (\<lambda>c. Inr (complete_handshake (c\<lparr>u_timeout_task := False\<rparr>))))"
    by (intro safe_pbind send_packet_safe) (auto simp: complete_handshake_valid)
  then show ?thesis using True 1 by (simp add: handle_syn_ack_def safe_def Let_def split: sum.splits)
qed (use assms in \<open>simp add: handle_syn_ack_def\<close>)

lemma handle_syn_safe:
  assumes "valid_conn c" and "wire_packet p"
  shows "safe c (handle_syn cfg now p c)"
proof (cases "u_state c \<in> {IDLE, SYN_RECEIVED}")
  case True
  let ?c0 = "c\<lparr>u_remote_connection_id := pk_connection_id p, u_send_window := pk_wnd_size p,
     u_ack_nr := pk_seq_nr p\<rparr>"
  let ?c1 = "process_extension_negotiation (pk_extensions p) ?c0"
  have "valid_conn ?c0" using assms by (simp add: valid_conn_def wire_packet_def valid_packet_def)
  then have 1: "valid_conn ?c1" "u_transport ?c1 = u_transport c"
    using process_extension_negotiation_valid [of ?c0 "pk_extensions p"] assms
    by (auto simp: wire_packet_def valid_packet_def)
  have seq: "0 \<le> pk_seq_nr p" "pk_seq_nr p \<le> 0xFFFF"
    using assms by (auto simp: wire_packet_def valid_packet_def)
  obtain syn where syn: "syn_packet cfg now (pk_seq_nr p) ?c1 = Inr syn" "valid_packet syn"
    using syn_packet_ok [OF 1(1) seq] by blast
  let ?c2 = "?c1\<lparr>u_send_buffer := AList.update 0 (syn, now, 0) (u_send_buffer ?c1)\<rparr>"
  have 2: "valid_conn ?c2" using 1 syn
    by (auto intro!: valid_conn_send_buffer valid_send_buffer_update dest: valid_conn_buffer)
  have "safe ?c2 (pbind (send_packet now syn ?c2)
      (\<lambda>c. Inr (if u_state c = IDLE then c\<lparr>u_state := SYN_RECEIVED\<rparr> else c)))"
    using 2 syn by (intro safe_pbind send_packet_safe) auto
  then show ?thesis
    using True 1 syn by (simp add: handle_syn_def send_syn_ack_def safe_def Let_def split: sum.splits)
qed (use assms in \<open>simp add: handle_syn_def\<close>)


text \<open>Retransmission keeps the keys of the send buffer.\<close>

lemma retransmit_safe:
  assumes "valid_conn c" and "seq \<in> fst ` set (u_send_buffer c)"
  shows "safe c (retransmit now seq c)"
proof -
  from assms(2) obtain p t r where m: "map_of (u_send_buffer c) seq = Some (p, t, r)"
    by (metis domIff dom_map_of_conv_image_fst not_Some_eq prod_cases3)
  then have p: "0 \<le> seq" "seq \<le> 0xFFFF" "valid_packet p"
    using assms(1) by (auto simp: valid_conn_def valid_send_buffer_def dest!: map_of_SomeD)
  have "safe c (pbind (send_packet now p c) (\<lambda>c.
      Inr (c\<lparr>u_send_buffer := AList.update seq (stamp now c p, now, r + 1) (u_send_buffer c),
             u_packets_retransmitted := u_packets_retransmitted c + 1\<rparr>)))"
    using assms(1) p by (intro safe_pbind send_packet_safe)
      (auto simp: valid_stamp intro!: valid_conn_send_buffer valid_send_buffer_update dest: valid_conn_buffer)
  then show ?thesis by (simp add: retransmit_def m)
qed

lemma retransmit_keys:
  assumes "retransmit now seq c = Inr c'"
  shows "fst ` set (u_send_buffer c') = fst ` set (u_send_buffer c)"
proof -
  from assms obtain p t r where m: "map_of (u_send_buffer c) seq = Some (p, t, r)"
    by (auto simp: retransmit_def split: option.splits)
  then have "seq \<in> fst ` set (u_send_buffer c)" by (force dest: map_of_SomeD)
  moreover obtain v bs where "u_send_buffer c' = AList.update seq v (u_send_buffer c)"
    using assms m by (auto simp: retransmit_def pbind_eq_Inr dest!: send_packet_InrD)
  ultimately show ?thesis by (simp only: dom_update insert_absorb Un_insert_left Un_empty_left)
qed

lemma mark_retransmitted_simps [simp]:
  "valid_conn (mark_retransmitted seq c) = valid_conn c"
  "u_transport (mark_retransmitted seq c) = u_transport c"
  "u_send_buffer (mark_retransmitted seq c) = u_send_buffer c"
  by (simp_all add: mark_retransmitted_def)

lemma safe_mark [simp]: "safe (mark_retransmitted seq c) m = safe c m"
  by (simp add: safe_def split: sum.split)

lemma fast_retransmit_safe:
  assumes "valid_conn c"
  shows "safe c (fast_retransmit now c)"
proof (cases "u_send_buffer c = []")
  case False
  let ?seq = "Min (set (map fst (u_send_buffer c)))"
  have "?seq \<in> set (map fst (u_send_buffer c))" using False by (intro Min_in) auto
  then have "safe (mark_retransmitted ?seq c)
      (pbind (retransmit now ?seq (mark_retransmitted ?seq c)) (\<lambda>c. Inr (c\<lparr>u_duplicate_acks := 0\<rparr>)))"
    using assms by (intro safe_pbind retransmit_safe) auto
  then show ?thesis using False by (simp add: fast_retransmit_def Let_def)
qed (use assms in \<open>simp add: fast_retransmit_def\<close>)

lemma selective_retransmit_safe: "valid_conn c \<Longrightarrow> safe c (selective_retransmit now seqs c)"
proof (induction seqs arbitrary: c)
  case (Cons seq seqs)
  have "safe (mark_retransmitted seq c)
      (pbind (retransmit now seq (mark_retransmitted seq c)) (selective_retransmit now seqs))"
    if "seq \<in> fst ` set (u_send_buffer c)"
    using Cons that by (intro safe_pbind retransmit_safe) auto
  with Cons show ?case by simp
qed simp

lemma scan_timeouts_keys:
  "set (fst (scan_timeouts now rto n buf)) \<subseteq> fst ` set buf"
  by (induction now rto n buf rule: scan_timeouts.induct) (auto simp: case_prod_unfold Let_def)

lemma retransmit_all_safe:
  "valid_conn c \<Longrightarrow> set seqs \<subseteq> fst ` set (u_send_buffer c) \<Longrightarrow> safe c (retransmit_all now seqs c)"
proof (induction seqs arbitrary: c)
  case (Cons seq seqs)
  have "safe c (pbind (retransmit now seq c) (retransmit_all now seqs))"
  proof (rule safe_pbind)
    fix c' assume "retransmit now seq c = Inr c'" "valid_conn c'"
    with Cons show "safe c' (retransmit_all now seqs c')" by (simp add: retransmit_keys)
  qed (use Cons in \<open>simp add: retransmit_safe\<close>)
  then show ?case by simp
qed simp

lemma safe_cong: "u_transport c' = u_transport c \<Longrightarrow> safe c' m = safe c m"
  by (simp add: safe_def split: sum.split)

lemma check_retransmissions_safe:
  assumes "valid_conn c"
  shows "safe c (check_retransmissions cfg now rto c)"
proof -
  let ?s = "scan_timeouts now rto (uc_max_retransmits cfg) (u_send_buffer c)"
  let ?c = "c\<lparr>u_retransmitted := u_retransmitted c \<union> set (fst ?s)\<rparr>"
  have "safe ?c (retransmit_all now (fst ?s) ?c)"
    using assms scan_timeouts_keys [of now rto "uc_max_retransmits cfg" "u_send_buffer c"]
    by (intro retransmit_all_safe) auto
  then have "safe c (retransmit_all now (fst ?s) ?c)" using safe_cong [of ?c c] by simp
  with assms show ?thesis by (simp add: check_retransmissions_def case_prod_unfold Let_def)
qed

text \<open>Sending.\<close>

lemma send_chunk_safe:
  assumes "valid_conn c"
  shows "safe c (send_chunk now chunk c)"
proof -
  let ?seq = "(u_seq_nr c + 1) mod 0x10000"
  let ?c = "c\<lparr>u_seq_nr := ?seq\<rparr>"
  let ?p = "(utp_packet ST_DATA)\<lparr>pk_connection_id := u_connection_id ?c, pk_seq_nr := u_seq_nr ?c,
     pk_ack_nr := u_ack_nr ?c, pk_wnd_size := u_recv_window ?c, pk_data := chunk,
     pk_timestamp := timestamp now ?c\<rparr>"
  have seq: "0 \<le> ?seq" "?seq \<le> 0xFFFF"
    using pos_mod_bound [of "0x10000" "u_seq_nr c + 1"] by simp_all
  then have c: "valid_conn ?c" using assms by (simp add: valid_conn_def)
  then have p: "valid_packet ?p" using timestamp_bounds [of now ?c] seq
    by (simp add: valid_packet_def utp_packet_def packet_types valid_conn_def)
  have "valid_conn (?c\<lparr>u_send_buffer := AList.update ?seq (?p, now, 0) (u_send_buffer c)\<rparr>)"
    using c seq p by (intro valid_conn_send_buffer valid_send_buffer_update) (auto dest: valid_conn_buffer)
  then have "safe (?c\<lparr>u_send_buffer := AList.update ?seq (?p, now, 0) (u_send_buffer c)\<rparr>)
      (send_packet now ?p (?c\<lparr>u_send_buffer := AList.update ?seq (?p, now, 0) (u_send_buffer c)\<rparr>))"
    using valid_packet_timestamp [OF p] by (rule send_packet_safe)
  then show ?thesis
    by (simp add: send_chunk_def Let_def safe_cong [of "_\<lparr>u_send_buffer := _\<rparr>" c])
qed

lemma send_chunks_safe:
  "valid_conn c \<Longrightarrow> safe c (pbind (send_chunks now cs c) (\<lambda>(_, c). Inr c))"
proof (induction cs arbitrary: c)
  case (Cons ch cs)
  have "safe c (pbind (send_chunk now ch c) (\<lambda>c. pbind (send_chunks now cs c) (\<lambda>(_, c). Inr c)))"
    using Cons by (intro safe_pbind send_chunk_safe) auto
  moreover have "pbind (pbind m f) g = pbind m (\<lambda>x. pbind (f x) g)"
    for m :: "utp_conn py" and f :: "utp_conn \<Rightarrow> (bytes list \<times> utp_conn) py" and g :: "bytes list \<times> utp_conn \<Rightarrow> utp_conn py"
    by (cases m) simp_all
  ultimately show ?case using Cons by simp
qed simp


text \<open>Acknowledgements.\<close>

lemma process_sack_blocks_valid:
  "valid_conn c \<Longrightarrow> valid_conn (process_sack_blocks blocks c)"
proof -
  assume v: "valid_conn c"
  have "valid_send_buffer buf \<Longrightarrow>
      valid_send_buffer (fold (\<lambda>(s, e) buf. filter (\<lambda>(k, _). \<not> (s \<le> k \<and> k < e)) buf) blocks buf)" for buf
    by (induction blocks arbitrary: buf) (auto intro: valid_send_buffer_filter)
  with v show ?thesis by (simp add: process_sack_blocks_def valid_conn_send_buffer valid_conn_buffer)
qed

lemma process_sack_blocks_transport [simp]:
  "u_transport (process_sack_blocks blocks c) = u_transport c"
  by (simp add: process_sack_blocks_def)

lemma process_state_extensions_valid:
  "valid_conn c \<Longrightarrow>
     valid_conn (process_state_extensions exts c) \<and> u_transport (process_state_extensions exts c) = u_transport c"
  unfolding process_state_extensions_def
  by (induction exts arbitrary: c) (auto simp: process_sack_blocks_valid split: utp_extension.split)

lemma handle_state_packet_safe:
  assumes "valid_conn c" and "wire_packet p"
  shows "safe c (handle_state_packet now p c)"
proof (cases "u_state c = SYN_RECEIVED \<and> pk_ack_nr p = 0")
  case False
  let ?c1 = "process_state_extensions (pk_extensions p) c"
  let ?c2 = "?c1\<lparr>u_send_window := scaled_window p ?c1\<rparr>"
  have 1: "valid_conn ?c1" "u_transport ?c1 = u_transport c"
    using process_state_extensions_valid [OF assms(1)] by auto
  then have 2: "valid_conn ?c2" using scaled_window_bounds [OF assms(2) 1(1)] by (simp add: valid_conn_def)
  let ?m = "if pk_ack_nr p = u_last_ack_nr ?c2
            then let c = ?c2\<lparr>u_duplicate_acks := u_duplicate_acks ?c2 + 1\<rparr>
                 in if u_duplicate_acks c \<ge> 3 then fast_retransmit now c else Inr c
            else Inr (?c2\<lparr>u_duplicate_acks := 0, u_last_ack_nr := pk_ack_nr p\<rparr>)"
  have "safe ?c2 (fast_retransmit now (?c2\<lparr>u_duplicate_acks := u_duplicate_acks ?c2 + 1\<rparr>))"
    using fast_retransmit_safe [of "?c2\<lparr>u_duplicate_acks := u_duplicate_acks ?c2 + 1\<rparr>" now] 2
    by (simp add: safe_def split: sum.splits)
  then have "safe ?c2 ?m" using 2 by (simp add: Let_def)
  then have "safe ?c2 (pbind ?m (\<lambda>c. Inr (c\<lparr>u_send_buffer :=
      filter (\<lambda>(seq, _). \<not> is_sequence_acked seq (pk_ack_nr p)) (u_send_buffer c)\<rparr>)))"
    by (rule safe_pbind) (auto intro!: valid_conn_send_buffer valid_send_buffer_filter dest: valid_conn_buffer)
  then show ?thesis using False 1
    by (auto simp: handle_state_packet_def Let_def safe_cong [of ?c2 c])
qed (use assms in \<open>simp add: handle_state_packet_def complete_handshake_valid\<close>)

lemma send_batched_acks_safe:
  assumes "valid_conn c"
  shows "safe c (send_batched_acks now c)"
proof (cases "u_pending_acks c = []")
  case False
  then have "valid_packet (last (u_pending_acks c))"
    using assms by (simp add: valid_conn_def list_all_iff)
  with assms False show ?thesis
    by (simp add: send_batched_acks_def) (intro safe_pbind send_packet_safe, auto)
qed (use assms in \<open>simp add: send_batched_acks_def\<close>)

text \<open>SACK blocks of valid sequence numbers never fail.\<close>

lemma close_block_ok:
  "0 \<le> s \<Longrightarrow> s \<le> 0xFFFF \<Longrightarrow> e = wrap_end (t + 1) \<Longrightarrow> s \<le> t \<Longrightarrow> t \<le> 0xFFFF \<Longrightarrow>
     close_block s e blocks =
       Inr (blocks @ (if t = 0xFFFF then if 0 < s \<and> s < 0xFFFF then [(s, 0xFFFF)] else [] else [(s, t + 1)]))"
  by (auto simp: close_block_def sack_block_def wrap_end_def)


text \<open>The sequence numbers a list of blocks announces.\<close>

definition covered :: "sack_block list \<Rightarrow> int set" where
  "covered blocks = (\<Union>(s, e)\<in>set blocks. {s..<e})"

lemma covered_simps [simp]:
  "covered [] = {}" "covered ((s, e) # blocks) = {s..<e} \<union> covered blocks"
  "covered (as @ bs) = covered as \<union> covered bs"
  by (auto simp: covered_def)

definition separated :: "sack_block list \<Rightarrow> bool" where
  "separated blocks \<longleftrightarrow> sorted_wrt (\<lambda>(_, e) (s, _). e < s) blocks \<and>
     (\<forall>(s, e)\<in>set blocks. 0 \<le> s \<and> s < e \<and> e \<le> 0xFFFF)"

lemma sack_loop_blocks:
  "sorted_wrt (<) (t # qs) \<Longrightarrow> 0 \<le> s \<Longrightarrow> s \<le> t \<Longrightarrow> \<forall>q\<in>set (t # qs). q \<le> 0xFFFF \<Longrightarrow>
     {s..t} \<union> set qs \<noteq> {0..0xFFFF} \<Longrightarrow>
     \<exists>bs. sack_loop qs s (wrap_end (t + 1)) blocks = Inr (blocks @ bs) \<and>
       covered bs = ({s..t} \<union> set qs) - {0xFFFF} \<and> separated bs \<and> (\<forall>(a, b)\<in>set bs. s \<le> a)"
proof (induction qs arbitrary: s t blocks)
  case Nil
  then show ?case
    by (auto simp: close_block_ok [of s _ t] separated_def)
next
  case (Cons q qs)
  then have t: "t < q" "q \<le> 0xFFFF" "wrap_end (t + 1) = t + 1" by (auto simp: wrap_end_def)
  show ?case
  proof (cases "q = t + 1")
    case True
    then have eq: "{s..t} \<union> set (q # qs) = {s..q} \<union> set qs" using Cons.prems by auto
    have "\<exists>bs. sack_loop qs s (wrap_end (q + 1)) blocks = Inr (blocks @ bs) \<and>
        covered bs = ({s..q} \<union> set qs) - {0xFFFF} \<and> separated bs \<and> (\<forall>(a, b)\<in>set bs. s \<le> a)"
      using Cons.prems t unfolding eq by (intro Cons.IH) auto
    then show ?thesis unfolding eq using True t Cons.prems by simp
  next
    case False
    have cb: "close_block s (wrap_end (t + 1)) blocks = Inr (blocks @ [(s, t + 1)])"
      using Cons.prems t by (subst close_block_ok [of s _ t]) auto
    obtain bs where bs: "sack_loop qs q (wrap_end (q + 1)) (blocks @ [(s, t + 1)]) = Inr ((blocks @ [(s, t + 1)]) @ bs)"
        "covered bs = ({q..q} \<union> set qs) - {0xFFFF}" "separated bs" "\<forall>(a, b)\<in>set bs. q \<le> a"
    proof -
      have "0 \<notin> {q..q} \<union> set qs" using Cons.prems by auto
      then have "{q..q} \<union> set qs \<noteq> {0..0xFFFF}" by (metis atLeastAtMost_iff order_refl zero_le_numeral)
      moreover have "sorted_wrt (<) (q # qs)" "0 \<le> q" "\<forall>x\<in>set (q # qs). x \<le> 0xFFFF" using Cons.prems by auto
      ultimately show ?thesis using Cons.IH [of q q "blocks @ [(s, t + 1)]"] that by blast
    qed
    have "covered ((s, t + 1) # bs) = ({s..t} \<union> set (q # qs)) - {0xFFFF}"
      using bs(2) t Cons.prems by auto
    moreover have "separated ((s, t + 1) # bs)"
      using bs(3,4) t False Cons.prems by (auto simp: separated_def)
    moreover have "\<forall>(a, b)\<in>set ((s, t + 1) # bs). s \<le> a" using bs(4) t Cons.prems by auto
    moreover have "sack_loop (q # qs) s (wrap_end (t + 1)) blocks = Inr (blocks @ (s, t + 1) # bs)"
      using bs(1) cb False t Cons.prems by simp
    ultimately show ?thesis by blast
  qed
qed

lemma sack_loop_total:
  "\<forall>q\<in>set (t # qs). 0 \<le> q \<and> q \<le> 0xFFFF \<Longrightarrow> sorted_wrt (<) (t # qs) \<Longrightarrow> 0 \<le> s \<Longrightarrow> s \<le> t \<Longrightarrow>
     \<forall>(a, b)\<in>set blocks. valid_ext (Sack [(a, b)]) \<Longrightarrow>
     \<exists>bs. sack_loop qs s (wrap_end (t + 1)) blocks = Inr bs \<and> (\<forall>(a, b)\<in>set bs. valid_ext (Sack [(a, b)]))"
proof (induction qs arbitrary: s t blocks)
  case Nil
  then show ?case by (auto simp: close_block_ok [of s _ t])
next
  case (Cons q qs)
  then have t: "t < q" "q \<le> 0xFFFF" "wrap_end (t + 1) = t + 1" by (auto simp: wrap_end_def)
  have cb: "close_block s (wrap_end (t + 1)) blocks = Inr (blocks @ [(s, t + 1)])"
    using Cons.prems t by (subst close_block_ok [of s _ t]) auto
  show ?case
  proof (cases "q = t + 1")
    case True
    have "\<exists>bs. sack_loop qs s (wrap_end (q + 1)) blocks = Inr bs \<and> (\<forall>(a, b)\<in>set bs. valid_ext (Sack [(a, b)]))"
      using Cons.prems t by (intro Cons.IH) auto
    then show ?thesis using True t Cons.prems by simp
  next
    case False
    have "\<exists>bs. sack_loop qs q (wrap_end (q + 1)) (blocks @ [(s, t + 1)]) = Inr bs \<and>
        (\<forall>(a, b)\<in>set bs. valid_ext (Sack [(a, b)]))"
      using Cons.prems t by (intro Cons.IH) auto
    then show ?thesis using False t cb Cons.prems by simp
  qed
qed

lemma generate_sack_blocks_ok:
  assumes "seqs \<subseteq> {0..0xFFFF}"
  shows "\<exists>bs. generate_sack_blocks seqs = Inr bs \<and> valid_ext (Sack bs)"
proof -
  have fin: "finite seqs" using assms by (rule finite_subset) simp
  show ?thesis
  proof (cases "sorted_list_of_set seqs")
    case Nil
    then show ?thesis by (simp add: generate_sack_blocks_def)
  next
    case (Cons s qs)
    have "sorted_wrt (<) (s # qs)" "set (s # qs) = seqs"
      using Cons fin strict_sorted_list_of_set [of seqs] set_sorted_list_of_set [of seqs] by simp_all
    with sack_loop_total [of s qs s "[]"] assms obtain bs where
      "sack_loop qs s (wrap_end (s + 1)) [] = Inr bs" "\<forall>(a, b)\<in>set bs. valid_ext (Sack [(a, b)])"
      by (auto simp: subset_iff)
    then show ?thesis
      using Cons by (auto simp: generate_sack_blocks_def dest!: in_set_takeD)
  qed
qed

text \<open>The reassembly keeps everything but the three fields of the receive buffer.\<close>

lemma process_out_of_order_valid:
  "distinct (map fst (u_recv_buffer c)) \<Longrightarrow> 0 \<le> u_expected_seq c \<Longrightarrow> u_expected_seq c \<le> 0xFFFF \<Longrightarrow>
   \<forall>(k, p)\<in>set (u_recv_buffer c). pk_seq_nr p = k \<and> 0 \<le> k \<and> k \<le> 0xFFFF \<Longrightarrow>
     \<exists>e buf d. process_out_of_order_packets c = c\<lparr>u_recv_buffer := buf, u_recv_data := d, u_expected_seq := e\<rparr> \<and>
       0 \<le> e \<and> e \<le> 0xFFFF \<and> valid_recv_buffer e buf"
proof (induction c rule: process_out_of_order_packets.induct)
  case (1 c)
  show ?case
  proof (cases "map_of (u_recv_buffer c) (u_expected_seq c)")
    case None
    then have "u_expected_seq c \<notin> fst ` set (u_recv_buffer c)" by (simp add: map_of_eq_None_iff)
    with 1 None have "valid_recv_buffer (u_expected_seq c) (u_recv_buffer c)" by (simp add: valid_recv_buffer_def)
    moreover have "process_out_of_order_packets c =
        c\<lparr>u_recv_buffer := u_recv_buffer c, u_recv_data := u_recv_data c, u_expected_seq := u_expected_seq c\<rparr>"
      using None by (simp add: process_out_of_order_packets.simps)
    ultimately show ?thesis using 1 by blast
  next
    case (Some p)
    let ?c = "c\<lparr>u_recv_buffer := AList.delete (u_expected_seq c) (u_recv_buffer c),
               u_recv_data := u_recv_data c @ pk_data p, u_expected_seq := (u_expected_seq c + 1) mod 0x10000\<rparr>"
    have "process_out_of_order_packets c = process_out_of_order_packets ?c"
      using Some by (simp add: process_out_of_order_packets.simps [of c])
    moreover have "(u_expected_seq c + 1) mod 0x10000 \<le> 0xFFFF"
      using pos_mod_bound [of "0x10000" "u_expected_seq c + 1"] by simp
    moreover have "\<forall>(k, p)\<in>set (u_recv_buffer ?c). pk_seq_nr p = k \<and> 0 \<le> k \<and> k \<le> 0xFFFF"
      using 1 set_alist_delete [of "u_expected_seq c" "u_recv_buffer c"] by auto
    moreover have "distinct (map fst (u_recv_buffer ?c))" using 1 by (simp add: distinct_delete)
    ultimately show ?thesis using 1(1) [OF Some] by fastforce
  qed
qed

lemma accept_data_valid:
  assumes "valid_conn c" and "wire_packet p"
  shows "valid_conn (accept_data p c) \<and> u_transport (accept_data p c) = u_transport c"
proof (cases "pk_seq_nr p = u_expected_seq c")
  case True
  let ?c = "c\<lparr>u_recv_data := u_recv_data c @ pk_data p, u_expected_seq := (u_expected_seq c + 1) mod 0x10000\<rparr>"
  have "(u_expected_seq c + 1) mod 0x10000 \<le> 0xFFFF"
    using pos_mod_bound [of "0x10000" "u_expected_seq c + 1"] by simp
  then obtain e buf d where
    "process_out_of_order_packets ?c = ?c\<lparr>u_recv_buffer := buf, u_recv_data := d, u_expected_seq := e\<rparr>"
    "0 \<le> e" "e \<le> 0xFFFF" "valid_recv_buffer e buf"
    using process_out_of_order_valid [of ?c] assms by (auto simp: valid_conn_def valid_recv_buffer_def)
  with True assms show ?thesis by (simp add: accept_data_def valid_conn_def)
next
  case False
  then show ?thesis
    using assms valid_recv_buffer_update [of "u_expected_seq c" "u_recv_buffer c" p]
    by (simp add: accept_data_def valid_conn_def wire_packet_def valid_packet_def)
qed

text \<open>The acknowledgement of a data packet.\<close>

lemma ack_extensions_ok:
  assumes "valid_conn c"
  shows "\<exists>exts c'. ack_extensions c = Inr (exts, c') \<and> (\<forall>e\<in>set exts. valid_ext e) \<and>
           (c' = c \<or> c' = c\<lparr>u_ecn_echo := False, u_ecn_cwr := False\<rparr>)"
proof -
  obtain bs where bs: "generate_sack_blocks (u_received_seqs c) = Inr bs" "valid_ext (Sack bs)"
    using generate_sack_blocks_ok [of "u_received_seqs c"] assms by (auto simp: valid_conn_def)
  let ?sack = "if EXT_SACK \<in> u_negotiated c \<and> u_received_seqs c \<noteq> {}
    then if bs \<noteq> [] then [sack_extension bs] else [] else []"
  have "\<forall>e\<in>set ?sack. valid_ext e" using bs(2) by (simp add: sack_extension_def)
  moreover have "ack_extensions c = Inr
      (if EXT_ECN \<in> u_negotiated c \<and> (u_ecn_echo c \<or> u_ecn_cwr c)
       then (?sack @ [Ecn (u_ecn_echo c) (u_ecn_cwr c)], c\<lparr>u_ecn_echo := False, u_ecn_cwr := False\<rparr>)
       else (?sack, c))"
    by (simp add: ack_extensions_def bs(1))
  ultimately show ?thesis by auto
qed

lemma should_send_immediate_ack_state:
  "snd (should_send_immediate_ack p c) = c \<or>
   snd (should_send_immediate_ack p c) = c\<lparr>u_ack_packet_count := u_ack_packet_count c + 1\<rparr>"
  by (simp add: should_send_immediate_ack_def Let_def)

definition ack_packet :: "int \<Rightarrow> utp_extension list \<Rightarrow> utp_conn \<Rightarrow> utp_packet" where
  "ack_packet now exts c = (utp_packet ST_STATE)\<lparr>pk_connection_id := u_connection_id c,
     pk_seq_nr := u_seq_nr c, pk_ack_nr := u_ack_nr c, pk_wnd_size := u_recv_window c,
     pk_timestamp := timestamp now c, pk_timestamp_diff := u_last_timestamp_diff c,
     pk_extensions := exts\<rparr>"

lemma ack_packet_valid:
  "valid_conn c \<Longrightarrow> \<forall>e\<in>set exts. valid_ext e \<Longrightarrow> valid_packet (ack_packet now exts c)"
  using timestamp_bounds [of now c]
  by (simp add: ack_packet_def valid_conn_def valid_packet_def utp_packet_def packet_types)

text \<open>\<open>send_ack\<close> in two steps: the decision, then the packet.\<close>

definition emit_ack :: "int \<Rightarrow> bool \<Rightarrow> utp_conn \<Rightarrow> utp_conn py" where
  "emit_ack now immediate c =
     pbind (ack_extensions c) (\<lambda>(exts, c).
       if immediate
       then pbind (send_packet now (ack_packet now exts c) c) (\<lambda>c.
            Inr (c\<lparr>u_pending_acks := [], u_ack_packet_count := 0\<rparr>))
       else Inr (queue_ack (ack_packet now exts c) c))"

lemma send_ack_data:
  "send_ack now (Some p) False c =
     emit_ack now (fst (should_send_immediate_ack p c)) (snd (should_send_immediate_ack p c))"
  unfolding send_ack_def emit_ack_def ack_packet_def case_prod_unfold Let_def by simp

lemma emit_ack_safe:
  assumes "valid_conn c"
  shows "safe c (emit_ack now immediate c)"
proof -
  obtain exts d where e: "ack_extensions c = Inr (exts, d)" "\<forall>e\<in>set exts. valid_ext e"
      and d: "d = c \<or> d = c\<lparr>u_ecn_echo := False, u_ecn_cwr := False\<rparr>"
    using ack_extensions_ok [OF assms] by blast
  then have v: "valid_conn d" "u_transport d = u_transport c" using assms by auto
  have ap: "valid_packet (ack_packet now exts d)" using v(1) e(2) by (rule ack_packet_valid)
  have "safe d (pbind (send_packet now (ack_packet now exts d) d)
      (\<lambda>c. Inr (c\<lparr>u_pending_acks := [], u_ack_packet_count := 0\<rparr>)))"
    using v ap by (intro safe_pbind send_packet_safe) auto
  moreover have "safe d (Inr (queue_ack (ack_packet now exts d) d))"
    using v ap by (simp add: queue_ack_def valid_conn_def)
  ultimately show ?thesis using e(1) v(2) by (simp add: emit_ack_def safe_cong [of d c])
qed

lemma send_ack_safe:
  assumes "valid_conn c"
  shows "safe c (send_ack now (Some p) False c)"
proof -
  let ?d = "snd (should_send_immediate_ack p c)"
  have "valid_conn ?d" "u_transport ?d = u_transport c"
    using should_send_immediate_ack_state [of p c] assms by auto
  then show ?thesis using emit_ack_safe [of ?d now] by (simp add: send_ack_data safe_cong [of ?d c])
qed

lemma handle_data_packet_safe:
  assumes "valid_conn c" and "wire_packet p"
  shows "safe c (handle_data_packet now p c)"
proof -
  have seq: "0 \<le> pk_seq_nr p" "pk_seq_nr p \<le> 0xFFFF" using assms by (auto simp: wire_packet_def valid_packet_def)
  let ?c1 = "update_ack_nr p c"
  let ?c2 = "if EXT_SACK \<in> u_negotiated ?c1
             then ?c1\<lparr>u_received_seqs := insert (pk_seq_nr p) (u_received_seqs ?c1)\<rparr> else ?c1"
  let ?c3 = "accept_data p ?c2"
  have "valid_conn ?c1 \<and> u_transport ?c1 = u_transport c" using assms seq
    by (simp add: update_ack_nr_def valid_conn_def)
  then have "valid_conn ?c2 \<and> u_transport ?c2 = u_transport c" using seq by (auto simp: valid_conn_def)
  then have 3: "valid_conn ?c3" "u_transport ?c3 = u_transport c" using accept_data_valid [OF _ assms(2)] by auto
  have "safe ?c3 (pbind (send_ack now (Some p) False ?c3)
      (\<lambda>c. Inr (if length (u_recv_data c) > 0 then c\<lparr>u_data_available := True\<rparr> else c)))"
    using 3 by (intro safe_pbind send_ack_safe) auto
  then show ?thesis unfolding handle_data_packet_def Let_def using 3(2) by (simp add: safe_cong [of ?c3 c])
qed


text \<open>What the parser returns is a packet with fields in range.\<close>

lemma sack_block_InrD: "sack_block s e = Inr b \<Longrightarrow> b = (s, e) \<and> 0 \<le> s \<and> s < e \<and> e \<le> 0xFFFF"
  by (auto simp: sack_block_def split: if_splits)

lemma py_seq_all:
  "py_seq (map f xs) = Inr ys \<Longrightarrow> y \<in> set ys \<Longrightarrow> \<exists>x\<in>set xs. f x = Inr y"
  by (induction xs arbitrary: ys) (auto simp: pbind_eq_Inr)

lemma sack_unpack_valid: "sack_unpack data = Inr e \<Longrightarrow> valid_ext e"
proof -
  assume u: "sack_unpack data = Inr e"
  show "valid_ext e"
  proof (cases "unat (data ! 0) = 0")
    case True
    then show ?thesis using u by (auto simp: sack_unpack_def sack_extension_def split: if_splits)
  next
    case False
    then obtain blocks where bl: "py_seq (map (\<lambda>k. let f = unpacks [2, 2] (take 4 (drop (1 + 4 * k) data))
          in sack_block (f ! 0) (f ! 1)) [0..<unat (data ! 0)]) = Inr blocks"
        and e: "e = Sack (take 4 blocks)"
      using u unfolding sack_unpack_def Let_def by (auto simp: sack_extension_def pbind_eq_Inr split: if_splits)
    have "0 \<le> s \<and> s < t \<and> t \<le> 0xFFFF" if "(s, t) \<in> set blocks" for s t
      using py_seq_all [OF bl that] unfolding Let_def by (auto dest: sack_block_InrD)
    then show ?thesis by (auto simp: e dest: in_set_takeD)
  qed
qed

lemma unpack_extension_valid: "unpack_extension t data = Some e \<Longrightarrow> valid_ext e"
  by (auto simp: unpack_extension_def window_scaling_unpack_def window_scaling_extension_def
      ecn_unpack_def Let_def split: if_splits sum.splits intro: sack_unpack_valid)

lemma parse_extensions_valid: "\<forall>e\<in>set (fst (parse_extensions data offset)). valid_ext e"
proof (induction offset rule: parse_extensions_induct [of data])
  case (stop offset)
  then show ?case by (simp add: parse_extensions_stop)
next
  case (go offset)
  then show ?case
    by (auto simp: parse_extensions_go Let_def dest: unpack_extension_valid split: option.splits)
qed

lemma unpack_field:
  "n \<le> length data \<Longrightarrow> 0 \<le> unpack_be (take n data) \<and> unpack_be (take n data) < 256 ^ n"
  using unpack_be_bound [of "take n data"] by simp

lemma packet_unpack_wire:
  assumes "packet_unpack data = Inr p"
  shows "wire_packet p"
proof -
  have len: "22 \<le> length data" using assms by (auto simp: packet_unpack_def HEADER_SIZE_def split: if_splits)
  define h where "h = take 22 data"
  have h: "length h = 22" using len by (simp add: h_def)
  have f: "0 \<le> unpack_be (take n (drop k h)) \<and> unpack_be (take n (drop k h)) < 256 ^ n" if "k + n \<le> 22" for k n
    using unpack_field [of n "drop k h"] h that by simp
  have exts: "\<forall>e\<in>set (fst (if b then parse_extensions data HEADER_SIZE else ([], HEADER_SIZE))). valid_ext e" for b
    using parse_extensions_valid by simp
  from assms len have p: "p = (let f = unpacks [1, 1, 1, 1, 2, 2, 2, 4, 4, 4] h;
      r = (if f ! 2 \<noteq> 0 then parse_extensions data HEADER_SIZE else ([], HEADER_SIZE))
    in \<lparr>pk_type = f ! 0, pk_ver = f ! 1, pk_extension = f ! 2, pk_connection_id = f ! 4,
                pk_seq_nr = f ! 5, pk_ack_nr = f ! 6, pk_wnd_size = f ! 7, pk_timestamp = f ! 8,
                pk_timestamp_diff = f ! 9, pk_data = drop (snd r) data,
                pk_extensions = fst r\<rparr>)"
    by (simp add: packet_unpack_def HEADER_SIZE_def h_def Let_def case_prod_unfold)
  show ?thesis
    unfolding p Let_def wire_packet_def valid_packet_def
    using f [of 1 1] f [of 4 2] f [of 6 2] f [of 8 2] f [of 10 4] f [of 14 4] f [of 18 4] exts
    by (simp add: drop_drop add.commute eval_nat_numeral)
qed

text \<open>Closing.\<close>

lemma fin_packet_valid: "valid_conn c \<Longrightarrow> valid_packet (fin_packet c)"
  by (simp add: fin_packet_def valid_conn_def valid_packet_def utp_packet_def packet_types)

lemma handle_fin_packet_safe:
  assumes "valid_conn c"
  shows "safe c (handle_fin_packet now c)"
proof (cases "u_state c = CONNECTED")
  case True
  let ?c = "c\<lparr>u_state := FIN_RECEIVED\<rparr>"
  have "safe ?c (pbind (send_packet now (fin_packet ?c) ?c) (\<lambda>c. Inr (c\<lparr>u_closing := u_closing c + 1\<rparr>)))"
    using assms fin_packet_valid [of ?c] by (intro safe_pbind send_packet_safe) auto
  then show ?thesis using True by (simp add: handle_fin_packet_def Let_def safe_cong [of ?c c])
qed (use assms in \<open>simp add: handle_fin_packet_def\<close>)

lemma stop_ack_timer_safe: "valid_conn c \<Longrightarrow> safe c (stop_ack_timer now c)"
  by (auto simp: stop_ack_timer_def intro!: safe_pbind send_batched_acks_safe)

lemma utp_close_safe:
  assumes "valid_conn c"
  shows "safe c (utp_close now c)"
proof -
  have fin: "safe c (pbind (send_packet now (fin_packet c) c) (\<lambda>c. Inr (c\<lparr>u_state := FIN_SENT\<rparr>)))"
    using assms fin_packet_valid [OF assms] by (intro safe_pbind send_packet_safe) auto
  show ?thesis
    unfolding utp_close_def
    using assms fin by (auto intro!: safe_pbind stop_ack_timer_safe send_batched_acks_safe)
qed

text \<open>Incoming packets.\<close>

lemma handle_ecn_congestion_valid:
  "valid_conn c \<Longrightarrow> valid_conn (handle_ecn_congestion c) \<and> u_transport (handle_ecn_congestion c) = u_transport c"
  by (auto simp: handle_ecn_congestion_def valid_conn_def Let_def)

lemma update_rtt_valid:
  "valid_conn c \<Longrightarrow> wire_packet p \<Longrightarrow> valid_conn (update_rtt p c) \<and> u_transport (update_rtt p c) = u_transport c"
  by (simp add: update_rtt_def valid_conn_def wire_packet_def valid_packet_def)

lemma route_packet_safe:
  "valid_conn c \<Longrightarrow> wire_packet p \<Longrightarrow> safe c (route_packet cfg now p c)"
  by (simp add: route_packet_def handle_syn_ack_safe handle_syn_safe handle_state_packet_safe
      handle_data_packet_safe handle_fin_packet_safe) (simp add: handle_reset_packet_def)

lemma packet_unpack_Inl: "packet_unpack data = Inl e \<Longrightarrow> e = ValueError"
  by (auto simp: packet_unpack_def Let_def split: if_splits prod.splits)

lemma handle_packet_safe:
  assumes "valid_conn c"
  shows "safe c (handle_packet cfg now data ecn c)"
proof (cases "packet_unpack data")
  case (Inl e)
  then show ?thesis using packet_unpack_Inl [OF Inl] assms by (simp add: handle_packet_def)
next
  case (Inr p)
  let ?c1 = "c\<lparr>u_packets_received := u_packets_received c + 1,
      u_bytes_received := u_bytes_received c + length data\<rparr>"
  let ?c2 = "if ecn then handle_ecn_congestion (?c1\<lparr>u_ecn_ce_received := True, u_ecn_echo := True\<rparr>) else ?c1"
  let ?c3 = "if pk_type p = ST_STATE \<and> pk_ack_nr p > 0 \<and> pk_ack_nr p \<in> set (map fst (u_send_buffer ?c2))
      then update_rtt p ?c2 else ?c2"
  have w: "wire_packet p" using Inr by (rule packet_unpack_wire)
  have "valid_conn ?c2 \<and> u_transport ?c2 = u_transport c"
    using assms handle_ecn_congestion_valid [of "?c1\<lparr>u_ecn_ce_received := True, u_ecn_echo := True\<rparr>"] by simp
  then have "valid_conn ?c3" "u_transport ?c3 = u_transport c" using update_rtt_valid [OF _ w, of ?c2] by auto
  then show ?thesis
    unfolding handle_packet_def Inr sum.case Let_def
    using route_packet_safe [OF _ w] safe_cong [of ?c3 c] by metis
qed


section \<open>Reachable connections\<close>

text \<open>The events whose handler can refuse: \<open>send\<close> on a connection that is not established.\<close>

definition refused :: "utp_event \<Rightarrow> utp_conn \<Rightarrow> bool" where
  "refused ev c \<longleftrightarrow> (\<exists>now data. ev = Send now data) \<and> u_state c \<noteq> CONNECTED"

lemma utp_handle_safe:
  assumes "valid_conn c" and "\<And>i. ev = InitTransport i \<Longrightarrow> 0 \<le> i \<and> i \<le> 0xFFFF"
  shows "(case utp_handle cfg ev c of
            Inl e \<Rightarrow> e = RuntimeError \<and> (\<not> u_transport c \<or> refused ev c)
          | Inr c' \<Rightarrow> valid_conn c')"
proof -
  have safe: ?thesis if "safe c (utp_handle cfg ev c)"
    using that by (auto simp: safe_def split: sum.splits)
  show ?thesis
  proof (cases "safe c (utp_handle cfg ev c)")
    case False
    show ?thesis
    proof (cases ev)
      case SetTransport
      then show ?thesis using assms by (simp add: set_transport_def)
    next
      case (InitTransport i)
      then show ?thesis using assms by (simp add: initialize_transport_def valid_conn_def Let_def)
    next
      case (Send now data)
      show ?thesis
      proof (cases "u_state c = CONNECTED")
        case True
        then show ?thesis using Send assms by (intro safe) (simp add: utp_send_def Let_def send_chunks_safe)
      qed (simp add: Send utp_send_def refused_def)
    next
      case (Receive n)
      then show ?thesis using assms
        by (simp add: utp_receive_def receive_all_def receive_all_woken_def receive_n_def Let_def)
    next
      case (ReceiveWoken n)
      then show ?thesis using assms
        by (simp add: receive_woken_def receive_all_woken_def receive_n_def Let_def)
    qed (use assms False in \<open>simp_all add: utp_connect_safe connection_timeout_def handle_packet_safe
      send_chunks_safe send_batched_acks_safe check_retransmissions_safe selective_retransmit_safe
      utp_close_safe split: if_splits\<close>)
  qed (rule safe)
qed

inductive_cases utp_reachableE: "utp_reachable cfg c"

lemma utp_init_valid:
  "(case i of None \<Rightarrow> True | Some i \<Rightarrow> 0 \<le> i \<and> i \<le> 0xFFFF) \<Longrightarrow> 0 \<le> w \<Longrightarrow> w \<le> 0xFFFFFFFF \<Longrightarrow>
     valid_conn (utp_init i w now)"
  by (simp add: valid_conn_def utp_init_def valid_send_buffer_def valid_recv_buffer_def split: option.splits)

lemma utp_reachable_valid: "utp_reachable cfg c \<Longrightarrow> valid_conn c"
proof (induction rule: utp_reachable.induct)
  case (init connection_id recv_window_size now)
  then show ?case by (rule utp_init_valid)
next
  case (step c ev c')
  then show ?case using utp_handle_safe [of c ev cfg] by auto
qed


definition utp_default_config :: utp_config where
  "utp_default_config = \<lparr>uc_mtu = 1200, uc_max_window_size = 65535, uc_max_retransmits = 10\<rparr>"


section \<open>Acknowledged sequence numbers\<close>

text \<open>
  The test for acknowledged packets, written to handle the wrap-around of the 16-bit sequence
  numbers, is the plain comparison: packet 65535 is not acknowledged by 3, although 3 comes after
  it in the sequence, and packet 2 is acknowledged by 65535.
\<close>

theorem is_sequence_acked_plain:
  assumes "0 \<le> ack_nr" and "ack_nr \<le> 0xFFFF"
  shows "is_sequence_acked seq ack_nr \<longleftrightarrow> seq \<le> ack_nr"
proof (cases "ack_nr < 0x8000")
  case False
  then have "(ack_nr + 0x8000) mod 0x10000 = ack_nr - 0x8000"
    using assms by (intro int_mod_pos_eq [where q = 1]) simp_all
  then show ?thesis by (auto simp: is_sequence_acked_def)
qed (simp add: is_sequence_acked_def)

theorem is_sequence_acked_plain_witness:
  "\<not> is_sequence_acked 0xFFFF 3 \<and> is_sequence_acked 2 0xFFFF"
  using is_sequence_acked_plain [of 3 "0xFFFF"] is_sequence_acked_plain [of "0xFFFF" 2] by simp

section \<open>SACK blocks\<close>

lemma separated_take: "separated bs \<Longrightarrow> separated (take n bs)"
  by (auto simp: separated_def sorted_wrt_take dest: in_set_takeD)

lemma covered_take: "covered (take n bs) \<subseteq> covered bs"
  by (auto simp: covered_def dest: in_set_takeD)

text \<open>
  The SACK blocks of a set of received sequence numbers are at most four, ordered and not
  adjacent, and announce received numbers only; when there are fewer than four they announce all
  of them except 65535.
\<close>

theorem generate_sack_blocks_exact:
  assumes "seqs \<subseteq> {0..0xFFFF}" and "seqs \<noteq> {0..0xFFFF}"
  shows "\<exists>blocks. generate_sack_blocks seqs = Inr blocks \<and> length blocks \<le> 4 \<and> separated blocks \<and>
           covered blocks \<subseteq> seqs \<and> (length blocks < 4 \<longrightarrow> covered blocks = seqs - {0xFFFF})"
proof -
  have fin: "finite seqs" using assms(1) by (rule finite_subset) simp
  show ?thesis
  proof (cases "sorted_list_of_set seqs")
    case Nil
    then have "seqs = {}" using fin by simp
    then show ?thesis by (simp add: generate_sack_blocks_def separated_def)
  next
    case (Cons s qs)
    have sorted: "sorted_wrt (<) (s # qs)" and set: "set (s # qs) = seqs"
      using Cons fin strict_sorted_list_of_set [of seqs] set_sorted_list_of_set [of seqs] by simp_all
    then have "{s..s} \<union> set qs = seqs" by auto
    with sack_loop_blocks [OF sorted, of s "[]"] set assms obtain bs where
      bs: "sack_loop qs s (wrap_end (s + 1)) [] = Inr bs" "covered bs = seqs - {0xFFFF}" "separated bs"
      by (auto simp: subset_iff)
    have "length (take 4 bs) < 4 \<Longrightarrow> take 4 bs = bs" by simp
    moreover have "generate_sack_blocks seqs = Inr (take 4 bs)" using Cons bs(1) by (simp add: generate_sack_blocks_def)
    moreover have "covered (take 4 bs) \<subseteq> seqs" using covered_take [of 4 bs] bs(2) by blast
    ultimately show ?thesis using bs separated_take by (metis length_take min.cobounded2)
  qed
qed

theorem generate_sack_blocks_exact_witness:
  "\<exists>blocks. generate_sack_blocks {2, 3, 7, 0xFFFF} = Inr blocks \<and> covered blocks \<subseteq> {2, 3, 7, 0xFFFF} \<and>
     separated blocks"
proof -
  have "(0 :: int) \<in> {0..0xFFFF}" "(0 :: int) \<notin> {2, 3, 7, 0xFFFF}" by simp_all
  then have "{2, 3, 7, 0xFFFF} \<noteq> {0..0xFFFF :: int}" by metis
  from generate_sack_blocks_exact [OF _ this] show ?thesis by auto
qed

section \<open>Sending and receiving\<close>

text \<open>
  When the window or the limit of packets in flight is exhausted, \<open>send\<close> loses data: a message
  that fits one packet is neither sent nor kept, nothing changes, and the call ends normally.
\<close>

theorem send_drops_chunk:
  assumes "u_state c = CONNECTED" and "\<not> can_send c"
    and "data \<noteq> []" and "int (length data) \<le> uc_mtu cfg - int HEADER_SIZE"
  shows "utp_send cfg now data c = Inr ([], c)"
proof -
  have pos: "0 < nat (uc_mtu cfg - int HEADER_SIZE)" using assms(3,4) by (cases data) auto
  moreover have "length data \<le> nat (uc_mtu cfg - int HEADER_SIZE)" using assms(4) by linarith
  ultimately have "chunks (nat (uc_mtu cfg - int HEADER_SIZE)) data = [data]"
    using assms(3) by (simp add: chunks_rec)
  with assms show ?thesis by (simp add: utp_send_def Let_def)
qed

theorem send_drops_chunk_witness:
  "utp_send utp_default_config 9 [1, 2, 3] ((utp_init (Some 7) 65535 0)\<lparr>u_state := CONNECTED\<rparr>) =
     Inr ([], (utp_init (Some 7) 65535 0)\<lparr>u_state := CONNECTED\<rparr>)"
  using send_drops_chunk [of "(utp_init (Some 7) 65535 0)\<lparr>u_state := CONNECTED\<rparr>" "[1, 2, 3]" utp_default_config 9]
  by (simp add: can_send_def utp_init_def utp_default_config_def HEADER_SIZE_def)

text \<open>
  The window of a receiver: what it has reassembled of a stream of pieces that starts at sequence
  number \<open>e0\<close>, when the pieces with the indices \<open>I\<close> have arrived and the first \<open>k\<close> are delivered.
\<close>

definition seq_of :: "int \<Rightarrow> nat \<Rightarrow> int" where
  "seq_of e0 i = (e0 + int i) mod 0x10000"

definition progress :: "int \<Rightarrow> bytes list \<Rightarrow> bytes \<Rightarrow> nat set \<Rightarrow> nat \<Rightarrow> utp_conn \<Rightarrow> bool" where
  "progress e0 ds d0 I k c \<longleftrightarrow>
     k \<le> length ds \<and> {..<k} \<subseteq> I \<and> u_expected_seq c = seq_of e0 k \<and>
     u_recv_data c = d0 @ concat (take k ds) \<and>
     fst ` set (u_recv_buffer c) \<subseteq> seq_of e0 ` {..<length ds} \<and>
     (\<forall>i. k \<le> i \<and> i < length ds \<longrightarrow>
        (case map_of (u_recv_buffer c) (seq_of e0 i) of None \<Rightarrow> i \<notin> I | Some p \<Rightarrow> i \<in> I \<and> pk_data p = ds ! i))"

lemma seq_of_inject:
  assumes "i \<le> 65535" and "j \<le> 65535"
  shows "seq_of e0 i = seq_of e0 j \<longleftrightarrow> i = j"
proof
  assume "seq_of e0 i = seq_of e0 j"
  then have "int i mod 0x10000 = int j mod 0x10000"
    unfolding seq_of_def by (metis add_diff_cancel_left' mod_diff_left_eq)
  then show "i = j" using assms by simp
qed simp

lemma seq_of_Suc: "(seq_of e0 k + 1) mod 0x10000 = seq_of e0 (Suc k)"
  unfolding seq_of_def mod_add_left_eq by (simp add: ac_simps)

lemma progressD:
  "progress e0 ds d0 I k c \<Longrightarrow> k \<le> i \<Longrightarrow> i < length ds \<Longrightarrow>
     (case map_of (u_recv_buffer c) (seq_of e0 i) of None \<Rightarrow> i \<notin> I | Some p \<Rightarrow> i \<in> I \<and> pk_data p = ds ! i)"
  by (simp add: progress_def)

lemma progress_Suc:
  assumes "progress e0 ds d0 I k c" and "k < length ds" and "length ds \<le> 65535"
    and "k \<in> I'" and "I' = insert k I" and "d = ds ! k"
    and "buf = u_recv_buffer c \<or> buf = AList.delete (u_expected_seq c) (u_recv_buffer c)"
  shows "progress e0 ds d0 I' (Suc k)
     (c\<lparr>u_recv_buffer := buf, u_recv_data := u_recv_data c @ d,
        u_expected_seq := (u_expected_seq c + 1) mod 0x10000\<rparr>)"
proof -
  have e: "u_expected_seq c = seq_of e0 k" using assms(1) by (simp add: progress_def)
  have "\<forall>i. Suc k \<le> i \<and> i < length ds \<longrightarrow>
      (case map_of buf (seq_of e0 i) of None \<Rightarrow> i \<notin> I' | Some p \<Rightarrow> i \<in> I' \<and> pk_data p = ds ! i)"
  proof (intro allI impI)
    fix i assume i: "Suc k \<le> i \<and> i < length ds"
    then have "map_of buf (seq_of e0 i) = map_of (u_recv_buffer c) (seq_of e0 i)"
      using assms(2,3,7) e seq_of_inject [of i k e0] by (auto simp: AList.delete_conv')
    then show "case map_of buf (seq_of e0 i) of None \<Rightarrow> i \<notin> I' | Some p \<Rightarrow> i \<in> I' \<and> pk_data p = ds ! i"
      using progressD [OF assms(1), of i] assms(5) i by (auto split: option.splits)
  qed
  moreover have "set buf \<subseteq> set (u_recv_buffer c)" using assms(7) set_alist_delete by fastforce
  then have "fst ` set buf \<subseteq> seq_of e0 ` {..<length ds}" using assms(1) unfolding progress_def by blast
  moreover have "{..<Suc k} \<subseteq> I'" using assms(1,5) by (auto simp: progress_def lessThan_Suc)
  ultimately show ?thesis
    using assms(1,2,6) e by (simp add: progress_def seq_of_Suc take_Suc_conv_app_nth)
qed

lemma process_out_of_order_progress:
  "progress e0 ds d0 I k c \<Longrightarrow> I \<subseteq> {..<length ds} \<Longrightarrow> length ds \<le> 65535 \<Longrightarrow>
     \<exists>k'. k' \<notin> I \<and> progress e0 ds d0 I k' (process_out_of_order_packets c)"
proof (induction c arbitrary: k rule: process_out_of_order_packets.induct)
  case (1 c)
  have e: "u_expected_seq c = seq_of e0 k" "k \<le> length ds" using 1(2) by (simp_all add: progress_def)
  show ?case
  proof (cases "map_of (u_recv_buffer c) (u_expected_seq c)")
    case None
    have "k \<notin> I" using progressD [OF 1(2), of k] 1(3) None e by auto
    then show ?thesis using 1(2) None by (auto simp: process_out_of_order_packets.simps [of c])
  next
    case (Some p)
    have "k < length ds"
    proof (rule ccontr)
      assume "\<not> k < length ds"
      then have "k = length ds" using e by simp
      moreover have "u_expected_seq c \<in> fst ` set (u_recv_buffer c)" using Some by (force dest: map_of_SomeD)
      then obtain i where "i < length ds" "u_expected_seq c = seq_of e0 i"
        using 1(2) unfolding progress_def by blast
      ultimately show False using 1(4) e seq_of_inject [of "length ds" i e0] by simp
    qed
    moreover from this have p: "k \<in> I" "pk_data p = ds ! k" using progressD [OF 1(2), of k] Some e by auto
    ultimately have "progress e0 ds d0 I (Suc k)
       (c\<lparr>u_recv_buffer := AList.delete (u_expected_seq c) (u_recv_buffer c),
          u_recv_data := u_recv_data c @ pk_data p, u_expected_seq := (u_expected_seq c + 1) mod 0x10000\<rparr>)"
      using 1(2,4) by (intro progress_Suc) auto
    with 1(1) [OF Some] 1(3,4) Some show ?thesis by (simp add: process_out_of_order_packets.simps [of c])
  qed
qed

lemma accept_data_progress:
  assumes "progress e0 ds d0 I k c" and "k \<notin> I" and "I \<subseteq> {..<length ds}" and "length ds \<le> 65535"
    and "j < length ds" and "pk_seq_nr p = seq_of e0 j" and "pk_data p = ds ! j"
  shows "\<exists>k'. k' \<notin> insert j I \<and> progress e0 ds d0 (insert j I) k' (accept_data p c)"
proof (cases "j = k")
  case True
  let ?c = "c\<lparr>u_recv_data := u_recv_data c @ pk_data p, u_expected_seq := (u_expected_seq c + 1) mod 0x10000\<rparr>"
  have "progress e0 ds d0 (insert j I) (Suc k)
      (c\<lparr>u_recv_buffer := u_recv_buffer c, u_recv_data := u_recv_data c @ pk_data p,
        u_expected_seq := (u_expected_seq c + 1) mod 0x10000\<rparr>)"
    using assms True by (intro progress_Suc [of e0 ds d0 I]) auto
  then have "progress e0 ds d0 (insert j I) (Suc k) ?c" by (simp add: progress_def)
  from process_out_of_order_progress [OF this] assms True show ?thesis
    by (simp add: accept_data_def progress_def [of _ _ _ I])
next
  case False
  have k: "k \<le> length ds" using assms(1) by (simp add: progress_def)
  then have ne: "pk_seq_nr p \<noteq> u_expected_seq c"
    using assms False by (simp add: progress_def seq_of_inject)
  have "progress e0 ds d0 (insert j I) k (c\<lparr>u_recv_buffer := AList.update (pk_seq_nr p) p (u_recv_buffer c)\<rparr>)"
    using assms k by (auto simp: progress_def AList.update_conv' seq_of_inject dom_update split: option.splits)
  then show ?thesis using ne False assms(2) by (auto simp: accept_data_def)
qed


text \<open>Data packets handled one after the other.\<close>

fun receive_packets :: "int \<Rightarrow> utp_packet list \<Rightarrow> utp_conn \<Rightarrow> utp_conn py" where
  "receive_packets now [] c = Inr c"
| "receive_packets now (p # ps) c = pbind (handle_data_packet now p c) (receive_packets now ps)"

lemma progress_irrelevant:
  "u_expected_seq c' = u_expected_seq c \<Longrightarrow> u_recv_buffer c' = u_recv_buffer c \<Longrightarrow>
     u_recv_data c' = u_recv_data c \<Longrightarrow> progress e0 ds d0 I k c' = progress e0 ds d0 I k c"
  by (simp add: progress_def)

lemma emit_ack_recv:
  assumes "emit_ack now imm c = Inr c'" and "valid_conn c"
  shows "u_expected_seq c' = u_expected_seq c \<and> u_recv_buffer c' = u_recv_buffer c \<and>
    u_recv_data c' = u_recv_data c \<and> u_state c' = u_state c \<and> u_send_buffer c' = u_send_buffer c"
proof -
  obtain exts d where "ack_extensions c = Inr (exts, d)"
      "d = c \<or> d = c\<lparr>u_ecn_echo := False, u_ecn_cwr := False\<rparr>"
    using ack_extensions_ok [OF assms(2)] by blast
  with assms(1) show ?thesis
    by (auto simp: emit_ack_def queue_ack_def pbind_eq_Inr split: if_splits dest!: send_packet_InrD)
qed

text \<open>The state a data packet leaves before the acknowledgement.\<close>

definition with_data :: "utp_packet \<Rightarrow> utp_conn \<Rightarrow> utp_conn" where
  "with_data p c =
     (let c = update_ack_nr p c
      in accept_data p (if EXT_SACK \<in> u_negotiated c
                        then c\<lparr>u_received_seqs := insert (pk_seq_nr p) (u_received_seqs c)\<rparr> else c))"

lemma with_data_valid:
  assumes "valid_conn c" and "wire_packet p"
  shows "valid_conn (with_data p c) \<and> u_transport (with_data p c) = u_transport c"
proof -
  let ?c1 = "update_ack_nr p c"
  have "valid_conn ?c1 \<and> u_transport ?c1 = u_transport c" using assms
    by (simp add: update_ack_nr_def valid_conn_def wire_packet_def valid_packet_def)
  then show ?thesis
    using assms(2) accept_data_valid [of ?c1 p]
      accept_data_valid [of "?c1\<lparr>u_received_seqs := insert (pk_seq_nr p) (u_received_seqs ?c1)\<rparr>" p]
    by (auto simp: with_data_def Let_def valid_conn_def wire_packet_def valid_packet_def)
qed

lemma process_out_of_order_keeps [simp]:
  "u_sent (process_out_of_order_packets c) = u_sent c"
  "u_ack_nr (process_out_of_order_packets c) = u_ack_nr c"
  "u_state (process_out_of_order_packets c) = u_state c"
  "u_send_buffer (process_out_of_order_packets c) = u_send_buffer c"
  by (induction c rule: process_out_of_order_packets.induct;
      subst process_out_of_order_packets.simps, simp split: option.split)+

lemma with_data_keeps [simp]:
  "u_sent (with_data p c) = u_sent c" "u_ack_nr (with_data p c) = u_ack_nr (update_ack_nr p c)"
  "u_state (with_data p c) = u_state c" "u_send_buffer (with_data p c) = u_send_buffer c"
  by (simp_all add: with_data_def accept_data_def Let_def) (simp_all add: update_ack_nr_def)

lemma handle_data_packet_step:
  assumes "valid_conn c" and "wire_packet p" and "u_transport c"
  obtains c' where "handle_data_packet now p c = Inr c'" and "valid_conn c'" and "u_transport c'"
    and "u_expected_seq c' = u_expected_seq (with_data p c)"
    and "u_recv_buffer c' = u_recv_buffer (with_data p c)" and "u_recv_data c' = u_recv_data (with_data p c)"
    and "u_state c' = u_state c" and "u_send_buffer c' = u_send_buffer c"
proof -
  let ?d = "with_data p c"
  let ?e = "snd (should_send_immediate_ack p ?d)"
  obtain c' where c': "handle_data_packet now p c = Inr c'" "valid_conn c'" "u_transport c'"
    using handle_data_packet_safe [OF assms(1,2), of now] assms(3) by (auto simp: safe_def split: sum.splits)
  then obtain x where x: "emit_ack now (fst (should_send_immediate_ack p ?d)) ?e = Inr x"
      and cx: "c' = (if length (u_recv_data x) > 0 then x\<lparr>u_data_available := True\<rparr> else x)"
    unfolding handle_data_packet_def send_ack_data Let_def
    by (elim pbindE) (simp add: with_data_def Let_def)
  have "?e = ?d \<or> ?e = ?d\<lparr>u_ack_packet_count := u_ack_packet_count ?d + 1\<rparr>"
    by (rule should_send_immediate_ack_state)
  then have "valid_conn ?e" "u_expected_seq ?e = u_expected_seq ?d" "u_recv_buffer ?e = u_recv_buffer ?d"
      "u_recv_data ?e = u_recv_data ?d" "u_state ?e = u_state c" "u_send_buffer ?e = u_send_buffer c"
    using with_data_valid [OF assms(1,2)] by auto
  with emit_ack_recv [OF x] c' cx that show ?thesis by auto
qed

lemma with_data_progress:
  assumes "progress e0 ds d0 I k c" and "k \<notin> I" and "I \<subseteq> {..<length ds}" and "length ds \<le> 65535"
    and "j < length ds" and "pk_seq_nr p = seq_of e0 j" and "pk_data p = ds ! j"
  shows "\<exists>k'. k' \<notin> insert j I \<and> progress e0 ds d0 (insert j I) k' (with_data p c)"
  unfolding with_data_def Let_def
  by (rule accept_data_progress [OF _ assms(2-7)])
     (subst progress_irrelevant [of _ c], auto simp: update_ack_nr_def assms(1))

lemma receive_packets_progress:
  "progress e0 ds d0 I k c \<Longrightarrow> k \<notin> I \<Longrightarrow> I \<subseteq> {..<length ds} \<Longrightarrow> length ds \<le> 65535 \<Longrightarrow>
   valid_conn c \<Longrightarrow> u_transport c \<Longrightarrow>
   \<forall>p\<in>set ps. wire_packet p \<and> (\<exists>i<length ds. pk_seq_nr p = seq_of e0 i \<and> pk_data p = ds ! i) \<Longrightarrow>
     \<exists>c' k'. receive_packets now ps c = Inr c' \<and>
       k' \<notin> I \<union> {i. i < length ds \<and> seq_of e0 i \<in> pk_seq_nr ` set ps} \<and>
       progress e0 ds d0 (I \<union> {i. i < length ds \<and> seq_of e0 i \<in> pk_seq_nr ` set ps}) k' c'"
proof (induction ps arbitrary: I k c)
  case Nil
  then show ?case by auto
next
  case (Cons p ps)
  then obtain j where j: "j < length ds" "pk_seq_nr p = seq_of e0 j" "pk_data p = ds ! j" and w: "wire_packet p"
    by auto
  obtain c1 where c1: "handle_data_packet now p c = Inr c1" "valid_conn c1" "u_transport c1"
      and same: "u_expected_seq c1 = u_expected_seq (with_data p c)"
        "u_recv_buffer c1 = u_recv_buffer (with_data p c)" "u_recv_data c1 = u_recv_data (with_data p c)"
    using handle_data_packet_step [OF Cons.prems(5) w Cons.prems(6)] by blast
  obtain k1 where k1: "k1 \<notin> insert j I" "progress e0 ds d0 (insert j I) k1 c1"
    using with_data_progress [OF Cons.prems(1-4) j] progress_irrelevant [OF same] by blast
  let ?S = "\<lambda>ps. {i. i < length ds \<and> seq_of e0 i \<in> pk_seq_nr ` set ps}"
  have "insert j I \<union> ?S ps = I \<union> ?S (p # ps)"
    using j Cons.prems(4) seq_of_inject by fastforce
  moreover have "\<exists>c' k'. receive_packets now ps c1 = Inr c' \<and> k' \<notin> insert j I \<union> ?S ps \<and>
      progress e0 ds d0 (insert j I \<union> ?S ps) k' c'"
    using Cons.prems(3,4,7) k1 c1 j(1) by (intro Cons.IH) auto
  ultimately show ?case using c1(1) by simp
qed

text \<open>
  C3: reliable, ordered reassembly: when the packets of a stream of at most 65535 pieces arrive in
  any order and any number of times, the data delivered is the longest prefix of the stream
  without a missing piece, each piece once; when every piece has arrived, it is the whole stream.
\<close>

theorem in_order_delivery:
  assumes "valid_conn c" and "u_transport c" and "u_recv_buffer c = []" and "length ds \<le> 65535"
    and "\<forall>p\<in>set ps. wire_packet p \<and>
           (\<exists>i<length ds. pk_seq_nr p = seq_of (u_expected_seq c) i \<and> pk_data p = ds ! i)"
  shows "\<exists>c' k. receive_packets now ps c = Inr c' \<and> k \<le> length ds \<and>
           u_recv_data c' = u_recv_data c @ concat (take k ds) \<and>
           u_expected_seq c' = seq_of (u_expected_seq c) k \<and>
           (\<forall>i<k. seq_of (u_expected_seq c) i \<in> pk_seq_nr ` set ps) \<and>
           (k < length ds \<longrightarrow> seq_of (u_expected_seq c) k \<notin> pk_seq_nr ` set ps)"
proof -
  have "u_expected_seq c = seq_of (u_expected_seq c) 0"
    using assms(1) by (simp add: seq_of_def valid_conn_def)
  then have start: "progress (u_expected_seq c) ds (u_recv_data c) {} 0 c"
    using assms(3) by (simp add: progress_def)
  obtain c' k where r: "receive_packets now ps c = Inr c'"
      "k \<notin> {} \<union> {i. i < length ds \<and> seq_of (u_expected_seq c) i \<in> pk_seq_nr ` set ps}"
      "progress (u_expected_seq c) ds (u_recv_data c)
         ({} \<union> {i. i < length ds \<and> seq_of (u_expected_seq c) i \<in> pk_seq_nr ` set ps}) k c'"
    using receive_packets_progress [OF start _ _ assms(4,1,2,5), of now] by blast
  then show ?thesis unfolding progress_def by (intro exI [of _ c'] exI [of _ k]) auto
qed


text \<open>
  After a \<open>receive\<close> that took all the data that had arrived, the next one does not wait for
  more: it returns empty data, which callers read as the end of the stream.
\<close>

theorem receive_spurious_empty:
  assumes "handle_data_packet now p c = Inr c'" and "u_recv_data c' \<noteq> []" and "max_bytes < 0"
  shows "\<exists>c''. utp_receive max_bytes c' = (Some (u_recv_data c'), c'') \<and>
           fst (utp_receive max_bytes c'') = Some []"
proof -
  from assms(1) obtain d where "c' = (if length (u_recv_data d) > 0 then d\<lparr>u_data_available := True\<rparr> else d)"
    unfolding handle_data_packet_def Let_def by (elim pbindE) (metis Inr_inject)
  with assms(2) have "u_data_available c'" by (auto split: if_splits)
  with assms(2,3) show ?thesis by (simp add: utp_receive_def receive_all_def receive_all_woken_def)
qed

theorem receive_spurious_empty_witness:
  "\<exists>c' c''. handle_data_packet 3 ((utp_packet ST_DATA)\<lparr>pk_data := [5]\<rparr>) (set_transport (utp_init (Some 7) 65535 0)) = Inr c' \<and>
     utp_receive (- 1) c' = (Some [5], c'') \<and> fst (utp_receive (- 1) c'') = Some []"
proof -
  let ?c = "set_transport (utp_init (Some 7) 65535 0)"
  let ?p = "(utp_packet ST_DATA)\<lparr>pk_data := [5]\<rparr>"
  have v: "valid_conn ?c" using utp_init_valid [of "Some 7" 65535 0] by (simp add: set_transport_def)
  have w: "wire_packet ?p" by (simp add: wire_packet_def valid_packet_def utp_packet_def)
  have "u_transport ?c" by (simp add: set_transport_def)
  from handle_data_packet_step [OF v w this, of 3] obtain c' where
    c': "handle_data_packet 3 ?p ?c = Inr c'" "u_recv_data c' = u_recv_data (with_data ?p ?c)" by blast
  have "u_recv_data (with_data ?p ?c) = [5]"
    by (simp add: with_data_def update_ack_nr_def accept_data_def process_out_of_order_packets.simps
        utp_init_def utp_packet_def set_transport_def)
  with c' receive_spurious_empty [OF c'(1), of "- 1"] show ?thesis by auto
qed

theorem in_order_delivery_witness:
  "\<exists>c'. receive_packets 3
      (map (\<lambda>(k, d). (utp_packet ST_DATA)\<lparr>pk_seq_nr := k, pk_data := d\<rparr>) [(1, [2, 3]), (0, [1]), (1, [2, 3])])
      (set_transport (utp_init (Some 7) 65535 0)) = Inr c' \<and> u_recv_data c' = [1, 2, 3]"
proof -
  let ?c = "set_transport (utp_init (Some 7) 65535 0)"
  define ps where "ps = map (\<lambda>(k, d). (utp_packet ST_DATA)\<lparr>pk_seq_nr := k, pk_data := d\<rparr>) [(1, [2, 3]), (0, [1]), (1, [2, 3])]"
  define ds :: "bytes list" where "ds = [[1], [2, 3]]"
  have v: "valid_conn ?c" using utp_init_valid [of "Some 7" 65535 0] by (simp add: set_transport_def)
  have c: "u_expected_seq ?c = 0" "u_recv_data ?c = []" "u_recv_buffer ?c = []" "u_transport ?c"
    by (simp_all add: set_transport_def utp_init_def)
  have "\<forall>p\<in>set ps. wire_packet p \<and> (\<exists>i<length ds. pk_seq_nr p = seq_of 0 i \<and> pk_data p = ds ! i)"
    by (auto simp: ps_def ds_def wire_packet_def valid_packet_def utp_packet_def seq_of_def less_Suc_eq numeral_2_eq_2)
  moreover have ds: "length ds = 2" by (simp add: ds_def)
  ultimately obtain c' k where r: "receive_packets 3 ps ?c = Inr c'" "k \<le> 2" "u_recv_data c' = concat (take k ds)"
      "k < 2 \<longrightarrow> seq_of 0 k \<notin> pk_seq_nr ` set ps"
    using in_order_delivery [OF v c(4,3), of ds ps 3] unfolding c ds by auto
  have "k = 2"
  proof (rule ccontr)
    assume "k \<noteq> 2"
    then have "k = 0 \<or> k = 1" using r(2) by linarith
    with r(4) show False by (auto simp: seq_of_def ps_def)
  qed
  with r show ?thesis unfolding ps_def by (auto simp: ds_def)
qed

section \<open>Acknowledging out of order data\<close>

lemma seq_of_next: "seq_of ((e + 1) mod 0x10000) k = seq_of e (Suc k)"
  unfolding seq_of_def mod_add_left_eq by (simp add: ac_simps)

lemma process_out_of_order_expected:
  "0 \<le> u_expected_seq c \<Longrightarrow> u_expected_seq c \<le> 0xFFFF \<Longrightarrow>
     \<exists>k\<le>length (u_recv_buffer c). u_expected_seq (process_out_of_order_packets c) = seq_of (u_expected_seq c) k"
proof (induction c rule: process_out_of_order_packets.induct)
  case (1 c)
  show ?case
  proof (cases "map_of (u_recv_buffer c) (u_expected_seq c)")
    case None
    then show ?thesis using 1(2,3)
      by (intro exI [of _ 0]) (simp add: process_out_of_order_packets.simps [of c] seq_of_def)
  next
    case (Some p)
    let ?c = "c\<lparr>u_recv_buffer := AList.delete (u_expected_seq c) (u_recv_buffer c),
               u_recv_data := u_recv_data c @ pk_data p, u_expected_seq := (u_expected_seq c + 1) mod 0x10000\<rparr>"
    have "(u_expected_seq c + 1) mod 0x10000 \<le> 0xFFFF"
      using pos_mod_bound [of "0x10000" "u_expected_seq c + 1"] by simp
    then obtain k where k: "k \<le> length (u_recv_buffer ?c)"
        "u_expected_seq (process_out_of_order_packets ?c) = seq_of (u_expected_seq ?c) k"
      using 1(1) [OF Some] by auto
    have "length (u_recv_buffer ?c) < length (u_recv_buffer c)"
      using map_of_SomeD [OF Some] by (auto simp: AList.delete_eq intro!: length_filter_less)
    moreover have "seq_of (u_expected_seq ?c) k = seq_of (u_expected_seq c) (Suc k)"
      by (simp add: seq_of_next)
    ultimately show ?thesis using k Some
      by (intro exI [of _ "Suc k"]) (simp add: process_out_of_order_packets.simps [of c])
  qed
qed

lemma with_data_expected_ne:
  assumes "valid_conn c" and "length (u_recv_buffer c) < 65535"
  shows "u_expected_seq (with_data p c) \<noteq> pk_seq_nr p"
proof -
  define d where "d = (let c = update_ack_nr p c in if EXT_SACK \<in> u_negotiated c
      then c\<lparr>u_received_seqs := insert (pk_seq_nr p) (u_received_seqs c)\<rparr> else c)"
  have d: "u_expected_seq d = u_expected_seq c" "u_recv_buffer d = u_recv_buffer c"
    by (simp_all add: d_def Let_def update_ack_nr_def)
  have wd: "with_data p c = accept_data p d" by (simp add: with_data_def d_def Let_def)
  show ?thesis
  proof (cases "pk_seq_nr p = u_expected_seq c")
    case True
    let ?d = "d\<lparr>u_recv_data := u_recv_data d @ pk_data p, u_expected_seq := (u_expected_seq d + 1) mod 0x10000\<rparr>"
    have "(u_expected_seq c + 1) mod 0x10000 \<le> 0xFFFF"
      using pos_mod_bound [of "0x10000" "u_expected_seq c + 1"] by simp
    then obtain k where k: "k \<le> length (u_recv_buffer c)"
        "u_expected_seq (process_out_of_order_packets ?d) = seq_of ((u_expected_seq c + 1) mod 0x10000) k"
      using process_out_of_order_expected [of ?d] d by auto
    have "seq_of ((u_expected_seq c + 1) mod 0x10000) k = seq_of (u_expected_seq c) (Suc k)"
      by (rule seq_of_next)
    moreover have "seq_of (u_expected_seq c) 0 = u_expected_seq c"
      using assms(1) by (simp add: seq_of_def valid_conn_def)
    moreover have "seq_of (u_expected_seq c) (Suc k) \<noteq> seq_of (u_expected_seq c) 0"
      using k(1) assms(2) by (subst seq_of_inject) auto
    ultimately show ?thesis using k(2) True d by (simp add: wd accept_data_def)
  qed (simp add: wd accept_data_def d)
qed

lemma received_no_data: "pk_data p = [] \<Longrightarrow> received p = p\<lparr>pk_extension := extension_field p\<rparr>"
proof -
  assume "pk_data p = []"
  moreover have "parse_extensions [] 0 = ([], 0)" by (simp add: parse_extensions.simps)
  ultimately show ?thesis by (simp add: received_def trailing_def)
qed

lemma send_packet_ok:
  assumes "u_transport c" and "valid_packet (p\<lparr>pk_timestamp := 0\<rparr>)"
  obtains bs where "packet_unpack bs = Inr (received (stamp now c p))" and
    "send_packet now p c = Inr (c\<lparr>u_sent := u_sent c @ [bs], u_packets_sent := u_packets_sent c + 1,
       u_bytes_sent := u_bytes_sent c + length bs\<rparr>)"
proof -
  have v: "valid_packet (stamp now c p)" using assms(2) by (simp add: valid_stamp)
  from packet_pack_valid [OF v] obtain bs where bs: "packet_pack (stamp now c p) = Inr bs" by blast
  with packet_unpack_pack [OF v] that [of bs] assms(1) show ?thesis by (simp add: send_packet_def)
qed

text \<open>The acknowledgement a data packet triggers.\<close>

lemma handle_data_packet_ack:
  assumes "valid_conn c" and "wire_packet p" and "u_transport c" and "length (u_recv_buffer c) < 65535"
    and "handle_data_packet now p c = Inr c'"
  obtains bs q where "u_sent c' = u_sent c @ [bs]" and "packet_unpack bs = Inr q" and "pk_type q = ST_STATE"
    and "pk_ack_nr q = u_ack_nr (update_ack_nr p c)" and "pk_data q = []" and "u_pending_acks c' = []"
    and "wire_packet q"
proof -
  let ?d = "with_data p c"
  have d: "valid_conn ?d" "u_transport ?d" using with_data_valid [OF assms(1,2)] assms(3) by auto
  have same: "u_sent ?d = u_sent c" "u_ack_nr ?d = u_ack_nr (update_ack_nr p c)" by simp_all
  have imm: "should_send_immediate_ack p ?d = (True, ?d)"
    using with_data_expected_ne [OF assms(1,4), of p] by (simp add: should_send_immediate_ack_def)
  obtain x where x: "emit_ack now True ?d = Inr x"
      and cx: "c' = (if length (u_recv_data x) > 0 then x\<lparr>u_data_available := True\<rparr> else x)"
    using assms(5) unfolding handle_data_packet_def send_ack_data Let_def
    by (elim pbindE) (use imm in \<open>simp add: with_data_def Let_def\<close>)
  obtain exts e where e: "ack_extensions ?d = Inr (exts, e)" "\<forall>e\<in>set exts. valid_ext e"
      and ee: "e = ?d \<or> e = ?d\<lparr>u_ecn_echo := False, u_ecn_cwr := False\<rparr>"
    using ack_extensions_ok [OF d(1)] by blast
  then have ve: "valid_conn e" "u_transport e" "u_sent e = u_sent c" "u_ack_nr e = u_ack_nr (update_ack_nr p c)"
    using d same by auto
  have "valid_packet (ack_packet now exts e)" using ve(1) e(2) by (rule ack_packet_valid)
  then have vp: "valid_packet ((ack_packet now exts e)\<lparr>pk_timestamp := 0\<rparr>)" by simp
  obtain bs where bs: "packet_unpack bs = Inr (received (stamp now e (ack_packet now exts e)))"
      "send_packet now (ack_packet now exts e) e = Inr (e\<lparr>u_sent := u_sent e @ [bs],
         u_packets_sent := u_packets_sent e + 1, u_bytes_sent := u_bytes_sent e + length bs\<rparr>)"
    using send_packet_ok [OF ve(2) vp] by blast
  have "u_sent c' = u_sent c @ [bs] \<and> u_pending_acks c' = []"
    using x cx e(1) bs(2) ve(3) by (auto simp: emit_ack_def split: if_splits)
  moreover have "wire_packet (received (stamp now e (ack_packet now exts e)))"
    using bs(1) by (rule packet_unpack_wire)
  ultimately show ?thesis
    using that [OF _ bs(1)] ve(4) by (simp add: received_no_data stamp_def ack_packet_def utp_packet_def)
qed

text \<open>
  Acknowledgements are never delayed: after every data packet an acknowledgement has been sent
  and none is pending, because the check for \<open>in-order\<close> packets runs after the expected sequence
  number has moved on.
\<close>

theorem delayed_ack_unused:
  assumes "valid_conn c" and "wire_packet p" and "u_transport c" and "length (u_recv_buffer c) < 65535"
    and "handle_data_packet now p c = Inr c'"
  shows "u_pending_acks c' = [] \<and> (\<exists>bs. u_sent c' = u_sent c @ [bs])"
  using handle_data_packet_ack [OF assms] by metis

theorem delayed_ack_unused_witness:
  "\<exists>c' bs. handle_data_packet 3 (utp_packet ST_DATA) (set_transport (utp_init (Some 7) 65535 0)) = Inr c' \<and>
     u_pending_acks c' = [] \<and> u_sent c' = [bs]"
proof -
  let ?c = "set_transport (utp_init (Some 7) 65535 0)"
  have v: "valid_conn ?c" using utp_init_valid [of "Some 7" 65535 0] by (simp add: set_transport_def)
  have w: "wire_packet (utp_packet ST_DATA)" by (simp add: wire_packet_def valid_packet_def utp_packet_def)
  have c: "u_transport ?c" "length (u_recv_buffer ?c) < 65535" "u_sent ?c = []"
    by (simp_all add: set_transport_def utp_init_def)
  from handle_data_packet_step [OF v w c(1), of 3] obtain c' where
    c': "handle_data_packet 3 (utp_packet ST_DATA) ?c = Inr c'" by blast
  from delayed_ack_unused [OF v w c(1,2) this] c(3) c' show ?thesis by simp
qed

text \<open>
  Lost data is never sent again: the acknowledgement for a packet that overtook others names
  the highest number received, and the sender that gets it forgets all packets up to that number,
  among them those the receiver never got.
\<close>

theorem lost_packet_forgotten:
  assumes "valid_conn r" and "u_transport r" and "length (u_recv_buffer r) < 65535"
    and "wire_packet p" and "u_ack_nr r < pk_seq_nr p" and "handle_data_packet now p r = Inr r'"
    and "valid_conn s" and "u_state s = CONNECTED" and "handle_packet cfg now' (last (u_sent r')) ecn s = Inr s'"
    and "lost \<le> pk_seq_nr p"
  shows "lost \<notin> fst ` set (u_send_buffer s')"
proof -
  obtain bs q where bs: "u_sent r' = u_sent r @ [bs]" "packet_unpack bs = Inr q" "pk_type q = ST_STATE"
      "pk_ack_nr q = u_ack_nr (update_ack_nr p r)" "wire_packet q"
    by (rule handle_data_packet_ack [OF assms(1,4,2,3,6)]) blast
  have ack: "pk_ack_nr q = pk_seq_nr p" using bs(4) assms(5) by (simp add: update_ack_nr_def)
  have rng: "0 \<le> pk_ack_nr q" "pk_ack_nr q \<le> 0xFFFF" using bs(5) by (auto simp: wire_packet_def valid_packet_def)
  obtain c where h: "handle_state_packet now' q c = Inr s'" and st: "u_state c = CONNECTED"
  proof -
    let ?c1 = "s\<lparr>u_packets_received := u_packets_received s + 1, u_bytes_received := u_bytes_received s + length bs\<rparr>"
    let ?c2 = "if ecn then handle_ecn_congestion (?c1\<lparr>u_ecn_ce_received := True, u_ecn_echo := True\<rparr>) else ?c1"
    let ?c3 = "if pk_type q = ST_STATE \<and> pk_ack_nr q > 0 \<and> pk_ack_nr q \<in> set (map fst (u_send_buffer ?c2))
      then update_rtt q ?c2 else ?c2"
    have "handle_packet cfg now' bs ecn s = route_packet cfg now' q ?c3"
      unfolding handle_packet_def bs(2) sum.case Let_def ..
    moreover have "route_packet cfg now' q ?c3 = handle_state_packet now' q ?c3"
      unfolding route_packet_def bs(3) by (simp add: packet_types)
    ultimately have "handle_state_packet now' q ?c3 = Inr s'" using assms(9) bs(1) by simp
    moreover have "u_state ?c3 = CONNECTED"
      using assms(8) by (simp add: handle_ecn_congestion_def update_rtt_def Let_def)
    ultimately show ?thesis by (rule that)
  qed
  then have "\<exists>buf. u_send_buffer s' = filter (\<lambda>(seq, _). \<not> is_sequence_acked seq (pk_ack_nr q)) buf"
    unfolding handle_state_packet_def Let_def by (auto simp: pbind_eq_Inr)
  then have "\<forall>(k, _)\<in>set (u_send_buffer s'). \<not> is_sequence_acked k (pk_ack_nr q)" by auto
  moreover have "is_sequence_acked lost (pk_ack_nr q)"
    using rng assms(10) ack by (auto simp: is_sequence_acked_def)
  ultimately show ?thesis by fastforce
qed

theorem lost_packet_forgotten_witness:
  "\<exists>r' s'. handle_data_packet 3 ((utp_packet ST_DATA)\<lparr>pk_seq_nr := 3\<rparr>) (set_transport (utp_init (Some 7) 65535 0)) = Inr r' \<and>
     handle_packet utp_default_config 4 (last (u_sent r')) False
       ((set_transport (utp_init (Some 9) 65535 0))
          \<lparr>u_state := CONNECTED, u_send_buffer := [(2, (utp_packet ST_DATA)\<lparr>pk_seq_nr := 2\<rparr>, 1, 0)]\<rparr>) = Inr s' \<and>
     2 \<notin> fst ` set (u_send_buffer s')"
proof -
  let ?r = "set_transport (utp_init (Some 7) 65535 0)"
  let ?p = "(utp_packet ST_DATA)\<lparr>pk_seq_nr := 3\<rparr>"
  let ?base = "set_transport (utp_init (Some 9) 65535 0)"
  let ?s = "?base\<lparr>u_state := CONNECTED, u_send_buffer := [(2, (utp_packet ST_DATA)\<lparr>pk_seq_nr := 2\<rparr>, 1, 0)]\<rparr>"
  have r: "valid_conn ?r" "valid_conn ?base"
    using utp_init_valid [of "Some 7" 65535 0] utp_init_valid [of "Some 9" 65535 0] by (simp_all add: set_transport_def)
  have w: "wire_packet ?p" by (simp add: wire_packet_def valid_packet_def utp_packet_def)
  have s: "valid_conn ?s"
    by (rule valid_conn_send_buffer, use r(2) in simp)
      (simp add: valid_send_buffer_def valid_packet_def utp_packet_def packet_types)
  have c: "u_transport ?r" "length (u_recv_buffer ?r) < 65535" "u_ack_nr ?r < pk_seq_nr ?p" "u_transport ?s"
    by (simp_all add: set_transport_def utp_init_def)
  from handle_data_packet_step [OF r(1) w c(1), of 3] obtain r' where r': "handle_data_packet 3 ?p ?r = Inr r'" by blast
  obtain s' where s': "handle_packet utp_default_config 4 (last (u_sent r')) False ?s = Inr s'"
    using handle_packet_safe [OF s, of utp_default_config 4 "last (u_sent r')" False] c(4)
    by (auto simp: safe_def split: sum.splits)
  from lost_packet_forgotten [OF r(1) c(1,2) w c(3) r' s _ s', of 2] r' s' show ?thesis by auto
qed

section \<open>The handshake\<close>

lemma advertise_extensions_default:
  "u_supported c = {EXT_SACK, EXT_WINDOW_SCALING, EXT_ECN} \<Longrightarrow> uc_max_window_size cfg \<le> 65535 \<Longrightarrow>
     advertise_extensions cfg c = Inr [Ecn False False]"
  by (simp add: advertise_extensions_def scale_factor_loop.simps)

definition fresh_conn :: "int \<Rightarrow> int \<Rightarrow> int \<Rightarrow> utp_conn" where
  "fresh_conn i w t = set_transport (utp_init (Some i) w t)"

lemma fresh_conn_simps [simp]:
  "u_state (fresh_conn i w t) = IDLE" "u_transport (fresh_conn i w t)" "u_sent (fresh_conn i w t) = []"
  "u_supported (fresh_conn i w t) = {EXT_SACK, EXT_WINDOW_SCALING, EXT_ECN}"
  "u_connection_id (fresh_conn i w t) = i" "u_recv_window (fresh_conn i w t) = w"
  "u_window_scale (fresh_conn i w t) = 0" "u_negotiated (fresh_conn i w t) = {}"
  "u_send_buffer (fresh_conn i w t) = []" "u_recv_buffer (fresh_conn i w t) = []"
  "u_recv_data (fresh_conn i w t) = []" "u_expected_seq (fresh_conn i w t) = 0"
  "u_last_ack_nr (fresh_conn i w t) = 0" "u_max_unacked (fresh_conn i w t) = 100"
  "u_ack_nr (fresh_conn i w t) = 0"
  by (simp_all add: fresh_conn_def set_transport_def utp_init_def)

definition syn_of :: "int \<Rightarrow> int \<Rightarrow> int \<Rightarrow> int \<Rightarrow> utp_packet" where
  "syn_of i w ack t = (utp_packet ST_SYN)\<lparr>pk_connection_id := i, pk_seq_nr := 0, pk_ack_nr := ack,
     pk_wnd_size := w, pk_timestamp := t, pk_extensions := [Ecn False False]\<rparr>"

definition wire_of :: "utp_packet \<Rightarrow> utp_packet" where
  "wire_of p = p\<lparr>pk_extension := extension_field p\<rparr>"

lemma send_packet_no_data:
  assumes "u_transport c" and "valid_packet (p\<lparr>pk_timestamp := 0\<rparr>)" and "pk_data p = []"
  obtains bs where "packet_unpack bs = Inr (wire_of (stamp now c p))" and
    "send_packet now p c = Inr (c\<lparr>u_sent := u_sent c @ [bs], u_packets_sent := u_packets_sent c + 1,
       u_bytes_sent := u_bytes_sent c + length bs\<rparr>)"
proof -
  have "received (stamp now c p) = wire_of (stamp now c p)"
    using assms(3) by (simp add: received_no_data wire_of_def stamp_def)
  with send_packet_ok [OF assms(1,2), of now] that show ?thesis by metis
qed

lemma connect_fresh:
  assumes "valid_utp_config cfg" and "0 \<le> i" "i \<le> 0xFFFF" "0 \<le> w" "w \<le> 0xFFFFFFFF"
  obtains bs where "packet_unpack bs = Inr (wire_of (syn_of i w 0 0))" and
    "utp_connect cfg now (fresh_conn i w t) = Inr ((fresh_conn i w t)
       \<lparr>u_state := SYN_SENT, u_start_time := now, u_sent := [bs],
        u_packets_sent := u_packets_sent (fresh_conn i w t) + 1,
        u_bytes_sent := u_bytes_sent (fresh_conn i w t) + length bs,
        u_send_buffer := [(0, syn_of i w 0 0, now, 0)], u_timeout_task := True\<rparr>)"
proof -
  let ?c = "(fresh_conn i w t)\<lparr>u_state := SYN_SENT, u_start_time := now\<rparr>"
  have ts: "timestamp now ?c = 0" by (simp add: timestamp_def)
  have syn: "syn_packet cfg now 0 ?c = Inr (syn_of i w 0 0)"
    using assms(1) advertise_extensions_default [of ?c cfg] ts
    by (simp add: syn_packet_def syn_of_def valid_utp_config_def)
  have v: "valid_packet ((syn_of i w 0 0)\<lparr>pk_timestamp := 0\<rparr>)"
    using assms by (simp add: syn_of_def valid_packet_def utp_packet_def packet_types)
  have st: "stamp now ?c (syn_of i w 0 0) = syn_of i w 0 0" by (simp add: stamp_def ts syn_of_def)
  obtain bs where "packet_unpack bs = Inr (wire_of (syn_of i w 0 0))"
    "send_packet now (syn_of i w 0 0) ?c = Inr (?c\<lparr>u_sent := u_sent ?c @ [bs], u_packets_sent := u_packets_sent ?c + 1,
       u_bytes_sent := u_bytes_sent ?c + length bs\<rparr>)"
    using send_packet_no_data [OF _ v, of ?c now] unfolding st by (auto simp: syn_of_def utp_packet_def)
  with that [of bs] show ?thesis by (simp add: utp_connect_def syn Let_def)
qed


lemma ecn_only [simp]:
  "process_extension_negotiation [Ecn False False] c =
     (if EXT_ECN \<in> u_supported c then c\<lparr>u_negotiated := insert EXT_ECN (u_negotiated c)\<rparr> else c)"
  by (simp add: process_extension_negotiation_def)

lemma wire_of_syn_simps [simp]:
  "pk_type (wire_of (syn_of i w a t)) = ST_SYN" "pk_connection_id (wire_of (syn_of i w a t)) = i"
  "pk_seq_nr (wire_of (syn_of i w a t)) = 0" "pk_ack_nr (wire_of (syn_of i w a t)) = a"
  "pk_wnd_size (wire_of (syn_of i w a t)) = w" "pk_extensions (wire_of (syn_of i w a t)) = [Ecn False False]"
  by (simp_all add: wire_of_def syn_of_def utp_packet_def)

lemma server_handles_syn:
  assumes "valid_utp_config cfg" and "0 \<le> j" "j \<le> 0xFFFF" "0 \<le> w" "w \<le> 0xFFFFFFFF"
    and "packet_unpack syn = Inr (wire_of (syn_of i w' 0 t'))"
  obtains bs t2 s where "packet_unpack bs = Inr (wire_of (syn_of j w 0 t2))"
    and "handle_packet cfg now syn False (fresh_conn j w t) = Inr s"
    and "u_state s = SYN_RECEIVED" "u_transport s" "u_sent s = [bs]" "u_window_scale s = 0"
      "u_negotiated s = {EXT_ECN}" "map fst (u_send_buffer s) = [0]" "u_last_ack_nr s = 0"
      "u_expected_seq s = 0" "u_recv_buffer s = []" "u_recv_data s = []" "u_ack_nr s = 0"
proof -
  let ?c1 = "(fresh_conn j w t)\<lparr>u_packets_received := u_packets_received (fresh_conn j w t) + 1,
      u_bytes_received := u_bytes_received (fresh_conn j w t) + length syn\<rparr>"
  let ?c2 = "?c1\<lparr>u_remote_connection_id := i, u_send_window := w', u_ack_nr := 0, u_negotiated := {EXT_ECN}\<rparr>"
  let ?p = "syn_of j w 0 (timestamp now ?c2)"
  have sp: "syn_packet cfg now 0 ?c2 = Inr ?p"
    using assms(1) advertise_extensions_default [of ?c2 cfg]
    by (simp add: syn_packet_def syn_of_def valid_utp_config_def)
  let ?c3 = "?c2\<lparr>u_send_buffer := [(0, ?p, now, 0)]\<rparr>"
  have v: "valid_packet (?p\<lparr>pk_timestamp := 0\<rparr>)"
    using assms by (simp add: syn_of_def valid_packet_def utp_packet_def packet_types)
  have st: "stamp now ?c3 ?p = ?p" by (simp add: stamp_def syn_of_def timestamp_def)
  obtain bs where bs: "packet_unpack bs = Inr (wire_of ?p)"
    "send_packet now ?p ?c3 = Inr (?c3\<lparr>u_sent := u_sent ?c3 @ [bs], u_packets_sent := u_packets_sent ?c3 + 1,
       u_bytes_sent := u_bytes_sent ?c3 + length bs\<rparr>)"
    using send_packet_no_data [OF _ v, of ?c3 now] unfolding st by (auto simp: syn_of_def utp_packet_def)
  have "handle_packet cfg now syn False (fresh_conn j w t) = handle_syn cfg now (wire_of (syn_of i w' 0 t')) ?c1"
    by (simp add: handle_packet_def assms(6) route_packet_def packet_types Let_def)
  also have "\<dots> = Inr (?c3\<lparr>u_sent := u_sent ?c3 @ [bs], u_packets_sent := u_packets_sent ?c3 + 1,
       u_bytes_sent := u_bytes_sent ?c3 + length bs, u_state := SYN_RECEIVED\<rparr>)"
    using sp bs(2) by (simp add: handle_syn_def send_syn_ack_def Let_def)
  finally show ?thesis using that [OF bs(1)] by simp
qed

text \<open>The acknowledgement that ends the handshake on the side of the client.\<close>

definition handshake_ack :: "int \<Rightarrow> int \<Rightarrow> int \<Rightarrow> utp_packet" where
  "handshake_ack i w t = (utp_packet ST_STATE)\<lparr>pk_connection_id := i, pk_seq_nr := 1, pk_ack_nr := 1,
     pk_wnd_size := w, pk_timestamp := t\<rparr>"

lemma client_handles_syn_ack:
  assumes "valid_conn c" and "u_state c = SYN_SENT" "u_transport c" "u_supported c = {EXT_SACK, EXT_WINDOW_SCALING, EXT_ECN}"
    and "u_window_scale c = 0" "u_negotiated c = {}" "map fst (u_send_buffer c) = [0]"
    and "packet_unpack data = Inr (wire_of (syn_of j w' 0 t'))"
  obtains bs t3 d where "packet_unpack bs = Inr (handshake_ack (u_connection_id c) (u_recv_window c) t3)"
    and "handle_packet cfg now data False c = Inr d"
    and "u_state d = CONNECTED" "u_transport d" "u_sent d = u_sent c @ [bs]" "u_seq_nr d = 1"
      "u_negotiated d = {EXT_ECN}" "u_send_buffer d = []" "u_send_window d = w'" "u_max_unacked d = u_max_unacked c"
      "u_connection_id d = u_connection_id c" "u_recv_window d = u_recv_window c" "u_ack_nr d = u_ack_nr c"
proof -
  let ?c1 = "c\<lparr>u_packets_received := u_packets_received c + 1, u_bytes_received := u_bytes_received c + length data\<rparr>"
  let ?c2 = "?c1\<lparr>u_remote_connection_id := j, u_negotiated := {EXT_ECN}, u_send_window := w'\<rparr>"
  let ?p = "handshake_ack (u_connection_id c) (u_recv_window c) (timestamp now ?c2)"
  have v: "valid_packet (?p\<lparr>pk_timestamp := 0\<rparr>)"
    using assms(1) by (simp add: handshake_ack_def valid_packet_def utp_packet_def packet_types valid_conn_def)
  have st: "stamp now ?c2 ?p = ?p" by (simp add: stamp_def handshake_ack_def)
  have w: "wire_of ?p = ?p" by (simp add: wire_of_def handshake_ack_def extension_field_def utp_packet_def)
  obtain bs where bs: "packet_unpack bs = Inr ?p"
    "send_packet now ?p ?c2 = Inr (?c2\<lparr>u_sent := u_sent ?c2 @ [bs], u_packets_sent := u_packets_sent ?c2 + 1,
       u_bytes_sent := u_bytes_sent ?c2 + length bs\<rparr>)"
    using send_packet_no_data [OF _ v, of ?c2 now] assms(3) unfolding st w by (auto simp: handshake_ack_def utp_packet_def)
  obtain x where sb: "u_send_buffer c = [(0, x)]" using assms(7) by (cases "u_send_buffer c") auto
  have "handle_packet cfg now data False c = handle_syn_ack now (wire_of (syn_of j w' 0 t')) ?c1"
    using assms(2) by (simp add: handle_packet_def assms(8) route_packet_def packet_types Let_def)
  also have "\<dots> = Inr (complete_handshake (?c2\<lparr>u_sent := u_sent ?c2 @ [bs], u_packets_sent := u_packets_sent ?c2 + 1,
       u_bytes_sent := u_bytes_sent ?c2 + length bs, u_timeout_task := False\<rparr>))"
    using bs(2) assms by (simp add: handle_syn_ack_def Let_def scaled_window_def handshake_ack_def)
  finally show ?thesis using that [OF bs(1)] assms(3) sb by (simp add: complete_handshake_def)
qed

lemma handle_state_packet_server:
  assumes "u_state s = SYN_RECEIVED" and "pk_type q = ST_STATE" and "pk_ack_nr q = 1"
    and "pk_extensions q = []" and "u_window_scale s = 0" "u_last_ack_nr s = 0"
    and "map fst (u_send_buffer s) = [0]" and "packet_unpack data = Inr q"
  obtains s' where "handle_packet cfg now data False s = Inr s'" and "u_state s' = SYN_RECEIVED"
    and "u_send_buffer s' = []" "u_transport s' = u_transport s" "u_expected_seq s' = u_expected_seq s"
      "u_recv_buffer s' = u_recv_buffer s" "u_recv_data s' = u_recv_data s" "u_negotiated s' = u_negotiated s"
proof -
  let ?c1 = "s\<lparr>u_packets_received := u_packets_received s + 1, u_bytes_received := u_bytes_received s + length data\<rparr>"
  obtain x where sb: "u_send_buffer s = [(0, x)]" using assms(7) by (cases "u_send_buffer s") auto
  have "handle_packet cfg now data False s = handle_state_packet now q ?c1"
    using assms sb by (simp add: handle_packet_def route_packet_def packet_types Let_def)
  also have "\<dots> = Inr (?c1\<lparr>u_send_window := pk_wnd_size q, u_duplicate_acks := 0, u_last_ack_nr := 1, u_send_buffer := []\<rparr>)"
    using assms sb by (simp add: handle_state_packet_def process_state_extensions_def scaled_window_def
        is_sequence_acked_def Let_def)
  finally show ?thesis using that assms(1) by simp
qed


text \<open>
  The three datagrams of a handshake between two new connections that run this code, each handled
  by the other side, then one message from the client.
\<close>

definition handshake_then_send ::
    "utp_config \<Rightarrow> int \<Rightarrow> int \<Rightarrow> int \<Rightarrow> int \<Rightarrow> int \<Rightarrow> bytes \<Rightarrow> utp_conn \<Rightarrow> utp_conn \<Rightarrow> (utp_conn \<times> utp_conn) py" where
  "handshake_then_send cfg n1 n2 n3 n4 n5 data client server =
     pbind (utp_connect cfg n1 client) (\<lambda>client.
     pbind (handle_packet cfg n2 (last (u_sent client)) False server) (\<lambda>server.
     pbind (handle_packet cfg n3 (last (u_sent server)) False client) (\<lambda>client.
     pbind (handle_packet cfg n4 (last (u_sent client)) False server) (\<lambda>server.
     pbind (utp_send cfg n5 data client) (\<lambda>(_, client).
     pbind (handle_packet cfg n5 (last (u_sent client)) False server) (\<lambda>server.
     Inr (client, server)))))))"

lemma first_data:
  assumes "u_state c = CONNECTED" "u_transport c" "valid_conn c" "u_seq_nr c = 1" "u_send_buffer c = []"
    and "u_send_window c = w" "0 < w" "u_max_unacked c = 100"
    and "data \<noteq> []" "int (length data) \<le> uc_mtu cfg - int HEADER_SIZE"
  obtains bs q d where "utp_send cfg now data c = Inr ([], d)" and "u_sent d = u_sent c @ [bs]"
    and "packet_unpack bs = Inr q" and "pk_type q = ST_DATA" "pk_seq_nr q = 2" "u_state d = CONNECTED"
    and "u_negotiated d = u_negotiated c"
proof -
  let ?c = "c\<lparr>u_seq_nr := 2\<rparr>"
  let ?p = "(utp_packet ST_DATA)\<lparr>pk_connection_id := u_connection_id c, pk_seq_nr := 2,
                 pk_ack_nr := u_ack_nr c, pk_wnd_size := u_recv_window c, pk_data := data,
                 pk_timestamp := timestamp now ?c\<rparr>"
  let ?d = "?c\<lparr>u_send_buffer := [(2, ?p, now, 0)]\<rparr>"
  have "valid_packet (?p\<lparr>pk_timestamp := 0\<rparr>)"
    using assms(3) by (simp add: valid_packet_def utp_packet_def packet_types valid_conn_def)
  from send_packet_ok [OF _ this, of ?d now] assms(2) obtain bs where
    bs: "packet_unpack bs = Inr (received (stamp now ?d ?p))"
      "send_packet now ?p ?d = Inr (?d\<lparr>u_sent := u_sent ?d @ [bs], u_packets_sent := u_packets_sent ?d + 1,
       u_bytes_sent := u_bytes_sent ?d + length bs\<rparr>)" by auto
  have ch: "send_chunk now data c = send_packet now ?p ?d"
    using assms(4,5) by (simp add: send_chunk_def Let_def)
  have pos: "0 < nat (uc_mtu cfg - int HEADER_SIZE)" using assms(9,10) by (cases data) auto
  moreover have "length data \<le> nat (uc_mtu cfg - int HEADER_SIZE)" using assms(10) by linarith
  ultimately have "chunks (nat (uc_mtu cfg - int HEADER_SIZE)) data = [data]"
    using assms(9) by (simp add: chunks_rec)
  moreover have "can_send c" using assms by (simp add: can_send_def)
  ultimately have "utp_send cfg now data c = Inr ([], ?d\<lparr>u_sent := u_sent ?d @ [bs],
      u_packets_sent := u_packets_sent ?d + 1, u_bytes_sent := u_bytes_sent ?d + length bs\<rparr>)"
    using assms(1) by (simp add: utp_send_def ch bs(2) Let_def)
  from that [OF this _ bs(1)] assms(1) show ?thesis
    by (simp add: received_def stamp_def utp_packet_def)
qed

lemma server_buffers_data:
  assumes "valid_conn s" "u_transport s" "u_state s = SYN_RECEIVED" "u_expected_seq s = 0" "u_recv_buffer s = []"
    and "packet_unpack bs = Inr q" "pk_type q = ST_DATA" "pk_seq_nr q = 2"
  obtains s' where "handle_packet cfg now bs False s = Inr s'" and "u_recv_data s' = u_recv_data s"
    and "u_recv_buffer s' = [(2, q)]" and "u_expected_seq s' = 0" and "u_state s' = SYN_RECEIVED"
    and "u_send_buffer s' = u_send_buffer s"
proof -
  let ?s = "s\<lparr>u_packets_received := u_packets_received s + 1, u_bytes_received := u_bytes_received s + length bs\<rparr>"
  have w: "wire_packet q" using assms(6) by (rule packet_unpack_wire)
  obtain s' where s': "handle_data_packet now q ?s = Inr s'" "u_expected_seq s' = u_expected_seq (with_data q ?s)"
    "u_recv_buffer s' = u_recv_buffer (with_data q ?s)" "u_recv_data s' = u_recv_data (with_data q ?s)"
    "u_state s' = u_state ?s" "u_send_buffer s' = u_send_buffer ?s"
    by (rule handle_data_packet_step [OF _ w, of ?s now]) (use assms in simp_all)
  have "handle_packet cfg now bs False s = handle_data_packet now q ?s"
    using assms by (simp add: handle_packet_def route_packet_def packet_types Let_def)
  then show ?thesis
    using that s' assms by (simp add: with_data_def update_ack_nr_def accept_data_def Let_def)
qed



end
