(* ===== verification/Piece_Data.thy ===== *)
theory Piece_Data
  imports Hash_V2
begin

text \<open>
  The pieces of a torrent and their blocks: \<open>PieceBlock\<close> and \<open>PieceData\<close> of
  \<open>ccbt/piece/async_piece_manager.py\<close>.
\<close>

section \<open>Blocks and pieces\<close>

datatype piece_state = MISSING | REQUESTED | DOWNLOADING | COMPLETE | VERIFIED

record piece_block =
  b_piece_index :: nat
  b_begin :: nat
  b_length :: nat
  b_data :: bytes
  b_received :: bool
  b_requested_from :: "string set"

definition new_block :: "nat \<Rightarrow> nat \<Rightarrow> nat \<Rightarrow> piece_block" where
  "new_block i begin len = \<lparr>b_piece_index = i, b_begin = begin, b_length = len, b_data = [],
     b_received = False, b_requested_from = {}\<rparr>"

definition block_is_complete :: "piece_block \<Rightarrow> bool" where
  "block_is_complete b \<longleftrightarrow> b_received b \<and> length (b_data b) = b_length b"

definition block_add :: "nat \<Rightarrow> bytes \<Rightarrow> piece_block \<Rightarrow> bool \<times> piece_block" where
  "block_add begin data b =
     (if b_begin b \<noteq> begin then (False, b)
      else if length data \<noteq> b_length b then (False, b)
      else if b_received b then (False, b)
      else (True, b\<lparr>b_data := data, b_received := True\<rparr>))"

record piece_data =
  p_piece_index :: nat
  p_length :: nat
  p_blocks :: "piece_block list"
  p_state :: piece_state
  p_hash_verified :: bool
  p_priority :: int
  p_request_count :: nat

text \<open>\<open>range(0, length, block_size)\<close> as the list of the begins of the blocks.\<close>

definition make_blocks :: "nat \<Rightarrow> nat \<Rightarrow> nat \<Rightarrow> piece_block list" where
  "make_blocks block_size i len =
     map (\<lambda>k. new_block i (k * block_size) (min block_size (len - k * block_size)))
       [0..<(len + block_size - 1) div block_size]"

definition new_piece :: "nat \<Rightarrow> nat \<Rightarrow> nat \<Rightarrow> piece_data" where
  "new_piece block_size i len = \<lparr>p_piece_index = i, p_length = len,
     p_blocks = make_blocks block_size i len, p_state = MISSING, p_hash_verified = False,
     p_priority = 0, p_request_count = 0\<rparr>"

definition is_complete :: "piece_data \<Rightarrow> bool" where
  "is_complete p \<longleftrightarrow> list_all b_received (p_blocks p)"

text \<open>
  The loop of \<open>add_block\<close>: the first block with that begin that is not received takes the data,
  or refuses it when the length is wrong.
\<close>

fun add_to_blocks :: "nat \<Rightarrow> bytes \<Rightarrow> piece_block list \<Rightarrow> piece_block list option" where
  "add_to_blocks begin data [] = None"
| "add_to_blocks begin data (b # bs) =
     (if b_begin b = begin \<and> \<not> b_received b
      then if length data \<noteq> b_length b then None
           else Some (b\<lparr>b_data := data, b_received := True\<rparr> # bs)
      else map_option ((#) b) (add_to_blocks begin data bs))"

definition piece_add_block :: "nat \<Rightarrow> bytes \<Rightarrow> piece_data \<Rightarrow> bool \<times> piece_data" where
  "piece_add_block begin data p =
     (case add_to_blocks begin data (p_blocks p) of
        None \<Rightarrow> (False, p)
      | Some bs \<Rightarrow>
          let p = p\<lparr>p_blocks := bs\<rparr>
          in (True, if list_all b_received (p_blocks p) then p\<lparr>p_state := COMPLETE\<rparr> else p))"

definition validate_state :: "piece_data \<Rightarrow> bool \<times> piece_data" where
  "validate_state p =
     (let actual_complete = is_complete p
      in if p_state p \<in> {COMPLETE, VERIFIED} \<and> \<not> actual_complete
         then (True, p\<lparr>p_state := MISSING, p_hash_verified := False\<rparr>)
         else if actual_complete \<and> p_state p \<in> {MISSING, REQUESTED, DOWNLOADING}
         then (True, p\<lparr>p_state := COMPLETE\<rparr>)
         else (False, p))"

definition get_data :: "piece_data \<Rightarrow> bytes py" where
  "get_data p =
     (if \<not> is_complete p then Inl ValueError
      else Inr (concat (map b_data (sort_key b_begin (p_blocks p)))))"

definition get_missing_blocks :: "piece_data \<Rightarrow> piece_block list" where
  "get_missing_blocks p = filter (\<lambda>b. \<not> b_received b) (p_blocks p)"

definition reset_block :: "piece_block \<Rightarrow> piece_block" where
  "reset_block b = b\<lparr>b_received := False, b_data := []\<rparr>"

definition verify_hash :: "bytes \<Rightarrow> piece_data \<Rightarrow> (bool \<times> piece_data) py" where
  "verify_hash expected_hash p =
     (if \<not> is_complete p then Inr (False, p)
      else if length expected_hash \<noteq> 32 \<and> length expected_hash \<noteq> 20 then Inr (False, p)
      else let algorithm = (if length expected_hash = 32 then SHA256 else SHA1)
           in pbind (get_data p) (\<lambda>data.
              pbind (verify_piece data expected_hash (Some algorithm)) (\<lambda>ok.
              let p = p\<lparr>p_hash_verified := ok\<rparr>
              in Inr (ok, if ok then p\<lparr>p_state := VERIFIED\<rparr>
                          else p\<lparr>p_state := MISSING, p_blocks := map reset_block (p_blocks p)\<rparr>))))"

text \<open>
  \<open>_hash_piece_optimized\<close> feeds the data to the hash in chunks; \<open>chunk_size\<close> is positive in
  every branch that chooses it. Any exception, that of an incomplete piece too, gives \<open>False\<close>.
\<close>

definition hash_piece_optimized :: "nat \<Rightarrow> piece_data \<Rightarrow> bytes \<Rightarrow> bool" where
  "hash_piece_optimized chunk_size p expected_hash =
     (case get_data p of
        Inl _ \<Rightarrow> False
      | Inr data \<Rightarrow>
          if length expected_hash \<noteq> 32 \<and> length expected_hash \<noteq> 20 then False
          else let algorithm = (if length expected_hash = 32 then SHA256 else SHA1)
               in hash_function algorithm (concat (chunks chunk_size data)) = expected_hash)"

section \<open>Well-formed pieces\<close>

text \<open>
  The layout of the blocks never changes, a received block has data of its length, and a state
  that says complete is right.
\<close>

definition block_ok :: "nat \<Rightarrow> nat \<Rightarrow> nat \<Rightarrow> nat \<Rightarrow> piece_block \<Rightarrow> bool" where
  "block_ok block_size i len k b \<longleftrightarrow>
     b_piece_index b = i \<and> b_begin b = k * block_size \<and>
     b_length b = min block_size (len - k * block_size) \<and>
     (b_received b \<longrightarrow> length (b_data b) = b_length b)"

definition blocks_ok :: "nat \<Rightarrow> nat \<Rightarrow> nat \<Rightarrow> piece_block list \<Rightarrow> bool" where
  "blocks_ok block_size i len bs \<longleftrightarrow>
     length bs = (len + block_size - 1) div block_size \<and>
     (\<forall>k<length bs. block_ok block_size i len k (bs ! k))"

definition piece_ok :: "nat \<Rightarrow> piece_data \<Rightarrow> bool" where
  "piece_ok block_size p \<longleftrightarrow>
     0 < block_size \<and> blocks_ok block_size (p_piece_index p) (p_length p) (p_blocks p) \<and>
     (p_state p \<in> {COMPLETE, VERIFIED} \<longrightarrow> is_complete p)"

lemma new_piece_ok: "0 < block_size \<Longrightarrow> piece_ok block_size (new_piece block_size i len)"
  by (simp add: piece_ok_def new_piece_def blocks_ok_def make_blocks_def block_ok_def new_block_def)

text \<open>What adding data does, when it succeeds: exactly one block, not yet received, changes.\<close>

lemma add_to_blocks_SomeD:
  "add_to_blocks begin data bs = Some bs' \<Longrightarrow>
     \<exists>k<length bs. b_begin (bs ! k) = begin \<and> \<not> b_received (bs ! k) \<and> length data = b_length (bs ! k) \<and>
       bs' = bs[k := (bs ! k)\<lparr>b_data := data, b_received := True\<rparr>]"
proof (induction bs arbitrary: bs')
  case Nil
  then show ?case by simp
next
  case (Cons b bs)
  show ?case
  proof (cases "b_begin b = begin \<and> \<not> b_received b")
    case True
    with Cons.prems show ?thesis by (intro exI [of _ 0]) (auto split: if_splits)
  next
    case False
    with Cons.prems obtain cs where "add_to_blocks begin data bs = Some cs" "bs' = b # cs"
      by (cases "add_to_blocks begin data bs") auto
    with Cons.IH obtain k where "k < length bs" "b_begin (bs ! k) = begin" "\<not> b_received (bs ! k)"
      "length data = b_length (bs ! k)" "cs = bs[k := (bs ! k)\<lparr>b_data := data, b_received := True\<rparr>]" by blast
    with \<open>bs' = b # cs\<close> show ?thesis by (intro exI [of _ "Suc k"]) simp
  qed
qed

lemma blocks_ok_update:
  assumes "blocks_ok block_size i len bs" and "k < length bs" and "length data = b_length (bs ! k)"
  shows "blocks_ok block_size i len (bs[k := (bs ! k)\<lparr>b_data := data, b_received := True\<rparr>])"
  using assms by (auto simp: blocks_ok_def block_ok_def nth_list_update)

lemma piece_add_block_ok:
  assumes "piece_ok block_size p"
  shows "piece_ok block_size (snd (piece_add_block begin data p))"
proof (cases "add_to_blocks begin data (p_blocks p)")
  case None
  then show ?thesis using assms by (simp add: piece_add_block_def)
next
  case (Some bs)
  then obtain k where k: "k < length (p_blocks p)" "\<not> b_received (p_blocks p ! k)"
      "length data = b_length (p_blocks p ! k)"
      "bs = (p_blocks p)[k := (p_blocks p ! k)\<lparr>b_data := data, b_received := True\<rparr>]"
    using add_to_blocks_SomeD by blast
  then have "\<not> is_complete p" by (auto simp: is_complete_def list_all_length)
  with assms k Some blocks_ok_update [OF _ k(1,3)] show ?thesis
    by (auto simp: piece_add_block_def piece_ok_def is_complete_def Let_def)
qed

lemma validate_state_ok: "piece_ok block_size p \<Longrightarrow> validate_state p = (False, p) \<or> p_state (snd (validate_state p)) = COMPLETE"
  by (auto simp: validate_state_def piece_ok_def)

section \<open>Reassembly\<close>

lemma blocks_sorted:
  assumes "blocks_ok block_size i len bs" and "0 < block_size"
  shows "sort_key b_begin bs = bs"
proof -
  have "sorted (map b_begin bs)"
    using assms by (auto simp: sorted_iff_nth_mono blocks_ok_def block_ok_def)
  then show ?thesis by (rule sort_key_id_if_sorted)
qed

text \<open>Blocks whose data are the content's parts make up the content.\<close>

definition holds_content :: "bytes \<Rightarrow> piece_block list \<Rightarrow> bool" where
  "holds_content content bs \<longleftrightarrow>
     (\<forall>b\<in>set bs. b_received b \<longrightarrow> b_data b = take (b_length b) (drop (b_begin b) content))"

lemma concat_blocks:
  assumes "blocks_ok block_size i (length content) bs" and "0 < block_size"
    and "holds_content content bs" and "list_all b_received bs"
  shows "concat (map b_data bs) = content"
proof -
  have "map b_data bs = chunks block_size content"
  proof (rule nth_equalityI)
    show "length (map b_data bs) = length (chunks block_size content)"
      using assms(1) by (simp add: blocks_ok_def chunks_def)
  next
    fix k assume k: "k < length (map b_data bs)"
    then have "b_data (bs ! k) = take (b_length (bs ! k)) (drop (b_begin (bs ! k)) content)"
      using assms(3,4) by (simp add: holds_content_def list_all_length)
    also have "\<dots> = take block_size (drop (block_size * k) content)"
      using assms(1) k by (simp add: blocks_ok_def block_ok_def mult.commute min_def)
    finally show "map b_data bs ! k = chunks block_size content ! k"
      using assms(1) k by (simp add: blocks_ok_def chunks_def)
  qed
  then show ?thesis using concat_chunks [OF assms(2)] by simp
qed

lemma holds_content_update:
  assumes "holds_content content bs" and "add_to_blocks begin data bs = Some bs'"
    and "data = take (length data) (drop begin content)"
  shows "holds_content content bs'"
proof -
  obtain k where "k < length bs" "b_begin (bs ! k) = begin" "length data = b_length (bs ! k)"
      "bs' = bs[k := (bs ! k)\<lparr>b_data := data, b_received := True\<rparr>]"
    using add_to_blocks_SomeD [OF assms(2)] by blast
  with assms(1,3) show ?thesis
    by (auto simp: holds_content_def dest!: subsetD [OF set_update_subset_insert])
qed

text \<open>A sequence of received blocks.\<close>

definition add_blocks :: "(nat \<times> bytes) list \<Rightarrow> piece_data \<Rightarrow> piece_data" where
  "add_blocks ps p = fold (\<lambda>(begin, data) p. snd (piece_add_block begin data p)) ps p"

lemma piece_add_block_fields [simp]:
  "p_length (snd (piece_add_block begin data p)) = p_length p"
  "p_piece_index (snd (piece_add_block begin data p)) = p_piece_index p"
  by (simp_all add: piece_add_block_def Let_def split: option.split)

lemma add_blocks_invariant:
  "piece_ok block_size p \<Longrightarrow> holds_content content (p_blocks p) \<Longrightarrow>
   \<forall>(begin, data)\<in>set ps. data = take (length data) (drop begin content) \<Longrightarrow>
     piece_ok block_size (add_blocks ps p) \<and> holds_content content (p_blocks (add_blocks ps p)) \<and>
     p_length (add_blocks ps p) = p_length p"
proof (induction ps arbitrary: p)
  case Nil
  then show ?case by (simp add: add_blocks_def)
next
  case (Cons x ps)
  obtain bg data where x: "x = (bg, data)" by (cases x)
  let ?p = "snd (piece_add_block bg data p)"
  have "holds_content content (p_blocks ?p)"
    using Cons.prems x holds_content_update [of content "p_blocks p" bg data]
    by (auto simp: piece_add_block_def Let_def split: option.split)
  moreover have "piece_ok block_size ?p" using Cons.prems(1) by (rule piece_add_block_ok)
  ultimately show ?case using Cons.IH [of ?p] Cons.prems(3) x by (simp add: add_blocks_def)
qed

text \<open>
  C7: when a new piece has received blocks that are parts of its content, in any order and with
  any repetitions and blocks that do not fit, and it is complete, its data is the content.
\<close>

theorem piece_reassembly:
  assumes "0 < block_size" and "\<forall>(begin, data)\<in>set ps. data = take (length data) (drop begin content)"
    and "is_complete (add_blocks ps (new_piece block_size i (length content)))"
  shows "get_data (add_blocks ps (new_piece block_size i (length content))) = Inr content"
proof -
  let ?p = "add_blocks ps (new_piece block_size i (length content))"
  have "holds_content content (p_blocks (new_piece block_size i (length content)))"
    by (auto simp: holds_content_def new_piece_def make_blocks_def new_block_def)
  then have p: "piece_ok block_size ?p" "holds_content content (p_blocks ?p)" "p_length ?p = length content"
    using add_blocks_invariant [OF new_piece_ok [OF assms(1)] _ assms(2)] by (simp_all add: new_piece_def)
  then have ok: "blocks_ok block_size (p_piece_index ?p) (length content) (p_blocks ?p)"
    by (simp add: piece_ok_def)
  then show ?thesis
    using assms(1,3) p(2) blocks_sorted [OF ok assms(1)] concat_blocks [OF ok assms(1) p(2)]
    by (simp add: get_data_def is_complete_def)
qed

theorem piece_reassembly_witness:
  "get_data (add_blocks [(2, [30]), (0, [10, 20]), (2, [30]), (1, [20])] (new_piece 2 7 3)) = Inr [10, 20, 30]"
proof -
  have "is_complete (add_blocks [(2, [30]), (0, [10, 20]), (2, [30]), (1, [20])] (new_piece 2 7 (length [10, 20, 30 :: byte])))"
    by code_simp
  from piece_reassembly [OF _ _ this] have
    "get_data (add_blocks [(2, [30]), (0, [10, 20]), (2, [30]), (1, [20])] (new_piece 2 7 (length [10, 20, 30 :: byte])))
       = Inr [10, 20, 30]" by simp
  moreover have "length [10, 20, 30 :: byte] = 3" by simp
  ultimately show ?thesis by (simp only:)
qed

text \<open>The chunked hash is the hash of the data.\<close>

lemma hash_piece_optimized_iff:
  assumes "0 < chunk_size"
  shows "hash_piece_optimized chunk_size p expected \<longleftrightarrow>
     (\<exists>data algorithm. get_data p = Inr data \<and> length expected = hash_size algorithm \<and>
        hash_function algorithm data = expected)"
proof -
  have "length expected = hash_size SHA1 \<longleftrightarrow> length expected = 20"
    and "length expected = hash_size SHA256 \<longleftrightarrow> length expected = 32"
    by (simp_all add: hash_size_def)
  moreover have "(\<exists>algorithm. P algorithm) \<longleftrightarrow> P SHA1 \<or> P SHA256" for P
    by (metis hash_algorithm.exhaust)
  ultimately show ?thesis
    using assms by (auto simp: hash_piece_optimized_def concat_chunks Let_def split: sum.split)
qed

end
