(* ===== verification/File_Selection.thy ===== *)
theory File_Selection
  imports Ccbt_Prelude
begin

text \<open>
  File selection: \<open>ccbt/piece/file_selection.py\<close> with \<open>FileInfo.is_padding\<close> of
  \<open>ccbt/models.py\<close>. Python dictionaries are association lists in insertion order. The lock
  of the manager is taken by single statements only and never while waiting, so it is left out.
\<close>

section \<open>Files, priorities, selection states\<close>

record torrent_file =
  tf_length :: nat
  tf_attributes :: "string option"

definition is_padding :: "torrent_file \<Rightarrow> bool" where
  "is_padding f \<longleftrightarrow> (case tf_attributes f of None \<Rightarrow> False | Some a \<Rightarrow> CHR ''p'' \<in> set a)"

record torrent_info =
  ti_files :: "torrent_file list"
  ti_total_length :: nat
  ti_piece_length :: nat
  ti_num_pieces :: nat

datatype file_priority = DO_NOT_DOWNLOAD | LOW | NORMAL | HIGH | MAXIMUM

text \<open>\<open>FilePriority\<close> is an \<open>IntEnum\<close>: its members compare by their values.\<close>

fun priority_value :: "file_priority \<Rightarrow> nat" where
  "priority_value DO_NOT_DOWNLOAD = 0"
| "priority_value LOW = 1"
| "priority_value NORMAL = 2"
| "priority_value HIGH = 3"
| "priority_value MAXIMUM = 4"

lemma priority_value_inject: "priority_value p = priority_value q \<longleftrightarrow> p = q"
  by (cases p; cases q) simp_all

instantiation file_priority :: linorder
begin

definition less_eq_file_priority :: "file_priority \<Rightarrow> file_priority \<Rightarrow> bool" where
  "p \<le> q \<longleftrightarrow> priority_value p \<le> priority_value q"

definition less_file_priority :: "file_priority \<Rightarrow> file_priority \<Rightarrow> bool" where
  "p < q \<longleftrightarrow> priority_value p < priority_value q"

instance
  by standard (auto simp: less_eq_file_priority_def less_file_priority_def priority_value_inject)

end

lemma do_not_download_least [simp]: "DO_NOT_DOWNLOAD \<le> p"
  by (simp add: less_eq_file_priority_def)

record file_selection_state =
  st_file_index :: nat
  st_selected :: bool
  st_priority :: file_priority
  st_bytes_downloaded :: nat
  st_bytes_total :: nat

section \<open>The mapping between pieces and files\<close>

record piece_mapper =
  mp_piece_to_files :: "(nat \<times> (nat \<times> nat \<times> nat) list) list"
  mp_file_to_pieces :: "(nat \<times> nat list) list"

fun file_offsets :: "nat \<Rightarrow> torrent_file list \<Rightarrow> nat list" where
  "file_offsets current_offset [] = []"
| "file_offsets current_offset (f # fs) = current_offset # file_offsets (current_offset + tf_length f) fs"

definition add_reverse :: "nat \<Rightarrow> nat \<Rightarrow> (nat \<times> nat list) list \<Rightarrow> (nat \<times> nat list) list" where
  "add_reverse file_index piece_index ftp =
     (let pieces = (case map_of ftp file_index of None \<Rightarrow> [] | Some pieces \<Rightarrow> pieces)
      in AList.update file_index
           (if piece_index \<in> set pieces then pieces else pieces @ [piece_index]) ftp)"

text \<open>One turn of the inner loop, for one file with its index and offset.\<close>

definition map_file :: "nat \<Rightarrow> nat \<Rightarrow> nat \<Rightarrow> nat \<times> nat \<times> torrent_file \<Rightarrow>
    (nat \<times> nat \<times> nat) list \<times> (nat \<times> nat list) list \<Rightarrow>
    (nat \<times> nat \<times> nat) list \<times> (nat \<times> nat list) list" where
  "map_file piece_index piece_start piece_end = (\<lambda>(file_index, file_start, f) (segments, ftp).
     if is_padding f then (segments, ftp)
     else let file_end = file_start + tf_length f;
              overlap_start = max piece_start file_start;
              overlap_end = min piece_end file_end
          in if overlap_start < overlap_end
             then (segments @ [(file_index, overlap_start - file_start, overlap_end - overlap_start)],
                   add_reverse file_index piece_index ftp)
             else (segments, ftp))"

definition indexed_files :: "torrent_info \<Rightarrow> (nat \<times> nat \<times> torrent_file) list" where
  "indexed_files ti = zip [0..<length (ti_files ti)] (zip (file_offsets 0 (ti_files ti)) (ti_files ti))"

definition map_piece :: "torrent_info \<Rightarrow> nat \<Rightarrow> piece_mapper \<Rightarrow> piece_mapper" where
  "map_piece ti piece_index mp =
     (let piece_start = piece_index * ti_piece_length ti;
          piece_end = min (piece_start + ti_piece_length ti) (ti_total_length ti);
          (segments, ftp) = fold (map_file piece_index piece_start piece_end) (indexed_files ti)
             ([], mp_file_to_pieces mp)
      in \<lparr>mp_piece_to_files = AList.update piece_index segments (mp_piece_to_files mp),
          mp_file_to_pieces = ftp\<rparr>)"

definition build_mappings :: "torrent_info \<Rightarrow> piece_mapper" where
  "build_mappings ti =
     (let mp = fold (map_piece ti) [0..<ti_num_pieces ti] \<lparr>mp_piece_to_files = [], mp_file_to_pieces = []\<rparr>
      in mp\<lparr>mp_file_to_pieces := map (apsnd sort) (mp_file_to_pieces mp)\<rparr>)"

section \<open>The selection manager\<close>

record file_selection =
  sel_mapper :: piece_mapper
  sel_states :: "(nat \<times> file_selection_state) list"

definition file_selection_init :: "torrent_info \<Rightarrow> file_selection" where
  "file_selection_init ti =
     \<lparr>sel_mapper = build_mappings ti,
      sel_states = map (\<lambda>(i, f). (i, \<lparr>st_file_index = i, st_selected = True, st_priority = NORMAL,
           st_bytes_downloaded = 0, st_bytes_total = tf_length f\<rparr>))
         (filter (\<lambda>(i, f). \<not> is_padding f) (zip [0..<length (ti_files ti)] (ti_files ti)))\<rparr>"

definition modify_state :: "nat \<Rightarrow> (file_selection_state \<Rightarrow> file_selection_state) \<Rightarrow> file_selection \<Rightarrow> file_selection" where
  "modify_state i f sel =
     (case map_of (sel_states sel) i of
        None \<Rightarrow> sel
      | Some st \<Rightarrow> sel\<lparr>sel_states := AList.update i (f st) (sel_states sel)\<rparr>)"

definition select_file :: "nat \<Rightarrow> file_selection \<Rightarrow> file_selection" where
  "select_file i = modify_state i (\<lambda>st. st\<lparr>st_selected := True\<rparr>)"

definition deselect_file :: "nat \<Rightarrow> file_selection \<Rightarrow> file_selection" where
  "deselect_file i = modify_state i (\<lambda>st. st\<lparr>st_selected := False\<rparr>)"

definition set_file_priority :: "nat \<Rightarrow> file_priority \<Rightarrow> file_selection \<Rightarrow> file_selection" where
  "set_file_priority i p = modify_state i (\<lambda>st. st\<lparr>st_priority := p\<rparr>)"

definition select_files :: "nat list \<Rightarrow> file_selection \<Rightarrow> file_selection" where
  "select_files = fold (\<lambda>i. modify_state i (\<lambda>st. st\<lparr>st_selected := True\<rparr>))"

definition deselect_files :: "nat list \<Rightarrow> file_selection \<Rightarrow> file_selection" where
  "deselect_files = fold (\<lambda>i. modify_state i (\<lambda>st. st\<lparr>st_selected := False\<rparr>))"

definition select_all :: "file_selection \<Rightarrow> file_selection" where
  "select_all sel = sel\<lparr>sel_states := map (apsnd (\<lambda>st. st\<lparr>st_selected := True\<rparr>)) (sel_states sel)\<rparr>"

definition deselect_all :: "file_selection \<Rightarrow> file_selection" where
  "deselect_all sel = sel\<lparr>sel_states := map (apsnd (\<lambda>st. st\<lparr>st_selected := False\<rparr>)) (sel_states sel)\<rparr>"

definition is_file_selected :: "file_selection \<Rightarrow> nat \<Rightarrow> bool" where
  "is_file_selected sel i =
     (case map_of (sel_states sel) i of None \<Rightarrow> False | Some st \<Rightarrow> st_selected st)"

definition get_file_priority :: "file_selection \<Rightarrow> nat \<Rightarrow> file_priority" where
  "get_file_priority sel i =
     (case map_of (sel_states sel) i of None \<Rightarrow> NORMAL | Some st \<Rightarrow> st_priority st)"

definition is_piece_needed :: "file_selection \<Rightarrow> nat \<Rightarrow> bool" where
  "is_piece_needed sel i =
     (case map_of (mp_piece_to_files (sel_mapper sel)) i of
        None \<Rightarrow> True
      | Some segments \<Rightarrow> list_ex (\<lambda>(fi, _, _). is_file_selected sel fi) segments)"

definition get_piece_priority :: "file_selection \<Rightarrow> nat \<Rightarrow> nat" where
  "get_piece_priority sel i =
     (case map_of (mp_piece_to_files (sel_mapper sel)) i of
        None \<Rightarrow> 0
      | Some segments \<Rightarrow>
          priority_value (fold (\<lambda>(fi, _, _) max_priority.
             if is_file_selected sel fi then max max_priority (get_file_priority sel fi) else max_priority)
             segments DO_NOT_DOWNLOAD))"

definition get_files_for_piece :: "file_selection \<Rightarrow> nat \<Rightarrow> nat list" where
  "get_files_for_piece sel i =
     (case map_of (mp_piece_to_files (sel_mapper sel)) i of None \<Rightarrow> [] | Some segments \<Rightarrow> map fst segments)"

definition get_pieces_for_file :: "file_selection \<Rightarrow> nat \<Rightarrow> nat list" where
  "get_pieces_for_file sel i =
     (case map_of (mp_file_to_pieces (sel_mapper sel)) i of None \<Rightarrow> [] | Some pieces \<Rightarrow> pieces)"

definition update_file_progress :: "nat \<Rightarrow> nat \<Rightarrow> file_selection \<Rightarrow> file_selection" where
  "update_file_progress i n = modify_state i (\<lambda>st. st\<lparr>st_bytes_downloaded := n\<rparr>)"

definition get_file_state :: "file_selection \<Rightarrow> nat \<Rightarrow> file_selection_state option" where
  "get_file_state sel i = map_of (sel_states sel) i"

definition get_selected_files :: "file_selection \<Rightarrow> nat list" where
  "get_selected_files sel = map fst (filter (\<lambda>(i, st). st_selected st) (sel_states sel))"


section \<open>The mappings in closed form\<close>

definition file_segment :: "nat \<Rightarrow> nat \<Rightarrow> nat \<times> nat \<times> torrent_file \<Rightarrow> (nat \<times> nat \<times> nat) list" where
  "file_segment ps pe = (\<lambda>(i, off, f).
     if \<not> is_padding f \<and> max ps off < min pe (off + tf_length f)
     then [(i, max ps off - off, min pe (off + tf_length f) - max ps off)] else [])"

definition segments_of :: "torrent_info \<Rightarrow> nat \<Rightarrow> (nat \<times> nat \<times> nat) list" where
  "segments_of ti p = concat (map (file_segment (p * ti_piece_length ti)
     (min (p * ti_piece_length ti + ti_piece_length ti) (ti_total_length ti))) (indexed_files ti))"

definition reverse_of :: "(nat \<times> nat list) list \<Rightarrow> nat \<Rightarrow> nat list" where
  "reverse_of ftp i = (case map_of ftp i of None \<Rightarrow> [] | Some pieces \<Rightarrow> pieces)"

lemma reverse_of_add:
  "reverse_of (add_reverse j p ftp) i =
     (if i = j \<and> p \<notin> set (reverse_of ftp i) then reverse_of ftp i @ [p] else reverse_of ftp i)"
  by (auto simp: reverse_of_def add_reverse_def update_conv' Let_def split: option.split)

lemma fold_map_file:
  "fst (fold (map_file p ps pe) xs (segs, ftp)) = segs @ concat (map (file_segment ps pe) xs)"
  "reverse_of (snd (fold (map_file p ps pe) xs (segs, ftp))) i =
     (if i \<in> fst ` set (concat (map (file_segment ps pe) xs)) \<and> p \<notin> set (reverse_of ftp i)
      then reverse_of ftp i @ [p] else reverse_of ftp i)"
proof (induction xs arbitrary: segs ftp)
  case (Cons x xs)
  obtain j off f where x: "x = (j, off, f)" by (cases x)
  {
    case 1
    show ?case using Cons.IH(1) by (simp add: x map_file_def file_segment_def Let_def)
  next
    case 2
    show ?case
    proof (cases "file_segment ps pe x = []")
      case True
      then have "map_file p ps pe x (segs, ftp) = (segs, ftp)"
        by (auto simp: x map_file_def file_segment_def Let_def split: if_splits)
      with True Cons.IH(2) show ?thesis by (simp del: set_concat)
    next
      case False
      then obtain s where "map_file p ps pe x (segs, ftp) = (s, add_reverse j p ftp)"
          and "fst ` set (file_segment ps pe x) = {j}"
        by (simp add: x map_file_def file_segment_def Let_def split: if_splits)
      then show ?thesis
        using Cons.IH(2) [of s "add_reverse j p ftp"] by (simp add: reverse_of_add image_Un del: set_concat)
    qed
  }
qed simp_all

lemma map_piece_fields:
  "mp_piece_to_files (map_piece ti p mp) = AList.update p (segments_of ti p) (mp_piece_to_files mp)"
  "reverse_of (mp_file_to_pieces (map_piece ti p mp)) i =
     (if i \<in> fst ` set (segments_of ti p) \<and> p \<notin> set (reverse_of (mp_file_to_pieces mp) i)
      then reverse_of (mp_file_to_pieces mp) i @ [p] else reverse_of (mp_file_to_pieces mp) i)"
  unfolding map_piece_def Let_def case_prod_unfold piece_mapper.select_convs fold_map_file segments_of_def
  by (simp_all only: append_Nil)

lemma build_loop:
  fixes ti :: torrent_info and n :: nat
  defines "mp \<equiv> fold (map_piece ti) [0..<n] \<lparr>mp_piece_to_files = [], mp_file_to_pieces = []\<rparr>"
  shows "map_of (mp_piece_to_files mp) p = (if p < n then Some (segments_of ti p) else None)"
    and "reverse_of (mp_file_to_pieces mp) i = filter (\<lambda>p. i \<in> fst ` set (segments_of ti p)) [0..<n]"
  unfolding mp_def
proof (induction n arbitrary: p)
  case 0
  {
    case 1
    show ?case by simp
  next
    case 2
    show ?case by (simp add: reverse_of_def)
  }
next
  case (Suc n)
  {
    case 1
    show ?case using Suc.IH(1) by (simp add: map_piece_fields(1) update_conv')
  next
    case 2
    show ?case using Suc.IH(2) by (simp add: map_piece_fields(2) del: set_concat)
  }
qed

lemma piece_to_files_of [simp]:
  "map_of (mp_piece_to_files (build_mappings ti)) p =
     (if p < ti_num_pieces ti then Some (segments_of ti p) else None)"
  by (simp add: build_mappings_def Let_def build_loop)

lemma file_to_pieces_of:
  "reverse_of (mp_file_to_pieces (build_mappings ti)) i =
     filter (\<lambda>p. i \<in> fst ` set (segments_of ti p)) [0..<ti_num_pieces ti]"
proof -
  have "reverse_of (map (apsnd sort) ftp) i = sort (reverse_of ftp i)" for ftp
    by (simp add: reverse_of_def apsnd_def map_prod_def map_of_map split: option.split)
  moreover have "sort (filter P [0..<n]) = filter P [0..<n]" for P and n :: nat
    by (rule sort_key_id_if_sorted) (simp add: sorted_wrt_filter)
  ultimately show ?thesis
    by (simp add: build_mappings_def Let_def build_loop(2))
qed

definition file_start :: "torrent_info \<Rightarrow> nat \<Rightarrow> nat" where
  "file_start ti i = sum_list (map tf_length (take i (ti_files ti)))"

lemma file_offsets_length [simp]: "length (file_offsets off fs) = length fs"
  by (induction off fs rule: file_offsets.induct) simp_all

lemma file_offsets_nth:
  "i < length fs \<Longrightarrow> file_offsets off fs ! i = off + sum_list (map tf_length (take i fs))"
  by (induction off fs arbitrary: i rule: file_offsets.induct) (auto simp: nth_Cons' take_Cons')

lemma indexed_files_set:
  "(i, off, f) \<in> set (indexed_files ti) \<longleftrightarrow>
     i < length (ti_files ti) \<and> off = file_start ti i \<and> f = ti_files ti ! i"
  unfolding indexed_files_def set_zip
  by (auto simp: file_start_def file_offsets_nth intro!: exI [of _ i])

lemma segments_of_iff:
  "(i, fo, n) \<in> set (segments_of ti p) \<longleftrightarrow>
     (let s = file_start ti i; f = ti_files ti ! i; ps = p * ti_piece_length ti;
          pe = min (ps + ti_piece_length ti) (ti_total_length ti)
      in i < length (ti_files ti) \<and> \<not> is_padding f \<and> max ps s < min pe (s + tf_length f) \<and>
         fo = max ps s - s \<and> n = min pe (s + tf_length f) - max ps s)"
proof -
  have "(i, fo, n) \<in> set (segments_of ti p) \<longleftrightarrow>
     (\<exists>j off f. (j, off, f) \<in> set (indexed_files ti) \<and> (i, fo, n) \<in> set (file_segment (p * ti_piece_length ti)
        (min (p * ti_piece_length ti + ti_piece_length ti) (ti_total_length ti)) (j, off, f)))"
    by (auto simp: segments_of_def)
  then show ?thesis by (auto simp: indexed_files_set file_segment_def Let_def)
qed


section \<open>Every byte of a file lies in one segment\<close>

text \<open>The lengths of the files add up, and the pieces cover them.\<close>

definition info_ok :: "torrent_info \<Rightarrow> bool" where
  "info_ok ti \<longleftrightarrow> 0 < ti_piece_length ti \<and>
     ti_total_length ti = sum_list (map tf_length (ti_files ti)) \<and>
     ti_total_length ti \<le> ti_num_pieces ti * ti_piece_length ti"

definition real_file :: "torrent_info \<Rightarrow> nat \<Rightarrow> bool" where
  "real_file ti i \<longleftrightarrow> i < length (ti_files ti) \<and> \<not> is_padding (ti_files ti ! i)"

definition file_length :: "torrent_info \<Rightarrow> nat \<Rightarrow> nat" where
  "file_length ti i = tf_length (ti_files ti ! i)"

lemma file_end_le_total:
  assumes "info_ok ti" and "i < length (ti_files ti)"
  shows "file_start ti i + file_length ti i \<le> ti_total_length ti"
proof -
  have "ti_files ti = take i (ti_files ti) @ ti_files ti ! i # drop (Suc i) (ti_files ti)"
    using assms(2) by (rule id_take_nth_drop)
  then have "sum_list (map tf_length (ti_files ti)) =
      file_start ti i + (file_length ti i + sum_list (map tf_length (drop (Suc i) (ti_files ti))))"
    unfolding file_start_def file_length_def by (metis list.simps(9) map_append sum_list.Cons sum_list.append)
  with assms(1) show ?thesis by (simp add: info_ok_def)
qed

lemma segment_at_byte:
  assumes "info_ok ti" and "real_file ti i" and "off < file_length ti i"
  shows "(\<exists>fo n. (i, fo, n) \<in> set (segments_of ti p) \<and> fo \<le> off \<and> off < fo + n) \<longleftrightarrow>
     p = (file_start ti i + off) div ti_piece_length ti"
proof -
  let ?g = "file_start ti i + off" and ?l = "ti_piece_length ti"
  have l: "0 < ?l" and g: "?g < ti_total_length ti"
    using assms file_end_le_total [of ti i] by (auto simp: info_ok_def real_file_def)
  have "(\<exists>fo n. (i, fo, n) \<in> set (segments_of ti p) \<and> fo \<le> off \<and> off < fo + n) \<longleftrightarrow>
      p * ?l \<le> ?g \<and> ?g < p * ?l + ?l"
    using assms g by (auto simp: segments_of_iff Let_def real_file_def file_length_def)
  also have "\<dots> \<longleftrightarrow> p = ?g div ?l"
    using l by (metis add.commute div_nat_eqI dividend_less_times_div div_times_less_eq_dividend mult.commute mult_Suc mult_Suc_right)
  finally show ?thesis .
qed

lemma segments_distinct:
  "(i, fo, n) \<in> set (segments_of ti p) \<Longrightarrow> (i, fo', n') \<in> set (segments_of ti p) \<Longrightarrow> fo' = fo \<and> n' = n"
  by (simp add: segments_of_iff Let_def)

text \<open>
  C5: every byte of a file that is no padding belongs to exactly one segment of exactly one piece,
  and that is the piece of its place in the torrent.
\<close>

theorem mapping_partition:
  assumes "info_ok ti" and "real_file ti i" and "off < file_length ti i"
  shows "\<exists>!(p, fo, n). (i, fo, n) \<in> set (the (map_of (mp_piece_to_files (build_mappings ti)) p)) \<and>
           p < ti_num_pieces ti \<and> fo \<le> off \<and> off < fo + n \<and>
           p = (file_start ti i + off) div ti_piece_length ti"
proof -
  let ?p = "(file_start ti i + off) div ti_piece_length ti"
  have "file_start ti i + off < ti_num_pieces ti * ti_piece_length ti"
    using assms file_end_le_total [of ti i] by (auto simp: info_ok_def real_file_def)
  then have "?p < ti_num_pieces ti" by (simp add: less_mult_imp_div_less)
  moreover obtain fo n where "(i, fo, n) \<in> set (segments_of ti ?p)" "fo \<le> off" "off < fo + n"
    using segment_at_byte [OF assms, of ?p] by auto
  ultimately show ?thesis
    by (intro ex1I [of _ "(?p, fo, n)"]) (auto dest: segments_distinct)
qed

theorem mapping_partition_witness:
  "\<exists>!(p, fo, n). (2, fo, n) \<in> set (the (map_of (mp_piece_to_files (build_mappings
      \<lparr>ti_files = [\<lparr>tf_length = 3, tf_attributes = None\<rparr>, \<lparr>tf_length = 1, tf_attributes = Some ''p''\<rparr>,
        \<lparr>tf_length = 5, tf_attributes = Some ''x''\<rparr>], ti_total_length = 9, ti_piece_length = 4,
       ti_num_pieces = 3\<rparr>)) p)) \<and> p < 3 \<and> fo \<le> 4 \<and> 4 < fo + n \<and> p = (4 + 4) div 4"
proof -
  let ?ti = "\<lparr>ti_files = [\<lparr>tf_length = 3, tf_attributes = None\<rparr>, \<lparr>tf_length = 1, tf_attributes = Some ''p''\<rparr>,
        \<lparr>tf_length = 5, tf_attributes = Some ''x''\<rparr>], ti_total_length = 9, ti_piece_length = 4,
       ti_num_pieces = 3\<rparr>"
  have "info_ok ?ti" by (simp add: info_ok_def)
  moreover have "real_file ?ti 2" by (simp add: real_file_def is_padding_def)
  moreover have "4 < file_length ?ti 2" by (simp add: file_length_def)
  ultimately have "\<exists>!(p, fo, n). (2, fo, n) \<in> set (the (map_of (mp_piece_to_files (build_mappings ?ti)) p)) \<and>
           p < ti_num_pieces ?ti \<and> fo \<le> 4 \<and> 4 < fo + n \<and> p = (file_start ?ti 2 + 4) div ti_piece_length ?ti"
    by (rule mapping_partition)
  moreover have "file_start ?ti 2 = 4" by (simp add: file_start_def)
  ultimately show ?thesis by simp
qed

section \<open>Reachable selections\<close>

inductive selection_reachable :: "torrent_info \<Rightarrow> file_selection \<Rightarrow> bool" for ti where
  init: "selection_reachable ti (file_selection_init ti)"
| select: "selection_reachable ti sel \<Longrightarrow> selection_reachable ti (select_file i sel)"
| deselect: "selection_reachable ti sel \<Longrightarrow> selection_reachable ti (deselect_file i sel)"
| priority: "selection_reachable ti sel \<Longrightarrow> selection_reachable ti (set_file_priority i p sel)"
| selects: "selection_reachable ti sel \<Longrightarrow> selection_reachable ti (select_files is sel)"
| deselects: "selection_reachable ti sel \<Longrightarrow> selection_reachable ti (deselect_files is sel)"
| all: "selection_reachable ti sel \<Longrightarrow> selection_reachable ti (select_all sel)"
| none: "selection_reachable ti sel \<Longrightarrow> selection_reachable ti (deselect_all sel)"
| progress: "selection_reachable ti sel \<Longrightarrow> selection_reachable ti (update_file_progress i n sel)"

definition selection_ok :: "torrent_info \<Rightarrow> file_selection \<Rightarrow> bool" where
  "selection_ok ti sel \<longleftrightarrow> sel_mapper sel = build_mappings ti \<and>
     map fst (sel_states sel) = filter (real_file ti) [0..<length (ti_files ti)]"

lemma modify_state_ok: "selection_ok ti sel \<Longrightarrow> selection_ok ti (modify_state i f sel)"
proof (cases "map_of (sel_states sel) i")
  case (Some st)
  then have "i \<in> fst ` set (sel_states sel)" by (force dest: map_of_SomeD)
  then have "map fst (AList.update i (f st) (sel_states sel)) = map fst (sel_states sel)"
    by (simp add: update_keys)
  then show "selection_ok ti sel \<Longrightarrow> ?thesis" by (simp add: selection_ok_def modify_state_def Some)
qed (simp add: modify_state_def)

lemma fold_modify_state_ok:
  "selection_ok ti sel \<Longrightarrow> selection_ok ti (fold (\<lambda>i. modify_state i f) is sel)"
  by (induction "is" arbitrary: sel) (simp_all add: modify_state_ok)

lemma selection_init_ok: "selection_ok ti (file_selection_init ti)"
proof -
  have zip: "zip [0..<length fs] fs = map (\<lambda>i. (i, fs ! i)) [0..<length fs]" for fs :: "torrent_file list"
    by (rule nth_equalityI) simp_all
  have "map fst (sel_states (file_selection_init ti)) =
      filter (\<lambda>i. \<not> is_padding (ti_files ti ! i)) [0..<length (ti_files ti)]"
    by (simp add: file_selection_init_def zip filter_map comp_def)
  also have "\<dots> = filter (real_file ti) [0..<length (ti_files ti)]"
    by (rule filter_cong) (simp_all add: real_file_def)
  finally show ?thesis by (simp add: selection_ok_def file_selection_init_def)
qed

lemma selection_reachable_ok: "selection_reachable ti sel \<Longrightarrow> selection_ok ti sel"
proof (induction rule: selection_reachable.induct)
  case init
  show ?case by (rule selection_init_ok)
next
  case (all sel)
  then show ?case by (simp add: selection_ok_def select_all_def)
next
  case (none sel)
  then show ?case by (simp add: selection_ok_def deselect_all_def)
qed (simp_all add: select_file_def deselect_file_def set_file_priority_def select_files_def
    deselect_files_def update_file_progress_def modify_state_ok fold_modify_state_ok)

lemma selected_iff:
  assumes "selection_ok ti sel"
  shows "i \<in> set (get_selected_files sel) \<longleftrightarrow> is_file_selected sel i"
proof -
  have "distinct (map fst (sel_states sel))" using assms by (simp add: selection_ok_def)
  then have "map_of (sel_states sel) i = Some st \<longleftrightarrow> (i, st) \<in> set (sel_states sel)" for st by simp
  moreover have "is_file_selected sel i \<longleftrightarrow> (\<exists>st. map_of (sel_states sel) i = Some st \<and> st_selected st)"
    by (simp add: is_file_selected_def split: option.split)
  ultimately show ?thesis by (force simp: get_selected_files_def)
qed

lemma selected_real:
  assumes "selection_ok ti sel" and "is_file_selected sel i"
  shows "real_file ti i"
proof -
  from assms(2) have "i \<in> set (map fst (sel_states sel))"
    by (force simp: is_file_selected_def split: option.splits dest: map_of_SomeD)
  with assms(1) show ?thesis by (simp add: selection_ok_def)
qed

text \<open>A real file and a piece share a byte.\<close>

definition file_in_piece :: "torrent_info \<Rightarrow> nat \<Rightarrow> nat \<Rightarrow> bool" where
  "file_in_piece ti i p \<longleftrightarrow> (\<exists>off<file_length ti i. (file_start ti i + off) div ti_piece_length ti = p)"

lemma segments_file_iff:
  assumes "info_ok ti" and "real_file ti i"
  shows "i \<in> fst ` set (segments_of ti p) \<longleftrightarrow> file_in_piece ti i p"
proof
  assume "i \<in> fst ` set (segments_of ti p)"
  then obtain fo n where s: "(i, fo, n) \<in> set (segments_of ti p)" by force
  define lo hi where "lo = max (p * ti_piece_length ti) (file_start ti i)"
    and "hi = min (min (p * ti_piece_length ti + ti_piece_length ti) (ti_total_length ti))
      (file_start ti i + file_length ti i)"
  have "lo < hi" "fo = lo - file_start ti i" "n = hi - lo"
    using s by (simp_all add: segments_of_iff Let_def file_length_def lo_def hi_def)
  moreover have "file_start ti i \<le> lo" "hi \<le> file_start ti i + file_length ti i"
    by (simp_all add: lo_def hi_def)
  ultimately have "fo < fo + n" and "fo < file_length ti i" by linarith+
  with s have "\<exists>fo' n'. (i, fo', n') \<in> set (segments_of ti p) \<and> fo' \<le> fo \<and> fo < fo' + n'" by blast
  then have "p = (file_start ti i + fo) div ti_piece_length ti"
    using segment_at_byte [OF assms \<open>fo < file_length ti i\<close>] by blast
  with \<open>fo < file_length ti i\<close> show "file_in_piece ti i p" by (auto simp: file_in_piece_def)
next
  assume "file_in_piece ti i p"
  then obtain off where "off < file_length ti i" "p = (file_start ti i + off) div ti_piece_length ti"
    by (auto simp: file_in_piece_def)
  then show "i \<in> fst ` set (segments_of ti p)"
    using segment_at_byte [OF assms, of off p] by force
qed

lemma fold_max_priority:
  "fold (\<lambda>(fi, _, _) m. if sel fi then max m (pr fi) else m) segs m =
     Max (insert m (pr ` {i \<in> fst ` set segs. sel i}))" for pr :: "nat \<Rightarrow> file_priority"
proof (induction segs arbitrary: m)
  case (Cons x segs)
  obtain i a b where x: "x = (i, a, b)" by (cases x)
  have "{j \<in> fst ` set (x # segs). sel j} =
      (if sel i then insert i {j \<in> fst ` set segs. sel j} else {j \<in> fst ` set segs. sel j})"
    using x by auto
  moreover have "Max (insert (max m (pr i)) A) = Max (insert m (insert (pr i) A))" if "finite A" for A
    using that by (cases "A = {}") (simp_all add: ac_simps)
  ultimately show ?case using Cons.IH x by simp
qed simp

lemma piece_selection:
  assumes "selection_reachable ti sel" and "info_ok ti" and "p < ti_num_pieces ti"
  shows "map_of (mp_piece_to_files (sel_mapper sel)) p = Some (segments_of ti p)"
    and "{i \<in> fst ` set (segments_of ti p). is_file_selected sel i} =
      {i \<in> set (get_selected_files sel). file_in_piece ti i p}"
proof -
  have ok: "selection_ok ti sel" using assms(1) by (rule selection_reachable_ok)
  then show "map_of (mp_piece_to_files (sel_mapper sel)) p = Some (segments_of ti p)"
    using assms(3) by (simp add: selection_ok_def)
  show "{i \<in> fst ` set (segments_of ti p). is_file_selected sel i} =
      {i \<in> set (get_selected_files sel). file_in_piece ti i p}"
    using segments_file_iff [OF assms(2)] selected_real [OF ok] selected_iff [OF ok] by blast
qed

lemma piece_needed_iff:
  assumes "selection_reachable ti sel" and "info_ok ti" and "p < ti_num_pieces ti"
  shows "is_piece_needed sel p \<longleftrightarrow> (\<exists>i\<in>set (get_selected_files sel). file_in_piece ti i p)"
proof -
  have "is_piece_needed sel p \<longleftrightarrow> {i \<in> fst ` set (segments_of ti p). is_file_selected sel i} \<noteq> {}"
    by (force simp: is_piece_needed_def piece_selection(1) [OF assms] list_ex_iff)
  then show ?thesis unfolding piece_selection(2) [OF assms] by blast
qed

text \<open>
  C8: whatever was selected and deselected, a piece is needed exactly when it holds a byte of a
  selected file, and its priority is the greatest priority of the selected files it holds bytes of.
\<close>

theorem piece_needed_and_priority:
  assumes "selection_reachable ti sel" and "info_ok ti" and "p < ti_num_pieces ti"
  shows "(is_piece_needed sel p \<longleftrightarrow> (\<exists>i\<in>set (get_selected_files sel). file_in_piece ti i p)) \<and>
     get_piece_priority sel p = priority_value (Max (insert DO_NOT_DOWNLOAD
       (get_file_priority sel ` {i \<in> set (get_selected_files sel). file_in_piece ti i p})))"
  using piece_needed_iff [OF assms]
  by (simp add: get_piece_priority_def piece_selection [OF assms] fold_max_priority)

definition demo_info :: torrent_info where
  "demo_info = \<lparr>ti_files = [\<lparr>tf_length = 3, tf_attributes = None\<rparr>, \<lparr>tf_length = 5, tf_attributes = Some ''p''\<rparr>,
     \<lparr>tf_length = 4, tf_attributes = Some ''x''\<rparr>], ti_total_length = 12, ti_piece_length = 4, ti_num_pieces = 3\<rparr>"

lemma demo_info_ok: "info_ok demo_info"
  by (simp add: info_ok_def demo_info_def)

theorem piece_needed_and_priority_witness:
  "let sel = set_file_priority 2 HIGH (deselect_file 0 (file_selection_init demo_info)) in
     (is_piece_needed sel 2 \<longleftrightarrow> (\<exists>i\<in>set (get_selected_files sel). file_in_piece demo_info i 2)) \<and>
     get_piece_priority sel 2 = priority_value (Max (insert DO_NOT_DOWNLOAD
       (get_file_priority sel ` {i \<in> set (get_selected_files sel). file_in_piece demo_info i 2})))"
  unfolding Let_def
  by (rule piece_needed_and_priority)
    (simp_all add: selection_reachable.intros demo_info_ok, simp add: demo_info_def)

text \<open>A piece with padding only, as the second of the example, is never needed.\<close>

lemma padding_piece_not_needed:
  assumes "selection_reachable ti sel" and "info_ok ti" and "p < ti_num_pieces ti"
    and "\<And>i. real_file ti i \<Longrightarrow> \<not> file_in_piece ti i p"
  shows "\<not> is_piece_needed sel p"
  using piece_needed_iff [OF assms(1-3)] selection_reachable_ok [OF assms(1)] assms(4)
    selected_iff selected_real by blast

text \<open>A selected file of priority \<open>DO_NOT_DOWNLOAD\<close> is downloaded all the same.\<close>

lemma do_not_download_still_needed:
  "let sel = set_file_priority 0 DO_NOT_DOWNLOAD (file_selection_init demo_info)
   in is_piece_needed sel 0 \<and> get_piece_priority sel 0 = 0"
  by code_simp

text \<open>The two directions of the mapping agree, and the pieces of a file come in order.\<close>

lemma pieces_for_file_iff:
  assumes "selection_ok ti sel"
  shows "p \<in> set (get_pieces_for_file sel i) \<longleftrightarrow> i \<in> set (get_files_for_piece sel p)"
    and "sorted_wrt (<) (get_pieces_for_file sel i)"
proof -
  have "get_pieces_for_file sel i = filter (\<lambda>p. i \<in> fst ` set (segments_of ti p)) [0..<ti_num_pieces ti]"
    using assms file_to_pieces_of [of ti i]
    by (simp add: get_pieces_for_file_def reverse_of_def selection_ok_def)
  with assms show "p \<in> set (get_pieces_for_file sel i) \<longleftrightarrow> i \<in> set (get_files_for_piece sel p)"
    and "sorted_wrt (<) (get_pieces_for_file sel i)"
    by (simp_all add: get_files_for_piece_def selection_ok_def sorted_wrt_filter)
qed

end
