(* ===== verification/Piece_Manager.thy ===== *)
theory Piece_Manager
  imports Piece_Data File_Selection
begin

text \<open>
  \<open>AsyncPieceManager\<close> of \<open>ccbt/piece/async_piece_manager.py\<close>: the state, the pieces, the
  availability of pieces at peers, requests, received blocks and verification. The asyncio lock is
  part of the state: a coroutine that finds it taken waits, and \<open>asyncio.Lock\<close> is not reentrant.
  A coroutine that gives up control between two parts (a request to peers, a verification in the
  thread pool) is one definition per part. Times, statistics and log messages are left out.
\<close>

unbundle bit_operations_syntax

section \<open>State and configuration\<close>

datatype selection_strategy = RAREST_FIRST | SEQUENTIAL | ROUND_ROBIN

text \<open>
  The two comparisons with floating-point thresholds of the configuration are parameters:
  \<open>pc_endgame_test remaining total\<close> and \<open>pc_fallback_test availability pieces peers\<close>.
\<close>

record pm_config =
  pc_block_size :: nat
  pc_streaming_mode :: bool
  pc_strategy :: selection_strategy
  pc_sequential_window :: nat
  pc_fallback_test :: "int \<Rightarrow> nat \<Rightarrow> nat \<Rightarrow> bool"
  pc_endgame_duplicates :: nat
  pc_endgame_test :: "nat \<Rightarrow> nat \<Rightarrow> bool"
  pc_chunk_size :: nat

record torrent_data =
  td_num_pieces :: nat
  td_piece_length :: "nat option"
  td_piece_hashes :: "bytes list option"
  td_total_length :: "int option"
  td_piece_layers :: "(bytes \<times> bytes list) list"
  td_meta_version :: nat

record piece_manager =
  m_torrent :: torrent_data
  m_num_pieces :: nat
  m_piece_length :: nat
  m_piece_hashes :: "bytes list"
  m_piece_layers :: "(bytes \<times> bytes list) list"
  m_meta_version :: nat
  m_files :: "file_selection option"
  m_pieces :: "piece_data list"
  m_completed :: "nat set"
  m_verified :: "nat set"
  m_lock :: bool
  m_availability :: "(string \<times> nat set) list"
  m_frequency :: "(nat \<times> int) list"
  m_endgame_mode :: bool
  m_is_downloading :: bool
  m_download_complete :: bool
  m_bytes_downloaded :: nat
  m_current_sequential :: nat
  m_has_peer_manager :: bool
  m_completed_callback :: bool
  m_request_tasks :: "nat list"
  m_verify_tasks :: "nat list"

type_synonym 'a coroutine = "piece_manager \<Rightarrow> ('a \<times> piece_manager, piece_manager) outcome"

text \<open>\<open>async with self.lock\<close>.\<close>

definition with_lock :: "'a coroutine \<Rightarrow> 'a coroutine" where
  "with_lock = guarded m_lock (\<lambda>b m. m\<lparr>m_lock := b\<rparr>)"

interpretation piece_lock: lock m_lock "\<lambda>b m. m\<lparr>m_lock := b\<rparr>"
  by standard simp

lemma with_lock_eq: "with_lock body m =
    (if m_lock m then Waits m
     else obind (body (m\<lparr>m_lock := True\<rparr>)) (\<lambda>(x, m). Done (x, m\<lparr>m_lock := False\<rparr>)))"
  by (simp add: with_lock_def guarded_def)

text \<open>A body without a suspension point.\<close>

definition locked :: "(piece_manager \<Rightarrow> piece_manager) \<Rightarrow> unit coroutine" where
  "locked f = with_lock (\<lambda>m. Done ((), f m))"

section \<open>Pieces\<close>

text \<open>The priority a new piece gets from the streaming mode and from its files.\<close>

definition initial_priority :: "pm_config \<Rightarrow> file_selection option \<Rightarrow> nat \<Rightarrow> nat \<Rightarrow> int" where
  "initial_priority cfg fs n i =
     (let p = (if pc_streaming_mode cfg
               then if i = 0 then 1000 else if i = n - 1 then 100 else max 0 (1000 - int i)
               else 0)
      in case fs of None \<Rightarrow> p | Some sel \<Rightarrow> max p (int (get_piece_priority sel i) * 100))"

text \<open>The last piece gets what is left of the total length, or a full piece when nothing is.\<close>

definition actual_piece_length :: "int option \<Rightarrow> nat \<Rightarrow> nat \<Rightarrow> nat \<Rightarrow> nat" where
  "actual_piece_length declared n piece_length i =
     (if i = n - 1
      then let total_length = (case declared of Some t \<Rightarrow> t | None \<Rightarrow> int n * int piece_length);
               rest = total_length - int i * int piece_length
           in if rest \<le> 0 then piece_length else nat rest
      else piece_length)"

definition init_pieces :: "pm_config \<Rightarrow> file_selection option \<Rightarrow> nat \<Rightarrow> (nat \<Rightarrow> nat) \<Rightarrow> piece_data list" where
  "init_pieces cfg fs n len =
     map (\<lambda>i. (new_piece (pc_block_size cfg) i (len i))\<lparr>p_priority := initial_priority cfg fs n i\<rparr>) [0..<n]"

definition pm_init :: "pm_config \<Rightarrow> file_selection option \<Rightarrow> torrent_data \<Rightarrow> piece_manager" where
  "pm_init cfg fs td =
     (let piece_length = (case td_piece_length td of None \<Rightarrow> 16384 | Some l \<Rightarrow> l)
      in \<lparr>m_torrent = td, m_num_pieces = td_num_pieces td, m_piece_length = piece_length,
          m_piece_hashes = (case td_piece_hashes td of None \<Rightarrow> [] | Some hs \<Rightarrow> hs),
          m_piece_layers = td_piece_layers td, m_meta_version = td_meta_version td, m_files = fs,
          m_pieces = init_pieces cfg fs (td_num_pieces td)
            (actual_piece_length (td_total_length td) (td_num_pieces td) piece_length),
          m_completed = {}, m_verified = {}, m_lock = False, m_availability = [], m_frequency = [],
          m_endgame_mode = False, m_is_downloading = False, m_download_complete = False,
          m_bytes_downloaded = 0, m_current_sequential = 0, m_has_peer_manager = False,
          m_completed_callback = False, m_request_tasks = [], m_verify_tasks = []\<rparr>)"

text \<open>
  The pieces made on the fly, by the selector and by a request, when there are none although
  their number is known: all with the full piece length.
\<close>

definition fallback_pieces :: "pm_config \<Rightarrow> piece_manager \<Rightarrow> piece_manager" where
  "fallback_pieces cfg m =
     (let m = (if m_piece_length m = 0
               then m\<lparr>m_piece_length := (case td_piece_length (m_torrent m) of Some l \<Rightarrow> l | None \<Rightarrow> 16384)\<rparr>
               else m)
      in m\<lparr>m_pieces := init_pieces cfg (m_files m) (m_num_pieces m) (\<lambda>_. m_piece_length m)\<rparr>)"

definition update_piece :: "nat \<Rightarrow> (piece_data \<Rightarrow> piece_data) \<Rightarrow> piece_manager \<Rightarrow> piece_manager" where
  "update_piece i f m = m\<lparr>m_pieces := (m_pieces m)[i := f (m_pieces m ! i)]\<rparr>"

text \<open>A piece whose state claims more than its blocks goes back to missing.\<close>

definition correct_piece :: "piece_data \<Rightarrow> piece_data" where
  "correct_piece p =
     (if p_state p \<in> {COMPLETE, VERIFIED} \<and> \<not> is_complete p
      then p\<lparr>p_state := MISSING, p_hash_verified := False\<rparr> else p)"

definition missing_indices :: "piece_data list \<Rightarrow> nat list" where
  "missing_indices ps = filter (\<lambda>i. p_state (correct_piece (ps ! i)) = MISSING) [0..<length ps]"

definition get_missing_pieces :: "piece_manager \<Rightarrow> nat list \<times> piece_manager" where
  "get_missing_pieces m =
     (let (missing, m) =
        (if m_pieces m = [] \<and> m_num_pieces m > 0 then ([0..<m_num_pieces m], m)
         else if length (m_pieces m) \<noteq> m_num_pieces m \<and> m_num_pieces m > 0
         then (missing_indices (m_pieces m) @ [length (m_pieces m)..<m_num_pieces m],
               m\<lparr>m_pieces := map correct_piece (m_pieces m)\<rparr>)
         else (missing_indices (m_pieces m), m\<lparr>m_pieces := map correct_piece (m_pieces m)\<rparr>))
      in (case m_files m of None \<Rightarrow> missing | Some sel \<Rightarrow> filter (is_piece_needed sel) missing, m))"

definition get_downloading_pieces :: "piece_manager \<Rightarrow> nat list" where
  "get_downloading_pieces m =
     filter (\<lambda>i. p_state (m_pieces m ! i) = DOWNLOADING) [0..<length (m_pieces m)]"

definition get_piece_data :: "nat \<Rightarrow> piece_manager \<Rightarrow> bytes option py" where
  "get_piece_data i m =
     (if i \<ge> length (m_pieces m) then Inr None
      else if p_state (m_pieces m ! i) = VERIFIED then pbind (get_data (m_pieces m ! i)) (\<lambda>d. Inr (Some d))
      else Inr None)"

definition get_block :: "nat \<Rightarrow> nat \<Rightarrow> nat \<Rightarrow> piece_manager \<Rightarrow> bytes option" where
  "get_block i bg len m =
     (if i \<ge> length (m_pieces m) then None
      else if p_state (m_pieces m ! i) \<noteq> VERIFIED then None
      else case find (\<lambda>b. b_begin b \<le> bg \<and> bg < b_begin b + b_length b) (p_blocks (m_pieces m ! i)) of
             None \<Rightarrow> None
           | Some b \<Rightarrow> let offset = bg - b_begin b; end_offset = min (offset + len) (b_length b)
                       in Some (take (end_offset - offset) (drop offset (b_data b))))"

section \<open>Availability of pieces at peers\<close>

definition add_peer :: "string \<Rightarrow> piece_manager \<Rightarrow> piece_manager" where
  "add_peer key m =
     (if map_of (m_availability m) key = None
      then m\<lparr>m_availability := AList.update key {} (m_availability m)\<rparr> else m)"

text \<open>\<open>Counter\<close>: an absent key counts zero; adding to a count stores it.\<close>

definition count_of :: "(nat \<times> int) list \<Rightarrow> nat \<Rightarrow> int" where
  "count_of c i = (case map_of c i of None \<Rightarrow> 0 | Some n \<Rightarrow> n)"

definition count_add :: "int \<Rightarrow> nat \<Rightarrow> (nat \<times> int) list \<Rightarrow> (nat \<times> int) list" where
  "count_add d i c = AList.update i (count_of c i + d) c"

definition count_drop :: "nat \<Rightarrow> (nat \<times> int) list \<Rightarrow> (nat \<times> int) list" where
  "count_drop i c =
     (let c = count_add (- 1) i c in if count_of c i \<le> 0 then AList.delete i c else c)"

text \<open>Sets of piece numbers are gone through in increasing order.\<close>

definition remove_peer :: "string \<Rightarrow> piece_manager \<Rightarrow> piece_manager" where
  "remove_peer key m =
     (case map_of (m_availability m) key of
        None \<Rightarrow> m
      | Some pieces \<Rightarrow>
          m\<lparr>m_frequency := fold count_drop (sorted_list_of_set pieces) (m_frequency m),
            m_availability := AList.delete key (m_availability m)\<rparr>)"

definition parse_bitfield :: "nat \<Rightarrow> bytes \<Rightarrow> nat set" where
  "parse_bitfield num_pieces bitfield =
     set (filter (\<lambda>i. i < num_pieces \<and> bitfield ! (i div 8) AND push_bit (7 - i mod 8) 1 \<noteq> 0)
       [0..<8 * length bitfield])"

definition peer_pieces :: "string \<Rightarrow> piece_manager \<Rightarrow> nat set" where
  "peer_pieces key m = (case map_of (m_availability m) key of None \<Rightarrow> {} | Some pieces \<Rightarrow> pieces)"

definition update_peer_availability :: "string \<Rightarrow> bytes \<Rightarrow> unit coroutine" where
  "update_peer_availability key bitfield = locked (\<lambda>m.
     let pieces = parse_bitfield (m_num_pieces m) bitfield;
         old_pieces = peer_pieces key m
     in m\<lparr>m_availability := AList.update key pieces (m_availability m),
          m_frequency := fold (count_add 1) (sorted_list_of_set (pieces - old_pieces))
            (fold (count_add (- 1)) (sorted_list_of_set (old_pieces - pieces)) (m_frequency m))\<rparr>)"

definition update_peer_have :: "string \<Rightarrow> nat \<Rightarrow> unit coroutine" where
  "update_peer_have key i = locked (\<lambda>m.
     let old_pieces = peer_pieces key m
     in m\<lparr>m_availability := AList.update key (insert i old_pieces) (m_availability m),
          m_frequency := (if i \<notin> old_pieces then count_add 1 i (m_frequency m) else m_frequency m)\<rparr>)"

definition get_piece_availability :: "nat \<Rightarrow> int py coroutine" where
  "get_piece_availability i = with_lock (\<lambda>m.
     Done (if i \<ge> length (m_pieces m) then Inl ValueError else Inr (count_of (m_frequency m) i), m))"

section \<open>Requesting a piece\<close>

text \<open>
  The first part of \<open>request_piece_from_peers\<close>: it creates the pieces when there are none, and
  claims a missing piece. \<open>True\<close>: the coroutine goes on to the peers.
\<close>

definition claim_piece :: "pm_config \<Rightarrow> nat \<Rightarrow> bool coroutine" where
  "claim_piece cfg i m =
     obind
       (if m_num_pieces m > 0 \<and> m_pieces m = [] then locked (fallback_pieces cfg) m else Done ((), m))
       (\<lambda>(_, m). with_lock (\<lambda>m.
          if i \<ge> length (m_pieces m) then Done (False, m)
          else if p_state (m_pieces m ! i) \<noteq> MISSING then Done (False, m)
          else Done (True, update_piece i (\<lambda>p. p\<lparr>p_state := REQUESTED, p_request_count := p_request_count p + 1\<rparr>) m)) m)"

text \<open>A connection is its key with whether \<open>can_request\<close> holds.\<close>

definition get_peers_for_piece :: "nat \<Rightarrow> (string \<times> bool) list \<Rightarrow> piece_manager \<Rightarrow> string list" where
  "get_peers_for_piece i active m =
     map fst (filter (\<lambda>(key, can_request). i \<in> peer_pieces key m \<and> can_request) active)"

text \<open>
  The distribution of the missing blocks: \<open>can_request\<close> and \<open>request\<close> are the peer manager's,
  over its state. The result is the list of requests made, with their peers, in order.
\<close>

fun request_from :: "('s \<Rightarrow> string \<Rightarrow> bool) \<Rightarrow> (string \<Rightarrow> piece_block \<Rightarrow> 's \<Rightarrow> 's) \<Rightarrow> string \<Rightarrow>
    piece_block list \<Rightarrow> 's \<Rightarrow> (string \<times> piece_block) list \<times> 's" where
  "request_from can request peer [] s = ([], s)"
| "request_from can request peer (b # bs) s =
     (if can s peer
      then let (rs, s') = request_from can request peer bs (request peer b s) in ((peer, b) # rs, s')
      else request_from can request peer bs s)"

fun request_normal_from :: "('s \<Rightarrow> string \<Rightarrow> bool) \<Rightarrow> (string \<Rightarrow> piece_block \<Rightarrow> 's \<Rightarrow> 's) \<Rightarrow> nat \<Rightarrow>
    piece_block list \<Rightarrow> nat \<Rightarrow> string list \<Rightarrow> 's \<Rightarrow> (string \<times> piece_block) list \<times> 's" where
  "request_normal_from can request blocks_per_peer missing i [] s = ([], s)"
| "request_normal_from can request blocks_per_peer missing i (peer # peers) s =
     (let start_block = i * blocks_per_peer;
          end_block = min (start_block + blocks_per_peer) (length missing)
      in if start_block \<ge> length missing then ([], s)
         else let (rs, s) = request_from can request peer
                    (take (end_block - start_block) (drop start_block missing)) s;
                  (rs', s) = request_normal_from can request blocks_per_peer missing (i + 1) peers s
              in (rs @ rs', s))"

text \<open>Peers are sorted by a reliability score, which nothing ever changes from its default.\<close>

definition request_blocks_normal :: "('s \<Rightarrow> string \<Rightarrow> bool) \<Rightarrow> (string \<Rightarrow> piece_block \<Rightarrow> 's \<Rightarrow> 's) \<Rightarrow>
    piece_block list \<Rightarrow> string list \<Rightarrow> 's \<Rightarrow> (string \<times> piece_block) list \<times> 's" where
  "request_blocks_normal can request missing peers s =
     (let blocks_per_peer = max 1 (length missing div length peers)
      in request_normal_from can request blocks_per_peer missing 0 peers s)"

fun request_block_endgame :: "('s \<Rightarrow> string \<Rightarrow> bool) \<Rightarrow> (string \<Rightarrow> piece_block \<Rightarrow> 's \<Rightarrow> 's) \<Rightarrow>
    piece_block \<Rightarrow> string list \<Rightarrow> 's \<Rightarrow> (string \<times> piece_block) list \<times> 's" where
  "request_block_endgame can request b [] s = ([], s)"
| "request_block_endgame can request b (peer # peers) s =
     (if can s peer
      then let (rs, s') = request_block_endgame can request b peers (request peer b s) in ((peer, b) # rs, s')
      else request_block_endgame can request b peers s)"

fun request_blocks_endgame :: "nat \<Rightarrow> ('s \<Rightarrow> string \<Rightarrow> bool) \<Rightarrow> (string \<Rightarrow> piece_block \<Rightarrow> 's \<Rightarrow> 's) \<Rightarrow>
    piece_block list \<Rightarrow> string list \<Rightarrow> 's \<Rightarrow> (string \<times> piece_block) list \<times> 's" where
  "request_blocks_endgame duplicates can request [] peers s = ([], s)"
| "request_blocks_endgame duplicates can request (b # bs) peers s =
     (let (rs, s) = request_block_endgame can request b (take duplicates (filter (can s) peers)) s;
          (rs', s) = request_blocks_endgame duplicates can request bs peers s
      in (rs @ rs', s))"

definition release_piece :: "nat \<Rightarrow> unit coroutine" where
  "release_piece i = locked (update_piece i (\<lambda>p. p\<lparr>p_state := MISSING\<rparr>))"

definition finish_request :: "nat \<Rightarrow> unit coroutine" where
  "finish_request i = locked (update_piece i (\<lambda>p. p\<lparr>p_state := DOWNLOADING\<rparr>))"

text \<open>
  \<open>request_piece_from_peers\<close> up to the requests: the blocks and the peers to ask, if there are
  any. \<open>active\<close> is what \<open>get_active_peers\<close> returns. After the requests, which wait for the
  network, \<open>finish_request\<close> is the rest of the coroutine.
\<close>

definition start_request :: "pm_config \<Rightarrow> nat \<Rightarrow> (string \<times> bool) list \<Rightarrow>
    (piece_block list \<times> string list) option coroutine" where
  "start_request cfg i active m =
     obind (claim_piece cfg i m) (\<lambda>(claimed, m).
       if \<not> claimed then Done (None, m)
       else let peers = get_peers_for_piece i active m
            in if peers = [] then obind (release_piece i m) (\<lambda>(_, m). Done (None, m))
               else let missing = get_missing_blocks (m_pieces m ! i)
                    in if missing = [] then Done (None, m) else Done (Some (missing, peers), m))"

definition request_blocks :: "pm_config \<Rightarrow> ('s \<Rightarrow> string \<Rightarrow> bool) \<Rightarrow> (string \<Rightarrow> piece_block \<Rightarrow> 's \<Rightarrow> 's) \<Rightarrow>
    bool \<Rightarrow> piece_block list \<Rightarrow> string list \<Rightarrow> 's \<Rightarrow> (string \<times> piece_block) list \<times> 's" where
  "request_blocks cfg can request endgame missing peers s =
     (if endgame then request_blocks_endgame (pc_endgame_duplicates cfg) can request missing peers s
      else request_blocks_normal can request missing peers s)"

section \<open>Blocks and verification\<close>

text \<open>Every accepted block counts the whole part of each file that lies in the piece.\<close>

definition bytes_of_file :: "file_selection \<Rightarrow> nat \<Rightarrow> nat \<Rightarrow> nat" where
  "bytes_of_file sel i file_index =
     (case map_of (mp_piece_to_files (sel_mapper sel)) i of
        None \<Rightarrow> 0
      | Some segments \<Rightarrow> sum_list (map (\<lambda>(_, _, n). n) (filter (\<lambda>(fi, _, _). fi = file_index) segments)))"

definition count_file_progress :: "nat \<Rightarrow> file_selection \<Rightarrow> file_selection" where
  "count_file_progress i sel =
     fold (\<lambda>fi s. case get_file_state s fi of
         None \<Rightarrow> s
       | Some st \<Rightarrow> update_file_progress fi (st_bytes_downloaded st + bytes_of_file s i fi) s)
       (get_files_for_piece sel i) sel"

definition handle_piece_block :: "nat \<Rightarrow> nat \<Rightarrow> bytes \<Rightarrow> unit coroutine" where
  "handle_piece_block i bg data = locked (\<lambda>m.
     if i \<ge> length (m_pieces m) then m
     else let (added, p) = piece_add_block bg data (m_pieces m ! i);
              m = m\<lparr>m_pieces := (m_pieces m)[i := p]\<rparr>
          in if added
             then let m = (if p_state p = COMPLETE then m\<lparr>m_completed := insert i (m_completed m)\<rparr> else m);
                      m = m\<lparr>m_files := map_option (count_file_progress i) (m_files m)\<rparr>
                  in if m_completed_callback m then m\<lparr>m_verify_tasks := m_verify_tasks m @ [i]\<rparr> else m
             else m)"

fun v2_hash_in :: "nat \<Rightarrow> (bytes \<times> bytes list) list \<Rightarrow> bytes option" where
  "v2_hash_in i [] = None"
| "v2_hash_in i ((_, piece_list) # layers) =
     (if i < length piece_list then Some (piece_list ! i) else v2_hash_in (i - length piece_list) layers)"

definition get_v2_piece_hash :: "nat \<Rightarrow> piece_manager \<Rightarrow> bytes option" where
  "get_v2_piece_hash i m = (if m_piece_layers m = [] then None else v2_hash_in i (m_piece_layers m))"

text \<open>The verdict of \<open>_verify_piece_hash\<close>; exceptions (an index without hash) are caught.\<close>

definition piece_hash_valid :: "pm_config \<Rightarrow> nat \<Rightarrow> piece_manager \<Rightarrow> bool" where
  "piece_hash_valid cfg i m =
     (let p = m_pieces m ! i; ok = hash_piece_optimized (pc_chunk_size cfg) p
      in if m_meta_version m = 2
         then (case get_v2_piece_hash i m of None \<Rightarrow> False | Some h \<Rightarrow> ok h)
         else if i \<ge> length (m_piece_hashes m) then False
         else if m_meta_version m = 3
         then ok (m_piece_hashes m ! i) \<and> (case get_v2_piece_hash i m of None \<Rightarrow> False | Some h \<Rightarrow> ok h)
         else ok (m_piece_hashes m ! i))"

text \<open>
  \<open>_verify_piece_hash\<close> hashes in the thread pool, and when the hash is right goes on with
  \<open>finish_verification\<close>.
\<close>

definition finish_verification :: "nat \<Rightarrow> unit coroutine" where
  "finish_verification i m =
     obind (locked (\<lambda>m. update_piece i (\<lambda>p. p\<lparr>p_state := VERIFIED\<rparr>)
                          (m\<lparr>m_verified := insert i (m_verified m)\<rparr>)) m) (\<lambda>(_, m).
     Done ((), if card (m_verified m) = m_num_pieces m then m\<lparr>m_download_complete := True\<rparr> else m))"

definition verify_piece_hash :: "pm_config \<Rightarrow> nat \<Rightarrow> unit coroutine" where
  "verify_piece_hash cfg i m = (if piece_hash_valid cfg i m then finish_verification i m else Done ((), m))"

definition pending_pieces :: "piece_manager \<Rightarrow> nat list" where
  "pending_pieces m = filter (\<lambda>i. p_state (m_pieces m ! i) = COMPLETE \<and> \<not> p_hash_verified (m_pieces m ! i))
     [0..<length (m_pieces m)]"

fun verify_all :: "pm_config \<Rightarrow> nat list \<Rightarrow> unit coroutine" where
  "verify_all cfg [] m = Done ((), m)"
| "verify_all cfg (i # is) m = obind (verify_piece_hash cfg i m) (\<lambda>(_, m). verify_all cfg is m)"

definition verify_pending_pieces_batch :: "pm_config \<Rightarrow> unit coroutine" where
  "verify_pending_pieces_batch cfg m =
     obind (with_lock (\<lambda>m. Done (pending_pieces m, m)) m) (\<lambda>(pending, m). verify_all cfg pending m)"

definition mark_piece_requested :: "nat \<Rightarrow> unit coroutine" where
  "mark_piece_requested i = locked (\<lambda>m.
     if i < length (m_pieces m) then update_piece i (\<lambda>p. p\<lparr>p_state := REQUESTED\<rparr>) m else m)"

definition set_piece_priority :: "nat \<Rightarrow> int \<Rightarrow> unit coroutine" where
  "set_piece_priority i priority = locked (\<lambda>m.
     if i < length (m_pieces m) then update_piece i (\<lambda>p. p\<lparr>p_priority := priority\<rparr>) m else m)"

definition on_piece_completed :: "nat \<Rightarrow> unit coroutine" where
  "on_piece_completed i = locked (\<lambda>m.
     if i < length (m_pieces m)
     then update_piece i (\<lambda>p. p\<lparr>p_state := COMPLETE\<rparr>) (m\<lparr>m_verified := insert i (m_verified m)\<rparr>) else m)"

end
