(* ===== verification/Piece_Selection.thy ===== *)
theory Piece_Selection
  imports Piece_Manager "HOL-Library.Product_Lexorder"
begin

text \<open>
  \<open>AsyncPieceManager\<close> of \<open>ccbt/piece/async_piece_manager.py\<close>, second part: the selection
  strategies, the start of a download, and checkpoints.
\<close>

section \<open>Strategies\<close>

text \<open>The tasks made for the selected pieces, one \<open>request_piece_from_peers\<close> each.\<close>

definition add_request_tasks :: "nat list \<Rightarrow> piece_manager \<Rightarrow> piece_manager" where
  "add_request_tasks is m =
     (if m_has_peer_manager m then m\<lparr>m_request_tasks := m_request_tasks m @ is\<rparr> else m)"

definition select_rarest_piece :: "nat option coroutine" where
  "select_rarest_piece = with_lock (\<lambda>m.
     let missing = filter (\<lambda>i. p_state (m_pieces m ! i) = MISSING) [0..<length (m_pieces m)];
         available = filter (\<lambda>i. count_of (m_frequency m) i > 0) missing;
         scores = rev (sort (map (\<lambda>i. ((1000 - count_of (m_frequency m) i) + p_priority (m_pieces m ! i), i)) available))
     in case scores of
          [] \<Rightarrow> Done (None, m)
        | (_, i) # _ \<Rightarrow> Done (Some i, update_piece i (\<lambda>p. p\<lparr>p_state := REQUESTED\<rparr>) m))"

definition piece_score :: "piece_manager \<Rightarrow> nat \<Rightarrow> int" where
  "piece_score m i =
     (1000 - count_of (m_frequency m) i) +
     (case m_files m of None \<Rightarrow> p_priority (m_pieces m ! i)
                      | Some sel \<Rightarrow> max (p_priority (m_pieces m ! i)) (int (get_piece_priority sel i) * 100))"

definition rarest_first :: "piece_manager \<Rightarrow> nat list \<Rightarrow> nat list" where
  "rarest_first m missing =
     filter (\<lambda>i. p_state (m_pieces m ! i) = MISSING)
       (map snd (take 5 (rev (sort (map (\<lambda>i. (piece_score m i, i)) missing)))))"

text \<open>A missing index without a piece raises \<open>IndexError\<close>.\<close>

definition select_rarest_first :: "unit py coroutine" where
  "select_rarest_first = with_lock (\<lambda>m.
     let (missing, m) = get_missing_pieces m
     in if list_all (\<lambda>i. i < length (m_pieces m)) missing
        then Done (Inr (), add_request_tasks (rarest_first m missing) m)
        else Done (Inl IndexError, m))"

definition get_current_sequential_piece :: "piece_manager \<Rightarrow> nat \<times> piece_manager" where
  "get_current_sequential_piece m =
     (if m_current_sequential m > 0 then (m_current_sequential m, m)
      else let (missing, m) = get_missing_pieces m
           in (if missing = [] then 0 else Min (set missing), m))"

definition file_order :: "file_selection \<Rightarrow> nat \<Rightarrow> nat option" where
  "file_order sel i =
     (let selected = get_selected_files sel; files = get_files_for_piece sel i
      in find (\<lambda>k. selected ! k \<in> set files) [0..<length selected])"

definition sort_by_file_priority :: "file_selection option \<Rightarrow> nat list \<Rightarrow> nat list" where
  "sort_by_file_priority fs is =
     (case fs of
        None \<Rightarrow> sort is
      | Some sel \<Rightarrow>
          map snd (sort (concat (map (\<lambda>i. case file_order sel i of None \<Rightarrow> [] | Some k \<Rightarrow> [(k, i)]) is))))"

definition window_pieces :: "nat \<Rightarrow> nat list \<Rightarrow> piece_manager \<Rightarrow> nat list \<times> piece_manager" where
  "window_pieces window_size missing m =
     (let (current, m) = get_current_sequential_piece m;
          window_end = min (current + window_size) (length (m_pieces m))
      in (filter (\<lambda>i. current \<le> i \<and> i < window_end) missing, m))"

definition by_files :: "piece_manager \<Rightarrow> nat list \<Rightarrow> nat list" where
  "by_files m is = (case m_files m of None \<Rightarrow> is | Some sel \<Rightarrow> sort_by_file_priority (Some sel) is)"

definition select_sequential :: "pm_config \<Rightarrow> unit py coroutine" where
  "select_sequential cfg = with_lock (\<lambda>m.
     let (missing, m) = get_missing_pieces m
     in if missing = [] then Done (Inr (), m)
        else let (window, m) = window_pieces (pc_sequential_window cfg) missing m;
                 window = (if window = [] then [] else by_files m window)
             in case find (\<lambda>i. p_state (m_pieces m ! i) = MISSING \<and> m_has_peer_manager m) window of
                  None \<Rightarrow> Done (Inr (), m)
                | Some i \<Rightarrow> Done (Inr (), add_request_tasks [i] m))"

definition select_sequential_with_window :: "nat \<Rightarrow> unit py coroutine" where
  "select_sequential_with_window window_size = with_lock (\<lambda>m.
     let (missing, m) = get_missing_pieces m
     in if missing = [] then Done (Inr (), m)
        else let (window, m) = window_pieces window_size missing m
             in if window = [] then Done (Inr (), m)
                else case by_files m window of
                       [] \<Rightarrow> Done (Inl IndexError, m)
                     | i # _ \<Rightarrow> Done (Inr (), if p_state (m_pieces m ! i) = MISSING
                                             then add_request_tasks [i] m else m))"

text \<open>The strategies that await another strategy while they hold the lock.\<close>

definition select_sequential_with_fallback :: "pm_config \<Rightarrow> unit py coroutine" where
  "select_sequential_with_fallback cfg = with_lock (\<lambda>m.
     let (missing, m) = get_missing_pieces m
     in if missing = [] then Done (Inr (), m)
        else let window_start = Min (set missing);
                 window_end = min (window_start + pc_sequential_window cfg) (length (m_pieces m));
                 window = filter (\<lambda>i. window_start \<le> i \<and> i < window_end) missing;
                 peers = length (m_availability m)
             in if window \<noteq> [] \<and> peers > 0 \<and>
                   pc_fallback_test cfg (sum_list (map (count_of (m_frequency m)) window)) (length window) peers
                then select_rarest_first m
                else select_sequential cfg m)"

definition some_peer_has :: "nat \<Rightarrow> piece_manager \<Rightarrow> bool" where
  "some_peer_has i m \<longleftrightarrow> list_ex (\<lambda>(_, pieces). i \<in> pieces) (m_availability m)"

fun prioritize_startup :: "nat list \<Rightarrow> unit coroutine" where
  "prioritize_startup [] m = Done ((), m)"
| "prioritize_startup (i # is) m =
     obind (with_lock (\<lambda>m. Done (some_peer_has i m, m)) m) (\<lambda>(has_peer, m).
       if has_peer then mark_piece_requested i m else prioritize_startup is m)"

definition select_sequential_streaming :: "pm_config \<Rightarrow> unit py coroutine" where
  "select_sequential_streaming cfg = with_lock (\<lambda>m.
     if \<not> pc_streaming_mode cfg then select_sequential cfg m
     else if m_piece_length m = 0 then Done (Inl ZeroDivisionError, m)
     else let pieces_needed = 10000000 div m_piece_length m;
              dynamic_window = max (pc_sequential_window cfg) pieces_needed;
              (current, m) = get_current_sequential_piece m
          in obind (if current < 5
                    then let (missing, m) = get_missing_pieces m
                         in prioritize_startup (filter (\<lambda>i. i \<in> set missing) [0..<5]) m
                    else Done ((), m))
               (\<lambda>(_, m). select_sequential_with_window dynamic_window m))"

definition handle_streaming_seek :: "pm_config \<Rightarrow> nat \<Rightarrow> unit py coroutine" where
  "handle_streaming_seek cfg target = with_lock (\<lambda>m.
     let m = m\<lparr>m_current_sequential := target\<rparr>;
         seek_start = target - 2;
         seek_end = min (target + pc_sequential_window cfg) (length (m_pieces m));
         (missing, m) = get_missing_pieces m;
         m = fold (\<lambda>i m. if i \<in> set missing
                          then update_piece i (\<lambda>p. p\<lparr>p_priority := p_priority p + 500\<rparr>) m else m)
               [seek_start..<seek_end] m
     in select_sequential cfg m)"

definition select_round_robin :: "unit py coroutine" where
  "select_round_robin = with_lock (\<lambda>m.
     case filter (\<lambda>i. p_state (m_pieces m ! i) = MISSING) [0..<length (m_pieces m)] of
       [] \<Rightarrow> Done (Inr (), m)
     | i # _ \<Rightarrow> Done (Inr (), add_request_tasks [i] m))"

text \<open>
  \<open>_select_pieces\<close>, with the number of active peers the peer manager reports: it makes pieces
  where they are missing, puts states right, decides about the endgame, and runs the strategy.
\<close>

definition prepare_selection :: "pm_config \<Rightarrow> piece_manager \<Rightarrow> piece_manager" where
  "prepare_selection cfg m =
     (let m = (if m_pieces m \<noteq> [] \<and> m_num_pieces m = 0 then m\<lparr>m_num_pieces := length (m_pieces m)\<rparr>
               else if m_num_pieces m > 0 \<and> m_pieces m = [] then fallback_pieces cfg m
               else m);
          (missing, m) = get_missing_pieces m;
          m = m\<lparr>m_pieces := map correct_piece (m_pieces m)\<rparr>
      in if pc_endgame_test cfg (length missing) (m_num_pieces m) \<and> \<not> m_endgame_mode m
         then m\<lparr>m_endgame_mode := True\<rparr> else m)"

definition run_strategy :: "pm_config \<Rightarrow> unit py coroutine" where
  "run_strategy cfg =
     (case pc_strategy cfg of
        RAREST_FIRST \<Rightarrow> select_rarest_first
      | SEQUENTIAL \<Rightarrow> select_sequential cfg
      | ROUND_ROBIN \<Rightarrow> select_round_robin)"

definition select_pieces :: "pm_config \<Rightarrow> nat \<Rightarrow> unit py coroutine" where
  "select_pieces cfg active m =
     (if m_download_complete m then Done (Inr (), m)
      else if \<not> m_is_downloading m \<and> \<not> (m_has_peer_manager m \<and> active > 0) then Done (Inr (), m)
      else if \<not> m_has_peer_manager m then Done (Inr (), m)
      else if active = 0 then Done (Inr (), m)
      else run_strategy cfg (prepare_selection cfg m))"

section \<open>Starting a download\<close>

text \<open>
  What \<open>start_download\<close> learns from a connection when the number of pieces is unknown: the
  pieces its peer state lists, and its bitfield. \<open>int(n * 1.2)\<close> is \<open>6 * n div 5\<close>.
\<close>

fun infer_num_pieces :: "(nat list \<times> bytes option) list \<Rightarrow> int \<Rightarrow> nat \<Rightarrow> nat" where
  "infer_num_pieces [] max_piece_index inferred = inferred"
| "infer_num_pieces ((have, bitfield) # cs) max_piece_index inferred =
     (let max_piece_index = (if have = [] then max_piece_index
                             else max max_piece_index (int (Max (set have))));
          inferred = (case bitfield of
                        None \<Rightarrow> inferred
                      | Some bf \<Rightarrow> if bf = [] then inferred else max inferred (max 1 (length bf * 8 - 7)));
          inferred = (if max_piece_index \<ge> 0
                      then max inferred (6 * (nat max_piece_index + 1) div 5 + 1) else inferred)
      in infer_num_pieces cs max_piece_index inferred)"

definition exact_pieces :: "pm_config \<Rightarrow> piece_manager \<Rightarrow> piece_manager" where
  "exact_pieces cfg m = m\<lparr>m_pieces := init_pieces cfg (m_files m) (m_num_pieces m)
     (actual_piece_length (td_total_length (m_torrent m)) (m_num_pieces m) (m_piece_length m))\<rparr>"

text \<open>The metadata that may have arrived since the manager was made.\<close>

definition refresh_metadata :: "pm_config \<Rightarrow> piece_manager \<Rightarrow> piece_manager" where
  "refresh_metadata cfg m =
     (let td = m_torrent m
      in if td_num_pieces td > 0 \<and> m_num_pieces m = 0
         then let m = m\<lparr>m_num_pieces := td_num_pieces td\<rparr>;
                  m = (case td_piece_length td of None \<Rightarrow> m | Some l \<Rightarrow> m\<lparr>m_piece_length := l\<rparr>);
                  m = (case td_piece_hashes td of None \<Rightarrow> m | Some hs \<Rightarrow> m\<lparr>m_piece_hashes := hs\<rparr>)
              in if m_pieces m = [] then exact_pieces cfg m else m
         else m)"

definition ensure_pieces :: "pm_config \<Rightarrow> piece_manager \<Rightarrow> piece_manager" where
  "ensure_pieces cfg m =
     (if m_num_pieces m > 0 \<and> m_pieces m = []
      then exact_pieces cfg
             (case td_piece_length (m_torrent m) of
                Some l \<Rightarrow> m\<lparr>m_piece_length := l\<rparr>
              | None \<Rightarrow> if m_piece_length m = 0 then m\<lparr>m_piece_length := 16384\<rparr> else m)
      else m)"

text \<open>
  \<open>start_download\<close> with the connections of the peer manager, or \<open>None\<close> without one: first
  it finds out about the pieces. The result tells whether a first selection of pieces is started.
\<close>

definition known_num_pieces :: "pm_config \<Rightarrow> piece_manager \<Rightarrow> piece_manager" where
  "known_num_pieces cfg m =
     (let m = ensure_pieces cfg (refresh_metadata cfg m)
      in if m_num_pieces m = 0 \<and> m_pieces m \<noteq> [] then m\<lparr>m_num_pieces := length (m_pieces m)\<rparr> else m)"

definition infer_pieces :: "pm_config \<Rightarrow> (nat list \<times> bytes option) list \<Rightarrow> piece_manager \<Rightarrow> piece_manager" where
  "infer_pieces cfg connections m =
     (let inferred = infer_num_pieces connections (- 1) 0
      in if inferred > 0
         then let m = m\<lparr>m_num_pieces := inferred\<rparr>
              in if m_pieces m = [] then fallback_pieces cfg m else m
         else m)"

definition start_download :: "pm_config \<Rightarrow> (nat list \<times> bytes option) list option \<Rightarrow> piece_manager \<Rightarrow> bool \<times> piece_manager" where
  "start_download cfg connections m =
     (let m = known_num_pieces cfg m
      in case connections of
           None \<Rightarrow> (False, m)
         | Some cs \<Rightarrow>
             let m = (if m_num_pieces m = 0 then infer_pieces cfg cs m else m)
             in if m_num_pieces m = 0
                then (False, m\<lparr>m_has_peer_manager := True, m_is_downloading := True\<rparr>)
                else if m_is_downloading m then (False, m\<lparr>m_has_peer_manager := True\<rparr>)
                else (True, m\<lparr>m_has_peer_manager := True, m_is_downloading := True\<rparr>))"

definition stop_download :: "piece_manager \<Rightarrow> piece_manager" where
  "stop_download m = m\<lparr>m_is_downloading := False\<rparr>"

definition update_download_stats :: "nat \<Rightarrow> unit coroutine" where
  "update_download_stats n = locked (\<lambda>m. m\<lparr>m_bytes_downloaded := m_bytes_downloaded m + n\<rparr>)"

definition generate_endgame_requests :: "nat \<Rightarrow> (nat \<times> string) list coroutine" where
  "generate_endgame_requests i = with_lock (\<lambda>m.
     Done (map (\<lambda>(key, _). (i, key)) (filter (\<lambda>(_, pieces). i \<in> pieces) (m_availability m)), m))"

text \<open>
  The metadata of a magnet link, as \<open>ccbt/session/dht_setup.py\<close> hands them over: it updates
  the torrent data, the number and the length of the pieces of the manager, and then starts the
  download again.
\<close>

definition metadata_fetched :: "torrent_data \<Rightarrow> piece_manager \<Rightarrow> piece_manager" where
  "metadata_fetched td m =
     (let m = m\<lparr>m_num_pieces := td_num_pieces td\<rparr>;
          m = (case td_piece_length td of None \<Rightarrow> m | Some l \<Rightarrow> m\<lparr>m_piece_length := l\<rparr>)
      in m\<lparr>m_torrent := td\<rparr>)"

section \<open>Checkpoints\<close>

record checkpoint =
  ck_total_pieces :: nat
  ck_piece_length :: nat
  ck_verified :: "nat list"
  ck_states :: "(nat \<times> piece_state) list"
  ck_bytes_downloaded :: nat
  ck_endgame :: bool
  ck_frequency :: "(nat \<times> int) list"

text \<open>\<open>Counter.most_common(n)\<close>: the greatest counts, equal ones in insertion order.\<close>

definition most_common :: "nat \<Rightarrow> (nat \<times> int) list \<Rightarrow> (nat \<times> int) list" where
  "most_common n c = take n (sort_key (\<lambda>(_, k). - k) c)"

definition get_checkpoint_state :: "checkpoint coroutine" where
  "get_checkpoint_state = with_lock (\<lambda>m.
     Done (\<lparr>ck_total_pieces = m_num_pieces m, ck_piece_length = m_piece_length m,
            ck_verified = sorted_list_of_set (m_verified m),
            ck_states = map (\<lambda>i. (i, p_state (m_pieces m ! i))) [0..<length (m_pieces m)],
            ck_bytes_downloaded = m_bytes_downloaded m, ck_endgame = m_endgame_mode m,
            ck_frequency = most_common 20 (m_frequency m)\<rparr>, m))"

definition checkpoint_corrupted :: "checkpoint \<Rightarrow> bool" where
  "checkpoint_corrupted ck \<longleftrightarrow> ck_states ck \<noteq> [] \<and>
     list_all (\<lambda>(_, st). st \<in> {COMPLETE, VERIFIED}) (ck_states ck) \<and>
     ck_verified ck = [] \<and> ck_bytes_downloaded ck = 0"

definition restore_piece :: "nat list \<Rightarrow> nat \<Rightarrow> piece_state \<Rightarrow> piece_data \<Rightarrow> piece_data" where
  "restore_piece verified i st p =
     (let p = (if st = VERIFIED
               then if i \<notin> set verified then p\<lparr>p_state := COMPLETE, p_hash_verified := False\<rparr>
                    else p\<lparr>p_state := VERIFIED, p_hash_verified := True\<rparr>
               else p\<lparr>p_state := st, p_hash_verified := False\<rparr>)
      in if st \<in> {COMPLETE, VERIFIED} \<and> \<not> is_complete p
         then p\<lparr>p_state := MISSING, p_hash_verified := False\<rparr> else p)"

definition restore_states :: "nat list \<Rightarrow> (nat \<times> piece_state) list \<Rightarrow> piece_data list \<Rightarrow> piece_data list" where
  "restore_states verified states ps =
     fold (\<lambda>(i, st) ps. if i < length ps then ps[i := restore_piece verified i st (ps ! i)] else ps) states ps"

definition restore_from_checkpoint :: "pm_config \<Rightarrow> checkpoint \<Rightarrow> unit coroutine" where
  "restore_from_checkpoint cfg ck = locked (\<lambda>m.
     let ck = (if checkpoint_corrupted ck then ck\<lparr>ck_states := [], ck_verified := []\<rparr> else ck);
         m = (if ck_total_pieces ck > 0 \<and> m_pieces m = []
              then let m = (if m_num_pieces m = 0 then m\<lparr>m_num_pieces := ck_total_pieces ck\<rparr> else m);
                       m = (if m_piece_length m = 0 then m\<lparr>m_piece_length := ck_piece_length ck\<rparr> else m)
                   in m\<lparr>m_pieces := init_pieces cfg (m_files m) (m_num_pieces m) (\<lambda>_. m_piece_length m)\<rparr>
              else m);
         verified = (if length (ck_verified ck) > m_num_pieces m
                     then filter (\<lambda>i. i < m_num_pieces m) (ck_verified ck) else ck_verified ck);
         m = m\<lparr>m_bytes_downloaded := ck_bytes_downloaded ck, m_endgame_mode := ck_endgame ck,
               m_pieces := restore_states verified (ck_states ck) (m_pieces m)\<rparr>
     in m\<lparr>m_verified := {i \<in> set verified. i < length (m_pieces m) \<and> p_state (m_pieces m ! i) = VERIFIED},
          m_completed := {i \<in> {..<length (m_pieces m)}. p_state (m_pieces m ! i) = COMPLETE},
          m_frequency := ck_frequency ck\<rparr>)"

end
