(* ===== verification/Piece_Download.thy ===== *)
theory Piece_Download
  imports Piece_Selection
begin

text \<open>
  A download as a transition system over the operations of the piece manager, with what holds in
  every state it reaches. A state carries the set of pieces whose hash the thread pool has found
  right and whose verification is still to be finished.
\<close>

section \<open>The transition system\<close>

type_synonym pm_system = "piece_manager \<times> nat set"

inductive pm_step :: "pm_config \<Rightarrow> pm_system \<Rightarrow> pm_system \<Rightarrow> bool" for cfg where
  block: "handle_piece_block i bg data m = Done (u, m') \<Longrightarrow> pm_step cfg (m, V) (m', V)"
| request: "start_request cfg i active m = Done (r, m') \<Longrightarrow> pm_step cfg (m, V) (m', V)"
| finish: "finish_request i m = Done (u, m') \<Longrightarrow> pm_step cfg (m, V) (m', V)"
| hash: "i < length (m_pieces m) \<Longrightarrow> piece_hash_valid cfg i m \<Longrightarrow> pm_step cfg (m, V) (m, insert i V)"
| verify: "i \<in> V \<Longrightarrow> finish_verification i m = Done (u, m') \<Longrightarrow> pm_step cfg (m, V) (m', V)"
| select: "select_pieces cfg n m = Done (res, m') \<Longrightarrow> pm_step cfg (m, V) (m', V)"
| rarest: "select_rarest_piece m = Done (j, m') \<Longrightarrow> pm_step cfg (m, V) (m', V)"
| window: "select_sequential_with_window n m = Done (res, m') \<Longrightarrow> pm_step cfg (m, V) (m', V)"
| mark: "mark_piece_requested i m = Done (u, m') \<Longrightarrow> pm_step cfg (m, V) (m', V)"
| priority: "set_piece_priority i n m = Done (u, m') \<Longrightarrow> pm_step cfg (m, V) (m', V)"
| bitfield: "update_peer_availability key bf m = Done (u, m') \<Longrightarrow> pm_step cfg (m, V) (m', V)"
| have_piece: "update_peer_have key i m = Done (u, m') \<Longrightarrow> pm_step cfg (m, V) (m', V)"
| join: "pm_step cfg (m, V) (add_peer key m, V)"
| leave: "pm_step cfg (m, V) (remove_peer key m, V)"
| start: "pm_step cfg (m, V) (snd (start_download cfg connections m), V)"
| stop: "pm_step cfg (m, V) (stop_download m, V)"
| stats: "update_download_stats n m = Done (u, m') \<Longrightarrow> pm_step cfg (m, V) (m', V)"
| callback: "pm_step cfg (m, V) (m\<lparr>m_completed_callback := True\<rparr>, V)"
| metadata: "0 < td_num_pieces td \<Longrightarrow> pm_step cfg (m, V) (metadata_fetched td m, V)"

section \<open>What an operation may do to the pieces\<close>

text \<open>
  The same blocks, no state that claims more than they say, and no piece with a consistent state
  gets missing again.
\<close>

definition piece_kept :: "piece_data \<Rightarrow> piece_data \<Rightarrow> bool" where
  "piece_kept p q \<longleftrightarrow> p_blocks q = p_blocks p \<and> p_length q = p_length p \<and> p_piece_index q = p_piece_index p \<and>
     (p_state q \<in> {COMPLETE, VERIFIED} \<longrightarrow> p_state q = p_state p \<or> is_complete q) \<and>
     (p_state p \<noteq> MISSING \<and> (p_state p \<in> {COMPLETE, VERIFIED} \<longrightarrow> is_complete p) \<longrightarrow> p_state q \<noteq> MISSING)"

definition manager_kept :: "piece_manager \<Rightarrow> piece_manager \<Rightarrow> bool" where
  "manager_kept m m' \<longleftrightarrow> m_piece_hashes m' = m_piece_hashes m \<and> m_piece_layers m' = m_piece_layers m \<and>
     m_meta_version m' = m_meta_version m \<and> m_verified m' = m_verified m \<and> m_completed m' = m_completed m \<and>
     m_lock m' = m_lock m \<and> (m_num_pieces m > 0 \<longrightarrow> m_num_pieces m' > 0) \<and>
     list_all2 piece_kept (m_pieces m) (m_pieces m')"

lemma piece_kept_refl [simp, intro]: "piece_kept p p"
  by (simp add: piece_kept_def)

lemma piece_kept_trans:
  assumes "piece_kept p q" and "piece_kept q r"
  shows "piece_kept p r"
proof -
  have c: "is_complete q = is_complete p" "is_complete r = is_complete p"
    using assms by (simp_all add: piece_kept_def is_complete_def)
  have "p_state r \<in> {COMPLETE, VERIFIED} \<Longrightarrow> p_state r = p_state p \<or> is_complete p"
    using assms c unfolding piece_kept_def by metis
  moreover have "p_state p \<noteq> MISSING \<Longrightarrow> p_state p \<in> {COMPLETE, VERIFIED} \<longrightarrow> is_complete p \<Longrightarrow> p_state r \<noteq> MISSING"
    using assms c unfolding piece_kept_def by metis
  ultimately show ?thesis using assms c by (simp add: piece_kept_def)
qed

lemma pieces_kept_refl [simp, intro]: "list_all2 piece_kept ps ps"
  by (simp add: list_all2_refl)

lemma manager_kept_refl [simp, intro]: "manager_kept m m"
  by (simp add: manager_kept_def)

lemma manager_kept_trans: "manager_kept m m' \<Longrightarrow> manager_kept m' m'' \<Longrightarrow> manager_kept m m''"
  unfolding manager_kept_def by (auto intro: list_all2_trans [OF piece_kept_trans])

lemma pieces_kept_update: "piece_kept (ps ! i) p \<Longrightarrow> list_all2 piece_kept ps (ps[i := p])"
  by (cases "i < length ps") (auto simp: list_all2_conv_all_nth nth_list_update)

lemma update_piece_kept:
  assumes "\<And>p. piece_kept p (f p)"
  shows "manager_kept m (update_piece i f m)"
  using assms pieces_kept_update by (simp add: manager_kept_def update_piece_def)

lemma correct_piece_kept: "piece_kept p (correct_piece p)"
  by (simp add: piece_kept_def correct_piece_def)

lemma map_correct_piece_kept: "list_all2 piece_kept ps (map correct_piece ps)"
  by (simp add: list_all2_map2 list_all2_same correct_piece_kept)

lemma get_missing_pieces_kept: "manager_kept m (snd (get_missing_pieces m))"
  by (auto simp: get_missing_pieces_def Let_def manager_kept_def map_correct_piece_kept split: option.split)

lemma get_current_sequential_kept: "manager_kept m (snd (get_current_sequential_piece m))"
  using get_missing_pieces_kept [of m]
  by (simp add: get_current_sequential_piece_def Let_def case_prod_unfold)

lemma window_pieces_kept: "manager_kept m (snd (window_pieces n is m))"
  using get_current_sequential_kept [of m] by (simp add: window_pieces_def Let_def case_prod_unfold)

lemma add_request_tasks_kept: "manager_kept m (add_request_tasks is m)"
  by (simp add: manager_kept_def add_request_tasks_def)

text \<open>A coroutine that keeps the pieces.\<close>

definition keeping :: "'a coroutine \<Rightarrow> bool" where
  "keeping c \<longleftrightarrow> (\<forall>m x m'. c m = Done (x, m') \<longrightarrow> manager_kept m m')"

lemma keepingD: "keeping c \<Longrightarrow> c m = Done (x, m') \<Longrightarrow> manager_kept m m'"
  by (simp add: keeping_def)

lemma keeping_with_lock:
  assumes "\<And>m x m'. body m = Done (x, m') \<Longrightarrow> manager_kept m m'"
  shows "keeping (with_lock body)"
proof -
  {
    fix m x m'
    assume "with_lock body m = Done (x, m')"
    then obtain n where n: "\<not> m_lock m" "body (m\<lparr>m_lock := True\<rparr>) = Done (x, n)" "m' = n\<lparr>m_lock := False\<rparr>"
      by (cases "body (m\<lparr>m_lock := True\<rparr>)") (auto simp: with_lock_eq split: if_splits)
    from assms [OF n(2)] n(1,3) have "manager_kept m m'" by (simp add: manager_kept_def)
  }
  then show ?thesis by (simp add: keeping_def)
qed

lemma keeping_locked: "(\<And>m. manager_kept m (f m)) \<Longrightarrow> keeping (locked f)"
  unfolding locked_def by (rule keeping_with_lock) auto

lemma locked_Done: "locked f m = Done (u, m') \<longleftrightarrow> \<not> m_lock m \<and> m' = (f (m\<lparr>m_lock := True\<rparr>))\<lparr>m_lock := False\<rparr>"
  by (auto simp: locked_def with_lock_eq)

lemma finish_request_keeps: "keeping (finish_request i)"
  unfolding finish_request_def
  by (rule keeping_locked, rule update_piece_kept) (simp add: piece_kept_def)

lemma mark_piece_requested_keeps: "keeping (mark_piece_requested i)"
  unfolding mark_piece_requested_def
  by (rule keeping_locked) (simp add: update_piece_kept piece_kept_def)

lemma set_piece_priority_keeps: "keeping (set_piece_priority i n)"
  unfolding set_piece_priority_def
  by (rule keeping_locked) (auto intro!: update_piece_kept simp: piece_kept_def is_complete_def)

lemma availability_keeps: "keeping (update_peer_availability key bf)" "keeping (update_peer_have key i)"
  unfolding update_peer_availability_def update_peer_have_def
  by (rule keeping_locked, simp add: Let_def manager_kept_def)+

lemma update_download_stats_keeps: "keeping (update_download_stats n)"
  unfolding update_download_stats_def by (rule keeping_locked) (simp add: manager_kept_def)

lemma peers_kept: "manager_kept m (add_peer key m)" "manager_kept m (remove_peer key m)"
  by (simp_all add: add_peer_def remove_peer_def manager_kept_def split: option.split)

lemma stop_download_kept: "manager_kept m (stop_download m)"
  by (simp add: stop_download_def manager_kept_def)

lemma select_rarest_piece_keeps: "keeping select_rarest_piece"
  unfolding select_rarest_piece_def
  by (rule keeping_with_lock)
    (auto simp: Let_def piece_kept_def intro!: update_piece_kept split: list.splits)

lemma select_rarest_first_keeps: "keeping select_rarest_first"
  unfolding select_rarest_first_def
  by (rule keeping_with_lock)
    (use get_missing_pieces_kept in \<open>auto simp: Let_def case_prod_unfold split: if_splits
      intro: manager_kept_trans [OF get_missing_pieces_kept add_request_tasks_kept]\<close>)

lemma select_sequential_keeps: "keeping (select_sequential cfg)"
  unfolding select_sequential_def
proof (rule keeping_with_lock, goal_cases)
  case (1 m x m')
  let ?m = "snd (get_missing_pieces m)" and ?is = "fst (get_missing_pieces m)"
  let ?n = "snd (window_pieces (pc_sequential_window cfg) ?is ?m)"
  have "manager_kept m ?m" "manager_kept m ?n"
    using get_missing_pieces_kept window_pieces_kept manager_kept_trans by blast+
  moreover from 1 have "m' = ?m \<or> m' = ?n \<or> (\<exists>i. m' = add_request_tasks [i] ?n)"
    by (auto simp: Let_def case_prod_unfold split: if_splits option.splits)
  ultimately show ?case using manager_kept_trans add_request_tasks_kept by blast
qed

lemma select_sequential_with_window_keeps: "keeping (select_sequential_with_window n)"
  unfolding select_sequential_with_window_def
proof (rule keeping_with_lock, goal_cases)
  case (1 m x m')
  let ?m = "snd (get_missing_pieces m)" and ?is = "fst (get_missing_pieces m)"
  let ?n = "snd (window_pieces n ?is ?m)"
  have "manager_kept m ?m" "manager_kept m ?n"
    using get_missing_pieces_kept window_pieces_kept manager_kept_trans by blast+
  moreover from 1 have "m' = ?m \<or> m' = ?n \<or> (\<exists>i. m' = add_request_tasks [i] ?n)"
    by (auto simp: Let_def case_prod_unfold split: if_splits list.splits)
  ultimately show ?case using manager_kept_trans add_request_tasks_kept by blast
qed

lemma select_round_robin_keeps: "keeping select_round_robin"
  unfolding select_round_robin_def
  by (rule keeping_with_lock) (auto simp: add_request_tasks_kept split: list.splits)

section \<open>The invariant\<close>

definition pm_inv :: "pm_config \<Rightarrow> pm_system \<Rightarrow> bool" where
  "pm_inv cfg = (\<lambda>(m, V). 0 < pc_block_size cfg \<and> \<not> m_lock m \<and> (m_pieces m \<noteq> [] \<longrightarrow> 0 < m_num_pieces m) \<and>
     (\<forall>i<length (m_pieces m). piece_ok (pc_block_size cfg) (m_pieces m ! i) \<and> p_piece_index (m_pieces m ! i) = i) \<and>
     (\<forall>i\<in>m_verified m \<union> V. i < length (m_pieces m) \<and> piece_hash_valid cfg i m) \<and>
     (\<forall>i\<in>m_completed m. i < length (m_pieces m) \<and> is_complete (m_pieces m ! i)))"

lemma piece_kept_complete: "piece_kept p q \<Longrightarrow> is_complete q = is_complete p"
  by (simp add: piece_kept_def is_complete_def)

lemma piece_kept_get_data: "piece_kept p q \<Longrightarrow> get_data q = get_data p"
  by (simp add: piece_kept_def is_complete_def get_data_def)

lemma piece_kept_ok: "piece_kept p q \<Longrightarrow> piece_ok bs p \<Longrightarrow> piece_ok bs q"
  by (auto simp: piece_kept_def piece_ok_def is_complete_def)

lemma piece_hash_valid_cong:
  assumes "get_data (m_pieces m' ! i) = get_data (m_pieces m ! i)" and "m_piece_hashes m' = m_piece_hashes m"
    and "m_piece_layers m' = m_piece_layers m" and "m_meta_version m' = m_meta_version m"
  shows "piece_hash_valid cfg i m' = piece_hash_valid cfg i m"
proof -
  have "hash_piece_optimized n (m_pieces m' ! i) = hash_piece_optimized n (m_pieces m ! i)" for n
    by (rule ext) (simp only: hash_piece_optimized_def assms(1))
  then show ?thesis by (simp only: piece_hash_valid_def get_v2_piece_hash_def assms(2-4) Let_def)
qed

lemma piece_hash_valid_complete: "piece_hash_valid cfg i m \<Longrightarrow> is_complete (m_pieces m ! i)"
proof (rule ccontr)
  assume "\<not> is_complete (m_pieces m ! i)"
  then have "\<not> hash_piece_optimized n (m_pieces m ! i) h" for n h
    by (simp add: hash_piece_optimized_def get_data_def)
  moreover assume "piece_hash_valid cfg i m"
  ultimately show False by (auto simp: piece_hash_valid_def Let_def split: if_splits option.splits)
qed

lemma manager_kept_hash_valid:
  assumes "manager_kept m m'" and "i < length (m_pieces m)"
  shows "piece_hash_valid cfg i m' = piece_hash_valid cfg i m"
  using assms by (intro piece_hash_valid_cong)
    (auto simp: manager_kept_def list_all2_conv_all_nth piece_kept_get_data)

lemma kept_inv:
  assumes "pm_inv cfg (m, V)" and "manager_kept m m'"
  shows "pm_inv cfg (m', V)"
proof -
  have len: "length (m_pieces m') = length (m_pieces m)"
    and kept: "\<And>i. i < length (m_pieces m) \<Longrightarrow> piece_kept (m_pieces m ! i) (m_pieces m' ! i)"
    and eq: "m_lock m' = m_lock m" "m_verified m' = m_verified m" "m_completed m' = m_completed m"
      "m_num_pieces m > 0 \<longrightarrow> m_num_pieces m' > 0"
    using assms(2) by (auto simp: manager_kept_def list_all2_conv_all_nth)
  from assms(1) have inv: "0 < pc_block_size cfg" "\<not> m_lock m" "m_pieces m \<noteq> [] \<longrightarrow> 0 < m_num_pieces m"
      "\<And>i. i < length (m_pieces m) \<Longrightarrow> piece_ok (pc_block_size cfg) (m_pieces m ! i) \<and> p_piece_index (m_pieces m ! i) = i"
      "\<And>i. i \<in> m_verified m \<union> V \<Longrightarrow> i < length (m_pieces m) \<and> piece_hash_valid cfg i m"
      "\<And>i. i \<in> m_completed m \<Longrightarrow> i < length (m_pieces m) \<and> is_complete (m_pieces m ! i)"
    by (auto simp: pm_inv_def)
  have "piece_ok (pc_block_size cfg) (m_pieces m' ! i) \<and> p_piece_index (m_pieces m' ! i) = i"
    if "i < length (m_pieces m)" for i
    using piece_kept_ok [OF kept [OF that]] inv(4) [OF that] kept [OF that] by (simp add: piece_kept_def)
  moreover have "m_pieces m' \<noteq> [] \<longrightarrow> 0 < m_num_pieces m'" using inv(3) eq(4) len by force
  ultimately show ?thesis
    unfolding pm_inv_def prod.case eq(1-3) len
    using inv(1,2,5,6) kept manager_kept_hash_valid [OF assms(2)] piece_kept_complete by blast
qed

text \<open>Pieces made when there are none.\<close>

lemma created_inv:
  assumes "pm_inv cfg (m, V)" and "m_pieces m = []"
    and "m_pieces m' = init_pieces cfg fs n len" and "0 < n \<longrightarrow> 0 < m_num_pieces m'"
    and "m_lock m' = m_lock m" and "m_verified m' = m_verified m" and "m_completed m' = m_completed m"
  shows "pm_inv cfg (m', V)"
proof -
  have "m_verified m' \<union> V = {}" and "m_completed m' = {}" and bs: "0 < pc_block_size cfg"
    using assms by (auto simp: pm_inv_def)
  moreover have "piece_ok (pc_block_size cfg) (m_pieces m' ! i) \<and> p_piece_index (m_pieces m' ! i) = i"
    if "i < length (m_pieces m')" for i
  proof -
    have "m_pieces m' ! i = (new_piece (pc_block_size cfg) i (len i))\<lparr>p_priority := initial_priority cfg fs n i\<rparr>"
      using that by (simp add: assms(3) init_pieces_def)
    moreover have "piece_ok (pc_block_size cfg) (new_piece (pc_block_size cfg) i (len i))"
      by (rule new_piece_ok [OF bs])
    ultimately show ?thesis by (simp add: piece_ok_def is_complete_def new_piece_def)
  qed
  moreover have "m_pieces m' \<noteq> [] \<longrightarrow> 0 < n" by (simp add: assms(3) init_pieces_def)
  ultimately show ?thesis
    unfolding pm_inv_def prod.case using assms(1,4,5) by (auto simp: pm_inv_def)
qed

lemma fallback_inv:
  assumes "pm_inv cfg (m, V)" and "m_pieces m = []" and "0 < m_num_pieces m"
  shows "pm_inv cfg (fallback_pieces cfg m, V)"
  by (rule created_inv [OF assms(1,2)]) (use assms(3) in \<open>simp_all add: fallback_pieces_def Let_def\<close>)

lemma exact_inv:
  assumes "pm_inv cfg (m, V)" and "m_pieces m = []" and "0 < m_num_pieces m'"
    and "m_lock m' = m_lock m" and "m_verified m' = m_verified m" and "m_completed m' = m_completed m"
  shows "pm_inv cfg (exact_pieces cfg m', V)"
  by (rule created_inv [OF assms(1,2)]) (use assms(3-) in \<open>simp_all add: exact_pieces_def\<close>)

lemma refresh_inv:
  assumes "pm_inv cfg (m, V)"
  shows "pm_inv cfg (refresh_metadata cfg m, V)"
proof (cases "0 < td_num_pieces (m_torrent m) \<and> m_num_pieces m = 0")
  case True
  with assms have "m_pieces m = []" by (auto simp: pm_inv_def)
  with True assms show ?thesis
    by (auto simp: refresh_metadata_def Let_def split: option.split intro!: exact_inv)
qed (use assms in \<open>auto simp: refresh_metadata_def Let_def\<close>)

lemma ensure_inv: "pm_inv cfg (m, V) \<Longrightarrow> pm_inv cfg (ensure_pieces cfg m, V)"
  by (auto simp: ensure_pieces_def split: option.split intro!: exact_inv)

lemma num_pieces_inv: "pm_inv cfg (m, V) \<Longrightarrow> m_pieces m = [] \<Longrightarrow> pm_inv cfg (m\<lparr>m_num_pieces := n\<rparr>, V)"
  by (auto simp: pm_inv_def)

lemma infer_inv:
  assumes "pm_inv cfg (m, V)" and "m_num_pieces m = 0"
  shows "pm_inv cfg (infer_pieces cfg cs m, V)"
proof (cases "0 < infer_num_pieces cs (- 1) 0")
  case True
  from assms have e: "m_pieces m = []" by (auto simp: pm_inv_def)
  have "pm_inv cfg (fallback_pieces cfg (m\<lparr>m_num_pieces := infer_num_pieces cs (- 1) 0\<rparr>), V)"
    using True num_pieces_inv [OF assms(1) e] e by (intro fallback_inv) simp_all
  with True e show ?thesis by (simp add: infer_pieces_def)
qed (use assms in \<open>simp add: infer_pieces_def\<close>)

lemma start_download_inv:
  assumes "pm_inv cfg (m, V)"
  shows "pm_inv cfg (snd (start_download cfg connections m), V)"
proof -
  let ?m = "known_num_pieces cfg m"
  have "pm_inv cfg (ensure_pieces cfg (refresh_metadata cfg m), V)"
    by (intro ensure_inv refresh_inv assms)
  then have m: "pm_inv cfg (?m, V)" by (auto simp: known_num_pieces_def Let_def pm_inv_def)
  define n where "n = (\<lambda>cs. if m_num_pieces ?m = 0 then infer_pieces cfg cs ?m else ?m)"
  have n: "pm_inv cfg (n cs, V)" for cs using m infer_inv by (simp add: n_def)
  have kept: "manager_kept k (k\<lparr>m_has_peer_manager := True\<rparr>)"
      "manager_kept k (k\<lparr>m_has_peer_manager := True, m_is_downloading := True\<rparr>)" for k
    by (simp_all add: manager_kept_def)
  show ?thesis
  proof (cases connections)
    case None
    with m show ?thesis by (simp add: start_download_def Let_def)
  next
    case (Some cs)
    then have "snd (start_download cfg connections m) \<in>
        {n cs\<lparr>m_has_peer_manager := True\<rparr>, n cs\<lparr>m_has_peer_manager := True, m_is_downloading := True\<rparr>}"
      by (simp add: start_download_def Let_def n_def)
    with kept_inv [OF n kept(1)] kept_inv [OF n kept(2)] show ?thesis by fastforce
  qed
qed

lemma block_inv:
  assumes "pm_inv cfg (m, V)" and "handle_piece_block i bg data m = Done (u, m')"
  shows "pm_inv cfg (m', V)"
proof (cases "i < length (m_pieces m)")
  case False
  with assms(2) have "m' = m\<lparr>m_lock := False\<rparr>" and "\<not> m_lock m"
    by (auto simp: handle_piece_block_def locked_Done)
  then have "manager_kept m m'" by (simp add: manager_kept_def)
  with assms(1) show ?thesis by (rule kept_inv)
next
  case True
  let ?p = "m_pieces m ! i" and ?bs = "pc_block_size cfg"
  define q where "q = snd (piece_add_block bg data ?p)"
  have pieces: "m_pieces m' = (m_pieces m)[i := q]"
    and same: "m_lock m' = m_lock m" "m_verified m' = m_verified m" "m_num_pieces m' = m_num_pieces m"
      "m_piece_hashes m' = m_piece_hashes m" "m_piece_layers m' = m_piece_layers m"
      "m_meta_version m' = m_meta_version m"
    and completed: "m_completed m' = m_completed m \<or> m_completed m' = insert i (m_completed m) \<and> p_state q = COMPLETE"
    using assms True by (auto simp: handle_piece_block_def locked_Done Let_def case_prod_unfold q_def pm_inv_def)
  have p: "piece_ok ?bs ?p" "p_piece_index ?p = i" using assms(1) True by (simp_all add: pm_inv_def)
  then have q: "piece_ok ?bs q" "p_piece_index q = i"
    using piece_add_block_ok by (simp_all add: q_def)
  have stays: "q = ?p" if "is_complete ?p"
  proof (cases "add_to_blocks bg data (p_blocks ?p)")
    case (Some bs)
    then show ?thesis
      using that add_to_blocks_SomeD [OF Some] by (auto simp: is_complete_def list_all_length)
  qed (simp add: q_def piece_add_block_def)
  have valid: "piece_hash_valid cfg j m' = piece_hash_valid cfg j m" if "piece_hash_valid cfg j m" for j
    using stays piece_hash_valid_complete [OF that] True
    by (intro piece_hash_valid_cong same) (auto simp: pieces nth_list_update)
  have q_complete: "is_complete q" if "p_state q = COMPLETE" using q(1) that by (simp add: piece_ok_def)
  have "\<forall>j\<in>m_completed m'. j < length (m_pieces m) \<and> is_complete (m_pieces m' ! j)"
  proof
    fix j assume "j \<in> m_completed m'"
    with completed consider "j \<in> m_completed m" | "j = i" "p_state q = COMPLETE" by blast
    then show "j < length (m_pieces m) \<and> is_complete (m_pieces m' ! j)"
    proof cases
      case 1
      then have j: "j < length (m_pieces m)" "is_complete (m_pieces m ! j)" using assms(1) by (auto simp: pm_inv_def)
      with stays show ?thesis by (cases "j = i") (simp_all add: pieces)
    qed (use q_complete True pieces in simp_all)
  qed
  moreover have "\<forall>j\<in>m_verified m \<union> V. j < length (m_pieces m) \<and> piece_hash_valid cfg j m'"
    using assms(1) valid by (simp add: pm_inv_def)
  moreover have "\<forall>j<length (m_pieces m). piece_ok ?bs (m_pieces m' ! j) \<and> p_piece_index (m_pieces m' ! j) = j"
    using assms(1) q True by (auto simp: pm_inv_def pieces nth_list_update)
  ultimately show ?thesis
    unfolding pm_inv_def prod.case same(1-3) using assms(1) by (simp add: pm_inv_def pieces)
qed

lemma verify_inv:
  assumes "pm_inv cfg (m, V)" and "i \<in> V" and "finish_verification i m = Done (u, m')"
  shows "pm_inv cfg (m', V)"
proof -
  have i: "i < length (m_pieces m)" "piece_hash_valid cfg i m" using assms(1,2) by (auto simp: pm_inv_def)
  then have complete: "is_complete (m_pieces m ! i)" by (simp add: piece_hash_valid_complete)
  define n where "n = update_piece i (\<lambda>p. p\<lparr>p_state := VERIFIED\<rparr>) m"
  have "manager_kept m n"
    using pieces_kept_update complete
    by (simp add: n_def update_piece_def manager_kept_def piece_kept_def is_complete_def)
  then have n: "pm_inv cfg (n, V)" using assms(1) by (rule kept_inv [rotated])
  have "m' = n\<lparr>m_verified := insert i (m_verified m), m_download_complete := m_download_complete m'\<rparr>"
    using assms(1,3) by (auto simp: finish_verification_def locked_def with_lock_eq n_def update_piece_def pm_inv_def)
  then obtain d where m': "m' = n\<lparr>m_verified := insert i (m_verified m), m_download_complete := d\<rparr>" by blast
  have "m_verified n = m_verified m" "m_pieces m' = m_pieces n" by (simp_all add: n_def update_piece_def m')
  moreover have "piece_hash_valid cfg j m' = piece_hash_valid cfg j n" for j
    by (rule piece_hash_valid_cong) (simp_all add: m')
  ultimately show ?thesis using n assms(2) unfolding pm_inv_def by (simp add: m')
qed

lemma unlock [simp]: "\<not> m_lock m \<Longrightarrow> m\<lparr>m_lock := False\<rparr> = m"
  by (cases m) simp

text \<open>The manager with its pieces, and what a claim and a whole request make of it.\<close>

definition with_pieces :: "pm_config \<Rightarrow> piece_manager \<Rightarrow> piece_manager" where
  "with_pieces cfg m = (if m_num_pieces m > 0 \<and> m_pieces m = [] then fallback_pieces cfg m else m)"

lemma with_pieces_inv: "pm_inv cfg (m, V) \<Longrightarrow> pm_inv cfg (with_pieces cfg m, V)"
  using fallback_inv by (simp add: with_pieces_def)

lemma claim_result:
  assumes "\<not> m_lock m" and "claim_piece cfg i m = Done (claimed, m')"
  defines "n \<equiv> with_pieces cfg m"
  shows "if claimed then i < length (m_pieces n) \<and> p_state (m_pieces n ! i) = MISSING \<and>
      m' = update_piece i (\<lambda>p. p\<lparr>p_state := REQUESTED, p_request_count := p_request_count p + 1\<rparr>) n
    else m' = n"
proof -
  have ln: "\<not> m_lock n" using assms(1) by (simp add: n_def with_pieces_def fallback_pieces_def Let_def)
  have "fallback_pieces cfg (m\<lparr>m_lock := True\<rparr>)\<lparr>m_lock := False\<rparr> = fallback_pieces cfg m"
    using assms(1) by (simp add: fallback_pieces_def Let_def)
  then have "(if m_num_pieces m > 0 \<and> m_pieces m = [] then locked (fallback_pieces cfg) m else Done ((), m)) = Done ((), n)"
    using assms(1) by (simp add: locked_Done n_def with_pieces_def)
  moreover have "update_piece i f (n\<lparr>m_lock := True\<rparr>)\<lparr>m_lock := False\<rparr> = update_piece i f n" for f
    using ln by (simp add: update_piece_def)
  ultimately show ?thesis
    using assms(2) ln unfolding claim_piece_def
    by (simp add: with_lock_eq split: if_splits)
qed

lemma request_kept:
  assumes "\<not> m_lock m" and "start_request cfg i active m = Done (r, m')"
  shows "manager_kept (with_pieces cfg m) m'"
proof -
  let ?n = "with_pieces cfg m"
  obtain c k where c: "claim_piece cfg i m = Done (c, k)"
    using assms(2) by (cases "claim_piece cfg i m") (auto simp: start_request_def)
  note res = claim_result [OF assms(1) c]
  show ?thesis
  proof (cases c)
    case False
    with assms(2) c res show ?thesis by (simp add: start_request_def)
  next
    case True
    let ?claim = "\<lambda>p. p\<lparr>p_state := REQUESTED, p_request_count := p_request_count p + 1\<rparr>"
    from True res have i: "i < length (m_pieces ?n)" "p_state (m_pieces ?n ! i) = MISSING"
      and k: "k = update_piece i ?claim ?n" by simp_all
    have "manager_kept ?n k" unfolding k by (rule update_piece_kept) (simp add: piece_kept_def)
    moreover have "manager_kept ?n m''" if "release_piece i k = Done ((), m'')" for m''
    proof -
      let ?ps = "(m_pieces ?n)[i := (?claim (m_pieces ?n ! i))\<lparr>p_state := MISSING\<rparr>]"
      from that i have "m'' = k\<lparr>m_pieces := ?ps\<rparr>"
        by (auto simp: release_piece_def locked_Done k update_piece_def)
      moreover have "list_all2 piece_kept (m_pieces ?n) ?ps"
        by (rule pieces_kept_update) (use i in \<open>simp add: piece_kept_def\<close>)
      ultimately show ?thesis using \<open>manager_kept ?n k\<close> by (simp add: manager_kept_def)
    qed
    ultimately show ?thesis
      using assms(2) c True
      by (cases "release_piece i k") (auto simp: start_request_def Let_def split: if_splits)
  qed
qed

lemma request_inv:
  assumes "pm_inv cfg (m, V)" and "start_request cfg i active m = Done (r, m')"
  shows "pm_inv cfg (m', V)"
proof (rule kept_inv)
  show "pm_inv cfg (with_pieces cfg m, V)" using assms(1) by (rule with_pieces_inv)
  show "manager_kept (with_pieces cfg m) m'"
    using assms by (intro request_kept) (simp_all add: pm_inv_def)
qed

lemma select_kept:
  assumes "select_pieces cfg k m = Done (r, m')"
  defines "n \<equiv> if m_pieces m \<noteq> [] \<and> m_num_pieces m = 0 then m\<lparr>m_num_pieces := length (m_pieces m)\<rparr>
      else with_pieces cfg m"
  shows "m' = m \<or> manager_kept n m'"
proof -
  let ?n = "prepare_selection cfg m"
  have "manager_kept (snd (get_missing_pieces n)) ?n"
    unfolding prepare_selection_def Let_def case_prod_unfold n_def with_pieces_def
    by (simp add: manager_kept_def map_correct_piece_kept)
  then have n: "manager_kept n ?n" using get_missing_pieces_kept by (rule manager_kept_trans [rotated])
  have "keeping (run_strategy cfg)"
    by (cases "pc_strategy cfg") (simp_all add: run_strategy_def select_rarest_first_keeps
        select_sequential_keeps select_round_robin_keeps)
  then have "run_strategy cfg ?n = Done (r, m') \<Longrightarrow> manager_kept n m'"
    by (intro manager_kept_trans [OF n] keepingD)
  moreover have "m' = m \<or> run_strategy cfg ?n = Done (r, m')"
    using assms(1) by (simp add: select_pieces_def split: if_splits)
  ultimately show ?thesis by blast
qed

lemma select_inv:
  assumes "pm_inv cfg (m, V)" and "select_pieces cfg k m = Done (r, m')"
  shows "pm_inv cfg (m', V)"
proof -
  have "\<not> (m_pieces m \<noteq> [] \<and> m_num_pieces m = 0)" using assms(1) by (auto simp: pm_inv_def)
  then have "m' = m \<or> manager_kept (with_pieces cfg m) m'" using select_kept [OF assms(2)] by (simp split: if_splits)
  then show ?thesis using assms(1) kept_inv [OF with_pieces_inv [OF assms(1)]] by (elim disjE) simp_all
qed

lemma start_download_kept:
  assumes "0 < m_num_pieces m" and "m_pieces m \<noteq> []"
  shows "manager_kept m (snd (start_download cfg connections m))"
  using assms by (simp add: start_download_def known_num_pieces_def refresh_metadata_def ensure_pieces_def
      Let_def manager_kept_def split: option.split)

lemma metadata_kept: "0 < td_num_pieces td \<Longrightarrow> manager_kept m (metadata_fetched td m)"
  by (simp add: metadata_fetched_def Let_def manager_kept_def split: option.split)

lemma callback_kept: "manager_kept m (m\<lparr>m_completed_callback := b\<rparr>)"
  by (simp add: manager_kept_def)

lemmas kept_coroutines = finish_request_keeps select_rarest_piece_keeps select_sequential_with_window_keeps
  mark_piece_requested_keeps set_piece_priority_keeps availability_keeps update_download_stats_keeps

lemmas kept_operations = peers_kept stop_download_kept metadata_kept callback_kept

lemma pm_step_inv: "pm_step cfg s t \<Longrightarrow> pm_inv cfg s \<Longrightarrow> pm_inv cfg t"
proof (induction rule: pm_step.induct)
  case (hash i m V)
  then show ?case by (simp add: pm_inv_def)
next
  case (block i bg data m u m' V)
  then show ?case by (rule block_inv [rotated])
next
  case (request i active m r m' V)
  then show ?case by (rule request_inv [rotated])
next
  case (verify i V m u m')
  from verify.prems verify.hyps show ?case by (rule verify_inv)
next
  case (select n m res m' V)
  then show ?case by (rule select_inv [rotated])
next
  case (start m V connections)
  then show ?case by (rule start_download_inv)
qed (erule kept_inv, (erule kept_coroutines [THEN keepingD] | erule kept_operations | rule kept_operations))+

section \<open>Fresh and restored managers\<close>

lemma new_piece_incomplete:
  assumes "0 < bs" and "0 < len"
  shows "\<not> is_complete (new_piece bs i len)"
proof -
  have "0 < (len + bs - 1) div bs" using assms by (simp add: div_greater_zero_iff)
  then have "new_block i 0 (min bs len) \<in> set (make_blocks bs i len)"
    by (force simp: make_blocks_def)
  moreover have "\<not> b_received (new_block i 0 (min bs len))" by (simp add: new_block_def)
  ultimately show ?thesis by (auto simp: is_complete_def new_piece_def list_all_iff)
qed

definition fresh_pieces :: "nat \<Rightarrow> piece_data list \<Rightarrow> bool" where
  "fresh_pieces bs ps \<longleftrightarrow> (\<forall>i<length ps. piece_ok bs (ps ! i) \<and> p_piece_index (ps ! i) = i \<and> \<not> is_complete (ps ! i))"

lemma init_pieces_fresh:
  assumes "0 < pc_block_size cfg" and "\<And>i. 0 < len i"
  shows "fresh_pieces (pc_block_size cfg) (init_pieces cfg fs n len)"
proof -
  have "is_complete (p\<lparr>p_priority := k\<rparr>) = is_complete p" "piece_ok bs (p\<lparr>p_priority := k\<rparr>) = piece_ok bs p" for p k bs
    by (simp_all add: is_complete_def piece_ok_def)
  with assms show ?thesis
    by (simp add: fresh_pieces_def init_pieces_def new_piece_ok new_piece_incomplete)
      (simp add: new_piece_def)
qed

lemma actual_piece_length_pos: "0 < l \<Longrightarrow> 0 < actual_piece_length d n l i"
  by (simp add: actual_piece_length_def Let_def)

lemma pm_init_fresh:
  assumes "0 < pc_block_size cfg" and "td_piece_length td \<noteq> Some 0"
  shows "fresh_pieces (pc_block_size cfg) (m_pieces (pm_init cfg fs td))"
proof -
  have "0 < (case td_piece_length td of None \<Rightarrow> 16384 | Some l \<Rightarrow> l)"
    using assms(2) by (cases "td_piece_length td") auto
  then show ?thesis
    unfolding pm_init_def Let_def by (simp add: init_pieces_fresh [OF assms(1)] actual_piece_length_pos)
qed

lemma restore_piece_fresh:
  assumes "\<not> is_complete p"
  shows "p_blocks (restore_piece v i st p) = p_blocks p" and "p_length (restore_piece v i st p) = p_length p"
    and "p_piece_index (restore_piece v i st p) = p_piece_index p"
    and "p_state (restore_piece v i st p) = (if st \<in> {COMPLETE, VERIFIED} then MISSING else st)"
  using assms by (auto simp: restore_piece_def Let_def is_complete_def)

lemma restore_states_length [simp]: "length (restore_states v states ps) = length ps"
  unfolding restore_states_def by (induction states arbitrary: ps) (auto simp: case_prod_unfold)

lemma restore_states_nth:
  assumes "distinct (map fst states)" and "i < length ps"
  shows "restore_states v states ps ! i =
      (case map_of states i of None \<Rightarrow> ps ! i | Some st \<Rightarrow> restore_piece v i st (ps ! i))"
  using assms
proof (induction states arbitrary: ps)
  case Nil
  then show ?case by (simp add: restore_states_def)
next
  case (Cons x states)
  obtain j st where x: "x = (j, st)" by (cases x)
  let ?ps = "if j < length ps then ps[j := restore_piece v j st (ps ! j)] else ps"
  have step: "restore_states v (x # states) ps = restore_states v states ?ps"
    by (simp add: restore_states_def x)
  have "map_of states j = None" using Cons.prems by (simp add: x map_of_eq_None_iff)
  moreover have "i < length ?ps" using Cons.prems by simp
  ultimately show ?case
    using Cons.IH [of ?ps] Cons.prems by (auto simp: step [unfolded x] x nth_list_update split: option.split)
qed

text \<open>
  What a checkpoint restores on a fresh manager: the blocks are never loaded, so nothing is
  complete, and the state is missing wherever the checkpoint says complete or verified.
\<close>

definition restored_state :: "checkpoint \<Rightarrow> nat \<Rightarrow> piece_state" where
  "restored_state ck i =
     (if checkpoint_corrupted ck then MISSING
      else case map_of (ck_states ck) i of
             None \<Rightarrow> MISSING
           | Some st \<Rightarrow> if st \<in> {COMPLETE, VERIFIED} then MISSING else st)"

lemma restore_fresh:
  assumes "fresh_pieces bs (m_pieces m)" and "m_pieces m \<noteq> []" and "\<forall>p\<in>set (m_pieces m). p_state p = MISSING"
    and "distinct (map fst (ck_states ck))" and "restore_from_checkpoint cfg ck m = Done (u, m')"
  shows "fresh_pieces bs (m_pieces m')" and "length (m_pieces m') = length (m_pieces m)"
    and "\<And>i. i < length (m_pieces m) \<Longrightarrow> p_state (m_pieces m' ! i) = restored_state ck i"
    and "m_verified m' = {}" and "m_completed m' = {}" and "\<not> m_lock m'" and "m_num_pieces m' = m_num_pieces m"
proof -
  define ck' where "ck' = (if checkpoint_corrupted ck then ck\<lparr>ck_states := [], ck_verified := []\<rparr> else ck)"
  define v where "v = (if length (ck_verified ck') > m_num_pieces m
      then filter (\<lambda>i. i < m_num_pieces m) (ck_verified ck') else ck_verified ck')"
  define ps where "ps = restore_states v (ck_states ck') (m_pieces m)"
  have m': "m_pieces m' = ps" "m_num_pieces m' = m_num_pieces m" "\<not> m_lock m'"
      "m_verified m' = {i \<in> set v. i < length ps \<and> p_state (ps ! i) = VERIFIED}"
      "m_completed m' = {i. i < length ps \<and> p_state (ps ! i) = COMPLETE}"
    using assms(2,5) by (simp_all add: restore_from_checkpoint_def locked_Done Let_def ck'_def v_def ps_def)
  have len: "length ps = length (m_pieces m)" by (simp add: ps_def)
  have d: "distinct (map fst (ck_states ck'))" using assms(4) by (simp add: ck'_def)
  have nth: "ps ! i = (case map_of (ck_states ck') i of None \<Rightarrow> m_pieces m ! i
      | Some st \<Rightarrow> restore_piece v i st (m_pieces m ! i))" if "i < length ps" for i
    using restore_states_nth [OF d] that by (simp add: ps_def)
  have st: "p_state (ps ! i) = restored_state ck i" if "i < length ps" for i
    using nth [OF that] that assms(1,3) restore_piece_fresh(4) [of "m_pieces m ! i"] len
    by (auto simp: restored_state_def ck'_def fresh_pieces_def split: option.split)
  have not_done: "restored_state ck i \<notin> {COMPLETE, VERIFIED}" for i
    by (auto simp: restored_state_def split: option.splits if_splits)
  show "length (m_pieces m') = length (m_pieces m)" "\<not> m_lock m'" "m_num_pieces m' = m_num_pieces m"
    using m' len by simp_all
  show "p_state (m_pieces m' ! i) = restored_state ck i" if "i < length (m_pieces m)" for i
    using st that len m' by simp
  show "m_verified m' = {}" "m_completed m' = {}" using m'(4,5) st not_done by auto
  have "p_blocks (ps ! i) = p_blocks (m_pieces m ! i) \<and> p_length (ps ! i) = p_length (m_pieces m ! i) \<and>
      p_piece_index (ps ! i) = p_piece_index (m_pieces m ! i)" if "i < length ps" for i
    using nth [OF that] that assms(1) restore_piece_fresh(1-3) [of "m_pieces m ! i"] len
    by (auto simp: fresh_pieces_def split: option.split)
  then show "fresh_pieces bs (m_pieces m')"
    using assms(1) st not_done unfolding fresh_pieces_def piece_ok_def is_complete_def m'(1) len
    by (metis insertCI)
qed

section \<open>Steps of a manager that has its pieces\<close>

lemma pm_step_kept:
  assumes "pm_step cfg s t" and "pm_inv cfg s" and "m_pieces (fst s) \<noteq> []"
  shows "manager_kept (fst s) (fst t) \<and> snd t = snd s \<or>
    (\<exists>i bg data u. handle_piece_block i bg data (fst s) = Done (u, fst t) \<and> snd t = snd s) \<or>
    (\<exists>i<length (m_pieces (fst s)). piece_hash_valid cfg i (fst s) \<and> t = (fst s, insert i (snd s))) \<or>
    (\<exists>i\<in>snd s. \<exists>u. finish_verification i (fst s) = Done (u, fst t) \<and> snd t = snd s)"
  using assms
proof (induction rule: pm_step.induct)
  case (hash i m V)
  then show ?case by auto
next
  case (block i bg data m u m' V)
  then show ?case by auto
next
  case (verify i V m u m')
  then show ?case by auto
next
  case (request i active m r m' V)
  then have "with_pieces cfg m = m" "\<not> m_lock m" by (simp_all add: with_pieces_def pm_inv_def)
  with request.hyps request_kept [of m cfg i active r m'] show ?case by simp
next
  case (select n m res m' V)
  then have "with_pieces cfg m = m" "0 < m_num_pieces m" by (simp_all add: with_pieces_def pm_inv_def)
  with select_kept [OF select.hyps] show ?case by auto
next
  case (start m V connections)
  then show ?case by (simp add: start_download_kept pm_inv_def)
qed (simp only: fst_conv snd_conv, rule disjI1, rule conjI,
    (erule kept_coroutines [THEN keepingD] | erule kept_operations | rule kept_operations), rule refl)+

text \<open>A piece that is complete with a wrong hash.\<close>

definition corrupted :: "pm_config \<Rightarrow> nat \<Rightarrow> pm_system \<Rightarrow> bool" where
  "corrupted cfg i s \<longleftrightarrow> pm_inv cfg s \<and> i < length (m_pieces (fst s)) \<and> is_complete (m_pieces (fst s) ! i) \<and>
     \<not> piece_hash_valid cfg i (fst s) \<and> p_state (m_pieces (fst s) ! i) \<noteq> MISSING"

lemma corrupted_step:
  assumes "corrupted cfg i s" and "pm_step cfg s t"
  shows "corrupted cfg i t \<and> get_data (m_pieces (fst t) ! i) = get_data (m_pieces (fst s) ! i)"
proof -
  obtain m V where s: "s = (m, V)" by (cases s)
  obtain m' V' where t: "t = (m', V')" by (cases t)
  from assms(1) have inv: "pm_inv cfg (m, V)" and i: "i < length (m_pieces m)" and c: "is_complete (m_pieces m ! i)"
    and bad: "\<not> piece_hash_valid cfg i m" and st: "p_state (m_pieces m ! i) \<noteq> MISSING"
    by (simp_all add: corrupted_def s)
  from inv bad have iV: "i \<notin> V" by (auto simp: pm_inv_def)
  have inv': "pm_inv cfg (m', V')" using pm_step_inv assms(2) inv by (simp add: s t)
  have same: ?thesis if "m_pieces m' ! i = m_pieces m ! i" "length (m_pieces m') = length (m_pieces m)"
      "m_piece_hashes m' = m_piece_hashes m" "m_piece_layers m' = m_piece_layers m" "m_meta_version m' = m_meta_version m"
    using that inv' i c bad st piece_hash_valid_cong [of m' i m cfg]
    by (simp add: corrupted_def s t)
  have "m_pieces m \<noteq> []" using i by auto
  with pm_step_kept [OF assms(2)] inv consider
      "manager_kept m m'"
    | j bg data u where "handle_piece_block j bg data m = Done (u, m')"
    | "m' = m"
    | j u where "j \<in> V" "finish_verification j m = Done (u, m')"
    by (auto simp: s t)
  then show ?thesis
  proof cases
    case 1
    then have k: "piece_kept (m_pieces m ! i) (m_pieces m' ! i)" and len: "length (m_pieces m') = length (m_pieces m)"
      using i by (auto simp: manager_kept_def list_all2_conv_all_nth)
    with c st have "p_state (m_pieces m' ! i) \<noteq> MISSING" by (simp add: piece_kept_def)
    then show ?thesis
      using inv' i c bad len manager_kept_hash_valid [OF 1 i] piece_kept_complete [OF k] piece_kept_get_data [OF k]
      by (simp add: corrupted_def s t)
  next
    case 2
    have stays: "snd (piece_add_block bg data (m_pieces m ! i)) = m_pieces m ! i"
      using c add_to_blocks_SomeD [of bg data "p_blocks (m_pieces m ! i)"]
      by (force simp: piece_add_block_def is_complete_def list_all_length split: option.split)
    have "m_pieces m' = m_pieces m \<or> m_pieces m' = (m_pieces m)[j := snd (piece_add_block bg data (m_pieces m ! j))]"
      and eq: "m_piece_hashes m' = m_piece_hashes m" "m_piece_layers m' = m_piece_layers m"
        "m_meta_version m' = m_meta_version m"
      using 2 by (auto simp: handle_piece_block_def locked_Done Let_def case_prod_unfold)
    then have "m_pieces m' ! i = m_pieces m ! i" "length (m_pieces m') = length (m_pieces m)"
      using stays i by (cases "j = i"; auto)+
    then show ?thesis using same eq by blast
  next
    case 3
    then show ?thesis using same by simp
  next
    case 4
    with iV have "j \<noteq> i" by blast
    with 4(2) same show ?thesis
      by (auto simp: finish_verification_def locked_def with_lock_eq update_piece_def split: if_splits)
  qed
qed

lemma corrupted_steps:
  "(pm_step cfg)\<^sup>*\<^sup>* s t \<Longrightarrow> corrupted cfg i s \<Longrightarrow>
     corrupted cfg i t \<and> get_data (m_pieces (fst t) ! i) = get_data (m_pieces (fst s) ! i)"
  by (induction rule: rtranclp_induct) (use corrupted_step in auto)

section \<open>What holds in a download\<close>

text \<open>
  A download starts with a new manager, or with one that a checkpoint has been restored to (its
  pieces being known), and goes on with any steps.
\<close>

inductive pm_reachable :: "pm_config \<Rightarrow> pm_system \<Rightarrow> bool" for cfg where
  init: "td_piece_length td \<noteq> Some 0 \<Longrightarrow> pm_reachable cfg (pm_init cfg fs td, {})"
| restored: "td_piece_length td \<noteq> Some 0 \<Longrightarrow> 0 < td_num_pieces td \<Longrightarrow> distinct (map fst (ck_states ck)) \<Longrightarrow>
    restore_from_checkpoint cfg ck (pm_init cfg fs td) = Done (u, m) \<Longrightarrow> pm_reachable cfg (m, {})"
| step: "pm_reachable cfg s \<Longrightarrow> pm_step cfg s t \<Longrightarrow> pm_reachable cfg t"

lemma pm_init_fields [simp]:
  "m_num_pieces (pm_init cfg fs td) = td_num_pieces td" "length (m_pieces (pm_init cfg fs td)) = td_num_pieces td"
  "m_verified (pm_init cfg fs td) = {}" "m_completed (pm_init cfg fs td) = {}" "\<not> m_lock (pm_init cfg fs td)"
  "m_meta_version (pm_init cfg fs td) = td_meta_version td"
  "m_piece_hashes (pm_init cfg fs td) = (case td_piece_hashes td of None \<Rightarrow> [] | Some hs \<Rightarrow> hs)"
  "m_availability (pm_init cfg fs td) = []" "m_frequency (pm_init cfg fs td) = []"
  "\<not> m_download_complete (pm_init cfg fs td)"
  by (simp_all add: pm_init_def Let_def init_pieces_def)

lemma pm_init_missing: "\<forall>p\<in>set (m_pieces (pm_init cfg fs td)). p_state p = MISSING"
  by (auto simp: pm_init_def Let_def init_pieces_def new_piece_def)

lemma fresh_inv:
  assumes "0 < pc_block_size cfg" and "fresh_pieces (pc_block_size cfg) (m_pieces m)" and "\<not> m_lock m"
    and "m_pieces m \<noteq> [] \<longrightarrow> 0 < m_num_pieces m" and "m_verified m = {}" and "m_completed m = {}"
  shows "pm_inv cfg (m, {})"
  using assms by (simp add: pm_inv_def fresh_pieces_def)

lemma pm_init_inv:
  assumes "0 < pc_block_size cfg" and "td_piece_length td \<noteq> Some 0"
  shows "pm_inv cfg (pm_init cfg fs td, {})"
proof (rule fresh_inv [OF assms(1) pm_init_fresh [OF assms]])
  show "m_pieces (pm_init cfg fs td) \<noteq> [] \<longrightarrow> 0 < m_num_pieces (pm_init cfg fs td)"
    by (metis length_greater_0_conv pm_init_fields(1,2))
qed simp_all

lemma pm_init_restored:
  assumes "0 < pc_block_size cfg" and "td_piece_length td \<noteq> Some 0" and "0 < td_num_pieces td"
    and "distinct (map fst (ck_states ck))" and "restore_from_checkpoint cfg ck (pm_init cfg fs td) = Done (u, m)"
  shows "fresh_pieces (pc_block_size cfg) (m_pieces m)" and "length (m_pieces m) = td_num_pieces td"
    and "\<And>i. i < td_num_pieces td \<Longrightarrow> p_state (m_pieces m ! i) = restored_state ck i"
    and "m_verified m = {}" and "m_completed m = {}" and "\<not> m_lock m" and "m_num_pieces m = td_num_pieces td"
proof -
  have ne: "m_pieces (pm_init cfg fs td) \<noteq> []"
    using assms(3) by (metis length_greater_0_conv pm_init_fields(2))
  note r = restore_fresh [OF pm_init_fresh [OF assms(1,2)] ne pm_init_missing assms(4,5)]
  from r show "fresh_pieces (pc_block_size cfg) (m_pieces m)" "length (m_pieces m) = td_num_pieces td"
    "m_verified m = {}" "m_completed m = {}" "\<not> m_lock m" "m_num_pieces m = td_num_pieces td" by simp_all
  show "p_state (m_pieces m ! i) = restored_state ck i" if "i < td_num_pieces td" for i
    using r(3) [of i] that by simp
qed

lemma pm_reachable_inv:
  assumes "pm_reachable cfg s" and "0 < pc_block_size cfg"
  shows "pm_inv cfg s"
  using assms
proof (induction rule: pm_reachable.induct)
  case (init td fs)
  then show ?case by (simp add: pm_init_inv)
next
  case (restored td ck fs u m)
  note r = pm_init_restored [OF restored.prems restored.hyps]
  show ?case by (rule fresh_inv [OF restored.prems r(1,6)]) (use r(4,5,7) restored.hyps(2) in simp_all)
next
  case (step s t)
  then show ?case by (blast intro: pm_step_inv)
qed

text \<open>What a right hash means, for the three kinds of torrents.\<close>

definition data_matches :: "piece_manager \<Rightarrow> nat \<Rightarrow> bytes \<Rightarrow> bool" where
  "data_matches m i data \<longleftrightarrow>
     (m_meta_version m \<noteq> 2 \<longrightarrow> i < length (m_piece_hashes m) \<and>
        (\<exists>a. hash_function a data = m_piece_hashes m ! i)) \<and>
     (m_meta_version m \<in> {2, 3} \<longrightarrow> (\<exists>h a. get_v2_piece_hash i m = Some h \<and> hash_function a data = h))"

lemma piece_hash_valid_matches:
  assumes "piece_hash_valid cfg i m" and "0 < pc_chunk_size cfg"
  shows "\<exists>data. get_data (m_pieces m ! i) = Inr data \<and> data_matches m i data"
proof -
  have opt: "\<exists>data a. get_data (m_pieces m ! i) = Inr data \<and> hash_function a data = h"
    if "hash_piece_optimized (pc_chunk_size cfg) (m_pieces m ! i) h" for h
    using that hash_piece_optimized_iff [OF assms(2)] by blast
  consider "m_meta_version m = 2" | "m_meta_version m = 3" | "m_meta_version m \<notin> {2, 3}" by blast
  then show ?thesis
  proof cases
    case 1
    then obtain h where "get_v2_piece_hash i m = Some h" "hash_piece_optimized (pc_chunk_size cfg) (m_pieces m ! i) h"
      using assms(1) by (auto simp: piece_hash_valid_def Let_def split: option.splits)
    with opt 1 show ?thesis by (fastforce simp: data_matches_def)
  next
    case 2
    then obtain h where h: "get_v2_piece_hash i m = Some h" "hash_piece_optimized (pc_chunk_size cfg) (m_pieces m ! i) h"
        "i < length (m_piece_hashes m)"
        "hash_piece_optimized (pc_chunk_size cfg) (m_pieces m ! i) (m_piece_hashes m ! i)"
      using assms(1) by (auto simp: piece_hash_valid_def Let_def split: option.splits if_splits)
    with opt [OF h(2)] opt [OF h(4)] 2 show ?thesis by (fastforce simp: data_matches_def)
  next
    case 3
    then have "i < length (m_piece_hashes m)"
        "hash_piece_optimized (pc_chunk_size cfg) (m_pieces m ! i) (m_piece_hashes m ! i)"
      using assms(1) by (auto simp: piece_hash_valid_def Let_def split: if_splits)
    with opt 3 show ?thesis by (fastforce simp: data_matches_def)
  qed
qed

text \<open>
  C1: whatever blocks arrive and however requests, verifications and selections interleave, a
  piece counts as verified only if it is complete and its data has the hash the torrent gives.
\<close>

theorem verified_pieces_authentic:
  assumes "pm_reachable cfg (m, V)" and "0 < pc_block_size cfg" and "0 < pc_chunk_size cfg"
    and "i \<in> m_verified m"
  shows "i < length (m_pieces m) \<and> is_complete (m_pieces m ! i) \<and>
     (\<exists>data. get_data (m_pieces m ! i) = Inr data \<and> data_matches m i data)"
proof -
  have "i < length (m_pieces m)" "piece_hash_valid cfg i m"
    using pm_reachable_inv [OF assms(1,2)] assms(4) by (auto simp: pm_inv_def)
  then show ?thesis using piece_hash_valid_matches [OF _ assms(3)] piece_hash_valid_complete by blast
qed

text \<open>
  A complete piece with a wrong hash stays so: it is never verified, never missing again, and
  no request is ever made for it.
\<close>

theorem corrupted_piece_stuck:
  assumes "pm_reachable cfg s" and "0 < pc_block_size cfg"
    and "i < length (m_pieces (fst s))" and "is_complete (m_pieces (fst s) ! i)"
    and "\<not> piece_hash_valid cfg i (fst s)" and "p_state (m_pieces (fst s) ! i) \<noteq> MISSING"
    and "(pm_step cfg)\<^sup>*\<^sup>* s (m', V')"
  shows "i \<notin> m_verified m' \<and> p_state (m_pieces m' ! i) \<noteq> MISSING \<and>
     get_data (m_pieces m' ! i) = get_data (m_pieces (fst s) ! i) \<and>
     start_request cfg i active m' = Done (None, m')"
proof -
  have "corrupted cfg i s"
    using assms(3-6) pm_reachable_inv [OF assms(1,2)] by (simp add: corrupted_def)
  then have c: "corrupted cfg i (m', V')" and d: "get_data (m_pieces m' ! i) = get_data (m_pieces (fst s) ! i)"
    using corrupted_steps [OF assms(7)] by auto
  then have inv: "pm_inv cfg (m', V')" and st: "i < length (m_pieces m')" "p_state (m_pieces m' ! i) \<noteq> MISSING"
    and bad: "\<not> piece_hash_valid cfg i m'" by (simp_all add: corrupted_def)
  then have "i \<notin> m_verified m'" "\<not> m_lock m'" "m_pieces m' \<noteq> []" by (auto simp: pm_inv_def)
  with st d show ?thesis by (simp add: start_request_def claim_piece_def with_lock_eq)
qed

text \<open>
  A checkpoint restored to a new manager gives back no piece: none is verified or complete,
  and a piece the checkpoint had as requested or downloading is never requested.
\<close>

theorem restore_gives_no_pieces:
  assumes "0 < pc_block_size cfg" and "td_piece_length td \<noteq> Some 0" and "0 < td_num_pieces td"
    and "distinct (map fst (ck_states ck))" and "restore_from_checkpoint cfg ck (pm_init cfg fs td) = Done (u, m)"
  shows "m_verified m = {} \<and> m_completed m = {} \<and> (\<forall>i<td_num_pieces td. \<not> is_complete (m_pieces m ! i)) \<and>
     (\<forall>i<td_num_pieces td. p_state (m_pieces m ! i) = restored_state ck i) \<and>
     (\<forall>i<td_num_pieces td. restored_state ck i \<noteq> MISSING \<longrightarrow> start_request cfg i active m = Done (None, m))"
proof -
  note r = pm_init_restored [OF assms]
  have "start_request cfg i active m = Done (None, m)" if "i < td_num_pieces td" "restored_state ck i \<noteq> MISSING" for i
    using that r(2) r(3) [OF that(1)] r(6) by (auto simp: start_request_def claim_piece_def with_lock_eq)
  moreover have "\<not> is_complete (m_pieces m ! i)" if "i < td_num_pieces td" for i
    using that r(1,2) by (simp add: fresh_pieces_def)
  ultimately show ?thesis using r(3-5) by blast
qed

section \<open>Examples\<close>

definition demo_cfg :: pm_config where
  "demo_cfg = \<lparr>pc_block_size = 2, pc_streaming_mode = False, pc_strategy = RAREST_FIRST,
     pc_sequential_window = 5, pc_fallback_test = (\<lambda>_ _ _. False), pc_endgame_duplicates = 2,
     pc_endgame_test = (\<lambda>_ _. False), pc_chunk_size = 1\<rparr>"

definition demo_torrent :: "nat \<Rightarrow> bytes list \<Rightarrow> torrent_data" where
  "demo_torrent n hs = \<lparr>td_num_pieces = n, td_piece_length = Some 2, td_piece_hashes = Some hs,
     td_total_length = None, td_piece_layers = [], td_meta_version = 1\<rparr>"

definition demo_block :: piece_block where
  "demo_block = \<lparr>b_piece_index = 0, b_begin = 0, b_length = 2, b_data = [1, 2], b_received = True, b_requested_from = {}\<rparr>"

definition demo_piece :: piece_data where
  "demo_piece = \<lparr>p_piece_index = 0, p_length = 2, p_blocks = [demo_block], p_state = COMPLETE,
     p_hash_verified = False, p_priority = 0, p_request_count = 0\<rparr>"

lemma demo_cfg_simps [simp]: "pc_block_size demo_cfg = 2" "pc_chunk_size demo_cfg = 1"
  by (simp_all add: demo_cfg_def)

lemma demo_piece_complete: "is_complete demo_piece" "get_data demo_piece = Inr [1, 2]"
  by (simp_all add: demo_piece_def demo_block_def is_complete_def get_data_def)

text \<open>A torrent of one piece of one block, which arrives.\<close>

lemma demo_received:
  obtains m where "pm_reachable demo_cfg (m, {})" and "m_pieces m = [demo_piece]" and "m_piece_hashes m = hs"
    and "m_meta_version m = 1" and "\<not> m_lock m" and "m_verified m = {}" and "m_num_pieces m = 1"
proof -
  let ?m = "pm_init demo_cfg None (demo_torrent 1 hs)"
  have p: "m_pieces ?m = [new_piece 2 0 2]"
    by (simp add: pm_init_def init_pieces_def demo_torrent_def initial_priority_def actual_piece_length_def
        demo_cfg_def new_piece_def Let_def)
  have new: "new_piece 2 0 2 = demo_piece\<lparr>p_blocks := [new_block 0 0 2], p_state := MISSING\<rparr>"
    by (simp add: new_piece_def demo_piece_def make_blocks_def)
  have added: "piece_add_block 0 [1, 2] (new_piece 2 0 2) = (True, demo_piece)"
    by (simp add: new piece_add_block_def demo_piece_def demo_block_def new_block_def)
  obtain m where m: "handle_piece_block 0 0 [1, 2] ?m = Done ((), m)" "m_pieces m = [demo_piece]"
      "m_piece_hashes m = hs" "m_meta_version m = 1" "\<not> m_lock m" "m_verified m = {}" "m_num_pieces m = 1"
    using p by (auto simp: handle_piece_block_def locked_Done added Let_def demo_torrent_def)
  have "pm_reachable demo_cfg (?m, {})" by (rule pm_reachable.init) (simp add: demo_torrent_def)
  then have "pm_reachable demo_cfg (m, {})" using m(1) by (rule pm_reachable.step [OF _ pm_step.block])
  with m that show ?thesis by blast
qed

lemma demo_verified:
  "\<exists>m. pm_reachable demo_cfg (m, {0}) \<and> 0 \<in> m_verified m"
proof -
  define h where "h = hash_function SHA1 [1, 2]"
  obtain m where m: "pm_reachable demo_cfg (m, {})" "m_pieces m = [demo_piece]" "m_piece_hashes m = [h]"
      "m_meta_version m = 1" "\<not> m_lock m" by (rule demo_received [of "[h]"])
  have "hash_piece_optimized 1 demo_piece h"
    using hash_piece_optimized_iff [of 1 demo_piece h] algorithm.length_H demo_piece_complete by (auto simp: h_def)
  then have "piece_hash_valid demo_cfg 0 m" by (simp add: piece_hash_valid_def m)
  then have V: "pm_reachable demo_cfg (m, {0})"
    using m(1) m(2) by (intro pm_reachable.step [OF m(1) pm_step.hash]) simp_all
  obtain m' where m': "finish_verification 0 m = Done ((), m')" "0 \<in> m_verified m'"
    using m(5) by (auto simp: finish_verification_def locked_def with_lock_eq update_piece_def)
  from m'(1) have "pm_reachable demo_cfg (m', {0})"
    by (intro pm_reachable.step [OF V pm_step.verify]) simp_all
  with m'(2) show ?thesis by blast
qed

theorem verified_pieces_authentic_witness:
  "\<exists>m. 0 \<in> m_verified m \<and> 0 < length (m_pieces m) \<and> is_complete (m_pieces m ! 0) \<and>
     (\<exists>data. get_data (m_pieces m ! 0) = Inr data \<and> data_matches m 0 data)"
proof -
  obtain m where m: "pm_reachable demo_cfg (m, {0})" "0 \<in> m_verified m" using demo_verified by blast
  have "0 < pc_block_size demo_cfg" "0 < pc_chunk_size demo_cfg" by simp_all
  from verified_pieces_authentic [OF m(1) this m(2)] m(2) show ?thesis by blast
qed

theorem corrupted_piece_stuck_witness:
  "\<exists>m. 0 \<notin> m_verified m \<and> p_state (m_pieces m ! 0) = COMPLETE \<and>
     start_request demo_cfg 0 [(''peer'', True)] m = Done (None, m)"
proof -
  obtain m where m: "pm_reachable demo_cfg (m, {})" "m_pieces m = [demo_piece]" "m_piece_hashes m = [[0]]"
      "m_meta_version m = 1" by (rule demo_received [of "[[0]]"])
  have "\<not> piece_hash_valid demo_cfg 0 m"
    by (simp add: piece_hash_valid_def m hash_piece_optimized_def demo_piece_complete)
  moreover have "is_complete (m_pieces m ! 0)" "p_state (m_pieces m ! 0) = COMPLETE" "0 < length (m_pieces m)"
    by (simp_all add: m demo_piece_complete) (simp add: demo_piece_def)
  ultimately have "0 \<notin> m_verified m \<and> p_state (m_pieces m ! 0) \<noteq> MISSING \<and>
     get_data (m_pieces m ! 0) = get_data (m_pieces (fst (m, {} :: nat set)) ! 0) \<and>
     start_request demo_cfg 0 [(''peer'', True)] m = Done (None, m)"
    using corrupted_piece_stuck [where s = "(m, {})" and i = 0 and m' = m and V' = "{}", OF m(1)] by simp
  with \<open>p_state (m_pieces m ! 0) = COMPLETE\<close> show ?thesis by blast
qed

theorem restore_gives_no_pieces_witness:
  "\<exists>m. m_verified m = {} \<and> p_state (m_pieces m ! 0) = MISSING \<and> p_state (m_pieces m ! 1) = DOWNLOADING \<and>
     start_request demo_cfg 1 [(''peer'', True)] m = Done (None, m)"
proof -
  let ?ck = "\<lparr>ck_total_pieces = 2, ck_piece_length = 2, ck_verified = [0], ck_states = [(0, VERIFIED), (1, DOWNLOADING)],
    ck_bytes_downloaded = 2, ck_endgame = False, ck_frequency = []\<rparr>"
  let ?td = "demo_torrent 2 []"
  obtain m where m: "restore_from_checkpoint demo_cfg ?ck (pm_init demo_cfg None ?td) = Done ((), m)"
    by (simp add: restore_from_checkpoint_def locked_def with_lock_eq)
  have r: "restored_state ?ck 0 = MISSING" "restored_state ?ck 1 = DOWNLOADING"
    by (simp_all add: restored_state_def checkpoint_corrupted_def)
  have td: "td_num_pieces ?td = 2" "td_piece_length ?td = Some 2" by (simp_all add: demo_torrent_def)
  have "m_verified m = {} \<and> m_completed m = {} \<and> (\<forall>i<td_num_pieces ?td. \<not> is_complete (m_pieces m ! i)) \<and>
     (\<forall>i<td_num_pieces ?td. p_state (m_pieces m ! i) = restored_state ?ck i) \<and>
     (\<forall>i<td_num_pieces ?td. restored_state ?ck i \<noteq> MISSING \<longrightarrow>
        start_request demo_cfg i [(''peer'', True)] m = Done (None, m))"
    by (rule restore_gives_no_pieces [OF _ _ _ _ m]) (simp_all add: td)
  then show ?thesis using r unfolding td by (intro exI [of _ m]) (auto dest: spec [of _ 0] spec [of _ 1])
qed

end
