(* ===== verification/Piece_Progress.thy ===== *)
theory Piece_Progress
  imports Piece_Download
begin

text \<open>
  Progress of a download: requests, the distribution of blocks among peers, the order of the
  rarest-first strategy, the strategies that wait for a lock they hold, magnet links.
\<close>

section \<open>A requested piece is never requested again\<close>

text \<open>A piece that is not missing, with its number.\<close>

definition claimed_piece :: "pm_config \<Rightarrow> nat \<Rightarrow> pm_system \<Rightarrow> bool" where
  "claimed_piece cfg i s \<longleftrightarrow> pm_inv cfg s \<and> i < length (m_pieces (fst s)) \<and> p_state (m_pieces (fst s) ! i) \<noteq> MISSING"

lemma piece_add_block_state: "p_state p \<noteq> MISSING \<Longrightarrow> p_state (snd (piece_add_block bg data p)) \<noteq> MISSING"
  by (simp add: piece_add_block_def Let_def split: option.split)

lemma claimed_step:
  assumes "claimed_piece cfg i s" and "pm_step cfg s t"
  shows "claimed_piece cfg i t"
proof -
  obtain m V where s: "s = (m, V)" by (cases s)
  obtain m' V' where t: "t = (m', V')" by (cases t)
  from assms(1) have inv: "pm_inv cfg (m, V)" and i: "i < length (m_pieces m)" and st: "p_state (m_pieces m ! i) \<noteq> MISSING"
    by (simp_all add: claimed_piece_def s)
  have inv': "pm_inv cfg (m', V')" using pm_step_inv assms(2) inv by (simp add: s t)
  have "m_pieces m \<noteq> []" using i by auto
  with pm_step_kept [OF assms(2)] inv consider
      "manager_kept m m'"
    | j bg data u where "handle_piece_block j bg data m = Done (u, m')"
    | "m' = m"
    | j u where "j \<in> V" "finish_verification j m = Done (u, m')"
    by (auto simp: s t)
  then have "i < length (m_pieces m') \<and> p_state (m_pieces m' ! i) \<noteq> MISSING"
  proof cases
    case 1
    then have k: "piece_kept (m_pieces m ! i) (m_pieces m' ! i)" and len: "length (m_pieces m') = length (m_pieces m)"
      using i by (auto simp: manager_kept_def list_all2_conv_all_nth)
    have "piece_ok (pc_block_size cfg) (m_pieces m ! i)" using inv i by (simp add: pm_inv_def)
    with k st i len show ?thesis by (simp add: piece_kept_def piece_ok_def)
  next
    case 2
    then have "m_pieces m' = m_pieces m \<or> m_pieces m' = (m_pieces m)[j := snd (piece_add_block bg data (m_pieces m ! j))]"
      by (auto simp: handle_piece_block_def locked_Done Let_def case_prod_unfold)
    then show ?thesis using i st piece_add_block_state by (cases "j = i"; auto)
  next
    case 3
    with i st show ?thesis by simp
  next
    case 4
    then have "m_pieces m' = (m_pieces m)[j := (m_pieces m ! j)\<lparr>p_state := VERIFIED\<rparr>]"
      by (auto simp: finish_verification_def locked_def with_lock_eq update_piece_def split: if_splits)
    with i st show ?thesis by (cases "j = i") simp_all
  qed
  with inv' show ?thesis by (simp add: claimed_piece_def t)
qed

lemma claimed_steps: "(pm_step cfg)\<^sup>*\<^sup>* s t \<Longrightarrow> claimed_piece cfg i s \<Longrightarrow> claimed_piece cfg i t"
  by (induction rule: rtranclp_induct) (use claimed_step in auto)

text \<open>
  C29: a piece whose request was started, and that is not missing any more, is never missing
  again, whatever happens to the peers it was requested from, and never requested again.
\<close>

theorem requested_piece_never_again:
  assumes "pm_reachable cfg s" and "0 < pc_block_size cfg"
    and "i < length (m_pieces (fst s))" and "p_state (m_pieces (fst s) ! i) \<noteq> MISSING"
    and "(pm_step cfg)\<^sup>*\<^sup>* s (m', V')"
  shows "p_state (m_pieces m' ! i) \<noteq> MISSING \<and> start_request cfg i active m' = Done (None, m') \<and>
     i \<notin> set (rarest_first m' missing)"
proof -
  have "claimed_piece cfg i s"
    using assms(3,4) pm_reachable_inv [OF assms(1,2)] by (simp add: claimed_piece_def)
  then have "claimed_piece cfg i (m', V')" using claimed_steps assms(5) by blast
  then have inv: "pm_inv cfg (m', V')" and st: "i < length (m_pieces m')" "p_state (m_pieces m' ! i) \<noteq> MISSING"
    by (simp_all add: claimed_piece_def)
  then have "\<not> m_lock m'" "m_pieces m' \<noteq> []" by (auto simp: pm_inv_def)
  with st show ?thesis by (auto simp: start_request_def claim_piece_def with_lock_eq rarest_first_def)
qed

section \<open>The distribution of blocks among peers\<close>

lemma request_from_all:
  "map snd (fst (request_from (\<lambda>_ _. True) request peer bs s)) = bs"
  by (induction bs arbitrary: s) (simp_all add: Let_def case_prod_unfold)

lemma request_normal_from_all:
  assumes "0 < k"
  shows "map snd (fst (request_normal_from (\<lambda>_ _. True) request k missing i peers s)) =
     take (length peers * k) (drop (i * k) missing)"
proof (induction peers arbitrary: i s)
  case (Cons peer peers)
  show ?case
  proof (cases "i * k \<ge> length missing")
    case False
    define bs where "bs = take (min (i * k + k) (length missing) - i * k) (drop (i * k) missing)"
    define s' where "s' = snd (request_from (\<lambda>_ _. True) request peer bs s)"
    have bs: "bs = take k (drop (i * k) missing)" by (simp add: bs_def min_def)
    have "fst (request_normal_from (\<lambda>_ _. True) request k missing i (peer # peers) s) =
        fst (request_from (\<lambda>_ _. True) request peer bs s) @
        fst (request_normal_from (\<lambda>_ _. True) request k missing (i + 1) peers s')"
      using False by (simp add: Let_def case_prod_unfold bs_def s'_def)
    then have "map snd (fst (request_normal_from (\<lambda>_ _. True) request k missing i (peer # peers) s)) =
        take k (drop (i * k) missing) @ take (length peers * k) (drop (k + i * k) missing)"
      using Cons.IH [of "i + 1" s'] by (simp add: request_from_all bs)
    also have "\<dots> = take (length (peer # peers) * k) (drop (i * k) missing)"
      by (simp add: take_add drop_drop [symmetric] del: drop_drop)
    finally show ?thesis .
  qed simp
qed simp

text \<open>
  With every peer willing, normal mode requests each of the first blocks once, as many as
  peers times the share of a peer; the remainder of the division is not requested from anybody.
\<close>

theorem normal_requests_leave_remainder:
  assumes "peers \<noteq> []"
  shows "map snd (fst (request_blocks_normal (\<lambda>_ _. True) request missing peers s)) =
      (if length missing \<le> length peers then missing
       else take (length missing - length missing mod length peers) missing)"
proof -
  consider "length missing < length peers" | "length missing = length peers" | "length peers < length missing" by linarith
  then show ?thesis
  proof cases
    case 3
    then have "0 < length missing div length peers" using assms by (simp add: div_greater_zero_iff)
    moreover have "length peers * (length missing div length peers) = length missing - length missing mod length peers"
      by (simp add: minus_mod_eq_mult_div)
    ultimately show ?thesis
      using 3 by (simp add: request_blocks_normal_def Let_def request_normal_from_all max_def)
  qed (use assms in \<open>simp_all add: request_blocks_normal_def Let_def request_normal_from_all\<close>)
qed

theorem normal_requests_leave_remainder_witness:
  "map snd (fst (request_blocks_normal (\<lambda>_ _. True) (\<lambda>_ _ s. s) (make_blocks 1 0 5) [''a'', ''b''] ())) =
     take 4 (make_blocks 1 0 5)"
proof -
  have "length (make_blocks 1 0 5) = 5" "length [''a'', ''b''] = 2" by (simp_all add: make_blocks_def)
  note normal_requests_leave_remainder [of "[''a'', ''b'']" "\<lambda>_ _ s. s" "make_blocks 1 0 5" "()", unfolded this]
  then show ?thesis by simp
qed

theorem requested_piece_never_again_witness:
  "\<exists>m. p_state (m_pieces m ! 1) = DOWNLOADING \<and> start_request demo_cfg 1 [(''peer'', True)] m = Done (None, m) \<and>
     1 \<notin> set (rarest_first m [0, 1])"
proof -
  let ?m = "pm_init demo_cfg None (demo_torrent 2 [])"
  have len: "length (m_pieces ?m) = 2" by (simp add: demo_torrent_def)
  obtain m where m: "finish_request 1 ?m = Done ((), m)" "m_pieces m = (m_pieces ?m)[1 := (m_pieces ?m ! 1)\<lparr>p_state := DOWNLOADING\<rparr>]"
    by (simp add: finish_request_def locked_Done update_piece_def)
  have "pm_reachable demo_cfg (?m, {})" by (rule pm_reachable.init) (simp add: demo_torrent_def)
  then have r: "pm_reachable demo_cfg (m, {})" using m(1) by (rule pm_reachable.step [OF _ pm_step.finish])
  have st: "p_state (m_pieces m ! 1) = DOWNLOADING" "1 < length (m_pieces m)" using m(2) len by simp_all
  then show ?thesis
    using requested_piece_never_again [where i = 1 and m' = m and V' = "{}" and missing = "[0, 1]", OF r]
    by (intro exI [of _ m]) simp
qed

section \<open>Strategies that wait for the lock they hold\<close>

lemma with_lock_waits: "m_lock m \<Longrightarrow> with_lock body m = Waits m"
  unfolding with_lock_def by (rule piece_lock.guarded_held)

lemma get_missing_pieces_lock [simp]: "m_lock (snd (get_missing_pieces m)) = m_lock m"
  using get_missing_pieces_kept [of m] by (simp add: manager_kept_def)

lemma get_current_sequential_lock [simp]: "m_lock (snd (get_current_sequential_piece m)) = m_lock m"
  using get_current_sequential_kept [of m] by (simp add: manager_kept_def)

lemma prioritize_startup_waits: "m_lock m \<Longrightarrow> is \<noteq> [] \<Longrightarrow> prioritize_startup is m = Waits m"
  by (cases "is") (simp_all add: with_lock_waits)

definition stuck :: "('a, piece_manager) outcome \<Rightarrow> bool" where
  "stuck r \<longleftrightarrow> (\<exists>m. r = Waits m \<and> m_lock m)"

lemma with_lock_stuck:
  assumes "\<not> m_lock m" and "stuck (body (m\<lparr>m_lock := True\<rparr>))"
  shows "stuck (with_lock body m)"
  using assms by (auto simp: with_lock_eq stuck_def)

lemma nested_select_stuck:
  assumes "m_lock m"
  shows "stuck (select_sequential cfg m)" and "stuck (select_rarest_first m)" and "stuck (select_sequential_with_window n m)"
  using assms by (auto simp: stuck_def select_sequential_def select_rarest_first_def
      select_sequential_with_window_def with_lock_waits)

lemma seek_priorities_lock:
  "m_lock (fold (\<lambda>i m. if P i then update_piece i (f i) m else m) is m) = m_lock m"
  by (induction "is" arbitrary: m) (simp_all add: update_piece_def)

text \<open>
  C30: a seek, sequential selection with fallback when something is missing, and streaming
  selection wait for the lock they hold, and then nothing that takes the lock ever returns.
\<close>

theorem nested_locks_deadlock:
  assumes "\<not> m_lock m"
  shows "stuck (handle_streaming_seek cfg target m) \<and>
     (fst (get_missing_pieces m) \<noteq> [] \<longrightarrow> stuck (select_sequential_with_fallback cfg m)) \<and>
     (m_piece_length m > 0 \<longrightarrow> stuck (select_sequential_streaming cfg m)) \<and>
     (\<forall>m'. m_lock m' \<longrightarrow> handle_piece_block i bg data m' = Waits m' \<and> finish_verification i m' = Waits m' \<and>
        select_rarest_first m' = Waits m' \<and> select_sequential cfg m' = Waits m')"
proof -
  let ?m = "m\<lparr>m_lock := True\<rparr>"
  have "stuck (handle_streaming_seek cfg target m)"
    unfolding handle_streaming_seek_def Let_def case_prod_unfold
    by (rule with_lock_stuck [OF assms]) (simp add: nested_select_stuck seek_priorities_lock)
  moreover have "stuck (select_sequential_with_fallback cfg m)" if "fst (get_missing_pieces m) \<noteq> []"
  proof -
    have "fst (get_missing_pieces ?m) = fst (get_missing_pieces m)"
      by (simp add: get_missing_pieces_def Let_def split: option.split)
    with that show ?thesis
      unfolding select_sequential_with_fallback_def Let_def case_prod_unfold
      by (intro with_lock_stuck [OF assms]) (simp add: nested_select_stuck)
  qed
  moreover have "stuck (select_sequential_streaming cfg m)" if "m_piece_length m > 0"
  proof -
    define k where "k = snd (get_current_sequential_piece ?m)"
    define startup where "startup = filter (\<lambda>i. i \<in> set (fst (get_missing_pieces k))) [0..<5]"
    have k: "m_lock k" by (simp add: k_def)
    then have "prioritize_startup startup (snd (get_missing_pieces k)) = Done ((), snd (get_missing_pieces k)) \<or>
        prioritize_startup startup (snd (get_missing_pieces k)) = Waits (snd (get_missing_pieces k))"
      using prioritize_startup_waits [of "snd (get_missing_pieces k)" startup] by (cases "startup = []") simp_all
    then have "stuck (obind (prioritize_startup startup (snd (get_missing_pieces k)))
        (\<lambda>p. select_sequential_with_window n (snd p)))" and "stuck (select_sequential_with_window n k)" for n
      using k nested_select_stuck(3) by (auto simp: stuck_def)
    from this [unfolded startup_def k_def] that nested_select_stuck(1) show ?thesis
      unfolding select_sequential_streaming_def Let_def case_prod_unfold
      by (intro with_lock_stuck [OF assms]) simp
  qed
  moreover have "handle_piece_block i bg data m' = Waits m'" "finish_verification i m' = Waits m'"
      "select_rarest_first m' = Waits m'" "select_sequential cfg m' = Waits m'" if "m_lock m'" for m'
    using that by (simp_all add: handle_piece_block_def finish_verification_def locked_def
        select_rarest_first_def select_sequential_def with_lock_waits)
  ultimately show ?thesis by blast
qed

theorem nested_locks_deadlock_witness:
  "stuck (handle_streaming_seek demo_cfg 0 (pm_init demo_cfg None (demo_torrent 1 [])))"
  using nested_locks_deadlock [of "pm_init demo_cfg None (demo_torrent 1 [])" demo_cfg 0] by simp

section \<open>The number of peers that have a piece\<close>

datatype peer_event = Join string | Leave string | Bitfield string bytes | Have string nat

fun on_peer_event :: "peer_event \<Rightarrow> piece_manager \<Rightarrow> (piece_manager, piece_manager) outcome" where
  "on_peer_event (Join key) m = Done (add_peer key m)"
| "on_peer_event (Leave key) m = Done (remove_peer key m)"
| "on_peer_event (Bitfield key bf) m = obind (update_peer_availability key bf m) (\<lambda>(_, m). Done m)"
| "on_peer_event (Have key i) m = obind (update_peer_have key i m) (\<lambda>(_, m). Done m)"

fun peer_events :: "peer_event list \<Rightarrow> piece_manager \<Rightarrow> (piece_manager, piece_manager) outcome" where
  "peer_events [] m = Done m"
| "peer_events (e # es) m = obind (on_peer_event e m) (peer_events es)"

lemma count_of_add [simp]: "count_of (count_add d i c) j = (if j = i then count_of c j + d else count_of c j)"
  by (simp add: count_of_def count_add_def update_conv')

lemma count_of_drop:
  "0 \<le> count_of c i - 1 \<Longrightarrow> count_of (count_drop i c) j = (if j = i then count_of c j - 1 else count_of c j)"
  by (auto simp: count_drop_def Let_def count_of_def delete_conv' count_add_def update_conv' split: option.split)

lemma fold_count_add:
  "distinct is \<Longrightarrow> count_of (fold (count_add d) is c) j = (if j \<in> set is then count_of c j + d else count_of c j)"
  by (induction "is" arbitrary: c) auto

lemma fold_count_drop:
  "distinct is \<Longrightarrow> \<forall>i\<in>set is. 1 \<le> count_of c i \<Longrightarrow>
     count_of (fold count_drop is c) j = (if j \<in> set is then count_of c j - 1 else count_of c j)"
proof (induction "is" arbitrary: c)
  case (Cons i "is")
  then have "\<forall>k\<in>set is. 1 \<le> count_of (count_drop i c) k" by (auto simp: count_of_drop)
  with Cons show ?case by (auto simp: count_of_drop)
qed simp

text \<open>The peers whose set of pieces has \<open>i\<close>.\<close>

definition peers_with :: "(string \<times> nat set) list \<Rightarrow> nat \<Rightarrow> string set" where
  "peers_with av i = {key. \<exists>pieces. map_of av key = Some pieces \<and> i \<in> pieces}"

definition counts_ok :: "piece_manager \<Rightarrow> bool" where
  "counts_ok m \<longleftrightarrow> \<not> m_lock m \<and> distinct (map fst (m_availability m)) \<and>
     (\<forall>(key, pieces)\<in>set (m_availability m). finite pieces) \<and>
     (\<forall>i. count_of (m_frequency m) i = int (card (peers_with (m_availability m) i)))"

lemma finite_peers_with [simp]: "finite (peers_with av i)"
proof (rule finite_subset)
  show "peers_with av i \<subseteq> fst ` set av" by (force simp: peers_with_def dest: map_of_SomeD)
qed simp

lemma peers_with_update:
  "peers_with (AList.update key pieces av) i =
     (if i \<in> pieces then insert key (peers_with av i) else peers_with av i - {key})"
  by (auto simp: peers_with_def update_conv')

lemma peers_with_delete: "peers_with (AList.delete key av) i = peers_with av i - {key}"
  by (auto simp: peers_with_def delete_conv')

lemma in_peers_with: "key \<in> peers_with av i \<longleftrightarrow> i \<in> (case map_of av key of None \<Rightarrow> {} | Some pieces \<Rightarrow> pieces)"
  by (auto simp: peers_with_def split: option.split)

lemma counts_ok_finite: "counts_ok m \<Longrightarrow> finite (peer_pieces key m)"
  by (auto simp: counts_ok_def peer_pieces_def dest!: map_of_SomeD split: option.split)

lemma availability_set_finite:
  assumes "\<forall>(key, pieces)\<in>set av. finite pieces" and "finite new"
  shows "\<forall>(key, pieces)\<in>set (AList.update key new av). finite pieces"
  using assms by (induction av) (auto split: if_splits)

lemma card_insert_int: "finite A \<Longrightarrow> int (card (insert x A)) = int (card A) + (if x \<in> A then 0 else 1)"
  by (simp add: card_insert_if)

lemma card_remove_int: "finite A \<Longrightarrow> int (card (A - {x})) = int (card A) - (if x \<in> A then 1 else 0)"
  using card_Diff_singleton [of x A] card_gt_0_iff [of A] by (auto simp: of_nat_diff)

lemma on_peer_event_counts:
  assumes "counts_ok m" and "on_peer_event e m = Done m'"
  shows "counts_ok m'"
proof -
  let ?av = "m_availability m"
  from assms(1) have ok: "\<not> m_lock m" "distinct (map fst ?av)" "\<forall>(key, pieces)\<in>set ?av. finite pieces"
      "\<And>i. count_of (m_frequency m) i = int (card (peers_with ?av i))"
    by (simp_all add: counts_ok_def)
  have fin: "finite (peer_pieces key m)" for key using assms(1) by (rule counts_ok_finite)
  have has: "key \<in> peers_with ?av i \<longleftrightarrow> i \<in> peer_pieces key m" for key i
    by (simp add: in_peers_with peer_pieces_def)
  show ?thesis
  proof (cases e)
    case (Join key)
    show ?thesis
    proof (cases "map_of ?av key")
      case None
      then have "key \<notin> peers_with ?av i" for i by (simp add: in_peers_with)
      with None Join assms ok availability_set_finite [OF ok(3), of "{}" key] show ?thesis
        by (auto simp: counts_ok_def add_peer_def distinct_update peers_with_update)
    qed (use Join assms in \<open>simp add: add_peer_def\<close>)
  next
    case (Leave key)
    show ?thesis
    proof (cases "map_of ?av key")
      case None
      with Leave assms show ?thesis by (simp add: remove_peer_def)
    next
      case (Some pieces)
      then have p: "peer_pieces key m = pieces" by (simp add: peer_pieces_def)
      then have f: "finite pieces" using fin [of key] by simp
      have "1 \<le> count_of (m_frequency m) i" if "i \<in> pieces" for i
      proof -
        have "peers_with ?av i \<noteq> {}" using has [of key i] that p by auto
        then show ?thesis using ok(4) [of i] by (simp add: Suc_leI card_gt_0_iff)
      qed
      then have "count_of (fold count_drop (sorted_list_of_set pieces) (m_frequency m)) i =
          int (card (peers_with ?av i - {key}))" for i
        using f has [of key i] p ok(4) by (simp add: fold_count_drop card_remove_int)
      moreover have "\<forall>(key, pieces)\<in>set (AList.delete key ?av). finite pieces"
        using ok(3) by (auto simp: AList.delete_eq)
      ultimately show ?thesis
        using Leave assms(2) Some ok(1,2)
        by (auto simp: counts_ok_def remove_peer_def peers_with_delete distinct_delete)
    qed
  next
    case (Bitfield key bf)
    define new where "new = parse_bitfield (m_num_pieces m) bf"
    define old where "old = peer_pieces key m"
    have f: "finite new" "finite old" using fin by (simp_all add: new_def parse_bitfield_def old_def)
    define freq where "freq = fold (count_add 1) (sorted_list_of_set (new - old))
        (fold (count_add (- 1)) (sorted_list_of_set (old - new)) (m_frequency m))"
    have "count_of freq i = int (card (peers_with (AList.update key new ?av) i))" for i
      using f has [of key i] ok(4) [of i] card_insert_int [of "peers_with ?av i" key] card_remove_int [of "peers_with ?av i" key]
      by (cases "i \<in> old"; simp add: freq_def fold_count_add peers_with_update old_def [symmetric]
          insert_absorb del: card_insert_disjoint card_Diff_insert card_Diff_singleton)
    moreover have "m_availability m' = AList.update key new ?av" "m_frequency m' = freq" "\<not> m_lock m'"
      using Bitfield assms(2) ok(1)
      by (auto simp: update_peer_availability_def locked_def with_lock_eq Let_def new_def old_def freq_def peer_pieces_def)
    ultimately show ?thesis
      using ok(2) availability_set_finite [OF ok(3) f(1), of key] by (simp add: counts_ok_def distinct_update)
  next
    case (Have key i)
    define old where "old = peer_pieces key m"
    define freq where "freq = (if i \<notin> old then count_add 1 i (m_frequency m) else m_frequency m)"
    have f: "finite (insert i old)" using fin by (simp add: old_def)
    have "count_of freq j = int (card (peers_with (AList.update key (insert i old) ?av) j))" for j
      using has [of key j] ok(4) [of j]
      by (auto simp: freq_def peers_with_update card_insert_int card_remove_int insert_absorb old_def [symmetric])
    moreover have "m_availability m' = AList.update key (insert i old) ?av" "m_frequency m' = freq" "\<not> m_lock m'"
      using Have assms(2) ok(1)
      by (auto simp: update_peer_have_def locked_def with_lock_eq Let_def old_def freq_def peer_pieces_def)
    ultimately show ?thesis
      using ok(2) availability_set_finite [OF ok(3) f, of key] by (simp add: counts_ok_def distinct_update)
  qed
qed

lemma peer_events_counts: "counts_ok m \<Longrightarrow> peer_events es m = Done m' \<Longrightarrow> counts_ok m'"
proof (induction es arbitrary: m)
  case (Cons e es)
  then obtain n where "on_peer_event e m = Done n" "peer_events es n = Done m'"
    by (cases "on_peer_event e m") auto
  with Cons on_peer_event_counts show ?case by blast
qed simp

text \<open>
  C9: after any joins, leaves, bitfields and have messages, the frequency of a piece is the
  number of peers known to have it.
\<close>

theorem frequency_counts_peers:
  assumes "peer_events es (pm_init cfg fs td) = Done m"
  shows "count_of (m_frequency m) i = int (card {key. i \<in> peer_pieces key m})"
proof -
  have "counts_ok (pm_init cfg fs td)" by (simp add: counts_ok_def count_of_def peers_with_def)
  then have "counts_ok m" using assms by (rule peer_events_counts)
  moreover have "{key. i \<in> peer_pieces key m} = peers_with (m_availability m) i"
    by (auto simp: in_peers_with peer_pieces_def)
  ultimately show ?thesis by (simp add: counts_ok_def)
qed

theorem frequency_counts_peers_witness:
  "\<exists>m. peer_events [Bitfield ''a'' [192], Have ''b'' 1, Have ''b'' 1, Bitfield ''a'' [64]]
       (pm_init demo_cfg None (demo_torrent 2 [])) = Done m \<and>
     count_of (m_frequency m) 1 = int (card {key. 1 \<in> peer_pieces key m})"
proof -
  obtain m where "peer_events [Bitfield ''a'' [192], Have ''b'' 1, Have ''b'' 1, Bitfield ''a'' [64]]
       (pm_init demo_cfg None (demo_torrent 2 [])) = Done m"
    by (simp add: update_peer_availability_def update_peer_have_def locked_def with_lock_eq Let_def)
  with frequency_counts_peers [OF this] show ?thesis by blast
qed

section \<open>The order of the rarest-first strategy\<close>

definition descending :: "(int \<times> nat) list \<Rightarrow> bool" where
  "descending = sorted_wrt (\<lambda>x y. y < x)"

lemma scores_descending:
  assumes "distinct missing"
  shows "descending (rev (sort (map (\<lambda>i. (piece_score m i, i)) missing)))"
proof -
  have "distinct (map (\<lambda>i. (piece_score m i, i)) missing)"
    using assms by (simp add: distinct_map inj_on_def)
  then have "sorted_wrt (<) (sort (map (\<lambda>i. (piece_score m i, i)) missing))"
    by (simp add: strict_sorted_iff)
  then show ?thesis by (simp add: descending_def sorted_wrt_rev)
qed

lemma rarest_first_best:
  assumes "distinct missing" and "\<forall>i\<in>set missing. p_state (m_pieces m ! i) = MISSING"
  defines "selected \<equiv> rarest_first m missing"
  shows "length selected = min 5 (length missing) \<and> set selected \<subseteq> set missing \<and>
     descending (map (\<lambda>i. (piece_score m i, i)) selected) \<and>
     (\<forall>i\<in>set selected. \<forall>j\<in>set missing - set selected. (piece_score m j, j) < (piece_score m i, i))"
proof -
  define xs where "xs = rev (sort (map (\<lambda>i. (piece_score m i, i)) missing))"
  have xs: "set xs = (\<lambda>i. (piece_score m i, i)) ` set missing" "length xs = length missing" "descending xs"
    using scores_descending [OF assms(1)] by (simp_all add: xs_def)
  have "set (take 5 xs) \<subseteq> set xs" by (rule set_take_subset)
  with assms(2) have sel: "selected = map snd (take 5 xs)"
    unfolding selected_def rarest_first_def xs_def [symmetric] using xs(1)
    by (intro filter_True) fastforce
  have pair: "x = (piece_score m (snd x), snd x)" if "x \<in> set xs" for x using that xs(1) by auto
  have score: "map (\<lambda>i. (piece_score m i, i)) selected = take 5 xs"
    unfolding sel map_map comp_def by (rule map_idI) (use pair in \<open>metis in_set_takeD\<close>)
  have "descending (take 5 xs @ drop 5 xs)" using xs(3) by simp
  then have d: "descending (take 5 xs)" "\<forall>x\<in>set (take 5 xs). \<forall>y\<in>set (drop 5 xs). y < x"
    unfolding descending_def sorted_wrt_append by blast+
  have "(piece_score m j, j) < (piece_score m i, i)" if "i \<in> set selected" "j \<in> set missing - set selected" for i j
  proof -
    have "(piece_score m i, i) \<in> set (take 5 xs)"
      using that(1) unfolding score [symmetric] by simp
    moreover have "(piece_score m j, j) \<in> set xs" using that(2) xs(1) by simp
    then have "(piece_score m j, j) \<in> set (take 5 xs) \<or> (piece_score m j, j) \<in> set (drop 5 xs)"
      by (metis Un_iff append_take_drop_id set_append)
    moreover have "(piece_score m j, j) \<notin> set (take 5 xs)" using that(2) unfolding sel by force
    ultimately show ?thesis using d(2) by blast
  qed
  moreover have "set selected \<subseteq> set missing" unfolding sel using xs(1) by (fastforce dest: in_set_takeD)
  moreover have "length selected = min 5 (length missing)" by (simp add: sel xs(2) min.commute)
  ultimately show ?thesis using d(1) score by simp
qed


text \<open>
  While five or more missing pieces of equal priority have no peer, the strategy selects only
  such pieces, and requesting them leads nowhere; pieces that peers do have are never selected.
\<close>

theorem rarest_first_starves:
  assumes "counts_ok m" and "distinct missing" and "\<forall>i\<in>set missing. p_state (m_pieces m ! i) = MISSING"
    and "\<forall>i\<in>set missing. i < length (m_pieces m)"
    and "\<forall>i\<in>set missing. piece_score m i = 1000 - count_of (m_frequency m) i + prio"
    and "5 \<le> card {i \<in> set missing. count_of (m_frequency m) i = 0}" and "i \<in> set (rarest_first m missing)"
  shows "count_of (m_frequency m) i = 0 \<and>
     (\<exists>m'. start_request cfg i active m = Done (None, m') \<and> p_state (m_pieces m' ! i) = MISSING)"
proof -
  let ?sel = "rarest_first m missing" and ?none = "{i \<in> set missing. count_of (m_frequency m) i = 0}"
  note best = rarest_first_best [OF assms(2,3)]
  have i: "i \<in> set missing" using best assms(7) by blast
  have nonneg: "0 \<le> count_of (m_frequency m) j" for j using assms(1) by (simp add: counts_ok_def)
  have zero: "count_of (m_frequency m) i = 0"
  proof (rule ccontr)
    assume pos: "count_of (m_frequency m) i \<noteq> 0"
    have "j \<in> set ?sel" if "j \<in> ?none" for j
    proof (rule ccontr)
      assume "j \<notin> set ?sel"
      then have "(piece_score m j, j) < (piece_score m i, i)" using best that assms(7) by blast
      then have "piece_score m j \<le> piece_score m i" by (auto simp: less_prod_def)
      with that i pos nonneg [of i] show False using assms(5) by auto
    qed
    then have "?none \<subseteq> set ?sel - {i}" using pos by auto
    then have "card ?none \<le> card (set ?sel - {i})" by (intro card_mono) simp_all
    also have "\<dots> < card (set ?sel)" using assms(7) by (intro card_Diff1_less) simp_all
    also have "\<dots> \<le> 5" using best card_length [of ?sel] by linarith
    finally show False using assms(6) by simp
  qed
  have l: "\<not> m_lock m" and ne: "m_pieces m \<noteq> []" using assms(1,4) i by (auto simp: counts_ok_def)
  have "peers_with (m_availability m) i = {}" using zero assms(1) by (simp add: counts_ok_def)
  then have "i \<notin> peer_pieces key m" for key by (auto simp: peer_pieces_def peers_with_def split: option.splits)
  then have "get_peers_for_piece i active m' = []" if "m_availability m' = m_availability m" for m'
    using that by (auto simp: get_peers_for_piece_def filter_empty_conv peer_pieces_def)
  then have "\<exists>m'. start_request cfg i active m = Done (None, m') \<and> p_state (m_pieces m' ! i) = MISSING"
    using l ne i assms(3,4)
    by (simp add: start_request_def claim_piece_def with_lock_eq release_piece_def locked_def update_piece_def)
  with zero show ?thesis by blast
qed

definition scarce :: piece_manager where
  "scarce = (pm_init demo_cfg None (demo_torrent 6 []))\<lparr>m_availability := [(''a'', {0})], m_frequency := [(0, 1)]\<rparr>"

lemma scarce_facts:
  "m_availability scarce = [(''a'', {0})]" "m_frequency scarce = [(0, 1)]" "\<not> m_lock scarce"
  "length (m_pieces scarce) = 6" "m_files scarce = None"
  "i < 6 \<Longrightarrow> p_state (m_pieces scarce ! i) = MISSING" "i < 6 \<Longrightarrow> p_priority (m_pieces scarce ! i) = 0"
  by (simp_all add: scarce_def pm_init_def Let_def demo_torrent_def init_pieces_def new_piece_def
      initial_priority_def demo_cfg_def)

lemma scarce_score: "i < 6 \<Longrightarrow> piece_score scarce i = 1000 - count_of [(0, 1)] i + 0"
  by (simp add: piece_score_def scarce_facts)


theorem rarest_first_starves_witness:
  "\<exists>i. i \<in> set (rarest_first scarce [0..<6]) \<and> count_of (m_frequency scarce) i = 0 \<and>
     (\<exists>m'. start_request demo_cfg i [(''a'', True)] scarce = Done (None, m') \<and> p_state (m_pieces m' ! i) = MISSING)"
proof -
  have counts: "counts_ok scarce"
    by (auto simp: counts_ok_def scarce_facts peers_with_def count_of_def)
  have "{i \<in> set [0..<6]. count_of (m_frequency scarce) i = 0} = {1..<6}"
    by (auto simp: scarce_facts count_of_def)
  then have five: "5 \<le> card {i \<in> set [0..<6]. count_of (m_frequency scarce) i = 0}" by simp
  have "length (rarest_first scarce [0..<6]) = 5"
    using rarest_first_best [of "[0..<6]" scarce] by (simp add: scarce_facts)
  then obtain i where i: "i \<in> set (rarest_first scarce [0..<6])" by fastforce
  have "count_of (m_frequency scarce) i = 0 \<and> (\<exists>m'. start_request demo_cfg i [(''a'', True)] scarce = Done (None, m') \<and>
      p_state (m_pieces m' ! i) = MISSING)"
    using rarest_first_starves [OF counts _ _ _ _ five i, where prio = 0]
    by (auto simp: scarce_facts scarce_score)
  with i show ?thesis by blast
qed

section \<open>Selection and the files\<close>

lemma get_missing_needed:
  assumes "m_files m = Some sel" and "i \<in> set (fst (get_missing_pieces m))"
  shows "is_piece_needed sel i"
  using assms by (auto simp: get_missing_pieces_def Let_def case_prod_unfold split: if_splits)

lemma get_missing_same [simp]:
  "m_files (snd (get_missing_pieces m)) = m_files m" "m_request_tasks (snd (get_missing_pieces m)) = m_request_tasks m"
  by (simp_all add: get_missing_pieces_def Let_def split: option.split)

lemma window_pieces_same [simp]:
  "m_files (snd (window_pieces n is m)) = m_files m" "m_request_tasks (snd (window_pieces n is m)) = m_request_tasks m"
  "set (fst (window_pieces n is m)) \<subseteq> set is"
  by (auto simp: window_pieces_def get_current_sequential_piece_def Let_def case_prod_unfold)

lemma by_files_subset: "set (by_files m is) \<subseteq> set is"
  by (auto simp: by_files_def sort_by_file_priority_def split: option.splits)

lemma add_request_tasks_tasks:
  "m_request_tasks (add_request_tasks is m) = m_request_tasks m @ (if m_has_peer_manager m then is else [])"
  by (simp add: add_request_tasks_def)

text \<open>
  With a file selection, rarest-first and sequential selection request only pieces that some
  selected file needs and that are missing.
\<close>

theorem selection_respects_files:
  assumes "m_files m = Some sel"
    and "select_rarest_first m = Done (r, m') \<or> select_sequential cfg m = Done (r, m')"
  shows "\<exists>new. m_request_tasks m' = m_request_tasks m @ new \<and>
     (\<forall>i\<in>set new. is_piece_needed sel i \<and> p_state (m_pieces m' ! i) = MISSING)"
  using assms(2)
proof
  assume *: "select_rarest_first m = Done (r, m')"
  define k where "k = snd (get_missing_pieces (m\<lparr>m_lock := True\<rparr>))"
  define missing where "missing = fst (get_missing_pieces (m\<lparr>m_lock := True\<rparr>))"
  have tasks: "m_request_tasks k = m_request_tasks m" by (simp add: k_def)
  have "\<forall>i\<in>set missing. is_piece_needed sel i"
    using get_missing_needed [of "m\<lparr>m_lock := True\<rparr>" sel] assms(1) by (simp add: missing_def)
  moreover have "set (rarest_first k missing) \<subseteq> set missing"
    by (fastforce simp: rarest_first_def dest: in_set_takeD)
  ultimately have new: "\<forall>i\<in>set (rarest_first k missing). is_piece_needed sel i \<and> p_state (m_pieces k ! i) = MISSING"
    by (auto simp: rarest_first_def)
  have "m' = k\<lparr>m_lock := False\<rparr> \<or> m' = (add_request_tasks (rarest_first k missing) k)\<lparr>m_lock := False\<rparr>"
    using * by (simp add: select_rarest_first_def with_lock_eq Let_def case_prod_unfold k_def missing_def split: if_splits)
  with new tasks show ?thesis
    by (elim disjE) (simp_all add: add_request_tasks_def)
next
  assume *: "select_sequential cfg m = Done (r, m')"
  define k where "k = snd (get_missing_pieces (m\<lparr>m_lock := True\<rparr>))"
  define missing where "missing = fst (get_missing_pieces (m\<lparr>m_lock := True\<rparr>))"
  define n where "n = snd (window_pieces (pc_sequential_window cfg) missing k)"
  define w where "w = fst (window_pieces (pc_sequential_window cfg) missing k)"
  define ws where "ws = (if w = [] then [] else by_files n w)"
  have tasks: "m_request_tasks k = m_request_tasks m" "m_request_tasks n = m_request_tasks m"
    by (simp_all add: k_def n_def)
  have "\<forall>i\<in>set missing. is_piece_needed sel i"
    using get_missing_needed [of "m\<lparr>m_lock := True\<rparr>" sel] assms(1) by (simp add: missing_def)
  moreover have "set w \<subseteq> set missing" unfolding w_def by (rule window_pieces_same)
  moreover have "set ws \<subseteq> set w" using by_files_subset by (simp add: ws_def)
  ultimately have needed: "\<forall>i\<in>set ws. is_piece_needed sel i" by blast
  have "m' = k\<lparr>m_lock := False\<rparr> \<or> m' = n\<lparr>m_lock := False\<rparr> \<or>
      (\<exists>i. find (\<lambda>i. p_state (m_pieces n ! i) = MISSING \<and> m_has_peer_manager n) ws = Some i \<and>
        m' = (add_request_tasks [i] n)\<lparr>m_lock := False\<rparr>)"
    using * unfolding select_sequential_def with_lock_eq Let_def case_prod_unfold
      k_def [symmetric] missing_def [symmetric] n_def [symmetric] w_def [symmetric] ws_def [symmetric]
    by (simp split: if_splits option.splits)
  moreover have "i \<in> set ws \<and> P i" if "find P ws = Some i" for P i
    using that by (auto simp: find_Some_iff)
  ultimately consider "m' = k\<lparr>m_lock := False\<rparr>" | "m' = n\<lparr>m_lock := False\<rparr>"
    | i where "i \<in> set ws" "p_state (m_pieces n ! i) = MISSING" "m' = (add_request_tasks [i] n)\<lparr>m_lock := False\<rparr>"
    by blast
  then show ?thesis
  proof cases
    case 3
    with needed tasks show ?thesis by (simp add: add_request_tasks_def)
  qed (use tasks in simp_all)
qed

theorem selection_respects_files_witness:
  "\<exists>m'. select_rarest_first ((pm_init demo_cfg (Some (deselect_file 0 (file_selection_init demo_info)))
        (demo_torrent 3 []))\<lparr>m_has_peer_manager := True\<rparr>) = Done (Inr (), m') \<and>
     (\<forall>i\<in>set (m_request_tasks m'). is_piece_needed (deselect_file 0 (file_selection_init demo_info)) i)"
proof -
  define sel where "sel = deselect_file 0 (file_selection_init demo_info)"
  define m where "m = (pm_init demo_cfg (Some sel) (demo_torrent 3 []))\<lparr>m_has_peer_manager := True\<rparr>"
  have m: "m_files m = Some sel" "m_request_tasks m = []" "\<not> m_lock m" "length (m_pieces m) = 3" "m_num_pieces m = 3"
    by (simp_all add: m_def pm_init_def Let_def demo_torrent_def init_pieces_def)
  let ?l = "m\<lparr>m_lock := True\<rparr>"
  have "length (m_pieces (snd (get_missing_pieces ?l))) = 3"
    using get_missing_pieces_kept [of ?l] m(4) by (auto simp: manager_kept_def dest!: list_all2_lengthD)
  moreover have "\<forall>i\<in>set (fst (get_missing_pieces ?l)). i < 3"
    using m by (auto simp: get_missing_pieces_def Let_def missing_indices_def split: if_splits)
  ultimately obtain m' where m': "select_rarest_first m = Done (Inr (), m')"
    using m(3) by (auto simp: select_rarest_first_def with_lock_eq Let_def case_prod_unfold list_all_iff)
  with selection_respects_files [OF m(1)] m(2) have "\<forall>i\<in>set (m_request_tasks m'). is_piece_needed sel i"
    by fastforce
  with m' show ?thesis unfolding m_def sel_def by blast
qed

lemma progress_state:
  assumes "\<forall>f\<in>set fs. f \<noteq> fi"
  shows "get_file_state (fold (\<lambda>f s. case get_file_state s f of None \<Rightarrow> s
       | Some st \<Rightarrow> update_file_progress f (st_bytes_downloaded st + b s f) s) fs sel) fi = get_file_state sel fi"
  using assms
proof (induction fs arbitrary: sel)
  case (Cons f fs)
  have "get_file_state (update_file_progress f n s) fi = get_file_state s fi" if "f \<noteq> fi" for n s
    using that by (simp add: get_file_state_def update_file_progress_def modify_state_def update_conv' split: option.split)
  with Cons show ?case by (simp split: option.split)
qed simp

lemma progress_mapper:
  "sel_mapper (fold (\<lambda>f s. case get_file_state s f of None \<Rightarrow> s
       | Some st \<Rightarrow> update_file_progress f (st_bytes_downloaded st + b s f) s) fs sel) = sel_mapper sel"
proof (induction fs arbitrary: sel)
  case (Cons f fs)
  have "sel_mapper (update_file_progress f n s) = sel_mapper s" for n s
    by (simp add: update_file_progress_def modify_state_def split: option.split)
  with Cons show ?case by (simp split: option.split)
qed simp

lemma count_file_progress_once:
  assumes "distinct (get_files_for_piece sel i)" and "fi \<in> set (get_files_for_piece sel i)"
    and "get_file_state sel fi = Some st"
  shows "get_file_state (count_file_progress i sel) fi =
     Some (st\<lparr>st_bytes_downloaded := st_bytes_downloaded st + bytes_of_file sel i fi\<rparr>)"
proof -
  let ?step = "\<lambda>f s. case get_file_state s f of None \<Rightarrow> s
      | Some st \<Rightarrow> update_file_progress f (st_bytes_downloaded st + bytes_of_file s i f) s"
  obtain as bs where fs: "get_files_for_piece sel i = as @ fi # bs" using assms(2) by (meson split_list)
  with assms(1) have "\<forall>f\<in>set as. f \<noteq> fi" "\<forall>f\<in>set bs. f \<noteq> fi" by auto
  let ?s = "fold ?step as sel"
  have a: "get_file_state ?s fi = Some st" "sel_mapper ?s = sel_mapper sel"
    using progress_state [OF \<open>\<forall>f\<in>set as. f \<noteq> fi\<close>, of "\<lambda>s. bytes_of_file s i" sel] assms(3)
      progress_mapper [of "\<lambda>s. bytes_of_file s i" as sel] by simp_all
  then have "bytes_of_file ?s i fi = bytes_of_file sel i fi" by (simp add: bytes_of_file_def)
  then have "get_file_state (?step fi ?s) fi =
      Some (st\<lparr>st_bytes_downloaded := st_bytes_downloaded st + bytes_of_file sel i fi\<rparr>)"
    using a(1) by (simp add: get_file_state_def update_file_progress_def modify_state_def update_conv')
  then show ?thesis
    using progress_state [OF \<open>\<forall>f\<in>set bs. f \<noteq> fi\<close>, of "\<lambda>s. bytes_of_file s i" "?step fi ?s"]
    by (simp add: count_file_progress_def fs)
qed

text \<open>
  Every accepted block of a piece counts the whole part of each file in the piece as
  downloaded, however short the block: a piece of n blocks counts n times.
\<close>

theorem file_progress_overcounts:
  assumes "handle_piece_block i bg data m = Done (u, m')" and "i < length (m_pieces m)"
    and "fst (piece_add_block bg data (m_pieces m ! i))" and "m_files m = Some sel"
    and "distinct (get_files_for_piece sel i)" and "fi \<in> set (get_files_for_piece sel i)"
    and "get_file_state sel fi = Some st"
  shows "\<exists>sel'. m_files m' = Some sel' \<and> get_file_state sel' fi =
     Some (st\<lparr>st_bytes_downloaded := st_bytes_downloaded st + bytes_of_file sel i fi\<rparr>)"
proof -
  have "m_files m' = Some (count_file_progress i sel)"
    using assms(1-4) by (auto simp: handle_piece_block_def locked_Done Let_def case_prod_unfold)
  with count_file_progress_once [OF assms(5-7)] show ?thesis by simp
qed

section \<open>Magnet links\<close>

text \<open>What no step but the arrival of metadata before the number of pieces is known changes.\<close>

definition torrent_kept :: "piece_manager \<Rightarrow> piece_manager \<Rightarrow> bool" where
  "torrent_kept m m' \<longleftrightarrow> m_piece_hashes m' = m_piece_hashes m \<and> m_meta_version m' = m_meta_version m \<and>
     (0 < m_num_pieces m \<longrightarrow> 0 < m_num_pieces m')"

lemma torrent_kept_trans: "torrent_kept m m' \<Longrightarrow> torrent_kept m' m'' \<Longrightarrow> torrent_kept m m''"
  by (simp add: torrent_kept_def)

lemma manager_torrent_kept: "manager_kept m m' \<Longrightarrow> torrent_kept m m'"
  by (simp add: manager_kept_def torrent_kept_def)

lemma with_pieces_torrent_kept: "torrent_kept m (with_pieces cfg m)"
  by (simp add: torrent_kept_def with_pieces_def fallback_pieces_def Let_def)

lemma start_torrent_kept: "0 < m_num_pieces m \<Longrightarrow> torrent_kept m (snd (start_download cfg connections m))"
  by (auto simp: torrent_kept_def start_download_def known_num_pieces_def refresh_metadata_def ensure_pieces_def
      exact_pieces_def Let_def split: option.split)

lemma pm_step_torrent_kept:
  assumes "pm_step cfg s t" and "\<not> m_lock (fst s)" and "0 < m_num_pieces (fst s)"
  shows "torrent_kept (fst s) (fst t)"
  using assms
proof (induction rule: pm_step.induct)
  case (block i bg data m u m' V)
  then show ?case by (auto simp: handle_piece_block_def locked_Done Let_def case_prod_unfold torrent_kept_def)
next
  case (request i active m r m' V)
  then have "manager_kept (with_pieces cfg m) m'" by (intro request_kept) simp_all
  then show ?case
    using torrent_kept_trans [OF with_pieces_torrent_kept [of m cfg] manager_torrent_kept] by simp
next
  case (verify i V m u m')
  then show ?case
    by (auto simp: finish_verification_def locked_def with_lock_eq update_piece_def torrent_kept_def split: if_splits)
next
  case (select n m res m' V)
  then have "m' = m \<or> manager_kept (with_pieces cfg m) m'" using select_kept [OF select.hyps] by (simp split: if_splits)
  then show ?case
    using torrent_kept_trans [OF with_pieces_torrent_kept [of m cfg] manager_torrent_kept]
    by (auto simp: torrent_kept_def)
next
  case (start m V connections)
  then show ?case by (simp add: start_torrent_kept)
next
  case (hash i m V)
  then show ?case by (simp add: torrent_kept_def)
qed (simp only: fst_conv snd_conv, rule manager_torrent_kept, (erule kept_coroutines [THEN keepingD] | erule kept_operations | rule kept_operations))+

lemma no_hashes_no_verification:
  assumes "pm_inv cfg (m, V)" and "m_piece_hashes m = []" and "m_meta_version m = 1"
  shows "m_verified m = {}" and "V = {}"
  using assms by (auto simp: pm_inv_def piece_hash_valid_def)

lemma no_hashes_steps:
  assumes "(pm_step cfg)\<^sup>*\<^sup>* s t" and "pm_inv cfg s" and "m_piece_hashes (fst s) = []"
    and "m_meta_version (fst s) = 1" and "0 < m_num_pieces (fst s)"
  shows "pm_inv cfg t \<and> m_piece_hashes (fst t) = [] \<and> m_meta_version (fst t) = 1 \<and> 0 < m_num_pieces (fst t)"
  using assms
proof (induction rule: rtranclp_induct)
  case (step t u)
  then have inv: "pm_inv cfg t" and t: "m_piece_hashes (fst t) = []" "m_meta_version (fst t) = 1" "0 < m_num_pieces (fst t)"
    by simp_all
  then have "\<not> m_lock (fst t)" by (cases t) (simp add: pm_inv_def)
  then have "torrent_kept (fst t) (fst u)" using pm_step_torrent_kept step.hyps(2) t(3) by blast
  then show ?case using t pm_step_inv [OF step.hyps(2) inv] by (simp add: torrent_kept_def)
qed simp



definition one_file :: torrent_info where
  "one_file = \<lparr>ti_files = [\<lparr>tf_length = 4, tf_attributes = None\<rparr>], ti_total_length = 4,
     ti_piece_length = 4, ti_num_pieces = 1\<rparr>"

theorem file_progress_overcounts_witness:
  "\<exists>m' sel'. handle_piece_block 0 0 [1, 2] (pm_init demo_cfg (Some (file_selection_init one_file))
       ((demo_torrent 1 [])\<lparr>td_piece_length := Some 4\<rparr>)) = Done ((), m') \<and>
     m_files m' = Some sel' \<and> map_option st_bytes_downloaded (get_file_state sel' 0) = Some 4"
proof -
  define sel where "sel = file_selection_init one_file"
  define m where "m = pm_init demo_cfg (Some sel) ((demo_torrent 1 [])\<lparr>td_piece_length := Some 4\<rparr>)"
  have files: "get_files_for_piece sel 0 = [0]" "bytes_of_file sel 0 0 = 4"
    "map_option st_bytes_downloaded (get_file_state sel 0) = Some 0" unfolding sel_def by code_simp+
  obtain st where st: "get_file_state sel 0 = Some st" "st_bytes_downloaded st = 0" using files(3) by auto
  have p: "m_pieces m = [(new_piece 2 0 4)\<lparr>p_priority := initial_priority demo_cfg (Some sel) 1 0\<rparr>]" "m_files m = Some sel" "\<not> m_lock m"
    by (simp_all add: m_def pm_init_def init_pieces_def demo_torrent_def actual_piece_length_def Let_def)
  have two: "[0..<2] = [0, 1 :: nat]" by (simp add: eval_nat_numeral)
  have add: "fst (piece_add_block 0 [1, 2] (m_pieces m ! 0))"
    by (simp add: p piece_add_block_def new_piece_def make_blocks_def new_block_def Let_def two)
  obtain m' where m': "handle_piece_block 0 0 [1, 2] m = Done ((), m')"
    using p(3) by (simp add: handle_piece_block_def locked_def with_lock_eq)
  have "\<exists>sel'. m_files m' = Some sel' \<and> get_file_state sel' 0 =
      Some (st\<lparr>st_bytes_downloaded := st_bytes_downloaded st + bytes_of_file sel 0 0\<rparr>)"
    by (rule file_progress_overcounts [OF m' _ add p(2) _ _ st(1)]) (simp_all add: p(1) files)
  with m' st(2) files(2) show ?thesis unfolding m_def sel_def by fastforce
qed

end
