(* ===== verification/Ip_Filter.thy ===== *)
theory Ip_Filter
  imports Ccbt_Prelude "HOL-Library.Multiset"
begin

text \<open>
  \<open>ccbt/security/ip_filter.py\<close>: the filter of IP addresses. The first part models what the code
  uses of the standard module \<open>ipaddress\<close>: addresses are their integers, with the scope of an
  IPv6 address. Files and downloads are the lines read from them, or the way they fail.
\<close>

section \<open>Text\<close>

text \<open>The white space of \<open>str.strip\<close> and \<open>str.split\<close>.\<close>

definition is_space :: "nat \<Rightarrow> bool" where
  "is_space c \<longleftrightarrow> (9 \<le> c \<and> c \<le> 13) \<or> (28 \<le> c \<and> c \<le> 32) \<or> (0x2000 \<le> c \<and> c \<le> 0x200A) \<or>
     c \<in> {0x85, 0xA0, 0x1680, 0x2028, 0x2029, 0x202F, 0x205F, 0x3000}"

definition strip :: "pystr \<Rightarrow> pystr" where
  "strip s = rev (dropWhile is_space (rev (dropWhile is_space s)))"

text \<open>\<open>line.split()[0]\<close> of a text that is not blank.\<close>

definition first_word :: "pystr \<Rightarrow> pystr" where
  "first_word s = takeWhile (\<lambda>c. \<not> is_space c) (dropWhile is_space s)"

fun is_prefix :: "pystr \<Rightarrow> pystr \<Rightarrow> bool" where
  "is_prefix [] s = True"
| "is_prefix (c # cs) [] = False"
| "is_prefix (c # cs) (d # ds) = (c = d \<and> is_prefix cs ds)"

fun contains :: "pystr \<Rightarrow> pystr \<Rightarrow> bool" where
  "contains w [] = (w = [])"
| "contains w (c # s) = (is_prefix w (c # s) \<or> contains w s)"

text \<open>\<open>s.replace(" - ", "-")\<close>.\<close>

fun replace_dash :: "pystr \<Rightarrow> pystr" where
  "replace_dash (a # b # c # s) =
     (if a = 32 \<and> b = 45 \<and> c = 32 then 45 # replace_dash s else a # replace_dash (b # c # s))"
| "replace_dash s = s"

definition dec_digit :: "nat \<Rightarrow> bool" where
  "dec_digit c \<longleftrightarrow> 48 \<le> c \<and> c \<le> 57"

definition dec_value :: "pystr \<Rightarrow> nat" where
  "dec_value s = foldl (\<lambda>n c. n * 10 + (c - 48)) 0 s"

definition hex_digit :: "nat \<Rightarrow> nat option" where
  "hex_digit c = (if 48 \<le> c \<and> c \<le> 57 then Some (c - 48)
     else if 97 \<le> c \<and> c \<le> 102 then Some (c - 87)
     else if 65 \<le> c \<and> c \<le> 70 then Some (c - 55) else None)"

section \<open>Addresses\<close>

datatype ip_version = V4 | V6

fun max_prefixlen :: "ip_version \<Rightarrow> nat" where
  "max_prefixlen V4 = 32"
| "max_prefixlen V6 = 128"

record ip_addr =
  a_version :: ip_version
  a_int :: nat
  a_scope :: "pystr option"

definition parse_octet :: "pystr \<Rightarrow> nat option" where
  "parse_octet s =
     (if s = [] \<or> \<not> list_all dec_digit s \<or> length s > 3 \<or> (s \<noteq> lit ''0'' \<and> hd s = 48) \<or> dec_value s > 255
      then None else Some (dec_value s))"

fun all_some :: "'a option list \<Rightarrow> 'a list option" where
  "all_some [] = Some []"
| "all_some (x # xs) = (case (x, all_some xs) of (Some y, Some ys) \<Rightarrow> Some (y # ys) | _ \<Rightarrow> None)"

definition parse_ipv4 :: "pystr \<Rightarrow> nat option" where
  "parse_ipv4 s =
     (let octets = split_on (of_char CHR ''.'') s
      in if length octets \<noteq> 4 then None
         else map_option (foldl (\<lambda>n b. n * 256 + b) 0) (all_some (map parse_octet octets)))"

definition parse_hextet :: "pystr \<Rightarrow> nat option" where
  "parse_hextet s = (if s = [] \<or> length s > 4 then None
     else map_option (foldl (\<lambda>n d. n * 16 + d) 0) (all_some (map hex_digit s)))"

definition hextets :: "pystr list \<Rightarrow> nat list option" where
  "hextets ps = all_some (map parse_hextet ps)"

text \<open>The groups of the text, an IPv4 suffix replaced by the numbers of its two groups.\<close>

definition ipv6_parts :: "pystr \<Rightarrow> (pystr + nat) list option" where
  "ipv6_parts s =
     (let parts = split_on (of_char CHR '':'') s
      in if length parts < 3 then None
         else if of_char CHR ''.'' \<in> set (last parts)
         then map_option (\<lambda>v. map Inl (butlast parts) @ [Inr (v div 65536), Inr (v mod 65536)])
                (parse_ipv4 (last parts))
         else Some (map Inl parts))"

definition ipv6_value :: "(pystr + nat) list \<Rightarrow> nat option" where
  "ipv6_value parts = map_option (foldl (\<lambda>n g. n * 65536 + g) 0)
     (all_some (map (case_sum parse_hextet Some) parts))"

text \<open>\<open>::\<close> stands for the missing groups, at most once, and at either end only as \<open>::\<close>.\<close>

definition parse_ipv6_int :: "pystr \<Rightarrow> nat option" where
  "parse_ipv6_int s =
     (case ipv6_parts s of
        None \<Rightarrow> None
      | Some parts \<Rightarrow>
          if length parts > 9 then None
          else (case filter (\<lambda>i. parts ! i = Inl []) [1..<length parts - 1] of
             [] \<Rightarrow> if length parts \<noteq> 8 then None else ipv6_value parts
           | [i] \<Rightarrow>
               let open_start = (hd parts = Inl []); open_end = (last parts = Inl []);
                   hi = (if open_start then tl (take i parts) else take i parts);
                   lo = (if open_end then butlast (drop (Suc i) parts) else drop (Suc i) parts)
               in if open_start \<and> hi \<noteq> [] \<or> open_end \<and> lo \<noteq> [] \<or> length hi + length lo > 7 then None
                  else ipv6_value (hi @ replicate (8 - (length hi + length lo)) (Inr 0) @ lo)
           | _ \<Rightarrow> None))"

definition parse_ipv6 :: "pystr \<Rightarrow> (nat \<times> pystr option) option" where
  "parse_ipv6 s =
     (let addr = takeWhile (\<lambda>c. c \<noteq> of_char CHR ''%'') s; rest = dropWhile (\<lambda>c. c \<noteq> of_char CHR ''%'') s;
          scope = (if rest = [] then None else Some (tl rest))
      in if of_char CHR ''/'' \<in> set s \<or> scope = Some [] \<or> (rest \<noteq> [] \<and> of_char CHR ''%'' \<in> set (tl rest)) then None
         else map_option (\<lambda>n. (n, scope)) (parse_ipv6_int addr))"

text \<open>\<open>ipaddress.ip_address\<close>; \<open>None\<close> is \<open>ValueError\<close>.\<close>

definition ip_address :: "pystr \<Rightarrow> ip_addr option" where
  "ip_address s =
     (case parse_ipv4 s of
        Some n \<Rightarrow> Some \<lparr>a_version = V4, a_int = n, a_scope = None\<rparr>
      | None \<Rightarrow> map_option (\<lambda>(n, scope). \<lparr>a_version = V6, a_int = n, a_scope = scope\<rparr>) (parse_ipv6 s))"

section \<open>Networks\<close>

record ip_net =
  n_version :: ip_version
  n_address :: nat
  n_scope :: "pystr option"
  n_prefixlen :: nat

definition net_size :: "ip_net \<Rightarrow> nat" where
  "net_size n = 2 ^ (max_prefixlen (n_version n) - n_prefixlen n)"

definition broadcast_address :: "ip_net \<Rightarrow> nat" where
  "broadcast_address n = n_address n + (net_size n - 1)"

text \<open>The network of an address and a prefix length, \<open>strict=False\<close>: the host bits are cleared.\<close>

definition network_of :: "ip_addr \<Rightarrow> nat \<Rightarrow> ip_net" where
  "network_of a p =
     (let h = 2 ^ (max_prefixlen (a_version a) - p); base = a_int a div h * h
      in \<lparr>n_version = a_version a, n_address = base,
          n_scope = (if base = a_int a then a_scope a else None), n_prefixlen = p\<rparr>)"

fun right_zeros :: "nat \<Rightarrow> nat \<Rightarrow> nat" where
  "right_zeros 0 n = 0"
| "right_zeros (Suc b) n = (if even n then Suc (right_zeros b (n div 2)) else 0)"

definition prefix_string :: "ip_version \<Rightarrow> pystr \<Rightarrow> nat option" where
  "prefix_string v s =
     (if s = [] \<or> \<not> list_all dec_digit s \<or> dec_value s > max_prefixlen v then None else Some (dec_value s))"

definition prefix_of_mask :: "nat \<Rightarrow> nat option" where
  "prefix_of_mask n =
     (let z = right_zeros 32 n in if n div 2 ^ z = 2 ^ (32 - z) - 1 then Some (32 - z) else None)"

text \<open>The part after \<open>/\<close>: a prefix length, or for IPv4 also a netmask or a hostmask.\<close>

definition make_netmask :: "ip_version \<Rightarrow> pystr \<Rightarrow> nat option" where
  "make_netmask v s =
     (case prefix_string v s of
        Some p \<Rightarrow> Some p
      | None \<Rightarrow>
          if v = V6 then None
          else (case parse_ipv4 s of
             None \<Rightarrow> None
           | Some n \<Rightarrow> (case prefix_of_mask n of Some p \<Rightarrow> Some p | None \<Rightarrow> prefix_of_mask (2 ^ 32 - 1 - n))))"

text \<open>\<open>ipaddress.ip_network(s, strict=False)\<close> for a text with a slash.\<close>

definition ip_network :: "pystr \<Rightarrow> ip_net option" where
  "ip_network s =
     (case split_on (of_char CHR ''/'') s of
        [addr, suffix] \<Rightarrow>
          (case ip_address addr of
             None \<Rightarrow> None
           | Some a \<Rightarrow> map_option (network_of a) (make_netmask (a_version a) suffix))
      | _ \<Rightarrow> None)"

text \<open>
  \<open>ipaddress.summarize_address_range\<close>: the networks that make up the addresses from \<open>first\<close> to
  \<open>last\<close>; each is the largest one that starts at the first address left and does not pass the last.
\<close>

definition block_bits :: "nat \<Rightarrow> nat \<Rightarrow> nat \<Rightarrow> nat" where
  "block_bits bits first_int last_int =
     min (right_zeros bits first_int) (bit_length (last_int - first_int + 1) - 1)"

function summarize_address_range :: "ip_version \<Rightarrow> nat \<Rightarrow> nat \<Rightarrow> ip_net list" where
  "summarize_address_range v first_int last_int =
     (if first_int \<le> last_int
      then let bits = max_prefixlen v; nbits = block_bits bits first_int last_int;
               net = \<lparr>n_version = v, n_address = first_int, n_scope = None, n_prefixlen = bits - nbits\<rparr>
           in if first_int + 2 ^ nbits = 2 ^ bits then [net]
              else net # summarize_address_range v (first_int + 2 ^ nbits) last_int
      else [])"
  by pat_completeness auto
termination
  by (relation "measure (\<lambda>(_, first_int, last_int). Suc last_int - first_int)") (auto intro!: diff_less_mono2)

declare summarize_address_range.simps [simp del]

text \<open>\<open>_parse_ip_range\<close>, with whether the network is an IPv4 one.\<close>

definition host_network :: "ip_addr \<Rightarrow> ip_net" where
  "host_network a = network_of a (max_prefixlen (a_version a))"

definition parse_ip_range :: "pystr \<Rightarrow> (ip_net \<times> bool) py" where
  "parse_ip_range ip_range =
     (let s = strip ip_range; dash = (\<lambda>c. c \<noteq> of_char CHR ''-'')
      in if of_char CHR ''/'' \<in> set s
         then (case ip_network s of None \<Rightarrow> Inl ValueError | Some n \<Rightarrow> Inr (n, n_version n = V4))
         else if of_char CHR ''-'' \<in> set s
         then (case (ip_address (strip (takeWhile dash s)), ip_address (strip (tl (dropWhile dash s)))) of
             (Some start, Some end_ip) \<Rightarrow>
               if a_version start \<noteq> a_version end_ip then Inl TypeError
               else if a_int start > a_int end_ip then Inl ValueError
               else let n = hd (summarize_address_range (a_version start) (a_int start) (a_int end_ip))
                    in Inr (n, n_version n = V4)
           | _ \<Rightarrow> Inl ValueError)
         else (case ip_address s of
             None \<Rightarrow> Inl ValueError
           | Some a \<Rightarrow> Inr (host_network a, a_version a = V4)))"

section \<open>The filter\<close>

datatype filter_mode = BLOCK | ALLOW

record ip_filter_rule =
  r_network :: ip_net
  r_mode :: filter_mode
  r_priority :: int
  r_source :: pystr

record ip_filter =
  f_ipv4_ranges :: "ip_net list"
  f_ipv6_ranges :: "ip_net list"
  f_rules :: "ip_filter_rule list"
  f_matches :: nat
  f_blocks :: nat
  f_allows :: nat
  f_enabled :: bool
  f_mode :: filter_mode
  f_last_update :: "int option"

definition ip_filter_init :: "bool \<Rightarrow> filter_mode \<Rightarrow> ip_filter" where
  "ip_filter_init enabled mode =
     \<lparr>f_ipv4_ranges = [], f_ipv6_ranges = [], f_rules = [], f_matches = 0, f_blocks = 0, f_allows = 0,
      f_enabled = enabled, f_mode = mode, f_last_update = None\<rparr>"

text \<open>\<open>_is_ipv4_in_ranges\<close> and \<open>_is_ipv6_in_ranges\<close> are the same loop over their lists.\<close>

definition ip_in_ranges :: "nat \<Rightarrow> ip_net list \<Rightarrow> bool" where
  "ip_in_ranges ip_int ranges \<longleftrightarrow> list_ex (\<lambda>n. ip_int \<ge> n_address n \<and> ip_int \<le> broadcast_address n) ranges"

definition is_ip_in_ranges :: "ip_addr \<Rightarrow> ip_filter \<Rightarrow> bool" where
  "is_ip_in_ranges ip f =
     ip_in_ranges (a_int ip) (if a_version ip = V4 then f_ipv4_ranges f else f_ipv6_ranges f)"

definition is_blocked :: "pystr \<Rightarrow> ip_filter \<Rightarrow> bool \<times> ip_filter" where
  "is_blocked ip f =
     (if \<not> f_enabled f then (False, f)
      else case ip_address ip of
          None \<Rightarrow> (True, f)
        | Some ip_addr \<Rightarrow>
            let f = f\<lparr>f_matches := f_matches f + 1\<rparr>; is_in_filter = is_ip_in_ranges ip_addr f
            in if f_mode f = BLOCK
               then (if is_in_filter then (True, f\<lparr>f_blocks := f_blocks f + 1\<rparr>) else (False, f))
               else if is_in_filter then (False, f\<lparr>f_allows := f_allows f + 1\<rparr>)
               else (True, f\<lparr>f_blocks := f_blocks f + 1\<rparr>))"

text \<open>The result is that of the method; a \<open>TypeError\<close> leaves it before the filter is changed.\<close>

definition add_rule ::
    "pystr \<Rightarrow> filter_mode option \<Rightarrow> int \<Rightarrow> pystr \<Rightarrow> ip_filter \<Rightarrow> (bool \<times> ip_filter) py" where
  "add_rule ip_range mode priority source f =
     (case parse_ip_range ip_range of
        Inl ValueError \<Rightarrow> Inr (False, f)
      | Inl e \<Rightarrow> Inl e
      | Inr (network, is_ipv4) \<Rightarrow>
          let mode = (case mode of None \<Rightarrow> f_mode f | Some m \<Rightarrow> m);
              rule = \<lparr>r_network = network, r_mode = mode, r_priority = priority, r_source = source\<rparr>;
              f = f\<lparr>f_rules := f_rules f @ [rule]\<rparr>
          in Inr (True, if is_ipv4
               then f\<lparr>f_ipv4_ranges := sort_key n_address (f_ipv4_ranges f @ [network])\<rparr>
               else f\<lparr>f_ipv6_ranges := sort_key n_address (f_ipv6_ranges f @ [network])\<rparr>))"

definition remove_rule :: "pystr \<Rightarrow> ip_filter \<Rightarrow> (bool \<times> ip_filter) py" where
  "remove_rule ip_range f =
     (case parse_ip_range ip_range of
        Inl ValueError \<Rightarrow> Inr (False, f)
      | Inl e \<Rightarrow> Inl e
      | Inr (network, is_ipv4) \<Rightarrow>
          let f = f\<lparr>f_rules := filter (\<lambda>rule. r_network rule \<noteq> network) (f_rules f)\<rparr>
          in if is_ipv4
             then let kept = filter (\<lambda>n. n \<noteq> network) (f_ipv4_ranges f)
                  in Inr (length kept < length (f_ipv4_ranges f), f\<lparr>f_ipv4_ranges := kept\<rparr>)
             else let kept = filter (\<lambda>n. n \<noteq> network) (f_ipv6_ranges f)
                  in Inr (length kept < length (f_ipv6_ranges f), f\<lparr>f_ipv6_ranges := kept\<rparr>))"

definition clear :: "ip_filter \<Rightarrow> ip_filter" where
  "clear f = f\<lparr>f_ipv4_ranges := [], f_ipv6_ranges := [], f_rules := [],
     f_matches := 0, f_blocks := 0, f_allows := 0\<rparr>"

definition get_filter_statistics :: "ip_filter \<Rightarrow> (string \<times> nat) list \<times> int option" where
  "get_filter_statistics f =
     ([(''total_rules'', length (f_rules f)), (''ipv4_ranges'', length (f_ipv4_ranges f)),
       (''ipv6_ranges'', length (f_ipv6_ranges f)), (''matches'', f_matches f), (''blocks'', f_blocks f),
       (''allows'', f_allows f)], f_last_update f)"

section \<open>Filter lists\<close>

definition parse_and_add_line ::
    "pystr \<Rightarrow> filter_mode option \<Rightarrow> pystr \<Rightarrow> ip_filter \<Rightarrow> (bool \<times> ip_filter) py" where
  "parse_and_add_line text_line mode source f =
     (let line = strip text_line;
          word = (if 32 \<in> set line then first_word line else line)
      in if line = [] \<or> hd line = of_char CHR ''#'' then Inr (True, f)
         else if contains (lit '' - '') line \<or> of_char CHR ''-'' \<in> set line \<and> of_char CHR ''/'' \<notin> set line
         then add_rule (replace_dash word) mode 0 source f
         else add_rule word mode 0 source f)"

text \<open>
  Lines added one after the other, with the counts of both outcomes. An exception ends the loop:
  the flag says that every line was read.
\<close>

fun add_lines :: "filter_mode option \<Rightarrow> pystr \<Rightarrow> pystr list \<Rightarrow> nat \<times> nat \<times> ip_filter \<Rightarrow>
    (nat \<times> nat \<times> ip_filter) \<times> bool" where
  "add_lines mode source [] (loaded, errors, f) = ((loaded, errors, f), True)"
| "add_lines mode source (line # ls) (loaded, errors, f) =
     (case parse_and_add_line line mode source f of
        Inl e \<Rightarrow> ((loaded, errors, f), False)
      | Inr (ok, f) \<Rightarrow> add_lines mode source ls
          (if ok then (loaded + 1, errors, f) else (loaded, errors + 1, f)))"

text \<open>
  A file is \<open>None\<close> when it does not exist, else the lines read from it and whether reading (and
  decompressing) then failed. The result is the pair the method returns.
\<close>

type_synonym filter_file = "(pystr list \<times> bool) option"

definition load_from_file ::
    "filter_file \<Rightarrow> pystr \<Rightarrow> filter_mode option \<Rightarrow> pystr option \<Rightarrow> ip_filter \<Rightarrow> (nat \<times> nat) \<times> ip_filter" where
  "load_from_file file path mode source f =
     (case file of
        None \<Rightarrow> ((0, 1), f)
      | Some (ls, failed) \<Rightarrow>
          let ((loaded, errors, f), finished) =
            add_lines mode (case source of None \<Rightarrow> path | Some s \<Rightarrow> s) ls (0, 0, f)
          in ((loaded, if finished \<and> \<not> failed then errors else errors + 1), f))"

datatype url_error = HttpStatus nat | Timeout | NetworkError | LoadingError

text \<open>
  What a download gives: its status and content, or the exception. \<open>gunzip\<close> and \<open>text_lines\<close>
  (decoding and \<open>splitlines\<close>) are the library's; \<open>gunzip\<close> may fail. \<open>cached\<close> is the cache file
  when there is a cache directory and the file is not too old.
\<close>

datatype download = Response nat bytes | Failed url_error

definition load_from_url ::
    "(bytes \<Rightarrow> bytes option) \<Rightarrow> (bytes \<Rightarrow> pystr list) \<Rightarrow> int \<Rightarrow> pystr \<Rightarrow> filter_file \<Rightarrow> download \<Rightarrow>
     filter_mode option \<Rightarrow> ip_filter \<Rightarrow> (bool \<times> nat \<times> url_error option) \<times> ip_filter" where
  "load_from_url gunzip text_lines now url cached download mode f =
     (let source = lit ''url:'' @ url
      in case cached of
        Some file \<Rightarrow>
          let ((loaded, errors), f) = load_from_file (Some file) [] mode (Some source) f
          in ((True, loaded, None), f)
      | None \<Rightarrow>
          (case download of
             Failed e \<Rightarrow> ((False, 0, Some e), f)
           | Response status content \<Rightarrow>
               if status \<noteq> 200 then ((False, 0, Some (HttpStatus status)), f)
               else case (if contains (lit ''.gz'') url \<or> contains (lit ''.bz2'') url \<or> contains (lit ''.xz'') url
                          then gunzip content else Some content) of
                   None \<Rightarrow> ((False, 0, Some LoadingError), f)
                 | Some text_content \<Rightarrow>
                     let ((loaded, errors, f), finished) = add_lines mode source (text_lines text_content) (0, 0, f)
                     in if finished then ((True, loaded, None), f\<lparr>f_last_update := Some now\<rparr>)
                        else ((False, 0, Some LoadingError), f)))"

text \<open>\<open>update_filter_lists\<close>: every URL with what the cache and the network hold for it.\<close>

fun load_urls :: "(bytes \<Rightarrow> bytes option) \<Rightarrow> (bytes \<Rightarrow> pystr list) \<Rightarrow> int \<Rightarrow>
    (pystr \<times> filter_file \<times> download) list \<Rightarrow> (pystr \<times> bool \<times> nat) list \<Rightarrow> ip_filter \<Rightarrow>
    (pystr \<times> bool \<times> nat) list \<times> ip_filter" where
  "load_urls gunzip text_lines now [] results f = (results, f)"
| "load_urls gunzip text_lines now ((url, cached, d) # urls) results f =
     (let ((success, loaded, _), f) = load_from_url gunzip text_lines now url cached d None f
      in load_urls gunzip text_lines now urls (AList.update url (success, loaded) results) f)"

definition update_filter_lists :: "(bytes \<Rightarrow> bytes option) \<Rightarrow> (bytes \<Rightarrow> pystr list) \<Rightarrow> int \<Rightarrow>
    (pystr \<times> filter_file \<times> download) list \<Rightarrow> ip_filter \<Rightarrow> (pystr \<times> bool \<times> nat) list \<times> ip_filter" where
  "update_filter_lists gunzip text_lines now urls f =
     (let (results, f) = load_urls gunzip text_lines now urls [] f
      in (results, f\<lparr>f_last_update := Some now\<rparr>))"

section \<open>Numbers and addresses\<close>

lemma right_zeros_le: "right_zeros b n \<le> b"
  by (induction b n rule: right_zeros.induct) auto

lemma right_zeros_dvd: "2 ^ right_zeros b n dvd n"
proof (induction b n rule: right_zeros.induct)
  case (2 b n)
  show ?case
  proof (cases "even n")
    case True
    then obtain m where m: "n = 2 * m" by (elim evenE)
    then show ?thesis using 2 True by simp
  qed simp
qed simp

lemma right_zeros_greatest: "k \<le> b \<Longrightarrow> 2 ^ k dvd n \<Longrightarrow> k \<le> right_zeros b n"
proof (induction b n arbitrary: k rule: right_zeros.induct)
  case (2 b n)
  show ?case
  proof (cases k)
    case (Suc j)
    then have e: "even n" using 2(3) by (auto simp: dvd_def)
    then have "2 ^ j dvd n div 2" using 2(3) Suc by (auto simp: dvd_def)
    then show ?thesis using 2(1) [OF e, of j] 2(2) e Suc by simp
  qed simp
qed simp

lemma all_some_length: "all_some xs = Some ys \<Longrightarrow> length ys = length xs"
  by (induction xs arbitrary: ys) (auto split: option.splits)

lemma all_some_mem: "all_some xs = Some ys \<Longrightarrow> y \<in> set ys \<Longrightarrow> Some y \<in> set xs"
  by (induction xs arbitrary: ys) (auto split: option.splits)

lemma foldl_base_bound:
  "\<forall>d\<in>set ds. d < b \<Longrightarrow> n < b ^ k \<Longrightarrow> foldl (\<lambda>n d. n * b + d) n ds < (b :: nat) ^ (k + length ds)"
proof (induction ds arbitrary: n k)
  case (Cons d ds)
  have "n * b + d < n * b + b" using Cons.prems(1) by simp
  also have "\<dots> = Suc n * b" by simp
  also have "\<dots> \<le> b ^ k * b" using Cons.prems(2) by (intro mult_right_mono) auto
  finally have "n * b + d < b ^ Suc k" by (simp add: mult.commute)
  then show ?case using Cons.IH [of "n * b + d" "Suc k"] Cons.prems(1) by simp
qed simp

lemma parse_octet_bound: "parse_octet s = Some v \<Longrightarrow> v < 256"
  by (auto simp: parse_octet_def split: if_splits)

lemma parse_ipv4_bound: "parse_ipv4 s = Some n \<Longrightarrow> n < 2 ^ 32"
proof -
  assume "parse_ipv4 s = Some n"
  then obtain ds where ds: "all_some (map parse_octet (split_on (of_char CHR ''.'') s)) = Some ds"
      "length (split_on (of_char CHR ''.'') s) = 4" "n = foldl (\<lambda>n b. n * 256 + b) 0 ds"
    by (auto simp: parse_ipv4_def Let_def split: if_splits)
  have "\<forall>d\<in>set ds. d < 256" using all_some_mem [OF ds(1)] by (auto dest!: parse_octet_bound [OF sym])
  from foldl_base_bound [OF this, of 0 0] show ?thesis using all_some_length [OF ds(1)] ds by simp
qed

lemma hex_digit_bound: "hex_digit c = Some d \<Longrightarrow> d < 16"
  by (auto simp: hex_digit_def split: if_splits)

lemma parse_hextet_bound: "parse_hextet s = Some n \<Longrightarrow> n < 65536"
proof -
  assume "parse_hextet s = Some n"
  then obtain ds where ds: "all_some (map hex_digit s) = Some ds" "length s \<le> 4" "n = foldl (\<lambda>n d. n * 16 + d) 0 ds"
    by (auto simp: parse_hextet_def split: if_splits)
  have "\<forall>d\<in>set ds. d < 16" using all_some_mem [OF ds(1)] by (auto dest!: hex_digit_bound [OF sym])
  from foldl_base_bound [OF this, of 0 0] have "n < 16 ^ length s" using all_some_length [OF ds(1)] ds by simp
  also have "\<dots> \<le> 16 ^ 4" using ds(2) by (intro power_increasing) simp_all
  finally show ?thesis by simp
qed

lemma ipv6_value_bound:
  assumes "ipv6_value ps = Some n" and "length ps = 8" and "\<And>v. Inr v \<in> set ps \<Longrightarrow> v < 65536"
  shows "n < 2 ^ 128"
proof -
  obtain ds where ds: "all_some (map (case_sum parse_hextet Some) ps) = Some ds" "n = foldl (\<lambda>n g. n * 65536 + g) 0 ds"
    using assms(1) by (auto simp: ipv6_value_def)
  have "d < 65536" if "d \<in> set ds" for d
  proof -
    have "Some d \<in> case_sum parse_hextet Some ` set ps" using all_some_mem [OF ds(1) that] by simp
    then obtain p where "p \<in> set ps" "Some d = case_sum parse_hextet Some p" by blast
    with assms(3) show ?thesis by - (cases p, auto dest: parse_hextet_bound [OF sym])
  qed
  then have "\<forall>d\<in>set ds. d < 65536" by blast
  from foldl_base_bound [OF this, of 0 0] show ?thesis using all_some_length [OF ds(1)] ds assms(2) by simp
qed

lemma ipv6_parts_groups: "ipv6_parts s = Some ps \<Longrightarrow> Inr v \<in> set ps \<Longrightarrow> v < 65536"
  by (auto simp: ipv6_parts_def Let_def split: if_splits dest!: parse_ipv4_bound)

lemma in_set_tl_take: "x \<in> set (tl (take i xs)) \<Longrightarrow> x \<in> set xs"
  by (metis in_set_takeD list.set_sel(2) tl_Nil)

lemma in_set_butlast_drop: "x \<in> set (butlast (drop i xs)) \<Longrightarrow> x \<in> set xs"
  by (metis in_set_butlastD in_set_dropD)

lemma filled_value_bound:
  assumes "ipv6_value (hi @ replicate (8 - (length hi + length lo)) (Inr 0) @ lo) = Some n"
    and "length hi + length lo \<le> 7" and "set hi \<subseteq> set ps" and "set lo \<subseteq> set ps"
    and "\<And>v. Inr v \<in> set ps \<Longrightarrow> v < 65536"
  shows "n < 2 ^ 128"
  using assms(1)
proof (rule ipv6_value_bound)
  show "length (hi @ replicate (8 - (length hi + length lo)) (Inr 0) @ lo) = 8" using assms(2) by simp
  show "v < 65536" if "Inr v \<in> set (hi @ replicate (8 - (length hi + length lo)) (Inr 0) @ lo)" for v
    using that assms(3-5) by auto
qed

lemma parse_ipv6_int_bound:
  assumes p: "parse_ipv6_int s = Some n"
  shows "n < 2 ^ 128"
proof -
  obtain ps where ps: "ipv6_parts s = Some ps" using p by (auto simp: parse_ipv6_int_def split: option.splits)
  note groups = ipv6_parts_groups [OF ps]
  let ?gaps = "filter (\<lambda>i. ps ! i = Inl []) [1..<length ps - 1]"
  consider "?gaps = []" | i where "?gaps = [i]" | i j js where "?gaps = i # j # js"
    by (metis list.exhaust)
  then show ?thesis
  proof cases
    case 1
    with p ps show ?thesis using groups
      by (intro ipv6_value_bound [of ps]) (auto simp: parse_ipv6_int_def split: if_splits)
  next
    case (2 i)
    define hi where "hi = (if hd ps = Inl [] then tl (take i ps) else take i ps)"
    define lo where "lo = (if last ps = Inl [] then butlast (drop (Suc i) ps) else drop (Suc i) ps)"
    have "length hi + length lo \<le> 7 \<and> ipv6_value (hi @ replicate (8 - (length hi + length lo)) (Inr 0) @ lo) = Some n"
      using p [unfolded parse_ipv6_int_def ps option.simps 2 list.simps Let_def, folded hi_def lo_def]
      by (simp split: if_splits)
    moreover have "set hi \<subseteq> set ps" "set lo \<subseteq> set ps"
      by (auto simp: hi_def lo_def dest: in_set_takeD in_set_dropD in_set_tl_take in_set_butlast_drop)
    ultimately show ?thesis using groups by (intro filled_value_bound [of hi lo n ps]) blast+
  next
    case 3
    with p ps show ?thesis by (simp add: parse_ipv6_int_def split: if_splits)
  qed
qed

lemma ip_address_bound: "ip_address s = Some a \<Longrightarrow> a_int a < 2 ^ max_prefixlen (a_version a)"
  by (auto simp: ip_address_def parse_ipv6_def Let_def split: option.splits if_splits
      dest!: parse_ipv4_bound parse_ipv6_int_bound)

section \<open>The addresses of a network\<close>

definition net_contains :: "ip_net \<Rightarrow> ip_addr \<Rightarrow> bool" where
  "net_contains n a \<longleftrightarrow> n_version n = a_version a \<and> n_address n \<le> a_int a \<and> a_int a \<le> broadcast_address n"

lemma network_of_contains:
  "net_contains (network_of a p) b \<longleftrightarrow> a_version b = a_version a \<and>
     a_int b div 2 ^ (max_prefixlen (a_version a) - p) = a_int a div 2 ^ (max_prefixlen (a_version a) - p)"
proof -
  let ?h = "2 ^ (max_prefixlen (a_version a) - p) :: nat"
  have "(x div ?h * ?h \<le> y \<and> y \<le> x div ?h * ?h + (?h - 1)) \<longleftrightarrow> y div ?h = x div ?h" for x y
  proof
    assume "x div ?h * ?h \<le> y \<and> y \<le> x div ?h * ?h + (?h - 1)"
    then obtain d where "y = x div ?h * ?h + d" "d < ?h"
      by (metis Suc_diff_1 le_Suc_ex less_Suc_eq_le nat_add_left_cancel_le zero_less_numeral zero_less_power)
    then show "y div ?h = x div ?h" by simp
  next
    assume "y div ?h = x div ?h"
    then have "y = x div ?h * ?h + y mod ?h" by (metis div_mult_mod_eq)
    moreover have "y mod ?h < ?h" by simp
    ultimately show "x div ?h * ?h \<le> y \<and> y \<le> x div ?h * ?h + (?h - 1)" by linarith
  qed
  then show ?thesis
    by (auto simp: net_contains_def network_of_def Let_def broadcast_address_def net_size_def)
qed

lemma host_network_contains: "net_contains (host_network a) b \<longleftrightarrow> a_version b = a_version a \<and> a_int b = a_int a"
  by (simp add: host_network_def network_of_contains)

lemma summarize_hd:
  "first_int \<le> last_int \<Longrightarrow> hd (summarize_address_range v first_int last_int) =
     \<lparr>n_version = v, n_address = first_int, n_scope = None,
      n_prefixlen = max_prefixlen v - block_bits (max_prefixlen v) first_int last_int\<rparr>"
  by (simp add: summarize_address_range.simps [of v first_int last_int] Let_def)

lemma block_bits_facts:
  assumes "first_int \<le> last_int"
  shows "2 ^ block_bits b first_int last_int dvd first_int" and "block_bits b first_int last_int \<le> b"
    and "first_int + 2 ^ block_bits b first_int last_int \<le> Suc last_int"
proof -
  let ?k = "block_bits b first_int last_int"
  have le: "?k \<le> right_zeros b first_int" "?k \<le> bit_length (last_int - first_int + 1) - 1"
    by (simp_all add: block_bits_def)
  show "2 ^ ?k dvd first_int" using le_imp_power_dvd [OF le(1)] right_zeros_dvd dvd_trans by blast
  show "?k \<le> b" using le(1) right_zeros_le order_trans by blast
  have "2 ^ ?k \<le> (2 :: nat) ^ (bit_length (last_int - first_int + 1) - 1)" using le(2) by (intro power_increasing) simp_all
  also have "\<dots> \<le> last_int - first_int + 1" using bit_length_bounds [of "last_int - first_int + 1"] by simp
  finally show "first_int + 2 ^ ?k \<le> Suc last_int" using assms by linarith
qed

lemma le_pred_power: "x \<le> s + (2 ^ k - 1) \<longleftrightarrow> x < s + (2 :: nat) ^ k"
proof -
  have "0 < (2 :: nat) ^ k" by simp
  then show ?thesis by linarith
qed

lemma block_contains:
  assumes "first_int \<le> last_int"
  shows "net_contains \<lparr>n_version = v, n_address = first_int, n_scope = sc,
           n_prefixlen = max_prefixlen v - block_bits (max_prefixlen v) first_int last_int\<rparr> a \<longleftrightarrow>
     a_version a = v \<and> first_int \<le> a_int a \<and> a_int a < first_int + 2 ^ block_bits (max_prefixlen v) first_int last_int"
proof -
  have "max_prefixlen v - (max_prefixlen v - block_bits (max_prefixlen v) first_int last_int) =
      block_bits (max_prefixlen v) first_int last_int"
    using block_bits_facts(2) [OF assms] by simp
  then show ?thesis by (auto simp only: net_contains_def broadcast_address_def net_size_def ip_net.simps le_pred_power)
qed

text \<open>The networks of the whole list make up the range.\<close>

lemma summarize_covers:
  "last_int < 2 ^ max_prefixlen v \<Longrightarrow>
     (\<exists>n\<in>set (summarize_address_range v first_int last_int). net_contains n a) \<longleftrightarrow>
     a_version a = v \<and> first_int \<le> a_int a \<and> a_int a \<le> last_int"
proof (induction v first_int last_int rule: summarize_address_range.induct)
  case (1 v s e)
  show ?case
  proof (cases "s \<le> e")
    case True
    let ?k = "block_bits (max_prefixlen v) s e"
    let ?net = "\<lparr>n_version = v, n_address = s, n_scope = None, n_prefixlen = max_prefixlen v - ?k\<rparr>"
    note k = block_bits_facts(3) [OF True, of "max_prefixlen v"] and net = block_contains [OF True, of v None a]
    show ?thesis
    proof (cases "s + 2 ^ ?k = 2 ^ max_prefixlen v")
      case full: True
      then have "s + 2 ^ ?k = Suc e" using k 1(2) by linarith
      then show ?thesis using True full net by (simp add: summarize_address_range.simps [of v s e] Let_def less_Suc_eq_le)
    next
      case False
      have "(\<exists>n\<in>set (summarize_address_range v (s + 2 ^ ?k) e). net_contains n a) \<longleftrightarrow>
          a_version a = v \<and> s + 2 ^ ?k \<le> a_int a \<and> a_int a \<le> e"
        using 1(1) [OF True refl refl refl False 1(2)] .
      then show ?thesis using True False net k by (auto simp: summarize_address_range.simps [of v s e] Let_def)
    qed
  qed (simp add: summarize_address_range.simps [of v s e])
qed

lemma block_exact:
  assumes "first_int \<le> last_int" and "last_int < 2 ^ b"
  shows "first_int + 2 ^ block_bits b first_int last_int = Suc last_int \<longleftrightarrow>
     (\<exists>k. Suc last_int - first_int = 2 ^ k \<and> 2 ^ k dvd first_int)"
proof
  assume "first_int + 2 ^ block_bits b first_int last_int = Suc last_int"
  then show "\<exists>k. Suc last_int - first_int = 2 ^ k \<and> 2 ^ k dvd first_int"
    using block_bits_facts(1) [OF assms(1), of b] by (metis add_diff_cancel_left')
next
  assume "\<exists>k. Suc last_int - first_int = 2 ^ k \<and> 2 ^ k dvd first_int"
  then obtain k where k: "Suc last_int - first_int = 2 ^ k" "2 ^ k dvd first_int" by blast
  have "(2 :: nat) ^ k \<le> 2 ^ b" using k(1) assms(2) by linarith
  then have "k \<le> b" by simp
  then have "k \<le> right_zeros b first_int" using k(2) by (rule right_zeros_greatest)
  moreover have "last_int - first_int + 1 = 2 ^ k" using k(1) assms(1) by linarith
  ultimately have "block_bits b first_int last_int = k" by (simp add: block_bits_def)
  then have "first_int + 2 ^ block_bits b first_int last_int = first_int + (Suc last_int - first_int)" using k(1) by simp
  then show "first_int + 2 ^ block_bits b first_int last_int = Suc last_int" using assms(1) by simp
qed

lemma parse_ip_range_version: "parse_ip_range s = Inr (n, b) \<Longrightarrow> b = (n_version n = V4)"
  by (auto simp: parse_ip_range_def Let_def host_network_def network_of_def split: if_splits option.splits)

section \<open>The filter between operations\<close>

definition versions :: "ip_version \<Rightarrow> ip_filter \<Rightarrow> ip_net multiset" where
  "versions v f = {#n \<in># image_mset r_network (mset (f_rules f)). n_version n = v#}"

definition filter_ok :: "ip_filter \<Rightarrow> bool" where
  "filter_ok f \<longleftrightarrow> mset (f_ipv4_ranges f) = versions V4 f \<and> mset (f_ipv6_ranges f) = versions V6 f \<and>
     sorted (map n_address (f_ipv4_ranges f)) \<and> sorted (map n_address (f_ipv6_ranges f))"

lemma filter_ok_ranges:
  assumes "filter_ok f" shows "is_ip_in_ranges a f \<longleftrightarrow> (\<exists>r\<in>set (f_rules f). net_contains (r_network r) a)"
proof -
  have "set (if a_version a = V4 then f_ipv4_ranges f else f_ipv6_ranges f) =
      {n \<in> r_network ` set (f_rules f). n_version n = a_version a}"
    using assms by (cases "a_version a") (auto simp: filter_ok_def versions_def dest!: arg_cong [where f = set_mset])
  then show ?thesis
    by (auto simp: is_ip_in_ranges_def ip_in_ranges_def list_ex_iff net_contains_def)
qed

lemma filter_ok_init [simp]: "filter_ok (ip_filter_init en mode)"
  by (simp add: filter_ok_def ip_filter_init_def versions_def)

lemma filter_ok_irrelevant:
  "f_rules g = f_rules f \<Longrightarrow> f_ipv4_ranges g = f_ipv4_ranges f \<Longrightarrow> f_ipv6_ranges g = f_ipv6_ranges f \<Longrightarrow>
     filter_ok g = filter_ok f"
  by (simp add: filter_ok_def versions_def)

lemma filter_ok_clear [simp]: "filter_ok (clear f)"
  by (simp add: filter_ok_def clear_def versions_def)

lemma is_blocked_keeps [simp]:
  "f_rules (snd (is_blocked ip f)) = f_rules f" "f_ipv4_ranges (snd (is_blocked ip f)) = f_ipv4_ranges f"
  "f_ipv6_ranges (snd (is_blocked ip f)) = f_ipv6_ranges f" "f_mode (snd (is_blocked ip f)) = f_mode f"
  by (simp_all add: is_blocked_def Let_def split: option.split)

lemma filter_ok_is_blocked: "filter_ok (snd (is_blocked ip f)) = filter_ok f"
  by (rule filter_ok_irrelevant) simp_all

lemma add_rule_InrD:
  assumes "add_rule r mode p src f = Inr (ok, g)"
  shows "\<not> ok \<and> g = f \<and> parse_ip_range r = Inl ValueError \<or>
     ok \<and> (\<exists>n rule. parse_ip_range r = Inr (n, n_version n = V4) \<and> r_network rule = n \<and>
       g = (if n_version n = V4
            then f\<lparr>f_rules := f_rules f @ [rule], f_ipv4_ranges := sort_key n_address (f_ipv4_ranges f @ [n])\<rparr>
            else f\<lparr>f_rules := f_rules f @ [rule], f_ipv6_ranges := sort_key n_address (f_ipv6_ranges f @ [n])\<rparr>))"
proof (cases "parse_ip_range r")
  case (Inl e)
  then show ?thesis using assms by (cases e) (simp_all add: add_rule_def)
next
  case (Inr nb)
  then obtain n b where nb: "parse_ip_range r = Inr (n, b)" by (cases nb) auto
  then have b: "b = (n_version n = V4)" by (rule parse_ip_range_version)
  show ?thesis using assms unfolding add_rule_def nb b Let_def
    by (intro disjI2 conjI exI [of _ n] exI [of _ "\<lparr>r_network = n, r_mode = case mode of None \<Rightarrow> f_mode f | Some m \<Rightarrow> m,
        r_priority = p, r_source = src\<rparr>"]) auto
qed

lemma filter_ok_add_rule:
  assumes "filter_ok f" and "add_rule r mode p src f = Inr (ok, g)"
  shows "filter_ok g"
proof -
  from add_rule_InrD [OF assms(2)] consider "g = f" | n rule where "r_network rule = n"
      "g = (if n_version n = V4
            then f\<lparr>f_rules := f_rules f @ [rule], f_ipv4_ranges := sort_key n_address (f_ipv4_ranges f @ [n])\<rparr>
            else f\<lparr>f_rules := f_rules f @ [rule], f_ipv6_ranges := sort_key n_address (f_ipv6_ranges f @ [n])\<rparr>)"
    by blast
  then show ?thesis
  proof cases
    case (2 n rule)
    then show ?thesis using assms(1) by (cases "n_version n") (simp_all add: filter_ok_def versions_def)
  qed (use assms(1) in simp)
qed

lemma remove_rule_InrD:
  assumes "remove_rule r f = Inr (ok, g)"
  shows "\<not> ok \<and> g = f \<and> parse_ip_range r = Inl ValueError \<or>
     (\<exists>n. parse_ip_range r = Inr (n, n_version n = V4) \<and>
       g = (let f = f\<lparr>f_rules := filter (\<lambda>rule. r_network rule \<noteq> n) (f_rules f)\<rparr>
            in if n_version n = V4 then f\<lparr>f_ipv4_ranges := filter (\<lambda>x. x \<noteq> n) (f_ipv4_ranges f)\<rparr>
               else f\<lparr>f_ipv6_ranges := filter (\<lambda>x. x \<noteq> n) (f_ipv6_ranges f)\<rparr>))"
proof (cases "parse_ip_range r")
  case (Inl e)
  then show ?thesis using assms by (cases e) (simp_all add: remove_rule_def)
next
  case (Inr nb)
  then obtain n b where nb: "parse_ip_range r = Inr (n, b)" by (cases nb) auto
  then have b: "b = (n_version n = V4)" by (rule parse_ip_range_version)
  show ?thesis using assms unfolding remove_rule_def nb b Let_def
    by (intro disjI2 exI [of _ n]) (auto split: if_splits)
qed

lemma versions_remove:
  "versions v (f\<lparr>f_rules := filter (\<lambda>rule. r_network rule \<noteq> n) (f_rules f)\<rparr>) = {#x \<in># versions v f. x \<noteq> n#}"
proof -
  have "{#x \<in># image_mset r_network (mset (filter (\<lambda>rule. r_network rule \<noteq> n) rs)). n_version x = v#} =
      {#x \<in># {#x \<in># image_mset r_network (mset rs). n_version x = v#}. x \<noteq> n#}" for rs
    by (induction rs) auto
  then show ?thesis by (simp add: versions_def)
qed

lemma filter_ok_remove_rule:
  assumes "filter_ok f" and "remove_rule r f = Inr (ok, g)"
  shows "filter_ok g"
proof -
  from remove_rule_InrD [OF assms(2)] consider "g = f" | n where
      "g = (let f = f\<lparr>f_rules := filter (\<lambda>rule. r_network rule \<noteq> n) (f_rules f)\<rparr>
            in if n_version n = V4 then f\<lparr>f_ipv4_ranges := filter (\<lambda>x. x \<noteq> n) (f_ipv4_ranges f)\<rparr>
               else f\<lparr>f_ipv6_ranges := filter (\<lambda>x. x \<noteq> n) (f_ipv6_ranges f)\<rparr>)"
    by blast
  then show ?thesis
  proof cases
    case (2 n)
    let ?f = "f\<lparr>f_rules := filter (\<lambda>rule. r_network rule \<noteq> n) (f_rules f)\<rparr>"
    have other: "{#x \<in># versions v f. x \<noteq> n#} = versions v f" if "v \<noteq> n_version n" for v
      using that by (auto simp: versions_def filter_filter_mset intro!: filter_mset_cong)
    show ?thesis
    proof (cases "n_version n")
      case V4
      then have g: "g = ?f\<lparr>f_ipv4_ranges := filter (\<lambda>x. x \<noteq> n) (f_ipv4_ranges f)\<rparr>" using 2 by (simp add: Let_def)
      have "versions v g = versions v ?f" for v by (simp add: versions_def g)
      then show ?thesis using assms(1) other [of V6] V4
        by (simp add: filter_ok_def versions_remove g sorted_filter)
    next
      case V6
      then have g: "g = ?f\<lparr>f_ipv6_ranges := filter (\<lambda>x. x \<noteq> n) (f_ipv6_ranges f)\<rparr>" using 2 by (simp add: Let_def)
      have "versions v g = versions v ?f" for v by (simp add: versions_def g)
      then show ?thesis using assms(1) other [of V4] V6
        by (simp add: filter_ok_def versions_remove g sorted_filter)
    qed
  qed (use assms(1) in simp)
qed

lemma filter_ok_last_update [simp]: "filter_ok (f\<lparr>f_last_update := t\<rparr>) = filter_ok f"
  by (rule filter_ok_irrelevant) simp_all

lemma parse_and_add_line_cases:
  "parse_and_add_line l mode src f = Inr (True, f) \<or> (\<exists>w. parse_and_add_line l mode src f = add_rule w mode 0 src f)"
  by (auto simp: parse_and_add_line_def Let_def)

lemma filter_ok_line:
  assumes "filter_ok f" and "parse_and_add_line l mode src f = Inr (ok, g)"
  shows "filter_ok g"
  using parse_and_add_line_cases [of l mode src f] assms by (metis filter_ok_add_rule prod.inject sum.inject(2))

lemma filter_ok_add_lines:
  "filter_ok f \<Longrightarrow> add_lines mode src ls (l, e, f) = ((l', e', g), fin) \<Longrightarrow> filter_ok g"
proof (induction mode src ls "(l, e, f)" arbitrary: l e f rule: add_lines.induct)
  case (2 mode src line ls l e f)
  show ?case
  proof (cases "parse_and_add_line line mode src f")
    case (Inl x)
    then show ?thesis using 2(2,3) by simp
  next
    case (Inr r)
    then obtain ok h where r: "parse_and_add_line line mode src f = Inr (ok, h)" by (cases r) auto
    from 2(2) r have "filter_ok h" by (rule filter_ok_line)
    then show ?thesis using 2(1) [OF r] 2(3) r by (cases ok) auto
  qed
qed simp

lemma filter_ok_load_from_file: "filter_ok f \<Longrightarrow> filter_ok (snd (load_from_file file path mode src f))"
  by (auto simp: load_from_file_def Let_def split: option.splits prod.splits dest: filter_ok_add_lines)

lemma filter_ok_load_from_url: "filter_ok f \<Longrightarrow> filter_ok (snd (load_from_url gz dec now url cached d mode f))"
  using filter_ok_load_from_file [of f cached "[]" mode "Some (lit ''url:'' @ url)"]
  by (auto simp: load_from_url_def Let_def
      split: option.splits prod.splits download.splits dest: filter_ok_add_lines)

lemma filter_ok_load_urls: "filter_ok f \<Longrightarrow> load_urls gz dec now urls results f = (r, g) \<Longrightarrow> filter_ok g"
proof (induction gz dec now urls results f rule: load_urls.induct)
  case (2 gz dec now url cached d urls results f)
  obtain s l e h where h: "load_from_url gz dec now url cached d None f = ((s, l, e), h)" by (metis prod.collapse)
  then have "filter_ok h" using filter_ok_load_from_url [OF 2(2), of gz dec now url cached d None] by simp
  then show ?case using 2(1) [OF h [symmetric] refl refl] 2(3) h by simp
qed simp

inductive filter_reachable :: "ip_filter \<Rightarrow> bool" where
  init: "filter_reachable (ip_filter_init enabled mode)"
| add: "filter_reachable f \<Longrightarrow> add_rule r mode p src f = Inr (ok, g) \<Longrightarrow> filter_reachable g"
| remove: "filter_reachable f \<Longrightarrow> remove_rule r f = Inr (ok, g) \<Longrightarrow> filter_reachable g"
| clear: "filter_reachable f \<Longrightarrow> filter_reachable (clear f)"
| check: "filter_reachable f \<Longrightarrow> filter_reachable (snd (is_blocked ip f))"
| from_file: "filter_reachable f \<Longrightarrow> filter_reachable (snd (load_from_file file path mode src f))"
| from_url: "filter_reachable f \<Longrightarrow> filter_reachable (snd (load_from_url gunzip text_lines now url cached d mode f))"
| update: "filter_reachable f \<Longrightarrow> filter_reachable (snd (update_filter_lists gunzip text_lines now urls f))"

lemma filter_reachable_ok: "filter_reachable f \<Longrightarrow> filter_ok f"
proof (induction rule: filter_reachable.induct)
  case (update f gz dec now urls)
  obtain r g where g: "load_urls gz dec now urls [] f = (r, g)" by fastforce
  with update have "filter_ok g" by (auto dest: filter_ok_load_urls)
  then show ?case using g by (simp add: update_filter_lists_def)
qed (auto simp: filter_ok_is_blocked filter_ok_load_from_file filter_ok_load_from_url
       dest: filter_ok_add_rule filter_ok_remove_rule)

lemma is_blocked_iff:
  assumes "filter_ok f" and "f_enabled f" and "ip_address ip = Some a"
  shows "fst (is_blocked ip f) \<longleftrightarrow> (\<exists>r\<in>set (f_rules f). net_contains (r_network r) a) = (f_mode f = BLOCK)"
proof -
  have "is_ip_in_ranges a (f\<lparr>f_matches := n\<rparr>) = is_ip_in_ranges a f" for n by (simp add: is_ip_in_ranges_def)
  then show ?thesis using assms filter_ok_ranges [OF assms(1), of a]
    by (cases "f_mode f") (auto simp: is_blocked_def Let_def)
qed

text \<open>
  C32: in every state an enabled filter can get into by adding, removing and loading rules, an
  address is blocked exactly when the union of the networks of the rules contains it and the
  filter blocks, or does not contain it and the filter allows. Modes and priorities of the rules
  have no influence.
\<close>

theorem filter_decision:
  assumes "filter_reachable f" and "f_enabled f" and "ip_address ip = Some a"
  shows "fst (is_blocked ip f) \<longleftrightarrow> (\<exists>r\<in>set (f_rules f). net_contains (r_network r) a) = (f_mode f = BLOCK)"
  using filter_reachable_ok [OF assms(1)] assms(2,3) by (rule is_blocked_iff)

section \<open>Range rules\<close>


text \<open>
  A rule for a range covers exactly the first block of the range, which is the whole range
  only when its length is a power of two that divides its first address.
\<close>

theorem range_rule_first_block:
  assumes "strip text = u @ lit ''-'' @ w" and "of_char CHR ''-'' \<notin> set u" and "of_char CHR ''/'' \<notin> set (u @ w)"
    and "ip_address (strip u) = Some a" and "ip_address (strip w) = Some b"
    and "a_version a = a_version b" and "a_int a \<le> a_int b"
  shows "\<exists>n. parse_ip_range text = Inr (n, a_version a = V4) \<and>
     ((\<forall>x. net_contains n x \<longleftrightarrow> a_version x = a_version a \<and> a_int a \<le> a_int x \<and> a_int x \<le> a_int b) \<longleftrightarrow>
      (\<exists>k. Suc (a_int b) - a_int a = 2 ^ k \<and> 2 ^ k dvd a_int a))"
proof -
  let ?k = "block_bits (max_prefixlen (a_version a)) (a_int a) (a_int b)"
  define n where "n = \<lparr>n_version = a_version a, n_address = a_int a, n_scope = None,
      n_prefixlen = max_prefixlen (a_version a) - ?k\<rparr>"
  have split: "takeWhile (\<lambda>c. c \<noteq> 45) (u @ 45 # w) = u" "dropWhile (\<lambda>c. c \<noteq> 45) (u @ 45 # w) = 45 # w"
    using assms(2) by (auto simp: takeWhile_append dropWhile_append)
  have "hd (summarize_address_range (a_version a) (a_int a) (a_int b)) = n"
    using summarize_hd [OF assms(7)] by (simp add: n_def)
  then have p: "parse_ip_range text = Inr (n, a_version a = V4)"
    using assms split by (simp add: parse_ip_range_def Let_def n_def)
  have c: "net_contains n x \<longleftrightarrow> a_version x = a_version a \<and> a_int a \<le> a_int x \<and> a_int x < a_int a + 2 ^ ?k" for x
    using block_contains [OF assms(7)] by (simp add: n_def)
  have le: "a_int a + 2 ^ ?k \<le> Suc (a_int b)" by (rule block_bits_facts(3) [OF assms(7)])
  have "(\<forall>x. net_contains n x \<longleftrightarrow> a_version x = a_version a \<and> a_int a \<le> a_int x \<and> a_int x \<le> a_int b) \<longleftrightarrow>
      a_int a + 2 ^ ?k = Suc (a_int b)"
  proof
    assume "\<forall>x. net_contains n x \<longleftrightarrow> a_version x = a_version a \<and> a_int a \<le> a_int x \<and> a_int x \<le> a_int b"
    then have "net_contains n b" using assms(6,7) by simp
    then show "a_int a + 2 ^ ?k = Suc (a_int b)" using c [of b] le by simp
  qed (auto simp: c)
  also have "\<dots> \<longleftrightarrow> (\<exists>k. Suc (a_int b) - a_int a = 2 ^ k \<and> 2 ^ k dvd a_int a)"
    using ip_address_bound [OF assms(5)] assms(6) by (intro block_exact [OF assms(7)]) simp
  finally show ?thesis using p by blast
qed

section \<open>Lines of filter lists\<close>

lemma is_prefix_append [simp]: "is_prefix u (u @ s)"
  by (induction u) auto

lemma contains_prefix: "is_prefix u s \<Longrightarrow> contains u s"
  by (cases s; cases u) auto

lemma contains_middle: "contains u (p @ u @ s)"
proof (induction p)
  case Nil
  then show ?case by (simp add: contains_prefix)
qed simp

lemma replace_dash_id: "32 \<notin> set s \<Longrightarrow> replace_dash s = s"
  by (induction s rule: replace_dash.induct) auto

lemma strip_no_space: "\<forall>c\<in>set s. \<not> is_space c \<Longrightarrow> strip s = s"
proof -
  assume "\<forall>c\<in>set s. \<not> is_space c"
  then have "dropWhile is_space s = s" "dropWhile is_space (rev s) = rev s"
    by (auto simp: dropWhile_eq_self_iff hd_rev)
  then show ?thesis by (simp add: strip_def)
qed

text \<open>
  A line \<open>start - end\<close> of a PeerGuardian list is read as the single address before the dash.
\<close>

theorem peerguardian_line_blocks_one:
  assumes "strip line = w @ lit '' - '' @ rest" and "w \<noteq> []" and "\<forall>c\<in>set w. \<not> is_space c"
    and "hd w \<noteq> of_char CHR ''#''" and "of_char CHR ''-'' \<notin> set w" and "of_char CHR ''/'' \<notin> set w"
    and "ip_address w = Some a"
  shows "\<exists>g rule. parse_and_add_line line mode src f = Inr (True, g) \<and> f_rules g = f_rules f @ [rule] \<and>
     (\<forall>x. net_contains (r_network rule) x \<longleftrightarrow> a_version x = a_version a \<and> a_int x = a_int a)"
proof -
  have "is_space 32" by (simp add: is_space_def)
  then have sp: "32 \<notin> set w" using assms(3) by blast
  have "dropWhile is_space (w @ lit '' - '' @ rest) = w @ lit '' - '' @ rest"
    using assms(2,3) by (cases w) auto
  then have "first_word (w @ lit '' - '' @ rest) = w"
    using assms(3) \<open>is_space 32\<close> by (auto simp: first_word_def takeWhile_append)
  moreover have "contains (lit '' - '') (w @ lit '' - '' @ rest)" by (rule contains_middle)
  ultimately have line: "parse_and_add_line line mode src f = add_rule w mode 0 src f"
    using assms(1,2,4) replace_dash_id [OF sp] by (simp add: parse_and_add_line_def Let_def)
  have p: "parse_ip_range w = Inr (host_network a, a_version a = V4)"
    using assms(5-7) strip_no_space [OF assms(3)] by (simp add: parse_ip_range_def Let_def)
  obtain ok g where g: "add_rule w mode 0 src f = Inr (ok, g)" using p by (simp add: add_rule_def Let_def)
  with add_rule_InrD [OF g] p obtain rule where "ok" "r_network rule = host_network a" "f_rules g = f_rules f @ [rule]"
    by (auto split: if_splits)
  then show ?thesis using line g host_network_contains by auto
qed

definition skipped :: "pystr \<Rightarrow> bool" where
  "skipped l \<longleftrightarrow> strip l = [] \<or> hd (strip l) = of_char CHR ''#''"

lemma line_rules:
  assumes "parse_and_add_line l mode src f = Inr (ok, g)"
  shows "length (f_rules g) + (if skipped l then 1 else 0) = length (f_rules f) + (if ok then 1 else 0)"
proof (cases "skipped l")
  case True
  then show ?thesis using assms by (simp add: parse_and_add_line_def skipped_def)
next
  case False
  then obtain w where "add_rule w mode 0 src f = Inr (ok, g)"
    using assms by (auto simp: parse_and_add_line_def skipped_def Let_def split: if_splits)
  from add_rule_InrD [OF this] False show ?thesis by (auto split: if_splits)
qed

lemma add_lines_counts:
  "add_lines mode src ls (l, e, f) = ((l', e', g), fin) \<Longrightarrow>
     \<exists>ds. (fin \<longrightarrow> ds = ls) \<and> (\<exists>more. ls = ds @ more) \<and> l' + e' = l + e + length ds \<and>
       l' + length (f_rules f) = l + length (f_rules g) + length (filter skipped ds)"
proof (induction mode src ls "(l, e, f)" arbitrary: l e f rule: add_lines.induct)
  case (2 mode src line ls l e f)
  show ?case
  proof (cases "parse_and_add_line line mode src f")
    case (Inl x)
    then show ?thesis using 2(2) by auto
  next
    case (Inr r)
    then obtain ok h where r: "parse_and_add_line line mode src f = Inr (ok, h)" by (cases r) auto
    have rest: "add_lines mode src ls (if ok then (l + 1, e, h) else (l, e + 1, h)) = ((l', e', g), fin)" using 2(2) r by simp
    have "\<exists>ds. (fin \<longrightarrow> ds = ls) \<and> (\<exists>more. ls = ds @ more) \<and>
        l' + e' = (if ok then l + 1 + e else l + (e + 1)) + length ds \<and>
        l' + length (f_rules h) = (if ok then l + 1 else l) + length (f_rules g) + length (filter skipped ds)"
    proof (cases ok)
      case True
      then show ?thesis using 2(1) [OF r refl, of "l + 1" e h] rest by simp
    next
      case False
      then show ?thesis using 2(1) [OF r refl, of l "e + 1" h] rest by simp
    qed
    then obtain ds where d: "fin \<longrightarrow> ds = ls" "\<exists>more. ls = ds @ more"
        "l' + e' = (if ok then l + 1 + e else l + (e + 1)) + length ds"
        "l' + length (f_rules h) = (if ok then l + 1 else l) + length (f_rules g) + length (filter skipped ds)" by blast
    have "l' + length (f_rules f) = l + length (f_rules g) + length (filter skipped (line # ds))"
      using d(4) line_rules [OF r] by (cases ok; cases "skipped line") simp_all
    moreover have "l' + e' = l + e + length (line # ds)" using d(3) by (cases ok) simp_all
    ultimately show ?thesis using d(1,2) by (intro exI [of _ "line # ds"]) simp
  qed
qed simp

lemma add_lines_append:
  "add_lines mode src ls s = (t, True) \<Longrightarrow> add_lines mode src (ls @ ms) s = add_lines mode src ms t"
proof (induction mode src ls s rule: add_lines.induct)
  case (2 mode src line ls l e f)
  show ?case
  proof (cases "parse_and_add_line line mode src f")
    case (Inr r)
    then obtain ok h where "parse_and_add_line line mode src f = Inr (ok, h)" by (cases r) auto
    then show ?thesis using 2 by (cases ok) auto
  qed (use 2 in simp)
qed simp

text \<open>
  A range between an IPv4 and an IPv6 address ends the loading of a list: the lines after it
  are not read, though the ones before it stay in the filter, and a download then reports no rule.
\<close>

theorem mixed_range_ends_loading:
  assumes "add_lines mode src before (0, 0, f) = ((loaded, errors, g), True)"
    and "strip bad = u @ lit ''-'' @ w" and "of_char CHR ''-'' \<notin> set u" and "of_char CHR ''/'' \<notin> set (u @ w)"
    and "\<forall>c\<in>set (u @ w). \<not> is_space c" and "u \<noteq> []" and "hd u \<noteq> of_char CHR ''#''"
    and "ip_address u = Some a" and "ip_address w = Some b" and "a_version a \<noteq> a_version b"
  shows "load_from_file (Some (before @ bad # after, failed)) path mode (Some src) f = ((loaded, errors + 1), g)"
proof -
  have "is_space 32" by (simp add: is_space_def)
  then have sp: "32 \<notin> set (u @ lit ''-'' @ w)" using assms(5) by auto
  have split: "takeWhile (\<lambda>c. c \<noteq> 45) (u @ 45 # w) = u" "dropWhile (\<lambda>c. c \<noteq> 45) (u @ 45 # w) = 45 # w"
    using assms(3) by (auto simp: takeWhile_append dropWhile_append)
  have dash: "\<not> is_space 45" by (simp add: is_space_def)
  have strips: "strip (u @ 45 # w) = u @ 45 # w" "strip u = u" "strip w = w"
    using assms(5) dash by (auto intro!: strip_no_space)
  have "parse_ip_range (u @ 45 # w) = Inl TypeError"
    using assms(4,8-10) split strips by (simp add: parse_ip_range_def Let_def)
  then have "add_rule (u @ 45 # w) mode 0 src g = Inl TypeError" by (simp add: add_rule_def)
  then have "parse_and_add_line bad mode src g = Inl TypeError"
    using assms(2,4,6,7) sp replace_dash_id [OF sp] by (simp add: parse_and_add_line_def Let_def)
  then have "add_lines mode src (before @ bad # after) (0, 0, f) = ((loaded, errors, g), False)"
    using add_lines_append [OF assms(1)] by simp
  then show ?thesis by (simp add: load_from_file_def)
qed

text \<open>
  The number of rules a file reports as loaded is the number of rules it added and of the
  blank lines and comments read.
\<close>

theorem loaded_counts_comments:
  assumes "load_from_file (Some (ls, failed)) path mode src f = ((loaded, errors), g)"
  shows "\<exists>ds more. ls = ds @ more \<and> (errors = 0 \<longrightarrow> more = []) \<and>
     loaded + length (f_rules f) = length (f_rules g) + length (filter skipped ds)"
proof -
  obtain l e h fin where h: "add_lines mode (case src of None \<Rightarrow> path | Some s \<Rightarrow> s) ls (0, 0, f) = ((l, e, h), fin)"
    by (metis prod.collapse)
  with assms have eq: "loaded = l" "errors = (if fin \<and> \<not> failed then e else e + 1)" "g = h"
    by (auto simp: load_from_file_def)
  from add_lines_counts [OF h] obtain ds where d: "fin \<longrightarrow> ds = ls" "\<exists>more. ls = ds @ more"
      "l + length (f_rules f) = 0 + length (f_rules h) + length (filter skipped ds)" by blast
  then obtain more where "ls = ds @ more" by blast
  with d eq show ?thesis by (intro exI [of _ ds] exI [of _ more]) (auto split: if_splits)
qed

section \<open>The blacklist of the security manager\<close>

text \<open>
  The lists of addresses of \<open>SecurityManager\<close> (\<open>ccbt/security/security_manager.py\<close>) and their use
  of the filter. \<open>check_address\<close> is the part of \<open>validate_peer\<close> before the rate limits.
\<close>

record address_lists =
  s_blacklist :: "pystr set"
  s_whitelist :: "pystr set"
  s_filter :: "ip_filter option"
  s_blacklisted_peers :: nat
  s_whitelisted_peers :: nat

definition add_to_blacklist :: "pystr \<Rightarrow> address_lists \<Rightarrow> address_lists py" where
  "add_to_blacklist ip s =
     (let s = s\<lparr>s_blacklist := insert ip (s_blacklist s), s_blacklisted_peers := s_blacklisted_peers s + 1\<rparr>
      in case s_filter s of
           None \<Rightarrow> Inr s
         | Some f \<Rightarrow>
             if f_enabled f
             then pbind (add_rule (ip @ lit ''/32'') (Some BLOCK) 0 (lit ''blacklist'') f) (\<lambda>(_, f).
                  Inr (s\<lparr>s_filter := Some f\<rparr>))
             else Inr s)"

definition remove_from_blacklist :: "pystr \<Rightarrow> address_lists \<Rightarrow> address_lists" where
  "remove_from_blacklist ip s = s\<lparr>s_blacklist := s_blacklist s - {ip}\<rparr>"

definition add_to_whitelist :: "pystr \<Rightarrow> address_lists \<Rightarrow> address_lists" where
  "add_to_whitelist ip s =
     s\<lparr>s_whitelist := insert ip (s_whitelist s), s_whitelisted_peers := s_whitelisted_peers s + 1\<rparr>"

definition remove_from_whitelist :: "pystr \<Rightarrow> address_lists \<Rightarrow> address_lists" where
  "remove_from_whitelist ip s = s\<lparr>s_whitelist := s_whitelist s - {ip}\<rparr>"

datatype refusal = Blacklisted | BlockedByFilter

definition check_address :: "pystr \<Rightarrow> address_lists \<Rightarrow> refusal option \<times> address_lists" where
  "check_address ip s =
     (if ip \<in> s_blacklist s then (Some Blacklisted, s)
      else case s_filter s of
          None \<Rightarrow> (None, s)
        | Some f \<Rightarrow>
            if f_enabled f
            then (let (blocked, f) = is_blocked ip f
                  in (if blocked then Some BlockedByFilter else None, s\<lparr>s_filter := Some f\<rparr>))
            else (None, s))"

lemma blacklist_rule:
  assumes "\<forall>c\<in>set ip. \<not> is_space c" and "of_char CHR ''/'' \<notin> set ip" and "ip_address ip = Some a"
  shows "parse_ip_range (ip @ lit ''/32'') = Inr (network_of a 32, a_version a = V4)"
proof -
  have "strip (ip @ [47, 51, 50]) = ip @ [47, 51, 50]"
    using assms(1) by (intro strip_no_space) (auto simp: is_space_def)
  moreover have "split_on 47 (ip @ [47, 51, 50]) = [ip, [51, 50]]"
    using assms(2) split_on_append [of 47 ip "[51, 50]"] by (simp add: split_on_single)
  moreover have "make_netmask (a_version a) [51, 50] = Some 32"
    by (cases "a_version a") (simp_all add: make_netmask_def prefix_string_def dec_digit_def dec_value_def)
  ultimately show ?thesis using assms(3)
    by (simp add: parse_ip_range_def Let_def ip_network_def network_of_def)
qed

lemma check_address_iff:
  assumes "s_filter s = Some f" and "f_enabled f" and "filter_ok f" and "ip_address ip = Some b" and "ip \<notin> s_blacklist s"
  shows "fst (check_address ip s) = None \<longleftrightarrow> (\<exists>r\<in>set (f_rules f). net_contains (r_network r) b) = (f_mode f = ALLOW)"
  using assms is_blocked_iff [OF assms(3,2,4)]
  by (cases "f_mode f") (auto simp: check_address_def case_prod_unfold)

text \<open>
  Blacklisting an address and taking it off the list again leaves a rule behind that decides
  on the whole /32 network of the address: one address of IPv4, \<open>2 ^ 96\<close> of IPv6. A blocking
  filter goes on refusing them, and a filter that allows lets them in.
\<close>

theorem blacklist_leaves_rule:
  assumes "s_filter s = Some f" and "filter_reachable f" and "f_enabled f"
    and "\<forall>c\<in>set ip. \<not> is_space c" and "of_char CHR ''/'' \<notin> set ip" and "ip_address ip = Some a"
    and "ip_address other = Some b" and "other \<notin> s_blacklist s"
  shows "\<exists>t. add_to_blacklist ip s = Inr t \<and>
     (fst (check_address other (remove_from_blacklist ip t)) = None \<longleftrightarrow>
       (let near = (a_version b = a_version a \<and>
              a_int b div 2 ^ (max_prefixlen (a_version a) - 32) = a_int a div 2 ^ (max_prefixlen (a_version a) - 32))
        in if f_mode f = ALLOW then fst (check_address other s) = None \<or> near
           else fst (check_address other s) = None \<and> \<not> near))"
proof -
  note ok = filter_reachable_ok [OF assms(2)] and p = blacklist_rule [OF assms(4-6)]
  obtain done_ok g where g: "add_rule (ip @ lit ''/32'') (Some BLOCK) 0 (lit ''blacklist'') f = Inr (done_ok, g)"
    unfolding add_rule_def p by (simp add: Let_def)
  have gok: "filter_ok g" using ok g by (rule filter_ok_add_rule)
  from add_rule_InrD [OF g] p obtain rule where rule: "r_network rule = network_of a 32" "f_rules g = f_rules f @ [rule]"
      "f_mode g = f_mode f" "f_enabled g = f_enabled f"
    by (auto split: if_splits)
  define t where "t = s\<lparr>s_blacklist := insert ip (s_blacklist s), s_blacklisted_peers := s_blacklisted_peers s + 1,
      s_filter := Some g\<rparr>"
  have t: "add_to_blacklist ip s = Inr t" using assms(1,3) g by (simp add: add_to_blacklist_def t_def Let_def)
  have now: "fst (check_address other (remove_from_blacklist ip t)) = None \<longleftrightarrow>
      (\<exists>r\<in>set (f_rules g). net_contains (r_network r) b) = (f_mode g = ALLOW)"
    using assms(3,7,8) gok rule by (intro check_address_iff) (auto simp: remove_from_blacklist_def t_def)
  have before: "fst (check_address other s) = None \<longleftrightarrow>
      (\<exists>r\<in>set (f_rules f). net_contains (r_network r) b) = (f_mode f = ALLOW)"
    using assms(1,3,7,8) ok by (intro check_address_iff)
  show ?thesis using t now before rule(1-3) network_of_contains [of a 32 b]
    by (cases "f_mode f") (auto simp: Let_def)
qed

section \<open>Witnesses\<close>

lemma replicate_7: "replicate 7 x = [x, x, x, x, x, x, x]"
  by (simp add: eval_nat_numeral)

lemma demo_addresses:
  "ip_address (lit ''10.0.0.1'') = Some \<lparr>a_version = V4, a_int = 167772161, a_scope = None\<rparr>"
  "ip_address (lit ''10.0.0.9'') = Some \<lparr>a_version = V4, a_int = 167772169, a_scope = None\<rparr>"
  "ip_address (lit ''::1'') = Some \<lparr>a_version = V6, a_int = 1, a_scope = None\<rparr>"
  "ip_address (lit ''::2'') = Some \<lparr>a_version = V6, a_int = 2, a_scope = None\<rparr>"
  by (simp_all add: ip_address_def parse_ipv4_def parse_octet_def dec_digit_def dec_value_def parse_ipv6_def
      parse_ipv6_int_def ipv6_parts_def ipv6_value_def parse_hextet_def hex_digit_def Let_def replicate_7)


lemma demo_filter:
  "\<exists>g. add_rule (lit ''10.0.0.1'') None 0 [] (ip_filter_init True BLOCK) = Inr (True, g) \<and> f_enabled g \<and>
     (\<exists>r. f_rules g = [r] \<and> r_network r = host_network \<lparr>a_version = V4, a_int = 167772161, a_scope = None\<rparr>)"
  by (simp add: add_rule_def parse_ip_range_def strip_def is_space_def Let_def demo_addresses [simplified] ip_filter_init_def
      del: host_network_def)

theorem filter_decision_witness:
  "\<exists>g. add_rule (lit ''10.0.0.1'') None 0 [] (ip_filter_init True BLOCK) = Inr (True, g) \<and>
     fst (is_blocked (lit ''10.0.0.1'') g) \<and> \<not> fst (is_blocked (lit ''10.0.0.9'') g)"
proof -
  obtain g r where g: "add_rule (lit ''10.0.0.1'') None 0 [] (ip_filter_init True BLOCK) = Inr (True, g)" "f_enabled g"
      "f_rules g = [r]" "r_network r = host_network \<lparr>a_version = V4, a_int = 167772161, a_scope = None\<rparr>"
    using demo_filter by blast
  have reach: "filter_reachable g" using filter_reachable.init g(1) by (rule filter_reachable.add)
  have mode: "f_mode g = BLOCK" using add_rule_InrD [OF g(1)] by (auto simp: ip_filter_init_def split: if_splits)
  show ?thesis using g(1) mode g(3,4) filter_decision [OF reach g(2) demo_addresses(1)]
      filter_decision [OF reach g(2) demo_addresses(2)] by (simp add: host_network_contains)
qed

theorem range_rule_first_block_witness:
  "\<exists>n. parse_ip_range (lit ''10.0.0.1-10.0.0.9'') = Inr (n, True) \<and>
     \<not> (\<forall>x. net_contains n x \<longleftrightarrow> a_version x = V4 \<and> 167772161 \<le> a_int x \<and> a_int x \<le> 167772169)"
proof -
  have "\<not> (2 :: nat) ^ k = 9" for k
    by (cases k) (auto dest: arg_cong [where f = even])
  moreover have "strip (lit ''10.0.0.1-10.0.0.9'') = lit ''10.0.0.1'' @ lit ''-'' @ lit ''10.0.0.9''"
    "strip (lit ''10.0.0.1'') = lit ''10.0.0.1''" "strip (lit ''10.0.0.9'') = lit ''10.0.0.9''"
    by (simp_all add: strip_def is_space_def)
  ultimately have "\<exists>n. parse_ip_range (lit ''10.0.0.1-10.0.0.9'') = Inr (n, True) \<and>
      ((\<forall>x. net_contains n x \<longleftrightarrow> a_version x = V4 \<and> 167772161 \<le> a_int x \<and> a_int x \<le> 167772169) \<longleftrightarrow> False)"
    using range_rule_first_block [of "lit ''10.0.0.1-10.0.0.9''" "lit ''10.0.0.1''" "lit ''10.0.0.9''"
        "\<lparr>a_version = V4, a_int = 167772161, a_scope = None\<rparr>" "\<lparr>a_version = V4, a_int = 167772169, a_scope = None\<rparr>"]
      demo_addresses by simp
  then show ?thesis by blast
qed

theorem peerguardian_line_blocks_one_witness:
  "\<exists>g rule. parse_and_add_line (lit ''10.0.0.1 - 10.0.0.9'') None [] (ip_filter_init True BLOCK) = Inr (True, g) \<and>
     f_rules g = [rule] \<and> \<not> net_contains (r_network rule) \<lparr>a_version = V4, a_int = 167772169, a_scope = None\<rparr>"
proof -
  have "strip (lit ''10.0.0.1 - 10.0.0.9'') = lit ''10.0.0.1'' @ lit '' - '' @ lit ''10.0.0.9''"
    by (simp add: strip_def is_space_def)
  moreover have "\<forall>c\<in>set (lit ''10.0.0.1''). \<not> is_space c" by (simp add: is_space_def)
  ultimately obtain g rule where
      "parse_and_add_line (lit ''10.0.0.1 - 10.0.0.9'') None [] (ip_filter_init True BLOCK) = Inr (True, g)"
      "f_rules g = f_rules (ip_filter_init True BLOCK) @ [rule]"
      "\<forall>x. net_contains (r_network rule) x \<longleftrightarrow> a_version x = V4 \<and> a_int x = 167772161"
    using peerguardian_line_blocks_one [OF _ _ _ _ _ _ demo_addresses(1), of "lit ''10.0.0.1 - 10.0.0.9''" "lit ''10.0.0.9''"]
    by fastforce
  then show ?thesis by (auto simp: ip_filter_init_def)
qed

theorem mixed_range_ends_loading_witness:
  "load_from_file (Some ([lit ''10.0.0.1-::1'', lit ''10.0.0.9''], False)) [] None (Some []) (ip_filter_init True BLOCK)
     = ((0, 1), ip_filter_init True BLOCK)"
proof -
  have "strip (lit ''10.0.0.1-::1'') = lit ''10.0.0.1'' @ lit ''-'' @ lit ''::1''" by (simp add: strip_def is_space_def)
  moreover have "\<forall>c\<in>set (lit ''10.0.0.1'' @ lit ''::1''). \<not> is_space c" by (simp add: is_space_def)
  ultimately show ?thesis
    using mixed_range_ends_loading [of None "[]" "[]" "ip_filter_init True BLOCK" 0 0 "ip_filter_init True BLOCK"
        "lit ''10.0.0.1-::1''" "lit ''10.0.0.1''" "lit ''::1''" _ _ "[lit ''10.0.0.9'']" False "[]"] demo_addresses
    by simp
qed

theorem blacklist_leaves_rule_witness:
  "\<exists>t. add_to_blacklist (lit ''::1'') \<lparr>s_blacklist = {}, s_whitelist = {}, s_filter = Some (ip_filter_init True ALLOW),
       s_blacklisted_peers = 0, s_whitelisted_peers = 0\<rparr> = Inr t \<and>
     fst (check_address (lit ''::2'') (remove_from_blacklist (lit ''::1'') t)) = None"
proof -
  have "\<forall>c\<in>set (lit ''::1''). \<not> is_space c" by (simp add: is_space_def)
  then show ?thesis
    using blacklist_leaves_rule [OF _ filter_reachable.init [of True ALLOW] _ _ _ demo_addresses(3,4), of
        "\<lparr>s_blacklist = {}, s_whitelist = {}, s_filter = Some (ip_filter_init True ALLOW),
          s_blacklisted_peers = 0, s_whitelisted_peers = 0\<rparr>"]
    by (simp add: ip_filter_init_def Let_def)
qed

end
