(* ===== verification/Dht_Routing.thy ===== *)
theory Dht_Routing
  imports Ccbt_Prelude
begin

text \<open>
  The Kademlia routing table of \<open>ccbt/discovery/dht.py\<close>. A node object is shared by its bucket, by
  the dictionary \<open>nodes\<close> and by the lists handed out, and its fields are assigned in place; so
  buckets and dictionary hold addresses into the list \<open>t_objs\<close> of all node objects.
\<close>

unbundle bit_operations_syntax

section \<open>State\<close>

record dht_node =
  d_node_id :: bytes
  d_ip :: pystr
  d_port :: int
  d_last_seen :: int
  d_is_good :: bool
  d_failed_queries :: nat
  d_successful_queries :: nat

record routing_table =
  t_node_id :: bytes
  t_k :: nat
  t_buckets :: "nat list list"
  t_nodes :: "(bytes \<times> nat) list"
  t_objs :: "dht_node list"

definition routing_table_init :: "bytes \<Rightarrow> nat \<Rightarrow> routing_table" where
  "routing_table_init node_id k =
     \<lparr>t_node_id = node_id, t_k = k, t_buckets = replicate 160 [], t_nodes = [], t_objs = []\<rparr>"

text \<open>\<open>DHTNode(node_id, ip, port)\<close>.\<close>

definition new_node :: "int \<Rightarrow> bytes \<Rightarrow> pystr \<Rightarrow> int \<Rightarrow> dht_node" where
  "new_node now node_id ip port =
     \<lparr>d_node_id = node_id, d_ip = ip, d_port = port, d_last_seen = now, d_is_good = True,
      d_failed_queries = 0, d_successful_queries = 0\<rparr>"

definition node_eq :: "dht_node \<Rightarrow> dht_node \<Rightarrow> bool" where
  "node_eq a b \<longleftrightarrow> d_node_id a = d_node_id b \<and> d_ip a = d_ip b \<and> d_port a = d_port b"

section \<open>Distance\<close>

text \<open>The loop of \<open>_distance\<close> over the bytes, which stops at the first difference.\<close>

fun distance_loop :: "bytes \<Rightarrow> bytes \<Rightarrow> nat" where
  "distance_loop (a # as) (b # bs) =
     (let x = a XOR b
      in if x = 0 then 8 + distance_loop as bs else 8 - (bit_length (unat x) - 1))"
| "distance_loop _ _ = 0"

definition distance :: "bytes \<Rightarrow> bytes \<Rightarrow> nat" where
  "distance node_id1 node_id2 =
     (if length node_id1 \<noteq> length node_id2 then 0 else distance_loop node_id1 node_id2)"

definition bucket_index :: "bytes \<Rightarrow> routing_table \<Rightarrow> nat" where
  "bucket_index node_id t = min (distance (t_node_id t) node_id) 159"

section \<open>Operations\<close>

definition update_node :: "nat \<Rightarrow> (dht_node \<Rightarrow> dht_node) \<Rightarrow> routing_table \<Rightarrow> routing_table" where
  "update_node r f t = t\<lparr>t_objs := (t_objs t)[r := f (t_objs t ! r)]\<rparr>"

text \<open>The place of the first bad node of a bucket.\<close>

fun first_bad :: "dht_node list \<Rightarrow> nat list \<Rightarrow> nat option" where
  "first_bad objs [] = None"
| "first_bad objs (r # rs) = (if \<not> d_is_good (objs ! r) then Some 0 else map_option Suc (first_bad objs rs))"

definition add_node :: "dht_node \<Rightarrow> routing_table \<Rightarrow> bool \<times> routing_table" where
  "add_node node t =
     (if d_node_id node = t_node_id t then (False, t)
      else let i = bucket_index (d_node_id node) t; bucket = t_buckets t ! i; new = length (t_objs t);
               enter = (\<lambda>bucket. t\<lparr>t_objs := t_objs t @ [node], t_buckets := (t_buckets t)[i := bucket],
                                   t_nodes := AList.update (d_node_id node) new (t_nodes t)\<rparr>)
           in case map_of (t_nodes t) (d_node_id node) of
                Some r \<Rightarrow> (True, update_node r (\<lambda>n. n\<lparr>d_ip := d_ip node, d_port := d_port node,
                                    d_last_seen := d_last_seen node, d_is_good := d_is_good node\<rparr>) t)
              | None \<Rightarrow>
                  if length bucket < t_k t then (True, enter (bucket @ [new]))
                  else (case first_bad (t_objs t) bucket of
                     Some j \<Rightarrow> (True, enter (bucket[j := new]))
                   | None \<Rightarrow> (False, t)))"

text \<open>The result lists the node objects; \<open>list.sort\<close> is stable.\<close>

definition get_closest_nodes :: "bytes \<Rightarrow> nat \<Rightarrow> routing_table \<Rightarrow> nat list" where
  "get_closest_nodes target_id count t =
     take count (sort_key (\<lambda>r. distance (d_node_id (t_objs t ! r)) target_id) (map snd (t_nodes t)))"

text \<open>\<open>bucket.remove(node)\<close>: the first object equal to the node.\<close>

fun remove_equal :: "dht_node list \<Rightarrow> dht_node \<Rightarrow> nat list \<Rightarrow> nat list" where
  "remove_equal objs node [] = []"
| "remove_equal objs node (r # rs) = (if node_eq (objs ! r) node then rs else r # remove_equal objs node rs)"

definition remove_node :: "bytes \<Rightarrow> routing_table \<Rightarrow> routing_table" where
  "remove_node node_id t =
     (case map_of (t_nodes t) node_id of
        None \<Rightarrow> t
      | Some r \<Rightarrow>
          let i = bucket_index node_id t
          in t\<lparr>t_buckets := (t_buckets t)[i := remove_equal (t_objs t) (t_objs t ! r) (t_buckets t ! i)],
               t_nodes := AList.delete node_id (t_nodes t)\<rparr>)"

definition mark_node_bad :: "bytes \<Rightarrow> routing_table \<Rightarrow> routing_table" where
  "mark_node_bad node_id t =
     (case map_of (t_nodes t) node_id of
        None \<Rightarrow> t
      | Some r \<Rightarrow> update_node r (\<lambda>n. n\<lparr>d_is_good := False, d_failed_queries := d_failed_queries n + 1\<rparr>) t)"

definition mark_node_good :: "bytes \<Rightarrow> routing_table \<Rightarrow> routing_table" where
  "mark_node_good node_id t =
     (case map_of (t_nodes t) node_id of
        None \<Rightarrow> t
      | Some r \<Rightarrow> update_node r (\<lambda>n. n\<lparr>d_is_good := True, d_successful_queries := d_successful_queries n + 1\<rparr>) t)"

text \<open>\<open>get_stats\<close>: all nodes, good nodes, and the sizes of the buckets that are not empty.\<close>

definition table_stats :: "routing_table \<Rightarrow> nat \<times> nat \<times> nat \<times> nat list" where
  "table_stats t =
     (let used = filter (\<lambda>b. b \<noteq> []) (t_buckets t)
      in (length (t_nodes t), length (filter (\<lambda>(_, r). d_is_good (t_objs t ! r)) (t_nodes t)), length used, map length used))"

text \<open>The end of \<open>_cleanup_old_data\<close> of the client: nodes that failed three times are removed.\<close>

definition remove_bad_nodes :: "routing_table \<Rightarrow> routing_table" where
  "remove_bad_nodes t =
     fold remove_node
       (map fst (filter (\<lambda>(_, r). \<not> d_is_good (t_objs t ! r) \<and> d_failed_queries (t_objs t ! r) \<ge> 3) (t_nodes t))) t"

section \<open>What the distance measures\<close>

text \<open>The length of the common prefix of two identifiers, in bits.\<close>

fun common_bits :: "bytes \<Rightarrow> bytes \<Rightarrow> nat" where
  "common_bits (a # as) (b # bs) = (if a = b then 8 + common_bits as bs else 8 - bit_length (unat (a XOR b)))"
| "common_bits _ _ = 0"

text \<open>The metric of Kademlia: the exclusive or, read as a number.\<close>

definition xor_metric :: "bytes \<Rightarrow> bytes \<Rightarrow> nat" where
  "xor_metric as bs = be_nat (map2 (XOR) as bs)"

lemma xor_eq_0: "(a :: byte) XOR b = 0 \<longleftrightarrow> a = b"
proof
  assume "a XOR b = 0"
  then have "(a XOR b) XOR b = 0 XOR b" by simp
  then show "a = b" by (simp add: xor.assoc)
qed simp

lemma byte_bit_length: "x \<noteq> 0 \<Longrightarrow> 0 < bit_length (unat (x :: byte)) \<and> bit_length (unat x) \<le> 8"
proof -
  assume "x \<noteq> 0"
  then have pos: "0 < unat x" by (simp add: unat_gt_0)
  from bit_length_bounds [OF pos] have le: "2 ^ (bit_length (unat x) - 1) \<le> unat x" by blast
  have "unat x < 2 ^ 8" using unat_byte_bound [of x] by simp
  with le have "(2 :: nat) ^ (bit_length (unat x) - 1) < 2 ^ 8" by (rule order_le_less_trans)
  then have "bit_length (unat x) - 1 < 8" by (rule power_less_imp_less_exp [rotated]) simp
  moreover have "0 < bit_length (unat x)" using pos by (simp add: bit_length.simps [of "unat x"])
  ultimately show ?thesis by linarith
qed

lemma distance_common_bits:
  "length as = length bs \<Longrightarrow> distance as bs = (if as = bs then common_bits as bs else common_bits as bs + 1)"
proof -
  have "length as = length bs \<Longrightarrow> distance_loop as bs = (if as = bs then common_bits as bs else common_bits as bs + 1)"
  proof (induction as bs rule: distance_loop.induct)
    case (1 a as b bs)
    show ?case
    proof (cases "a = b")
      case False
      then have "a XOR b \<noteq> 0" by (simp add: xor_eq_0)
      then show ?thesis using False byte_bit_length [of "a XOR b"] by (simp add: Let_def) linarith
    qed (use 1 in \<open>simp add: Let_def\<close>)
  qed auto
  then show "length as = length bs \<Longrightarrow> distance as bs = (if as = bs then common_bits as bs else common_bits as bs + 1)"
    by (simp add: distance_def)
qed

lemma common_bits_self: "common_bits as as = 8 * length as"
  by (induction as) auto

lemma be_nat_Cons: "be_nat (b # bs) = unat b * 256 ^ length bs + be_nat bs"
proof (induction bs rule: rev_induct)
  case (snoc x xs)
  then show ?case using be_nat_snoc [of "b # xs" x] by (simp add: algebra_simps)
qed simp

lemma xor_metric_bounds:
  "length as = length bs \<Longrightarrow> as \<noteq> bs \<Longrightarrow>
     common_bits as bs < 8 * length as \<and> 2 ^ (8 * length as - 1 - common_bits as bs) \<le> xor_metric as bs \<and>
     xor_metric as bs < 2 ^ (8 * length as - common_bits as bs)"
proof (induction as bs rule: common_bits.induct)
  case (1 a as b bs)
  have len: "length (map2 (XOR) as bs) = length as" using 1(2) by simp
  have pow: "(256 :: nat) ^ length as = 2 ^ (8 * length as)" by (simp add: power_mult)
  show ?case
  proof (cases "a = b")
    case True
    then have "xor_metric (a # as) (b # bs) = xor_metric as bs" by (simp add: xor_metric_def be_nat_Cons)
    then show ?thesis using 1 True by (simp add: algebra_simps)
  next
    case False
    let ?x = "unat (a XOR b)" and ?l = "bit_length (unat (a XOR b))"
    have x: "a XOR b \<noteq> 0" using False by (simp add: xor_eq_0)
    note l = byte_bit_length [OF x]
    have xb: "2 ^ (?l - 1) \<le> ?x" "?x < 2 ^ ?l" using bit_length_bounds [of ?x] x by (simp_all add: unat_gt_0)
    have v: "xor_metric (a # as) (b # bs) = ?x * 2 ^ (8 * length as) + xor_metric as bs"
      using 1(2) pow by (simp add: xor_metric_def be_nat_Cons)
    have small: "xor_metric as bs < 2 ^ (8 * length as)"
      using be_nat_bound [of "map2 (XOR) as bs"] 1(2) pow by (simp add: xor_metric_def)
    have "2 ^ (?l - 1) * 2 ^ (8 * length as) \<le> ?x * 2 ^ (8 * length as)" using xb(1) by simp
    then have lo: "2 ^ (?l - 1 + 8 * length as) \<le> xor_metric (a # as) (b # bs)" unfolding v power_add by linarith
    have "?x * 2 ^ (8 * length as) + xor_metric as bs < (?x + 1) * 2 ^ (8 * length as)" using small by simp
    also have "\<dots> \<le> 2 ^ ?l * 2 ^ (8 * length as)" using xb(2) by (intro mult_right_mono) auto
    finally have hi: "xor_metric (a # as) (b # bs) < 2 ^ (?l + 8 * length as)" using v by (simp add: power_add)
    have c: "common_bits (a # as) (b # bs) = 8 - ?l" using False by simp
    have e: "8 * length (a # as) - 1 - (8 - ?l) = ?l - 1 + 8 * length as" "8 * length (a # as) - (8 - ?l) = ?l + 8 * length as"
      using l by simp_all
    have "8 - ?l < 8" using l by (intro diff_less) simp_all
    also have "8 \<le> 8 * length (a # as)" by simp
    finally have "8 - ?l < 8 * length (a # as)" .
    then show ?thesis using lo hi by (simp only: c e simp_thms)
  qed
qed auto

lemma xor_metric_self: "xor_metric as as = 0"
proof -
  have "map2 (XOR) as as = replicate (length as) 0" by (induction as) auto
  moreover have "be_nat (replicate n 0) = 0" for n by (induction n) (simp_all add: be_nat_Cons)
  ultimately show ?thesis by (simp add: xor_metric_def)
qed

lemma distance_antitone:
  assumes "length as = length ts" and "length bs = length ts" and "distance as ts < distance bs ts"
  shows "xor_metric bs ts < xor_metric as ts"
proof -
  have a: "as \<noteq> ts"
  proof
    assume "as = ts"
    then have "8 * length ts < distance bs ts" using assms(3) by (simp add: distance_common_bits common_bits_self)
    then show False using assms(2) xor_metric_bounds [OF assms(2)]
      by (cases "bs = ts") (auto simp: distance_common_bits common_bits_self)
  qed
  note ma = xor_metric_bounds [OF assms(1) a]
  then have da: "distance as ts = common_bits as ts + 1" using a assms(1) by (simp add: distance_common_bits)
  show ?thesis
  proof (cases "bs = ts")
    case True
    have "0 < (2 :: nat) ^ (8 * length as - 1 - common_bits as ts)" by simp
    then show ?thesis using True ma xor_metric_self by (metis less_le_trans)
  next
    case False
    note mb = xor_metric_bounds [OF assms(2) False]
    have "common_bits as ts < common_bits bs ts" using assms False da by (simp add: distance_common_bits)
    then have "8 * length bs - common_bits bs ts \<le> 8 * length as - 1 - common_bits as ts"
      using assms(1,2) by simp
    then have "(2 :: nat) ^ (8 * length bs - common_bits bs ts) \<le> 2 ^ (8 * length as - 1 - common_bits as ts)"
      by (intro power_increasing) simp_all
    then show ?thesis using ma mb by linarith
  qed
qed

section \<open>The nodes handed out as closest\<close>

lemma sorted_take_drop:
  assumes "sorted (map f xs)" and "x \<in> set (take n xs)" and "y \<in> set (drop n xs)"
  shows "f x \<le> (f y :: nat)"
proof -
  have "sorted (map f (take n xs) @ map f (drop n xs))" using assms(1) by (metis append_take_drop_id map_append)
  then show ?thesis using assms(2,3) by (auto simp: sorted_append)
qed

text \<open>
  C33: \<open>get_closest_nodes\<close> returns the nodes that share the shortest prefixes with the target: of two
  nodes whose common prefixes with the target differ, the one left out is always nearer to the
  target in the metric of Kademlia.
\<close>

theorem closest_nodes_are_farthest:
  assumes "r \<in> set (get_closest_nodes target n t)" and "s \<in> snd ` set (t_nodes t)"
    and "s \<notin> set (get_closest_nodes target n t)"
    and "length (d_node_id (t_objs t ! r)) = length target" and "length (d_node_id (t_objs t ! s)) = length target"
    and "distance (d_node_id (t_objs t ! r)) target \<noteq> distance (d_node_id (t_objs t ! s)) target"
  shows "xor_metric (d_node_id (t_objs t ! s)) target < xor_metric (d_node_id (t_objs t ! r)) target"
proof -
  let ?d = "\<lambda>r. distance (d_node_id (t_objs t ! r)) target"
  let ?all = "sort_key ?d (map snd (t_nodes t))"
  have "s \<in> set (take n ?all @ drop n ?all)" using assms(2) by simp
  then have "s \<in> set (drop n ?all)" using assms(3) unfolding get_closest_nodes_def set_append by blast
  then have "?d r \<le> ?d s" using assms(1) by (intro sorted_take_drop [of ?d ?all]) (simp_all add: get_closest_nodes_def)
  then show ?thesis using assms(4-6) by (intro distance_antitone) simp_all
qed

section \<open>The table between operations\<close>

definition table_ok :: "routing_table \<Rightarrow> bool" where
  "table_ok t \<longleftrightarrow>
     length (t_buckets t) = 160 \<and> distinct (map fst (t_nodes t)) \<and>
     (\<forall>(i, r)\<in>set (t_nodes t). r < length (t_objs t) \<and> d_node_id (t_objs t ! r) = i \<and> i \<noteq> t_node_id t) \<and>
     (\<forall>b\<in>set (t_buckets t). length b \<le> t_k t \<and> distinct b) \<and>
     (\<forall>i<160. \<forall>r\<in>set (t_buckets t ! i).
        (d_node_id (t_objs t ! r), r) \<in> set (t_nodes t) \<and> bucket_index (d_node_id (t_objs t ! r)) t = i)"

lemma table_ok_init [simp]: "table_ok (routing_table_init i k)"
  by (auto simp: table_ok_def routing_table_init_def)

lemma table_okD:
  assumes "table_ok t"
  shows "length (t_buckets t) = 160" and "distinct (map fst (t_nodes t))"
    and "(i, r) \<in> set (t_nodes t) \<Longrightarrow> r < length (t_objs t) \<and> d_node_id (t_objs t ! r) = i \<and> i \<noteq> t_node_id t"
    and "j < 160 \<Longrightarrow> length (t_buckets t ! j) \<le> t_k t \<and> distinct (t_buckets t ! j)"
    and "j < 160 \<Longrightarrow> r \<in> set (t_buckets t ! j) \<Longrightarrow>
       (d_node_id (t_objs t ! r), r) \<in> set (t_nodes t) \<and> bucket_index (d_node_id (t_objs t ! r)) t = j"
  using assms by (auto simp: table_ok_def)

lemma table_okI:
  assumes "length (t_buckets t) = 160" and "distinct (map fst (t_nodes t))"
    and "\<And>i r. (i, r) \<in> set (t_nodes t) \<Longrightarrow> r < length (t_objs t) \<and> d_node_id (t_objs t ! r) = i \<and> i \<noteq> t_node_id t"
    and "\<And>j. j < 160 \<Longrightarrow> length (t_buckets t ! j) \<le> t_k t \<and> distinct (t_buckets t ! j)"
    and "\<And>j r. j < 160 \<Longrightarrow> r \<in> set (t_buckets t ! j) \<Longrightarrow>
       (d_node_id (t_objs t ! r), r) \<in> set (t_nodes t) \<and> bucket_index (d_node_id (t_objs t ! r)) t = j"
  shows "table_ok t"
proof -
  have "\<forall>b\<in>set (t_buckets t). length b \<le> t_k t \<and> distinct b"
    using assms(1,4) by (metis in_set_conv_nth)
  then show ?thesis using assms(1,2,3,5) unfolding table_ok_def by blast
qed

lemma bucket_index_bound: "bucket_index i t < 160"
  by (simp add: bucket_index_def)

lemma bucket_index_cong: "t_node_id t' = t_node_id t \<Longrightarrow> bucket_index i t' = bucket_index i t"
  by (simp add: bucket_index_def)

lemma update_node_same [simp]:
  "t_node_id (update_node r f t) = t_node_id t" "t_k (update_node r f t) = t_k t"
  "t_buckets (update_node r f t) = t_buckets t" "t_nodes (update_node r f t) = t_nodes t"
  "length (t_objs (update_node r f t)) = length (t_objs t)"
  by (simp_all add: update_node_def)

lemma update_node_id:
  "(\<And>n. d_node_id (f n) = d_node_id n) \<Longrightarrow> d_node_id (t_objs (update_node r f t) ! s) = d_node_id (t_objs t ! s)"
  by (cases "r < length (t_objs t)"; cases "r = s") (simp_all add: update_node_def list_update_beyond)

lemma update_node_ok:
  assumes "\<And>n. d_node_id (f n) = d_node_id n" and "table_ok t"
  shows "table_ok (update_node r f t)"
  by (rule table_okI)
    (simp_all add: update_node_id [OF assms(1)] bucket_index_cong [of "update_node r f t" t] table_okD [OF assms(2)])

lemma mark_node_ok: "table_ok t \<Longrightarrow> table_ok (mark_node_bad i t)" "table_ok t \<Longrightarrow> table_ok (mark_node_good i t)"
  by (auto simp: mark_node_bad_def mark_node_good_def split: option.splits intro: update_node_ok)

lemma remove_equal_subset: "set (remove_equal objs n rs) \<subseteq> set rs" "length (remove_equal objs n rs) \<le> length rs"
  by (induction rs) auto

lemma remove_equal_distinct: "distinct rs \<Longrightarrow> distinct (remove_equal objs n rs)"
  using remove_equal_subset(1) [of objs n] by (induction rs) (simp_all, blast)

lemma remove_equal_gone:
  assumes "distinct rs" and "\<And>s. s \<in> set rs \<Longrightarrow> node_eq (objs ! s) n \<Longrightarrow> s = r" and "node_eq (objs ! r) n"
  shows "r \<notin> set (remove_equal objs n rs)"
  using assms(1,2)
proof (induction rs)
  case (Cons s rs)
  then show ?case using assms(3) by (cases "node_eq (objs ! s) n") auto
qed simp

lemma first_bad_SomeD: "first_bad objs rs = Some j \<Longrightarrow> j < length rs \<and> \<not> d_is_good (objs ! (rs ! j))"
  by (induction rs arbitrary: j) (auto split: if_splits)

text \<open>A new object enters the table in a bucket and in the dictionary.\<close>

lemma enter_ok:
  assumes ok: "table_ok t" and new: "map_of (t_nodes t) (d_node_id node) = None" and own: "d_node_id node \<noteq> t_node_id t"
    and b: "length b \<le> t_k t" "distinct b"
      "set b \<subseteq> insert (length (t_objs t)) (set (t_buckets t ! bucket_index (d_node_id node) t))"
  shows "table_ok (t\<lparr>t_objs := t_objs t @ [node], t_buckets := (t_buckets t)[bucket_index (d_node_id node) t := b],
     t_nodes := AList.update (d_node_id node) (length (t_objs t)) (t_nodes t)\<rparr>)" (is "table_ok ?t")
proof (rule table_okI)
  let ?i = "bucket_index (d_node_id node) t" and ?r = "length (t_objs t)"
  note okD = table_okD [OF ok]
  have nodes: "t_nodes ?t = t_nodes t @ [(d_node_id node, ?r)]" using new by (simp add: update_fresh map_of_eq_None_iff)
  have old: "t_objs ?t ! r = t_objs t ! r" if "(i, r) \<in> set (t_nodes t)" for i r
    using okD(3) [OF that] by (simp add: nth_append)
  show "length (t_buckets ?t) = 160" using okD(1) by simp
  show "distinct (map fst (t_nodes ?t))" using okD(2) new unfolding nodes by (auto simp: map_of_eq_None_iff)
  show "r < length (t_objs ?t) \<and> d_node_id (t_objs ?t ! r) = i \<and> i \<noteq> t_node_id ?t" if "(i, r) \<in> set (t_nodes ?t)" for i r
    using that old [of i r] okD(3) [of i r] own unfolding nodes by auto
  have i: "?i < 160" by (rule bucket_index_bound)
  show "length (t_buckets ?t ! j) \<le> t_k ?t \<and> distinct (t_buckets ?t ! j)" if "j < 160" for j
    using that okD(1,4) b by (cases "j = ?i") auto
  show "(d_node_id (t_objs ?t ! r), r) \<in> set (t_nodes ?t) \<and> bucket_index (d_node_id (t_objs ?t ! r)) ?t = j"
    if "j < 160" "r \<in> set (t_buckets ?t ! j)" for j r
  proof (cases "r \<in> set (t_buckets t ! j)")
    case True
    from okD(5) [OF that(1) this] have m: "(d_node_id (t_objs t ! r), r) \<in> set (t_nodes t)" "bucket_index (d_node_id (t_objs t ! r)) t = j"
      by simp_all
    show ?thesis using m old [OF m(1)] unfolding nodes by (simp add: bucket_index_def)
  next
    case False
    with that b(3) okD(1) i have "j = ?i" "r = ?r" by (cases "j = ?i"; auto)+
    then show ?thesis unfolding nodes by (simp add: bucket_index_def)
  qed
qed

lemma bucket_refs_old: "table_ok t \<Longrightarrow> j < 160 \<Longrightarrow> length (t_objs t) \<notin> set (t_buckets t ! j)"
  using table_okD(3,5) by fastforce

lemma add_node_ok:
  assumes ok: "table_ok t"
  shows "table_ok (snd (add_node node t))"
proof -
  let ?i = "bucket_index (d_node_id node) t" and ?r = "length (t_objs t)"
  have fresh: "?r \<notin> set (t_buckets t ! ?i)" using ok bucket_index_bound by (rule bucket_refs_old)
  have b: "length (t_buckets t ! ?i) \<le> t_k t" "distinct (t_buckets t ! ?i)"
    using table_okD(4) [OF ok bucket_index_bound] by blast+
  show ?thesis
  proof (cases "map_of (t_nodes t) (d_node_id node)")
    case (Some r)
    then show ?thesis using ok by (auto simp: add_node_def Let_def intro: update_node_ok)
  next
    case None
    have app: "table_ok (t\<lparr>t_objs := t_objs t @ [node], t_buckets := (t_buckets t)[?i := t_buckets t ! ?i @ [?r]],
        t_nodes := AList.update (d_node_id node) ?r (t_nodes t)\<rparr>)"
      if "d_node_id node \<noteq> t_node_id t" "length (t_buckets t ! ?i) < t_k t"
      using that b fresh by (intro enter_ok [OF ok None]) auto
    have put: "table_ok (t\<lparr>t_objs := t_objs t @ [node], t_buckets := (t_buckets t)[?i := (t_buckets t ! ?i)[j := ?r]],
        t_nodes := AList.update (d_node_id node) ?r (t_nodes t)\<rparr>)" if "d_node_id node \<noteq> t_node_id t" for j
      using that b fresh by (intro enter_ok [OF ok None]) (simp_all add: set_update_subset_insert distinct_list_update)
    show ?thesis using None app put ok by (auto simp: add_node_def Let_def split: option.split)
  qed
qed

lemma in_alist_delete: "(i, r) \<in> set (AList.delete k xs) \<longleftrightarrow> (i, r) \<in> set xs \<and> i \<noteq> k"
  by (auto simp: AList.delete_eq)

lemma remove_node_ok:
  assumes ok: "table_ok t"
  shows "table_ok (remove_node i t)"
proof (cases "map_of (t_nodes t) i")
  case None
  then show ?thesis using ok by (simp add: remove_node_def)
next
  case (Some r)
  let ?j = "bucket_index i t" and ?n = "t_objs t ! r"
  let ?b = "remove_equal (t_objs t) ?n (t_buckets t ! ?j)"
  let ?t = "t\<lparr>t_buckets := (t_buckets t)[?j := ?b], t_nodes := AList.delete i (t_nodes t)\<rparr>"
  note okD = table_okD [OF ok]
  have ir: "(i, r) \<in> set (t_nodes t)" using Some by (rule map_of_SomeD)
  have n: "d_node_id ?n = i" using okD(3) [OF ir] by simp
  have unique: "s = r" if "s \<in> set (t_buckets t ! j)" "j < 160" "d_node_id (t_objs t ! s) = i" for s j
  proof -
    have "(i, s) \<in> set (t_nodes t)" using okD(5) [OF that(2,1)] that(3) by simp
    then show ?thesis using okD(2) Some by (simp add: map_of_eq_Some_iff)
  qed
  have gone: "r \<notin> set ?b"
    using unique [OF _ bucket_index_bound] okD(4) [OF bucket_index_bound]
    by (intro remove_equal_gone) (auto simp: node_eq_def n)
  have "table_ok ?t"
  proof (rule table_okI)
    show "length (t_buckets ?t) = 160" using okD(1) by simp
    show "distinct (map fst (t_nodes ?t))" using okD(2) by (simp add: AList.distinct_delete)
    show "s < length (t_objs ?t) \<and> d_node_id (t_objs ?t ! s) = k \<and> k \<noteq> t_node_id ?t" if "(k, s) \<in> set (t_nodes ?t)" for k s
      using that okD(3) [of k s] by (simp add: in_alist_delete)
    show "length (t_buckets ?t ! j) \<le> t_k ?t \<and> distinct (t_buckets ?t ! j)" if "j < 160" for j
      using okD(4) [OF that] okD(1) that remove_equal_subset(2) [of "t_objs t" ?n "t_buckets t ! ?j"]
      by (cases "j = ?j") (auto intro: remove_equal_distinct)
    show "(d_node_id (t_objs ?t ! s), s) \<in> set (t_nodes ?t) \<and> bucket_index (d_node_id (t_objs ?t ! s)) ?t = j"
      if "j < 160" "s \<in> set (t_buckets ?t ! j)" for j s
    proof -
      have s: "s \<in> set (t_buckets t ! j)"
        using that okD(1) remove_equal_subset(1) [of "t_objs t" ?n "t_buckets t ! ?j"] by (cases "j = ?j") auto
      from okD(5) [OF that(1) s] have m: "(d_node_id (t_objs t ! s), s) \<in> set (t_nodes t)" "bucket_index (d_node_id (t_objs t ! s)) t = j"
        by simp_all
      have "d_node_id (t_objs t ! s) \<noteq> i"
      proof
        assume e: "d_node_id (t_objs t ! s) = i"
        then have "s = r" "j = ?j" using unique [OF s that(1)] m(2) by simp_all
        then show False using gone that okD(1) by simp
      qed
      then show ?thesis using m by (simp add: in_alist_delete bucket_index_def)
    qed
  qed
  then show ?thesis using Some by (simp add: remove_node_def Let_def)
qed

lemma remove_bad_nodes_ok: "table_ok t \<Longrightarrow> table_ok (remove_bad_nodes t)"
proof -
  have "table_ok t \<Longrightarrow> table_ok (fold remove_node xs t)" for xs t
    by (induction xs arbitrary: t) (simp_all add: remove_node_ok)
  then show "table_ok t \<Longrightarrow> table_ok (remove_bad_nodes t)" by (simp add: remove_bad_nodes_def)
qed

text \<open>Every operation as a step of the interface \<open>operations\<close>.\<close>

datatype table_op = AddNode dht_node | RemoveNode bytes | MarkBad bytes | MarkGood bytes | RemoveBad

fun apply_op :: "table_op \<Rightarrow> routing_table \<Rightarrow> routing_table" where
  "apply_op (AddNode n) t = snd (add_node n t)"
| "apply_op (RemoveNode i) t = remove_node i t"
| "apply_op (MarkBad i) t = mark_node_bad i t"
| "apply_op (MarkGood i) t = mark_node_good i t"
| "apply_op RemoveBad t = remove_bad_nodes t"

interpretation routing: operations apply_op table_ok
proof
  show "table_ok (apply_op op t)" if "table_ok t" for op t
    using that by (cases op) (simp_all add: add_node_ok remove_node_ok mark_node_ok remove_bad_nodes_ok)
qed

inductive table_reachable :: "routing_table \<Rightarrow> bool" where
  init: "table_reachable (routing_table_init i k)"
| step: "table_reachable t \<Longrightarrow> table_reachable (apply_op op t)"

lemma table_reachable_ok: "table_reachable t \<Longrightarrow> table_ok t"
  by (induction rule: table_reachable.induct) (simp_all add: routing.step_inv)

text \<open>
  C34: in every reachable table a bucket holds at most \<open>k\<close> different nodes, none of them the own
  one, each of them registered under its identifier and in the bucket of its distance.
\<close>

theorem routing_table_invariant:
  assumes "table_reachable t" and "i < 160" and "r \<in> set (t_buckets t ! i)"
  shows "length (t_buckets t ! i) \<le> t_k t \<and> distinct (t_buckets t ! i) \<and>
     map_of (t_nodes t) (d_node_id (t_objs t ! r)) = Some r \<and> d_node_id (t_objs t ! r) \<noteq> t_node_id t \<and>
     bucket_index (d_node_id (t_objs t ! r)) t = i"
proof -
  note okD = table_okD [OF table_reachable_ok [OF assms(1)]]
  from okD(5) [OF assms(2,3)] have m: "(d_node_id (t_objs t ! r), r) \<in> set (t_nodes t)"
      "bucket_index (d_node_id (t_objs t ! r)) t = i" by simp_all
  have "map_of (t_nodes t) (d_node_id (t_objs t ! r)) = Some r" using m(1) okD(2) by (simp only: map_of_eq_Some_iff)
  then show ?thesis using m(2) okD(3) [OF m(1)] okD(4) [OF assms(2)] by blast
qed

section \<open>Nodes that never leave\<close>

text \<open>Nodes that are learnt and then fail once, one after the other.\<close>

definition fail_once :: "dht_node \<Rightarrow> routing_table \<Rightarrow> routing_table" where
  "fail_once n t = mark_node_bad (d_node_id n) (snd (add_node n t))"

definition failed_nodes :: "nat \<Rightarrow> dht_node list \<Rightarrow> routing_table \<Rightarrow> bool" where
  "failed_nodes b ns t \<longleftrightarrow> table_ok t \<and> map fst (t_nodes t) = map d_node_id ns \<and>
     length (t_buckets t ! b) = min (t_k t) (length ns) \<and>
     (\<forall>(i, r)\<in>set (t_nodes t). \<not> d_is_good (t_objs t ! r) \<and> d_failed_queries (t_objs t ! r) = 1)"

lemma fail_once_step:
  assumes inv: "failed_nodes b ns t" and k: "0 < t_k t" and n: "bucket_index (d_node_id n) t = b"
    and fresh: "d_node_id n \<notin> d_node_id ` set ns" "d_node_id n \<noteq> t_node_id t" and zero: "d_failed_queries n = 0"
  shows "failed_nodes b (ns @ [n]) (fail_once n t)" and "t_k (fail_once n t) = t_k t"
    and "t_node_id (fail_once n t) = t_node_id t"
proof -
  have ok: "table_ok t" and keys: "map fst (t_nodes t) = map d_node_id ns"
    and len: "length (t_buckets t ! b) = min (t_k t) (length ns)"
    and failed: "\<And>i r. (i, r) \<in> set (t_nodes t) \<Longrightarrow> \<not> d_is_good (t_objs t ! r) \<and> d_failed_queries (t_objs t ! r) = 1"
    using inv by (auto simp: failed_nodes_def)
  have "fst ` set (t_nodes t) = d_node_id ` set ns" using keys by (metis list.set_map)
  then have none: "map_of (t_nodes t) (d_node_id n) = None" using fresh(1) by (simp add: map_of_eq_None_iff)
  have b: "b < 160" using n bucket_index_bound by metis
  define new where "new = length (t_objs t)"
  obtain bk where bk: "snd (add_node n t) = t\<lparr>t_objs := t_objs t @ [n], t_buckets := (t_buckets t)[b := bk],
      t_nodes := t_nodes t @ [(d_node_id n, new)]\<rparr>" "length bk = min (t_k t) (Suc (length ns))"
  proof (cases "length (t_buckets t ! b) < t_k t")
    case True
    then show ?thesis using that [of "t_buckets t ! b @ [new]"] none fresh(2) n len
      by (simp add: add_node_def Let_def update_fresh map_of_eq_None_iff new_def)
  next
    case False
    then obtain r rs where rs: "t_buckets t ! b = r # rs" using len k by (cases "t_buckets t ! b") auto
    then have "(d_node_id (t_objs t ! r), r) \<in> set (t_nodes t)" using table_okD(5) [OF ok b, of r] by simp
    then have "first_bad (t_objs t) (t_buckets t ! b) = Some 0" using failed rs by simp
    then show ?thesis using that [of "(t_buckets t ! b)[0 := new]"] none fresh(2) n len False
      by (simp add: add_node_def Let_def update_fresh map_of_eq_None_iff new_def)
  qed
  have mapn: "map_of (t_nodes t @ [(d_node_id n, new)]) (d_node_id n) = Some new"
    using none by (simp add: map_of_append map_add_def)
  have f: "fail_once n t = t\<lparr>t_objs := t_objs t @ [n\<lparr>d_is_good := False, d_failed_queries := 1\<rparr>],
      t_buckets := (t_buckets t)[b := bk], t_nodes := t_nodes t @ [(d_node_id n, new)]\<rparr>"
    using mapn zero by (simp add: fail_once_def bk(1) mark_node_bad_def update_node_def new_def)
  show "t_k (fail_once n t) = t_k t" "t_node_id (fail_once n t) = t_node_id t" by (simp_all add: f)
  have "table_ok (fail_once n t)" using ok by (simp add: fail_once_def mark_node_ok add_node_ok)
  moreover have "length (t_buckets t) = 160" using ok by (simp add: table_okD)
  moreover have "\<not> d_is_good (t_objs (fail_once n t) ! r) \<and> d_failed_queries (t_objs (fail_once n t) ! r) = 1"
    if "(i, r) \<in> set (t_nodes (fail_once n t))" for i r
  proof (cases "(i, r) \<in> set (t_nodes t)")
    case True
    then have "r < length (t_objs t)" using table_okD(3) [OF ok True] by simp
    then show ?thesis using failed [OF True] by (simp add: f nth_append)
  qed (use that in \<open>auto simp: f new_def\<close>)
  ultimately show "failed_nodes b (ns @ [n]) (fail_once n t)"
    using keys bk(2) b by (auto simp: failed_nodes_def f)
qed

lemma failed_nodes_fold:
  assumes "0 < k" and "distinct (map d_node_id ns)"
    and "\<And>n. n \<in> set ns \<Longrightarrow> d_node_id n \<noteq> own \<and> min (distance own (d_node_id n)) 159 = b \<and> d_failed_queries n = 0"
    and "b < 160"
  shows "failed_nodes b ns (fold fail_once ns (routing_table_init own k)) \<and>
     t_k (fold fail_once ns (routing_table_init own k)) = k \<and>
     t_node_id (fold fail_once ns (routing_table_init own k)) = own"
  using assms(2,3)
proof (induction ns rule: rev_induct)
  case Nil
  then show ?case using assms(4) by (simp add: failed_nodes_def routing_table_init_def [abs_def] table_ok_init
      table_ok_init [unfolded routing_table_init_def])
next
  case (snoc n ns)
  let ?t = "fold fail_once ns (routing_table_init own k)"
  have ih: "failed_nodes b ns ?t" "t_k ?t = k" "t_node_id ?t = own" using snoc by auto
  have "bucket_index (d_node_id n) ?t = b" using snoc.prems(2) [of n] ih(3) by (simp add: bucket_index_def)
  moreover have "d_node_id n \<notin> d_node_id ` set ns" using snoc.prems(1) by auto
  ultimately show ?case
    using fail_once_step [of b ns ?t n] ih snoc.prems(2) [of n] assms(1) by simp
qed

lemma remove_bad_nodes_once:
  assumes "\<forall>(i, r)\<in>set (t_nodes t). d_failed_queries (t_objs t ! r) = 1"
  shows "remove_bad_nodes t = t"
proof -
  have "filter (\<lambda>(_, r). \<not> d_is_good (t_objs t ! r) \<and> d_failed_queries (t_objs t ! r) \<ge> 3) (t_nodes t) = []"
    using assms by (auto simp: filter_empty_conv)
  then show ?thesis by (simp add: remove_bad_nodes_def)
qed

text \<open>
  Nodes of one bucket that fail once are replaced in the bucket but never leave the dictionary:
  it grows with every such node, whatever the size of the bucket, and the cleanup removes none.
\<close>

theorem replaced_nodes_stay:
  assumes "0 < k" and "distinct (map d_node_id ns)"
    and "\<And>n. n \<in> set ns \<Longrightarrow> d_node_id n \<noteq> own \<and> min (distance own (d_node_id n)) 159 = b \<and> d_failed_queries n = 0"
    and "b < 160" and "t = fold fail_once ns (routing_table_init own k)"
  shows "map fst (t_nodes t) = map d_node_id ns \<and> length (t_buckets t ! b) = min k (length ns) \<and>
     remove_bad_nodes t = t \<and> length (get_closest_nodes target (length ns) t) = length ns"
proof -
  have "failed_nodes b ns t \<and> t_k t = k \<and> t_node_id t = own"
    unfolding assms(5) using assms(1-4) by (rule failed_nodes_fold)
  then have inv: "failed_nodes b ns t" "t_k t = k" by blast+
  have keys: "map fst (t_nodes t) = map d_node_id ns" and len: "length (t_buckets t ! b) = min k (length ns)"
    using inv unfolding failed_nodes_def by blast+
  have "length (t_nodes t) = length ns" using arg_cong [OF keys, of length] by simp
  moreover have "remove_bad_nodes t = t" using inv(1) by (intro remove_bad_nodes_once) (auto simp: failed_nodes_def)
  ultimately show ?thesis using keys len by (simp add: get_closest_nodes_def)
qed

text \<open>A node that is only heard of again counts as good, and the cleanup spares it.\<close>

lemma heard_of_node_revived:
  assumes "table_ok t" and "map_of (t_nodes t) i = Some r"
  shows "\<exists>t'. add_node (new_node now i ip port) t = (True, t') \<and> d_is_good (t_objs t' ! r) \<and>
     d_failed_queries (t_objs t' ! r) = d_failed_queries (t_objs t ! r)"
proof -
  have "(i, r) \<in> set (t_nodes t)" using assms(2) by (rule map_of_SomeD)
  then have "r < length (t_objs t)" "i \<noteq> t_node_id t" using table_okD(3) [OF assms(1)] by auto
  then show ?thesis using assms(2) by (simp add: add_node_def new_node_def update_node_def)
qed

section \<open>Witnesses\<close>

definition demo_id :: "byte \<Rightarrow> bytes" where
  "demo_id b = replicate 19 0 @ [b]"

definition demo_node :: "byte \<Rightarrow> dht_node" where
  "demo_node b = new_node 0 (demo_id b) [] 1"

lemma distance_loop_prefix: "distance_loop (ps @ as) (ps @ bs) = 8 * length ps + distance_loop as bs"
  by (induction ps) (simp_all add: Let_def)

lemma demo_distance: "distance (demo_id a) (demo_id b) = 152 + distance_loop [a] [b]"
  by (simp add: distance_def demo_id_def distance_loop_prefix)

lemma demo_id_inject [simp]: "demo_id a = demo_id b \<longleftrightarrow> a = b"
  by (simp add: demo_id_def)

lemma demo_bucket: "distance (demo_id 0) (demo_id 2) = 159" "distance (demo_id 0) (demo_id 3) = 159"
  "distance (demo_id 0) (demo_id 128) = 153"
  by (simp_all add: demo_distance Let_def bit_length.simps)

theorem replaced_nodes_stay_witness:
  "length (t_nodes (fold fail_once [demo_node 2, demo_node 3] (routing_table_init (demo_id 0) 1))) = 2 \<and>
   length (t_buckets (fold fail_once [demo_node 2, demo_node 3] (routing_table_init (demo_id 0) 1)) ! 159) = 1"
proof -
  define ns where "ns = [demo_node 2, demo_node 3]"
  have nodes: "d_node_id n \<noteq> (demo_id 0) \<and> min (distance (demo_id 0) (d_node_id n)) 159 = 159 \<and> d_failed_queries n = 0"
    if "n \<in> set ns" for n using that demo_bucket by (auto simp: ns_def demo_node_def new_node_def)
  have "distinct (map d_node_id ns)" by (simp add: ns_def demo_node_def new_node_def)
  from replaced_nodes_stay [OF _ this nodes _ refl, of 1]
  have "map fst (t_nodes (fold fail_once ns (routing_table_init (demo_id 0) 1))) = map d_node_id ns"
    "length (t_buckets (fold fail_once ns (routing_table_init (demo_id 0) 1)) ! 159) = min 1 (length ns)"
    by simp_all
  moreover from this(1) have "length (t_nodes (fold fail_once ns (routing_table_init (demo_id 0) 1))) = length ns"
    by (metis length_map)
  ultimately show ?thesis by (simp add: ns_def)
qed

theorem routing_table_invariant_witness:
  "\<exists>t. snd (add_node (demo_node 2) (routing_table_init (demo_id 0) 8)) = t \<and> 0 \<in> set (t_buckets t ! 159) \<and>
     map_of (t_nodes t) (demo_id 2) = Some 0 \<and> bucket_index (demo_id 2) t = 159"
proof -
  let ?t = "snd (add_node (demo_node 2) (routing_table_init (demo_id 0) 8))"
  have b: "bucket_index (demo_id 2) (routing_table_init (demo_id 0) 8) = 159"
    using demo_bucket by (simp add: bucket_index_def routing_table_init_def)
  then have t: "0 \<in> set (t_buckets ?t ! 159)" "d_node_id (t_objs ?t ! 0) = demo_id 2"
    using demo_bucket by (simp_all add: add_node_def demo_node_def new_node_def Let_def routing_table_init_def)
  have "table_reachable ?t"
    using table_reachable.step [OF table_reachable.init, of "AddNode (demo_node 2)"] by simp
  from routing_table_invariant [OF this _ t(1)] t show ?thesis by simp
qed

theorem closest_nodes_are_farthest_witness:
  "\<exists>t. t = snd (add_node (demo_node 128) (snd (add_node (demo_node 2) (routing_table_init (demo_id 0) 8)))) \<and>
     get_closest_nodes (demo_id 3) 1 t = [1] \<and>
     xor_metric (d_node_id (t_objs t ! 0)) (demo_id 3) < xor_metric (d_node_id (t_objs t ! 1)) (demo_id 3)"
proof -
  define t where "t = snd (add_node (demo_node 128) (snd (add_node (demo_node 2) (routing_table_init (demo_id 0) 8))))"
  have d: "distance (demo_id 2) (demo_id 3) = 160" "distance (demo_id 128) (demo_id 3) = 153"
    by (simp_all add: demo_distance Let_def bit_length.simps)
  have nodes: "t_nodes t = [(demo_id 2, 0), (demo_id 128, 1)]" and objs: "t_objs t = [demo_node 2, demo_node 128]"
    using demo_bucket
    by (simp_all add: t_def add_node_def demo_node_def new_node_def Let_def routing_table_init_def bucket_index_def)
  have ids: "d_node_id (t_objs t ! 0) = demo_id 2" "d_node_id (t_objs t ! 1) = demo_id 128" "length (demo_id b) = 20" for b
    by (simp_all add: objs demo_node_def new_node_def demo_id_def)
  have c: "get_closest_nodes (demo_id 3) 1 t = [1]"
    unfolding get_closest_nodes_def nodes using d ids by simp
  have "xor_metric (d_node_id (t_objs t ! 0)) (demo_id 3) < xor_metric (d_node_id (t_objs t ! 1)) (demo_id 3)"
    by (rule closest_nodes_are_farthest [where n = 1]) (simp_all only: c nodes ids d, simp_all)
  with c show ?thesis using t_def by blast
qed

end
