(* ===== verification/Dht_Client.thy ===== *)
theory Dht_Client
  imports Dht_Routing Bencode
begin

text \<open>
  \<open>AsyncDHTClient\<close> of \<open>ccbt/discovery/dht.py\<close>: lookups, announcements, maintenance and the
  matching of responses with queries. What the network does is an argument: the list of the
  replies to the queries of a call, in order (no reply at its end). The queries sent are kept in
  a log. Other tasks may run while a call waits for a reply; each of them changes the table by its
  operations only, as the interface \<open>operations\<close> of the table allows for.
\<close>

section \<open>State\<close>

type_synonym dict = "(pyobj \<times> pyobj) list"

definition dget :: "string \<Rightarrow> dict \<Rightarrow> pyobj option" where
  "dget k d = map_of d (PBytes (ascii k))"

text \<open>Whether Python takes an object for true.\<close>

fun py_true :: "pyobj \<Rightarrow> bool" where
  "py_true (PInt i) = (i \<noteq> 0)"
| "py_true (PBool b) = b"
| "py_true (PBytes b) = (b \<noteq> [])"
| "py_true (PStr s) = (s \<noteq> [])"
| "py_true (PList xs) = (xs \<noteq> [])"
| "py_true (PDict d) = (d \<noteq> [])"
| "py_true POther = True"

type_synonym peer_addr = "pystr \<times> int"

datatype dht_query = FindNode bytes | GetPeers bytes | AnnouncePeer bytes int pyobj

text \<open>The response dictionary, nothing before the timeout, or an exception.\<close>

datatype dht_reply = Reply dict | NoReply | Raised

record dht_token =
  k_token :: pyobj
  k_expires_time :: int

datatype pending = Waiting | Answered dict

record dht_client =
  c_node_id :: bytes
  c_table :: routing_table
  c_tokens :: "(bytes \<times> dht_token) list"
  c_pending :: "(bytes \<times> pending) list"
  c_sent :: "(peer_addr \<times> dht_query) list"
  c_reported :: "peer_addr list list"

definition dht_client_init :: "bytes \<Rightarrow> dht_client" where
  "dht_client_init node_id =
     \<lparr>c_node_id = node_id, c_table = routing_table_init node_id 8, c_tokens = [], c_pending = [],
      c_sent = [], c_reported = []\<rparr>"

section \<open>Messages\<close>

definition query_args :: "bytes \<Rightarrow> dht_query \<Rightarrow> dict" where
  "query_args own q = (PBytes (ascii ''id''), PBytes own) #
     (case q of
        FindNode target \<Rightarrow> [(PBytes (ascii ''target''), PBytes target)]
      | GetPeers info_hash \<Rightarrow> [(PBytes (ascii ''info_hash''), PBytes info_hash)]
      | AnnouncePeer info_hash port token \<Rightarrow>
          [(PBytes (ascii ''info_hash''), PBytes info_hash), (PBytes (ascii ''port''), PInt port),
           (PBytes (ascii ''token''), token)])"

definition query_message :: "bytes \<Rightarrow> bytes \<Rightarrow> dht_query \<Rightarrow> bytes py" where
  "query_message tid own q =
     encode (PDict [(PBytes (ascii ''t''), PBytes tid), (PBytes (ascii ''y''), PBytes (ascii ''q'')),
       (PBytes (ascii ''q''), PBytes (ascii (case q of FindNode _ \<Rightarrow> ''find_node'' | GetPeers _ \<Rightarrow> ''get_peers''
          | AnnouncePeer _ _ _ \<Rightarrow> ''announce_peer''))),
       (PBytes (ascii ''a''), PDict (query_args own q))])"

text \<open>\<open>".".join(str(b) for b in data)\<close>, and the port after it.\<close>

fun ip_text :: "bytes \<Rightarrow> pystr" where
  "ip_text [] = []"
| "ip_text [b] = dec_nat (unat b)"
| "ip_text (b # bs) = dec_nat (unat b) @ 46 # ip_text bs"

text \<open>Compact node information: identifier, address and port in 26 bytes per node.\<close>

definition compact_nodes :: "int \<Rightarrow> bytes \<Rightarrow> dht_node list" where
  "compact_nodes now data =
     map (\<lambda>c. new_node now (take 20 c) (ip_text (take 4 (drop 20 c))) (unpack_be (take 2 (drop 24 c))))
       (filter (\<lambda>c. length c = 26) (chunks 26 data))"

text \<open>
  The nodes of a field that need not be bytes. \<open>None\<close>: an exception, at \<open>len\<close> of a number, or when
  a list or dictionary of 26 entries turns out to be no identifier.
\<close>

fun node_field :: "int \<Rightarrow> pyobj \<Rightarrow> dht_node list option" where
  "node_field now (PBytes b) = Some (compact_nodes now b)"
| "node_field now (PList xs) = (if length xs < 26 then Some [] else None)"
| "node_field now (PDict d) = (if length d < 26 then Some [] else None)"
| "node_field now _ = None"

definition add_nodes :: "dht_node list \<Rightarrow> routing_table \<Rightarrow> routing_table" where
  "add_nodes ns t = fold (\<lambda>n t. snd (add_node n t)) ns t"

section \<open>Sending a query and matching its response\<close>

definition send :: "peer_addr \<Rightarrow> dht_query \<Rightarrow> dht_client \<Rightarrow> dht_client" where
  "send addr q c = c\<lparr>c_sent := c_sent c @ [(addr, q)]\<rparr>"

definition expect_response :: "bytes \<Rightarrow> dht_client \<Rightarrow> dht_client" where
  "expect_response tid c = c\<lparr>c_pending := AList.update tid Waiting (c_pending c)\<rparr>"

definition forget_response :: "bytes \<Rightarrow> dht_client \<Rightarrow> dht_client" where
  "forget_response tid c = c\<lparr>c_pending := AList.delete tid (c_pending c)\<rparr>"

text \<open>\<open>handle_response\<close>; every exception is caught. \<open>None\<close>: the decoder has not returned yet.\<close>

definition handle_response :: "(nat list \<Rightarrow> int option) \<Rightarrow> nat \<Rightarrow> bytes \<Rightarrow> dht_client \<Rightarrow> dht_client option" where
  "handle_response uni fuel data c =
     (case decode uni fuel data of
        None \<Rightarrow> None
      | Some (Inr (PDict message)) \<Rightarrow>
          Some (if dget ''y'' message \<noteq> Some (PBytes (ascii ''r'')) then c
                else case dget ''t'' message of
                    Some (PBytes tid) \<Rightarrow>
                      if tid \<noteq> [] \<and> map_of (c_pending c) tid = Some Waiting
                      then c\<lparr>c_pending := AList.update tid (Answered message) (c_pending c)\<rparr>
                      else c
                  | _ \<Rightarrow> c)
      | Some _ \<Rightarrow> Some c)"

section \<open>Finding nodes\<close>

definition reply_body :: "dict \<Rightarrow> dict option" where
  "reply_body d = (case dget ''r'' d of None \<Rightarrow> Some [] | Some (PDict r) \<Rightarrow> Some r | Some _ \<Rightarrow> None)"

definition is_response :: "dict \<Rightarrow> bool" where
  "is_response d \<longleftrightarrow> dget ''y'' d = Some (PBytes (ascii ''r''))"

definition find_nodes :: "int \<Rightarrow> peer_addr \<Rightarrow> bytes \<Rightarrow> dht_reply \<Rightarrow> dht_client \<Rightarrow> dht_node list \<times> dht_client" where
  "find_nodes now addr target_id reply c =
     (let c = send addr (FindNode target_id) c
      in case reply of
          Reply d \<Rightarrow>
            (if \<not> is_response d then ([], c)
             else case reply_body d of
                None \<Rightarrow> ([], c)
              | Some r \<Rightarrow>
                  (case node_field now (case dget ''nodes'' r of None \<Rightarrow> PBytes [] | Some x \<Rightarrow> x) of
                     None \<Rightarrow> ([], c)
                   | Some nodes \<Rightarrow> (nodes, c\<lparr>c_table := add_nodes nodes (c_table c)\<rparr>)))
        | _ \<Rightarrow> ([], c))"

definition node_addr :: "nat \<Rightarrow> dht_client \<Rightarrow> peer_addr" where
  "node_addr r c = (d_ip (t_objs (c_table c) ! r), d_port (t_objs (c_table c) ! r))"

definition next_reply :: "dht_reply list \<Rightarrow> dht_reply" where
  "next_reply replies = (case replies of [] \<Rightarrow> NoReply | a # _ \<Rightarrow> a)"

fun refresh_nodes :: "int \<Rightarrow> bytes \<Rightarrow> nat list \<Rightarrow> dht_reply list \<Rightarrow> dht_client \<Rightarrow> dht_reply list \<times> dht_client" where
  "refresh_nodes now target [] replies c = (replies, c)"
| "refresh_nodes now target (r # rs) replies c =
     refresh_nodes now target rs (tl replies) (snd (find_nodes now (node_addr r c) target (next_reply replies) c))"

text \<open>The random targets are an argument.\<close>

fun refresh_routing_table :: "int \<Rightarrow> bytes list \<Rightarrow> dht_reply list \<Rightarrow> dht_client \<Rightarrow> dht_client" where
  "refresh_routing_table now [] replies c = c"
| "refresh_routing_table now (target # targets) replies c =
     (let (replies, c) = refresh_nodes now target (get_closest_nodes target 8 (c_table c)) replies c
      in refresh_routing_table now targets replies c)"

text \<open>A bootstrap host is its address, or \<open>None\<close> when its name is not resolved.\<close>

fun bootstrap_hosts :: "int \<Rightarrow> peer_addr option list \<Rightarrow> dht_reply list \<Rightarrow> dht_client \<Rightarrow> dht_reply list \<times> dht_client" where
  "bootstrap_hosts now [] replies c = (replies, c)"
| "bootstrap_hosts now (None # hosts) replies c = bootstrap_hosts now hosts replies c"
| "bootstrap_hosts now (Some addr # hosts) replies c =
     bootstrap_hosts now hosts (tl replies) (snd (find_nodes now addr (c_node_id c) (next_reply replies) c))"

definition bootstrap :: "int \<Rightarrow> peer_addr option list \<Rightarrow> bytes list \<Rightarrow> dht_reply list \<Rightarrow> dht_client \<Rightarrow> dht_client" where
  "bootstrap now hosts targets replies c =
     (let (replies, c) = bootstrap_hosts now hosts replies c
      in if length (t_nodes (c_table c)) < 8 then refresh_routing_table now targets replies c else c)"

section \<open>Finding peers\<close>

fun collect_peers :: "int \<Rightarrow> pyobj list \<Rightarrow> peer_addr list \<Rightarrow> peer_addr list" where
  "collect_peers max_peers [] peers = peers"
| "collect_peers max_peers (v # vs) peers =
     (case v of
        PBytes b \<Rightarrow>
          if length b = 6
          then let peers = peers @ [(ip_text (take 4 b), unpack_be (drop 4 b))]
               in if int (length peers) \<ge> max_peers then peers else collect_peers max_peers vs peers
          else collect_peers max_peers vs peers
      | _ \<Rightarrow> collect_peers max_peers vs peers)"

text \<open>The reply of one node; \<open>i\<close> is its identifier.\<close>

definition on_peers_reply ::
    "int \<Rightarrow> bytes \<Rightarrow> int \<Rightarrow> bytes \<Rightarrow> dht_reply \<Rightarrow> peer_addr list \<times> dht_client \<Rightarrow> peer_addr list \<times> dht_client" where
  "on_peers_reply now info_hash max_peers i reply = (\<lambda>(peers, c).
     let failed = (\<lambda>c. c\<lparr>c_table := mark_node_bad i (c_table c)\<rparr>)
     in case reply of
          NoReply \<Rightarrow> (peers, c)
        | Raised \<Rightarrow> (peers, failed c)
        | Reply d \<Rightarrow>
            (if \<not> is_response d then (peers, c)
             else case reply_body d of
                None \<Rightarrow> (peers, failed c)
              | Some r \<Rightarrow>
                  let peers = (case dget ''values'' r of Some (PList vs) \<Rightarrow> collect_peers max_peers vs peers | _ \<Rightarrow> peers);
                      nodes_data = (case dget ''nodes'' r of None \<Rightarrow> PBytes [] | Some x \<Rightarrow> x)
                  in (case (if py_true nodes_data then node_field now nodes_data else Some []) of
                        None \<Rightarrow> (peers, failed c)
                      | Some nodes \<Rightarrow>
                          let c = c\<lparr>c_table := add_nodes nodes (c_table c)\<rparr>;
                              c = (case dget ''token'' r of
                                     Some token \<Rightarrow>
                                       if py_true token
                                       then c\<lparr>c_tokens := AList.update info_hash
                                              \<lparr>k_token = token, k_expires_time = now + 900\<rparr> (c_tokens c)\<rparr>
                                       else c
                                   | None \<Rightarrow> c)
                          in (peers, c\<lparr>c_table := mark_node_good i (c_table c)\<rparr>))))"

fun get_peers_loop :: "int \<Rightarrow> bytes \<Rightarrow> int \<Rightarrow> nat list \<Rightarrow> bytes set \<Rightarrow> dht_reply list \<Rightarrow>
    peer_addr list \<times> dht_client \<Rightarrow> peer_addr list \<times> dht_client" where
  "get_peers_loop now info_hash max_peers [] queried replies (peers, c) = (peers, c)"
| "get_peers_loop now info_hash max_peers (r # rs) queried replies (peers, c) =
     (let i = d_node_id (t_objs (c_table c) ! r)
      in if i \<in> queried then get_peers_loop now info_hash max_peers rs queried replies (peers, c)
         else get_peers_loop now info_hash max_peers rs (insert i queried) (tl replies)
                (on_peers_reply now info_hash max_peers i (next_reply replies)
                   (peers, send (node_addr r c) (GetPeers info_hash) c)))"

text \<open>\<open>is_private\<close> is the callback \<open>is_private_torrent\<close>, false when there is none.\<close>

definition get_peers :: "(bytes \<Rightarrow> bool) \<Rightarrow> int \<Rightarrow> bytes \<Rightarrow> int \<Rightarrow> dht_reply list \<Rightarrow> dht_client \<Rightarrow> peer_addr list \<times> dht_client" where
  "get_peers is_private now info_hash max_peers replies c =
     (if is_private info_hash then ([], c)
      else let (peers, c) = get_peers_loop now info_hash max_peers
                 (get_closest_nodes info_hash 8 (c_table c)) {} replies ([], c)
           in (peers, if peers \<noteq> [] then c\<lparr>c_reported := c_reported c @ [peers]\<rparr> else c))"

section \<open>Announcing\<close>

definition on_announce_reply :: "bytes \<Rightarrow> dht_reply \<Rightarrow> nat \<times> dht_client \<Rightarrow> nat \<times> dht_client" where
  "on_announce_reply i reply = (\<lambda>(success, c).
     case reply of
       Reply d \<Rightarrow>
         if d \<noteq> [] \<and> is_response d then (success + 1, c\<lparr>c_table := mark_node_good i (c_table c)\<rparr>)
         else (success, c\<lparr>c_table := mark_node_bad i (c_table c)\<rparr>)
     | _ \<Rightarrow> (success, c\<lparr>c_table := mark_node_bad i (c_table c)\<rparr>))"

fun announce_loop :: "bytes \<Rightarrow> int \<Rightarrow> pyobj \<Rightarrow> nat list \<Rightarrow> dht_reply list \<Rightarrow> nat \<times> dht_client \<Rightarrow> nat \<times> dht_client" where
  "announce_loop info_hash port token [] replies s = s"
| "announce_loop info_hash port token (r # rs) replies (success, c) =
     announce_loop info_hash port token rs (tl replies)
       (on_announce_reply (d_node_id (t_objs (c_table c) ! r)) (next_reply replies)
          (success, send (node_addr r c) (AnnouncePeer info_hash port token) c))"

text \<open>The lookup and the announcement happen at \<open>now\<close> and \<open>later\<close>, with their own replies.\<close>

definition announce_peer :: "(bytes \<Rightarrow> bool) \<Rightarrow> int \<Rightarrow> int \<Rightarrow> bytes \<Rightarrow> int \<Rightarrow> dht_reply list \<Rightarrow> dht_reply list \<Rightarrow>
    dht_client \<Rightarrow> bool \<times> dht_client" where
  "announce_peer is_private now later info_hash port lookups replies c =
     (if is_private info_hash then (False, c)
      else let c = (if map_of (c_tokens c) info_hash = None
                    then snd (get_peers is_private now info_hash 1 lookups c) else c)
           in case map_of (c_tokens c) info_hash of
                None \<Rightarrow> (False, c)
              | Some token \<Rightarrow>
                  if later > k_expires_time token
                  then (False, c\<lparr>c_tokens := AList.delete info_hash (c_tokens c)\<rparr>)
                  else let (success, c) = announce_loop info_hash port (k_token token)
                             (get_closest_nodes info_hash 8 (c_table c)) replies (0, c)
                       in (success > 0, c))"

text \<open>\<open>_cleanup_old_data\<close>.\<close>

definition cleanup_old_data :: "int \<Rightarrow> dht_client \<Rightarrow> dht_client" where
  "cleanup_old_data now c =
     c\<lparr>c_tokens := filter (\<lambda>(_, token). \<not> now > k_expires_time token) (c_tokens c),
       c_table := remove_bad_nodes (c_table c)\<rparr>"

section \<open>What the client does to its table\<close>

lemma add_nodes_runs: "runs_to apply_op t (add_nodes ns t)"
  unfolding add_nodes_def
proof (rule routing.runs_fold)
  show "runs_to apply_op s (snd (add_node n s))" for n s
    using routing.runs_step [of s "AddNode n"] by simp
qed

lemma mark_runs: "runs_to apply_op t (mark_node_bad i t)" "runs_to apply_op t (mark_node_good i t)"
  using routing.runs_step [of t "MarkBad i"] routing.runs_step [of t "MarkGood i"] by simp_all

lemma add_then_good_runs: "runs_to apply_op t (mark_node_good i (add_nodes ns t))"
  using add_nodes_runs mark_runs(2) by (rule routing.runs_trans)

lemma send_simps [simp]:
  "c_table (send a q c) = c_table c" "c_tokens (send a q c) = c_tokens c" "c_sent (send a q c) = c_sent c @ [(a, q)]"
  "c_node_id (send a q c) = c_node_id c"
  by (simp_all add: send_def)

lemma find_nodes_runs: "runs_to apply_op (c_table c) (c_table (snd (find_nodes now addr target reply c)))"
  by (auto simp: find_nodes_def Let_def add_nodes_runs split: dht_reply.split option.split)

lemma refresh_nodes_runs: "runs_to apply_op (c_table c) (c_table (snd (refresh_nodes now target rs replies c)))"
proof (induction now target rs replies c rule: refresh_nodes.induct)
  case (2 now target r rs replies c)
  show ?case using routing.runs_trans [OF find_nodes_runs 2] by simp
qed simp

lemma refresh_runs: "runs_to apply_op (c_table c) (c_table (refresh_routing_table now targets replies c))"
proof (induction now targets replies c rule: refresh_routing_table.induct)
  case (2 now target targets replies c)
  obtain rs d where d: "refresh_nodes now target (get_closest_nodes target 8 (c_table c)) replies c = (rs, d)" by fastforce
  then have "runs_to apply_op (c_table c) (c_table d)" using refresh_nodes_runs by (metis snd_conv)
  then show ?case using 2 [OF d [symmetric] refl] d by (auto intro: routing.runs_trans)
qed simp

lemma bootstrap_hosts_runs: "runs_to apply_op (c_table c) (c_table (snd (bootstrap_hosts now hosts replies c)))"
proof (induction now hosts replies c rule: bootstrap_hosts.induct)
  case (3 now addr hosts replies c)
  show ?case using routing.runs_trans [OF find_nodes_runs 3] by simp
qed simp_all

lemma bootstrap_runs: "runs_to apply_op (c_table c) (c_table (bootstrap now hosts targets replies c))"
  using bootstrap_hosts_runs [of c now hosts replies] routing.runs_trans [OF bootstrap_hosts_runs refresh_runs]
  by (simp add: bootstrap_def Let_def case_prod_unfold)

lemma on_peers_reply_runs:
  "runs_to apply_op (c_table (snd s)) (c_table (snd (on_peers_reply now ih mx i reply s)))"
  by (cases s) (auto simp: on_peers_reply_def Let_def mark_runs add_then_good_runs split: dht_reply.split option.split)

lemma on_peers_reply_sent: "c_sent (snd (on_peers_reply now ih mx i reply s)) = c_sent (snd s)"
  by (cases s) (auto simp: on_peers_reply_def Let_def split: dht_reply.split option.split)

lemma get_peers_loop_runs:
  "runs_to apply_op (c_table (snd s)) (c_table (snd (get_peers_loop now ih mx rs queried replies s)))"
proof (induction rs arbitrary: queried replies s)
  case (Cons r rs)
  obtain peers c where s: "s = (peers, c)" by (cases s)
  let ?i = "d_node_id (t_objs (c_table c) ! r)"
  let ?s = "on_peers_reply now ih mx ?i (next_reply replies) (peers, send (node_addr r c) (GetPeers ih) c)"
  have "runs_to apply_op (c_table c) (c_table (snd ?s))"
    using on_peers_reply_runs [of "(peers, send (node_addr r c) (GetPeers ih) c)"] by simp
  then have "runs_to apply_op (c_table c) (c_table (snd (get_peers_loop now ih mx rs (insert ?i queried) (tl replies) ?s)))"
    using Cons.IH by (rule routing.runs_trans)
  then show ?case using Cons.IH [where s = s] by (simp add: s Let_def)
next
  case Nil
  then show ?case by (cases s) simp
qed

lemma get_peers_runs: "runs_to apply_op (c_table c) (c_table (snd (get_peers priv now ih mx replies c)))"
  using get_peers_loop_runs [of "([], c)"] by (simp add: get_peers_def Let_def case_prod_unfold)

lemma announce_loop_runs:
  "runs_to apply_op (c_table (snd s)) (c_table (snd (announce_loop ih port token rs replies s)))"
proof (induction rs arbitrary: replies s)
  case (Cons r rs)
  obtain n c where s: "s = (n, c)" by (cases s)
  let ?s = "on_announce_reply (d_node_id (t_objs (c_table c) ! r)) (next_reply replies)
      (n, send (node_addr r c) (AnnouncePeer ih port token) c)"
  have "runs_to apply_op (c_table c) (c_table (snd ?s))"
    by (auto simp: on_announce_reply_def mark_runs split: dht_reply.split)
  then have "runs_to apply_op (c_table c) (c_table (snd (announce_loop ih port token rs (tl replies) ?s)))"
    using Cons.IH by (rule routing.runs_trans)
  then show ?case by (simp add: s)
qed simp

lemma announce_peer_runs:
  "runs_to apply_op (c_table c) (c_table (snd (announce_peer priv now later ih port lookups replies c)))"
proof -
  define d where "d = (if map_of (c_tokens c) ih = None then snd (get_peers priv now ih 1 lookups c) else c)"
  have d: "runs_to apply_op (c_table c) (c_table d)" using get_peers_runs by (simp add: d_def)
  have loop: "runs_to apply_op (c_table c) (c_table (snd (announce_loop ih port token rs replies (n, d))))" for token rs n
    using routing.runs_trans [OF d] announce_loop_runs [of "(n, d)"] by simp
  show ?thesis using d loop
    by (simp add: announce_peer_def d_def [symmetric] Let_def case_prod_unfold split: option.split)
qed

inductive client_reachable :: "dht_client \<Rightarrow> bool" where
  init: "client_reachable (dht_client_init i)"
| find: "client_reachable c \<Longrightarrow> client_reachable (snd (find_nodes now addr target reply c))"
| refresh: "client_reachable c \<Longrightarrow> client_reachable (refresh_routing_table now targets replies c)"
| bootstrap: "client_reachable c \<Longrightarrow> client_reachable (bootstrap now hosts targets replies c)"
| lookup: "client_reachable c \<Longrightarrow> client_reachable (snd (get_peers priv now ih mx replies c))"
| announce: "client_reachable c \<Longrightarrow> client_reachable (snd (announce_peer priv now later ih port lookups replies c))"
| cleanup: "client_reachable c \<Longrightarrow> client_reachable (cleanup_old_data now c)"
| expect: "client_reachable c \<Longrightarrow> client_reachable (expect_response tid c)"
| forget: "client_reachable c \<Longrightarrow> client_reachable (forget_response tid c)"
| response: "client_reachable c \<Longrightarrow> handle_response uni fuel data c = Some d \<Longrightarrow> client_reachable d"

lemma handle_response_table: "handle_response uni fuel data c = Some d \<Longrightarrow> c_table d = c_table c"
  by (auto simp: handle_response_def split: option.splits sum.splits pyobj.splits if_splits)

lemma cleanup_runs: "runs_to apply_op (c_table c) (c_table (cleanup_old_data now c))"
  using routing.runs_step [of "c_table c" RemoveBad] by (simp add: cleanup_old_data_def)

lemma client_table_ok: "client_reachable c \<Longrightarrow> table_ok (c_table c)"
proof (induction rule: client_reachable.induct)
  case init
  then show ?case by (simp add: dht_client_init_def)
next
  case (response c uni fuel data d)
  then show ?case by (simp add: handle_response_table)
qed (simp_all add: expect_response_def forget_response_def routing.runs_inv [OF find_nodes_runs] routing.runs_inv [OF refresh_runs]
    routing.runs_inv [OF bootstrap_runs] routing.runs_inv [OF get_peers_runs] routing.runs_inv [OF announce_peer_runs]
    routing.runs_inv [OF cleanup_runs])

section \<open>Lookups\<close>

text \<open>The identifier of a node object never changes.\<close>

lemma apply_op_ids:
  "r < length (t_objs t) \<Longrightarrow> r < length (t_objs (apply_op op t)) \<and> d_node_id (t_objs (apply_op op t) ! r) = d_node_id (t_objs t ! r)"
proof -
  assume r: "r < length (t_objs t)"
  have u: "d_node_id (t_objs (update_node s f t) ! r) = d_node_id (t_objs t ! r)" if "\<And>n. d_node_id (f n) = d_node_id n" for s f
    using that by (rule update_node_id)
  have rm: "t_objs (remove_node i t) = t_objs t" for i t by (simp add: remove_node_def Let_def split: option.split)
  then have "t_objs (fold remove_node xs t) = t_objs t" for xs t by (induction xs arbitrary: t) simp_all
  then have rb: "t_objs (remove_bad_nodes t) = t_objs t" by (simp add: remove_bad_nodes_def)
  show ?thesis
  proof (cases op)
    case (AddNode n)
    then show ?thesis using r u by (auto simp: add_node_def Let_def nth_append split: option.split)
  qed (use r u rm rb in \<open>simp_all add: mark_node_bad_def mark_node_good_def split: option.split\<close>)
qed

lemma runs_ids:
  "runs_to apply_op t u \<Longrightarrow> r < length (t_objs t) \<Longrightarrow>
     r < length (t_objs u) \<and> d_node_id (t_objs u ! r) = d_node_id (t_objs t ! r)"
proof -
  have "r < length (t_objs t) \<Longrightarrow> r < length (t_objs (fold apply_op ops t)) \<and>
      d_node_id (t_objs (fold apply_op ops t) ! r) = d_node_id (t_objs t ! r)" for ops
    by (induction ops arbitrary: t) (simp_all add: apply_op_ids)
  then show "runs_to apply_op t u \<Longrightarrow> r < length (t_objs t) \<Longrightarrow>
     r < length (t_objs u) \<and> d_node_id (t_objs u ! r) = d_node_id (t_objs t ! r)"
    by (auto simp: runs_to_def)
qed

lemma collect_peers_bound: "int (length (collect_peers mx vs peers)) \<le> max (int (length peers) + 1) mx"
proof (induction vs arbitrary: peers)
  case (Cons v vs)
  show ?case
  proof (cases v)
    case (PBytes b)
    then show ?thesis using Cons [of peers] Cons [of "peers @ [(ip_text (take 4 b), unpack_be (drop 4 b))]"]
      by (cases "length b = 6") (auto simp: Let_def)
  qed (use Cons [of peers] in simp_all)
qed simp

lemma on_peers_reply_bound:
  "int (length (fst (on_peers_reply now ih mx i reply s))) \<le> max (int (length (fst s)) + 1) mx"
proof (cases s)
  case (Pair peers c)
  have "int (length peers) \<le> max (int (length peers) + 1) mx" by simp
  then show ?thesis using collect_peers_bound [of mx _ peers]
    by (auto simp: Pair on_peers_reply_def Let_def split: dht_reply.split option.split pyobj.split)
qed

lemma get_peers_loop_queries:
  assumes "distinct (map (\<lambda>r. d_node_id (t_objs (c_table c) ! r)) rs)"
    and "\<forall>r\<in>set rs. r < length (t_objs (c_table c)) \<and> d_node_id (t_objs (c_table c) ! r) \<notin> queried"
  shows "\<exists>addrs. c_sent (snd (get_peers_loop now ih mx rs queried replies (peers, c))) =
       c_sent c @ map (\<lambda>a. (a, GetPeers ih)) addrs \<and> length addrs = length rs \<and>
     int (length (fst (get_peers_loop now ih mx rs queried replies (peers, c)))) \<le>
       (if rs = [] then int (length peers) else max (int (length peers) + 1) mx + int (length rs) - 1)"
  using assms
proof (induction rs arbitrary: queried replies peers c)
  case Nil
  then show ?case by simp
next
  case (Cons r rs)
  let ?id = "\<lambda>r. d_node_id (t_objs (c_table c) ! r)" and ?a = "node_addr r c"
  define s where "s = on_peers_reply now ih mx (?id r) (next_reply replies) (peers, send ?a (GetPeers ih) c)"
  obtain ps d where s_eq: "s = (ps, d)" by (cases s)
  have runs: "runs_to apply_op (c_table c) (c_table d)"
    using on_peers_reply_runs [of "(peers, send ?a (GetPeers ih) c)" now ih mx "?id r" "next_reply replies"] s_eq
    by (simp add: s_def)
  have sent: "c_sent d = c_sent c @ [(?a, GetPeers ih)]"
    using on_peers_reply_sent [of now ih mx "?id r" "next_reply replies" "(peers, send ?a (GetPeers ih) c)"] s_eq
    by (simp add: s_def)
  have bound: "int (length ps) \<le> max (int (length peers) + 1) mx"
    using on_peers_reply_bound [of now ih mx "?id r" "next_reply replies" "(peers, send ?a (GetPeers ih) c)"] s_eq
    by (simp add: s_def)
  have ids: "q < length (t_objs (c_table d)) \<and> d_node_id (t_objs (c_table d) ! q) = ?id q" if "q \<in> set rs" for q
    using runs_ids [OF runs] Cons.prems(2) that by simp
  have "map (\<lambda>q. d_node_id (t_objs (c_table d) ! q)) rs = map ?id rs" using ids by simp
  moreover have "distinct (map ?id rs)" using Cons.prems(1) by simp
  ultimately have dist: "distinct (map (\<lambda>q. d_node_id (t_objs (c_table d) ! q)) rs)" by (simp only:)
  have "\<forall>q\<in>set rs. q < length (t_objs (c_table d)) \<and> d_node_id (t_objs (c_table d) ! q) \<notin> insert (?id r) queried"
  proof
    fix q assume q: "q \<in> set rs"
    then have "?id q \<in> ?id ` set rs" by (rule imageI)
    moreover have "?id r \<notin> ?id ` set rs" using Cons.prems(1) by simp
    ultimately have "?id q \<noteq> ?id r" by metis
    moreover have "?id q \<notin> queried" using Cons.prems(2) q by simp
    ultimately show "q < length (t_objs (c_table d)) \<and> d_node_id (t_objs (c_table d) ! q) \<notin> insert (?id r) queried"
      using ids [OF q] by simp
  qed
  from Cons.IH [OF dist this, of "tl replies" ps]
  obtain addrs where a: "c_sent (snd (get_peers_loop now ih mx rs (insert (?id r) queried) (tl replies) (ps, d))) =
       c_sent d @ map (\<lambda>a. (a, GetPeers ih)) addrs" "length addrs = length rs"
     "int (length (fst (get_peers_loop now ih mx rs (insert (?id r) queried) (tl replies) (ps, d)))) \<le>
       (if rs = [] then int (length ps) else max (int (length ps) + 1) mx + int (length rs) - 1)"
    by blast
  have loop: "get_peers_loop now ih mx (r # rs) queried replies (peers, c) =
      get_peers_loop now ih mx rs (insert (?id r) queried) (tl replies) (ps, d)"
    using Cons.prems(2) s_eq by (simp add: s_def Let_def)
  show ?case
  proof (intro exI conjI)
    show "c_sent (snd (get_peers_loop now ih mx (r # rs) queried replies (peers, c))) =
        c_sent c @ map (\<lambda>a. (a, GetPeers ih)) (?a # addrs)" using a(1) sent loop by simp
    show "length (?a # addrs) = length (r # rs)" using a(2) by simp
    show "int (length (fst (get_peers_loop now ih mx (r # rs) queried replies (peers, c)))) \<le>
        (if r # rs = [] then int (length peers) else max (int (length peers) + 1) mx + int (length (r # rs)) - 1)"
    proof (cases "rs = []")
      case True
      then show ?thesis using a(3) bound unfolding loop by simp
    next
      case False
      have "max (int (length ps) + 1) mx \<le> max (int (length peers) + 1) mx + 1" using bound by linarith
      moreover have "int (length (r # rs)) = int (length rs) + 1" "r # rs \<noteq> []" by simp_all
      ultimately show ?thesis using a(3) False unfolding loop by (simp only: if_False)
    qed
  qed
qed

lemma closest_facts:
  assumes "table_ok t"
  shows "distinct (map (\<lambda>r. d_node_id (t_objs t ! r)) (get_closest_nodes target n t))"
    and "\<forall>r\<in>set (get_closest_nodes target n t). r < length (t_objs t)"
    and "length (get_closest_nodes target n t) = min n (length (t_nodes t))"
proof -
  let ?refs = "map snd (t_nodes t)" and ?id = "\<lambda>r. d_node_id (t_objs t ! r)"
  have "map ?id ?refs = map fst (t_nodes t)" using table_okD(3) [OF assms] by auto
  then have "distinct (map ?id ?refs)" using table_okD(2) [OF assms] by (simp only:)
  moreover have "mset (map ?id (sort_key (\<lambda>r. distance (?id r) target) ?refs)) = mset (map ?id ?refs)"
    by (simp only: mset_map mset_sort)
  ultimately have "distinct (map ?id (sort_key (\<lambda>r. distance (?id r) target) ?refs))"
    by (metis mset_eq_imp_distinct_iff)
  then show "distinct (map ?id (get_closest_nodes target n t))"
    unfolding get_closest_nodes_def take_map [symmetric] by (rule distinct_take)
  show "\<forall>r\<in>set (get_closest_nodes target n t). r < length (t_objs t)"
  proof
    fix r assume "r \<in> set (get_closest_nodes target n t)"
    then have "r \<in> set (sort_key (\<lambda>r. distance (?id r) target) ?refs)"
      unfolding get_closest_nodes_def by (rule in_set_takeD)
    then have "r \<in> snd ` set (t_nodes t)" by simp
    then obtain i where "(i, r) \<in> set (t_nodes t)" by auto
    then show "r < length (t_objs t)" using table_okD(3) [OF assms] by blast
  qed
  show "length (get_closest_nodes target n t) = min n (length (t_nodes t))" by (simp add: get_closest_nodes_def)
qed

text \<open>
  A lookup queries each of the at most eight nodes selected at its start once, and none of the
  nodes it learns of; it may return up to seven peers more than asked for.
\<close>

theorem get_peers_bounded:
  assumes "client_reachable c" and "\<not> priv ih" and "get_peers priv now ih mx replies c = (peers, d)"
  shows "\<exists>addrs. c_sent d = c_sent c @ map (\<lambda>a. (a, GetPeers ih)) addrs \<and>
     length addrs = min 8 (length (t_nodes (c_table c))) \<and>
     int (length peers) \<le> (if addrs = [] then 0 else max 1 mx + int (length addrs) - 1)"
proof -
  let ?rs = "get_closest_nodes ih 8 (c_table c)"
  note cf = closest_facts [OF client_table_ok [OF assms(1)], of ih 8]
  obtain ps e where loop: "get_peers_loop now ih mx ?rs {} replies ([], c) = (ps, e)" by fastforce
  then have d: "peers = ps" "c_sent d = c_sent e" using assms(2,3) by (auto simp: get_peers_def split: if_splits)
  have prem: "\<forall>r\<in>set ?rs. r < length (t_objs (c_table c)) \<and> d_node_id (t_objs (c_table c) ! r) \<notin> {}" using cf(2) by simp
  from get_peers_loop_queries [OF cf(1) prem, where now = now and ih = ih and mx = mx and replies = replies
      and peers = "[]", unfolded loop fst_conv snd_conv]
  obtain addrs where q: "c_sent e = c_sent c @ map (\<lambda>a. (a, GetPeers ih)) addrs" "length addrs = length ?rs"
    "int (length ps) \<le> (if ?rs = [] then int (length ([] :: peer_addr list))
       else max (int (length ([] :: peer_addr list)) + 1) mx + int (length ?rs) - 1)"
    by (elim exE conjE) (rule that, assumption+)
  have empty: "?rs = [] \<longleftrightarrow> addrs = []" using q(2) by (metis length_0_conv)
  show ?thesis
  proof (intro exI conjI)
    show "c_sent d = c_sent c @ map (\<lambda>a. (a, GetPeers ih)) addrs" using d(2) q(1) by simp
    show "length addrs = min 8 (length (t_nodes (c_table c)))" using q(2) cf(3) by simp
    show "int (length peers) \<le> (if addrs = [] then 0 else max 1 mx + int (length addrs) - 1)"
      using q(2,3) d(1) empty by (cases "addrs = []") simp_all
  qed
qed

section \<open>Announcements\<close>

lemma on_announce_reply_same:
  "c_sent (snd (on_announce_reply i reply s)) = c_sent (snd s)"
  "c_tokens (snd (on_announce_reply i reply s)) = c_tokens (snd s)"
  by (cases s; auto simp: on_announce_reply_def split: dht_reply.split)+

lemma announce_loop_sent:
  "\<exists>addrs. c_sent (snd (announce_loop ih port tok rs replies s)) =
      c_sent (snd s) @ map (\<lambda>a. (a, AnnouncePeer ih port tok)) addrs \<and> length addrs = length rs \<and>
    c_tokens (snd (announce_loop ih port tok rs replies s)) = c_tokens (snd s) \<and>
    fst (announce_loop ih port tok rs replies s) \<le> fst s + length rs"
proof (induction rs arbitrary: replies s)
  case (Cons r rs)
  obtain n c where s: "s = (n, c)" by (cases s)
  define u where "u = on_announce_reply (d_node_id (t_objs (c_table c) ! r)) (next_reply replies)
      (n, send (node_addr r c) (AnnouncePeer ih port tok) c)"
  have u: "c_sent (snd u) = c_sent c @ [(node_addr r c, AnnouncePeer ih port tok)]" "c_tokens (snd u) = c_tokens c"
    "fst u \<le> n + 1"
    using on_announce_reply_same [of "d_node_id (t_objs (c_table c) ! r)" "next_reply replies"
        "(n, send (node_addr r c) (AnnouncePeer ih port tok) c)"]
    by (simp_all add: u_def) (auto simp: on_announce_reply_def split: dht_reply.split)
  obtain addrs where "c_sent (snd (announce_loop ih port tok rs (tl replies) u)) =
      c_sent (snd u) @ map (\<lambda>a. (a, AnnouncePeer ih port tok)) addrs" "length addrs = length rs"
    "c_tokens (snd (announce_loop ih port tok rs (tl replies) u)) = c_tokens (snd u)"
    "fst (announce_loop ih port tok rs (tl replies) u) \<le> fst u + length rs"
    using Cons.IH [where s = u and replies = "tl replies"] by blast
  then show ?case using u by (intro exI [of _ "node_addr r c # addrs"]) (simp add: s u_def [symmetric])
qed simp


lemma get_peers_sent:
  "\<exists>addrs. c_sent (snd (get_peers priv now ih mx replies c)) = c_sent c @ map (\<lambda>a. (a, GetPeers ih)) addrs"
proof -
  have "\<exists>addrs. c_sent (snd (get_peers_loop now ih mx rs queried replies s)) = c_sent (snd s) @ map (\<lambda>a. (a, GetPeers ih)) addrs"
    for rs queried replies s
  proof (induction rs arbitrary: queried replies s)
    case Nil
    then show ?case by (cases s) simp
  next
    case (Cons r rs)
    obtain peers d where s: "s = (peers, d)" by (cases s)
    let ?i = "d_node_id (t_objs (c_table d) ! r)"
    let ?u = "on_peers_reply now ih mx ?i (next_reply replies) (peers, send (node_addr r d) (GetPeers ih) d)"
    obtain addrs where "c_sent (snd (get_peers_loop now ih mx rs (insert ?i queried) (tl replies) ?u)) =
        c_sent (snd ?u) @ map (\<lambda>a. (a, GetPeers ih)) addrs" using Cons.IH by blast
    then have "c_sent (snd (get_peers_loop now ih mx rs (insert ?i queried) (tl replies) ?u)) =
        c_sent d @ map (\<lambda>a. (a, GetPeers ih)) (node_addr r d # addrs)"
      by (simp add: on_peers_reply_sent)
    then have new: "\<exists>addrs. c_sent (snd (get_peers_loop now ih mx rs (insert ?i queried) (tl replies) ?u)) =
        c_sent d @ map (\<lambda>a. (a, GetPeers ih)) addrs" by blast
    have old: "\<exists>addrs. c_sent (snd (get_peers_loop now ih mx rs queried replies (peers, d))) =
        c_sent d @ map (\<lambda>a. (a, GetPeers ih)) addrs" using Cons.IH [where s = "(peers, d)"] by simp
    show ?case using new old by (cases "?i \<in> queried") (simp_all only: s get_peers_loop.simps Let_def if_True if_False snd_conv)
  qed
  from this [of "get_closest_nodes ih 8 (c_table c)" "{}" replies "([], c)"] show ?thesis
    by (auto simp: get_peers_def Let_def case_prod_unfold)
qed

text \<open>
  A private torrent is never announced or looked up. Otherwise every node that is asked to
  announce is sent one and the same token, the unexpired one stored for the torrent.
\<close>

theorem announce_sends_one_token:
  assumes "announce_peer priv now later ih port lookups replies c = (ok, d)"
  shows "\<exists>asked told tok. c_sent d = c_sent c @ map (\<lambda>a. (a, GetPeers ih)) asked @ map (\<lambda>a. (a, AnnouncePeer ih port tok)) told \<and>
     (priv ih \<longrightarrow> asked = [] \<and> told = []) \<and> (ok \<longrightarrow> told \<noteq> []) \<and>
     (told \<noteq> [] \<longrightarrow> (\<exists>k. map_of (c_tokens d) ih = Some k \<and> k_token k = tok \<and> later \<le> k_expires_time k))"
proof (cases "priv ih")
  case True
  then show ?thesis using assms by (auto simp: announce_peer_def)
next
  case False
  define e where "e = (if map_of (c_tokens c) ih = None then snd (get_peers priv now ih 1 lookups c) else c)"
  obtain asked where asked: "c_sent e = c_sent c @ map (\<lambda>a. (a, GetPeers ih)) asked"
  proof (cases "map_of (c_tokens c) ih = None")
    case True
    then show ?thesis using that get_peers_sent [of priv now ih 1 lookups c] by (auto simp: e_def)
  next
    case False
    then show ?thesis using that [of "[]"] by (auto simp: e_def)
  qed
  note ann = assms [unfolded announce_peer_def if_not_P [OF False] e_def [symmetric] Let_def]
  consider "map_of (c_tokens e) ih = None" | k where "map_of (c_tokens e) ih = Some k" "later > k_expires_time k"
    | k where "map_of (c_tokens e) ih = Some k" "later \<le> k_expires_time k" by fastforce
  then show ?thesis
  proof cases
    case (3 k)
    let ?rs = "get_closest_nodes ih 8 (c_table e)"
    obtain n f where loop: "announce_loop ih port (k_token k) ?rs replies (0, e) = (n, f)" by fastforce
    with ann 3 have "ok = (n > 0)" "d = f" by simp_all
    moreover obtain told where "c_sent f = c_sent e @ map (\<lambda>a. (a, AnnouncePeer ih port (k_token k))) told"
        "length told = length ?rs" "c_tokens f = c_tokens e" "n \<le> length ?rs"
      using announce_loop_sent [of ih port "k_token k" ?rs replies "(0, e)", unfolded loop fst_conv snd_conv] by auto
    ultimately show ?thesis using asked False 3
      by - (rule exI [of _ asked], rule exI [of _ told], rule exI [of _ "k_token k"], auto)
  next
    case 1
    then have "\<not> ok" "c_sent d = c_sent e" using ann by auto
    then show ?thesis using asked False by - (rule exI [of _ asked], rule exI [of _ "[]"], auto)
  next
    case (2 k)
    then have "\<not> ok" "c_sent d = c_sent e" using ann by auto
    then show ?thesis using asked False by - (rule exI [of _ asked], rule exI [of _ "[]"], auto)
  qed
qed

section \<open>Incoming datagrams\<close>

text \<open>
  One datagram of eleven bytes keeps the handling of responses from ever returning, whatever
  the fuel, and a datagram without a minus sign is always handled.
\<close>

theorem datagram_handling:
  assumes "45 \<notin> set data" and "unsigned_uni uni" and "2 * length data < fuel"
  shows "handle_response uni' fuel' poison c = None \<and> handle_response uni fuel data c \<noteq> None"
proof -
  have "decode uni fuel data \<noteq> None"
    using bdecode_total_aux [OF assms(1,2), of 0 fuel] assms(3) by (simp add: decode_def)
  moreover have "decode uni' fuel' poison = None" by (simp add: decode_def poison_diverges)
  ultimately show ?thesis by (auto simp: handle_response_def split: sum.split pyobj.split)
qed

section \<open>Witnesses\<close>

lemma compact_nodes_Nil [simp]: "compact_nodes now [] = []"
  by (simp add: compact_nodes_def)

lemma compact_nodes_append:
  assumes "length i = 20" and "length ip = 4" and "length port = 2"
  shows "compact_nodes now (i @ ip @ port @ rest) = new_node now i (ip_text ip) (unpack_be port) # compact_nodes now rest"
proof -
  have "chunks 26 (i @ ip @ port @ rest) = (i @ ip @ port) # chunks 26 rest"
  proof -
    have "i @ ip @ port @ rest \<noteq> []" using assms(1) by auto
    from chunks_rec [OF _ this, of 26] show ?thesis using assms by simp
  qed
  then show ?thesis using assms by (simp add: compact_nodes_def)
qed

definition demo_reply :: "string \<Rightarrow> pyobj \<Rightarrow> dht_reply" where
  "demo_reply k v = Reply [(PBytes (ascii ''y''), PBytes (ascii ''r'')), (PBytes (ascii ''r''), PDict [(PBytes (ascii k), v)])]"

lemma demo_reply_simps:
  "is_response [(PBytes (ascii ''y''), PBytes (ascii ''r'')), (PBytes (ascii ''r''), x)]"
  "reply_body [(PBytes (ascii ''y''), PBytes (ascii ''r'')), (PBytes (ascii ''r''), PDict r)] = Some r"
  by (simp_all add: is_response_def reply_body_def dget_def ascii_def)

definition demo_found :: dht_client where
  "demo_found = snd (find_nodes 0 ([], 0) [] (demo_reply ''nodes''
     (PBytes (demo_id 2 @ [1, 1, 1, 1] @ [0, 1] @ demo_id 3 @ [2, 2, 2, 2] @ [0, 1]))) (dht_client_init (demo_id 0)))"

lemma demo_found_nodes:
  "map fst (t_nodes (c_table demo_found)) = [demo_id 2, demo_id 3]"
proof -
  have len: "length (demo_id b) = 20" for b by (simp add: demo_id_def)
  have nodes: "compact_nodes 0 (demo_id 2 @ [1, 1, 1, 1] @ [0, 1] @ demo_id 3 @ [2, 2, 2, 2] @ [0, 1]) =
      [new_node 0 (demo_id 2) (ip_text [1, 1, 1, 1]) (unpack_be [0, 1]), new_node 0 (demo_id 3) (ip_text [2, 2, 2, 2]) (unpack_be [0, 1])]"
    using compact_nodes_append [of "demo_id 2" "[1, 1, 1, 1]" "[0, 1]" 0 "demo_id 3 @ [2, 2, 2, 2] @ [0, 1]"]
      compact_nodes_append [of "demo_id 3" "[2, 2, 2, 2]" "[0, 1]" 0 "[]"] by (simp add: len)
  have f: "c_table demo_found = add_nodes (compact_nodes 0 (demo_id 2 @ [1, 1, 1, 1] @ [0, 1] @ demo_id 3 @ [2, 2, 2, 2] @ [0, 1]))
      (routing_table_init (demo_id 0) 8)"
    by (simp add: demo_found_def find_nodes_def demo_reply_def demo_reply_simps dget_def send_def dht_client_init_def)
  show ?thesis using demo_bucket unfolding f nodes
    by (simp add: add_nodes_def add_node_def new_node_def Let_def routing_table_init_def bucket_index_def)
qed

theorem get_peers_bounded_witness:
  "\<exists>peers d addrs. get_peers (\<lambda>_. False) 0 (demo_id 7) 1
       [demo_reply ''values'' (PList [PBytes [1, 2, 3, 4, 0, 1]]), demo_reply ''values'' (PList [PBytes [1, 2, 3, 4, 0, 2]])]
       demo_found = (peers, d) \<and>
     c_sent d = c_sent demo_found @ map (\<lambda>a. (a, GetPeers (demo_id 7))) addrs \<and> length addrs = 2 \<and> length peers \<le> 2"
proof -
  obtain peers d where g: "get_peers (\<lambda>_. False) 0 (demo_id 7) 1
      [demo_reply ''values'' (PList [PBytes [1, 2, 3, 4, 0, 1]]), demo_reply ''values'' (PList [PBytes [1, 2, 3, 4, 0, 2]])]
      demo_found = (peers, d)" by fastforce
  have "client_reachable demo_found" unfolding demo_found_def by (intro client_reachable.intros)
  moreover have two: "length (t_nodes (c_table demo_found)) = 2" using arg_cong [OF demo_found_nodes, of length] by simp
  ultimately obtain addrs where "c_sent d = c_sent demo_found @ map (\<lambda>a. (a, GetPeers (demo_id 7))) addrs"
      "length addrs = min 8 2" "int (length peers) \<le> (if addrs = [] then 0 else max 1 1 + int (length addrs) - 1)"
    using get_peers_bounded [OF _ _ g] by metis
  then show ?thesis using g by (auto split: if_splits)
qed

theorem announce_sends_one_token_witness:
  "\<exists>ok d told tok. announce_peer (\<lambda>_. False) 0 1 (demo_id 7) 6881 [] [demo_reply ''id'' (PBytes [])]
       (demo_found\<lparr>c_tokens := [(demo_id 7, \<lparr>k_token = PBytes [9], k_expires_time = 900\<rparr>)]\<rparr>) = (ok, d) \<and> ok \<and>
     told \<noteq> [] \<and> tok = PBytes [9] \<and> set (map (\<lambda>a. (a, AnnouncePeer (demo_id 7) 6881 tok)) told) \<subseteq> set (c_sent d)"
proof -
  let ?c = "demo_found\<lparr>c_tokens := [(demo_id 7, \<lparr>k_token = PBytes [9], k_expires_time = 900\<rparr>)]\<rparr>"
  let ?replies = "[demo_reply ''id'' (PBytes [])]"
  let ?rs = "get_closest_nodes (demo_id 7) 8 (c_table ?c)"
  have "table_ok (c_table ?c)"
    using client_table_ok [of demo_found] by (simp add: demo_found_def client_reachable.intros)
  then have "length ?rs = min 8 (length (t_nodes (c_table ?c)))" by (rule closest_facts(3))
  then have "length ?rs = 2" using arg_cong [OF demo_found_nodes, of length] by simp
  then obtain r rs where rs: "?rs = r # rs" by (cases ?rs) auto
  have mono: "fst s \<le> fst (announce_loop ih port tok qs replies s)" for ih port tok qs replies s
  proof (induction qs arbitrary: replies s)
    case (Cons q qs)
    obtain n c where s: "s = (n, c)" by (cases s)
    have "n \<le> fst (on_announce_reply i reply (n, e))" for i reply e
      by (auto simp: on_announce_reply_def split: dht_reply.split)
    then show ?case using Cons.IH order_trans by (simp add: s) blast
  qed simp
  obtain ok d where a: "announce_peer (\<lambda>_. False) 0 1 (demo_id 7) 6881 [] ?replies ?c = (ok, d)" by fastforce
  have "ok \<longleftrightarrow> 0 < fst (announce_loop (demo_id 7) 6881 (PBytes [9]) ?rs ?replies (0, ?c))"
      "c_tokens d = c_tokens (snd (announce_loop (demo_id 7) 6881 (PBytes [9]) ?rs ?replies (0, ?c)))"
    using a by (auto simp: announce_peer_def Let_def case_prod_unfold)
  moreover have "1 \<le> fst (announce_loop (demo_id 7) 6881 (PBytes [9]) ?rs ?replies (0, ?c))"
  proof -
    let ?u = "on_announce_reply (d_node_id (t_objs (c_table ?c) ! r)) (demo_reply ''id'' (PBytes []))
        (0, send (node_addr r ?c) (AnnouncePeer (demo_id 7) 6881 (PBytes [9])) ?c)"
    have "fst ?u = 1" by (simp add: on_announce_reply_def demo_reply_def demo_reply_simps)
    then show ?thesis
      using mono [of ?u "demo_id 7" 6881 "PBytes [9]" rs "[]"] by (simp only: rs announce_loop.simps next_reply_def list.case list.sel)
  qed
  moreover have "c_tokens (snd (announce_loop (demo_id 7) 6881 (PBytes [9]) ?rs ?replies (0, ?c))) = c_tokens ?c"
    using announce_loop_sent [of "demo_id 7" 6881 "PBytes [9]" ?rs ?replies "(0, ?c)"] by auto
  ultimately have ok: ok and tok: "c_tokens d = [(demo_id 7, \<lparr>k_token = PBytes [9], k_expires_time = 900\<rparr>)]" by simp_all
  from announce_sends_one_token [OF a] obtain asked told tok where
    "c_sent d = c_sent ?c @ map (\<lambda>a. (a, GetPeers (demo_id 7))) asked @ map (\<lambda>a. (a, AnnouncePeer (demo_id 7) 6881 tok)) told"
    "ok \<longrightarrow> told \<noteq> []" "told \<noteq> [] \<longrightarrow> (\<exists>k. map_of (c_tokens d) (demo_id 7) = Some k \<and> k_token k = tok \<and> 1 \<le> k_expires_time k)"
    by blast
  then show ?thesis using a ok tok by (intro exI [of _ ok] exI [of _ d] exI [of _ told] exI [of _ tok]) auto
qed

theorem datagram_handling_witness:
  "handle_response (\<lambda>_. None) 5 poison (dht_client_init []) = None \<and>
   handle_response (\<lambda>_. None) 9 (ascii ''i1e'') (dht_client_init []) \<noteq> None"
  using datagram_handling [of "ascii ''i1e''" "\<lambda>_. None" 9 "\<lambda>_. None" 5]
  by (simp add: ascii_def unsigned_uni_def)

end
