(* ===== verification/Queue_Manager.thy ===== *)
theory Queue_Manager
  imports Ccbt_Prelude "HOL-Library.Product_Lexorder" "HOL-Library.Multiset" Complex_Main
begin

text \<open>
  The torrent queue (\<open>ccbt/queue/manager.py\<close>) and its bandwidth allocation
  (\<open>ccbt/queue/bandwidth.py\<close>). The queue manager keeps an ordered dictionary of entries and the two
  sets of active torrents under one \<open>asyncio.Lock\<close>. The sessions it drives are part of the state;
  what \<open>start\<close>, \<open>resume\<close> and \<open>pause\<close> of a session do is an argument of the operations.
  A coroutine is \<open>Done\<close> with a result or an exception, or \<open>Waits\<close> for the lock. The lemmas show
  the invariant of the queue, the limits on active torrents, the order in which limits stop torrents,
  the coroutines that never return, and the bounds of the allocated bandwidth.
\<close>

section \<open>Data\<close>

datatype torrent_priority = PAUSED | LOW | NORMAL | HIGH | MAXIMUM

datatype bandwidth_allocation_mode = PROPORTIONAL | EQUAL | FIXED | MANUAL

text \<open>\<open>QueueEntry\<close>; its key, the info hash, is the key of the queue.\<close>

record queue_entry =
  e_priority :: torrent_priority
  e_position :: nat
  e_added :: rat
  e_status :: string
  e_down :: int
  e_up :: int

record queue_config =
  max_active_torrents :: nat
  max_active_downloading :: nat
  max_active_seeding :: nat
  default_priority :: torrent_priority
  allocation_mode :: bandwidth_allocation_mode
  auto_manage_queue :: bool
  priority_weights :: "(torrent_priority \<times> rat) list"
  priority_bandwidth_kib :: "(torrent_priority \<times> int) list"

record queue_statistics =
  total_torrents :: nat
  active_downloading :: nat
  active_seeding :: nat
  queued_torrents :: nat
  paused_torrents :: nat
  by_priority :: "torrent_priority \<Rightarrow> nat"

text \<open>What the queue reads of a session (its status and progress) and writes to its \<open>info\<close>.\<close>

record session =
  s_status :: string
  s_progress :: rat
  info_priority :: torrent_priority
  info_position :: nat

datatype session_call = Start bool | Resume | Pause

text \<open>The effect of a call: it returns or raises (\<open>asyncio.wait_for\<close> raises \<open>TimeoutError\<close>).\<close>

type_synonym sessions_behaviour = "session_call \<Rightarrow> bytes \<Rightarrow> session \<Rightarrow> unit py \<times> session"

text \<open>The two active sets are lists without duplicates, in the order in which they are iterated.\<close>

record queue_manager =
  q_config :: queue_config
  q_sessions :: "bytes \<Rightarrow> session option"
  q_queue :: "(bytes \<times> queue_entry) list"
  q_downloading :: "bytes list"
  q_seeding :: "bytes list"
  q_lock :: bool
  q_bandwidth_task :: bool
  q_stats :: queue_statistics

type_synonym 'a action = "queue_manager \<Rightarrow> ('a py \<times> queue_manager, queue_manager) outcome"

definition queue_manager_init :: "queue_config \<Rightarrow> queue_manager" where
  "queue_manager_init cfg =
     \<lparr>q_config = cfg, q_sessions = (\<lambda>_. None), q_queue = [], q_downloading = [], q_seeding = [],
      q_lock = False, q_bandwidth_task = False,
      q_stats = \<lparr>total_torrents = 0, active_downloading = 0, active_seeding = 0,
        queued_torrents = 0, paused_torrents = 0, by_priority = (\<lambda>_. 0)\<rparr>\<rparr>"

definition queue_start :: "queue_manager \<Rightarrow> queue_manager" where
  "queue_start q = (if auto_manage_queue (q_config q) then q\<lparr>q_bandwidth_task := True\<rparr> else q)"

definition queue_stop :: "queue_manager \<Rightarrow> queue_manager" where
  "queue_stop q = q\<lparr>q_bandwidth_task := False\<rparr>"

section \<open>Coroutines of the queue\<close>

definition returns :: "'a \<Rightarrow> 'a action" where
  "returns x q = Done (Inr x, q)"

definition qbind :: "'a action \<Rightarrow> ('a \<Rightarrow> 'b action) \<Rightarrow> 'b action" where
  "qbind m f q = obind (m q) (\<lambda>(r, q). case r of Inl e \<Rightarrow> Done (Inl e, q) | Inr x \<Rightarrow> f x q)"

text \<open>\<open>async with self._lock\<close>; an exception of the body releases the lock.\<close>

definition with_queue_lock :: "'a action \<Rightarrow> 'a action" where
  "with_queue_lock = guarded q_lock (\<lambda>b q. q\<lparr>q_lock := b\<rparr>)"

interpretation queue_lock: lock q_lock "\<lambda>b q. q\<lparr>q_lock := b\<rparr>"
  by standard simp

lemma qbind_Done [simp]:
  "m q = Done (Inr x, q') \<Longrightarrow> qbind m f q = f x q'"
  "m q = Done (Inl e, q') \<Longrightarrow> qbind m f q = Done (Inl e, q')"
  "m q = Waits q' \<Longrightarrow> qbind m f q = Waits q'"
  by (simp_all add: qbind_def)

lemma returns_simp [simp]: "returns x q = Done (Inr x, q)"
  by (simp add: returns_def)

section \<open>Order and statistics\<close>

fun priority_order :: "torrent_priority \<Rightarrow> int" where
  "priority_order MAXIMUM = 5"
| "priority_order HIGH = 4"
| "priority_order NORMAL = 3"
| "priority_order LOW = 2"
| "priority_order PAUSED = 1"

definition queue_key :: "bytes \<times> queue_entry \<Rightarrow> int \<times> rat" where
  "queue_key x = (- priority_order (e_priority (snd x)), e_added (snd x))"

definition set_positions :: "(bytes \<times> queue_entry) list \<Rightarrow> (bytes \<times> queue_entry) list" where
  "set_positions xs = map (\<lambda>(i, h, e). (h, e\<lparr>e_position := i\<rparr>)) (zip [0..<length xs] xs)"

definition tell_positions :: "(bytes \<times> queue_entry) list \<Rightarrow> (bytes \<Rightarrow> session option) \<Rightarrow> bytes \<Rightarrow> session option" where
  "tell_positions xs = fold (\<lambda>(h, e) ss. case ss h of None \<Rightarrow> ss
      | Some s \<Rightarrow> ss(h \<mapsto> s\<lparr>info_position := e_position e\<rparr>)) xs"

definition reorder_queue :: "queue_manager \<Rightarrow> queue_manager" where
  "reorder_queue q =
     (let queue = set_positions (sort_key queue_key (q_queue q))
      in q\<lparr>q_queue := queue, q_sessions := tell_positions queue (q_sessions q)\<rparr>)"

definition count_entries :: "(queue_entry \<Rightarrow> bool) \<Rightarrow> (bytes \<times> queue_entry) list \<Rightarrow> nat" where
  "count_entries P xs = length (filter (P \<circ> snd) xs)"

definition statistics_of :: "queue_manager \<Rightarrow> queue_statistics" where
  "statistics_of q =
     \<lparr>total_torrents = length (q_queue q),
      active_downloading = length (q_downloading q),
      active_seeding = length (q_seeding q),
      queued_torrents = count_entries (\<lambda>e. e_status e = ''queued'') (q_queue q),
      paused_torrents = count_entries (\<lambda>e. e_status e = ''paused'') (q_queue q),
      by_priority = (\<lambda>p. count_entries (\<lambda>e. e_priority e = p) (q_queue q))\<rparr>"

definition update_statistics :: "queue_manager \<Rightarrow> queue_manager" where
  "update_statistics q = q\<lparr>q_stats := statistics_of q\<rparr>"

section \<open>Starting torrents\<close>

definition update_entry :: "bytes \<Rightarrow> (queue_entry \<Rightarrow> queue_entry) \<Rightarrow> queue_manager \<Rightarrow> queue_manager" where
  "update_entry h f q = q\<lparr>q_queue := map (\<lambda>(k, e). (k, if k = h then f e else e)) (q_queue q)\<rparr>"

definition set_status :: "bytes \<Rightarrow> string \<Rightarrow> queue_manager \<Rightarrow> queue_manager" where
  "set_status h st = update_entry h (\<lambda>e. e\<lparr>e_status := st\<rparr>)"

definition set_add :: "'a \<Rightarrow> 'a list \<Rightarrow> 'a list" where
  "set_add x xs = (if x \<in> set xs then xs else xs @ [x])"

definition deactivate :: "bytes \<Rightarrow> queue_manager \<Rightarrow> queue_manager" where
  "deactivate h q = q\<lparr>q_downloading := removeAll h (q_downloading q), q_seeding := removeAll h (q_seeding q)\<rparr>"

text \<open>Calling a method of a session: it may change the session, and it may raise.\<close>

definition call_session :: "sessions_behaviour \<Rightarrow> session_call \<Rightarrow> bytes \<Rightarrow> session \<Rightarrow> unit action" where
  "call_session call c h s q =
     (let (r, s') = call c h s in Done (r, q\<lparr>q_sessions := (q_sessions q)(h \<mapsto> s')\<rparr>))"

definition is_seeding_session :: "session \<Rightarrow> bool" where
  "is_seeding_session s \<longleftrightarrow> 1 \<le> s_progress s \<or> s_status s = ''seeding''"

definition can_start :: "bool \<Rightarrow> queue_manager \<Rightarrow> bool" where
  "can_start seeding q =
     (let cfg = q_config q; st = q_stats q
      in if seeding then max_active_seeding cfg = 0 \<or> active_seeding st < max_active_seeding cfg
         else (max_active_downloading cfg = 0 \<or> active_downloading st < max_active_downloading cfg) \<and>
           (max_active_torrents cfg = 0 \<or>
              active_downloading st + active_seeding st < max_active_torrents cfg))"

definition activate :: "bytes \<Rightarrow> bool \<Rightarrow> queue_manager \<Rightarrow> queue_manager" where
  "activate h seeding q =
     (if seeding then q\<lparr>q_seeding := set_add h (q_seeding q)\<rparr>
      else q\<lparr>q_downloading := set_add h (q_downloading q)\<rparr>)"

text \<open>A paused session is resumed, a stopped one started, any other only counted as active.\<close>

definition start_session :: "sessions_behaviour \<Rightarrow> bool \<Rightarrow> bytes \<Rightarrow> session \<Rightarrow> unit action" where
  "start_session call resume h s =
     (if s_status s = ''paused'' then call_session call Resume h s
      else if s_status s = ''stopped'' then call_session call (Start resume) h s
      else returns ())"

definition launch :: "sessions_behaviour \<Rightarrow> bool \<Rightarrow> bytes \<Rightarrow> session \<Rightarrow> bool action" where
  "launch call resume h s q =
     obind (start_session call resume h s (set_status h ''active'' (activate h (is_seeding_session s) q)))
       (\<lambda>(r, q). case r of
          Inl e \<Rightarrow> if e = TimeoutError then Done (Inr True, update_statistics q)
            else Done (Inr False, update_statistics (set_status h ''queued'' q))
        | Inr _ \<Rightarrow> Done (Inr True, update_statistics q))"

definition try_start_locked :: "sessions_behaviour \<Rightarrow> bool \<Rightarrow> bytes \<Rightarrow> bool action" where
  "try_start_locked call resume h q =
     (case map_of (q_queue q) h of None \<Rightarrow> Done (Inr False, q)
      | Some e \<Rightarrow>
          if e_priority e = PAUSED then Done (Inr False, q)
          else if h \<in> set (q_downloading q) \<or> h \<in> set (q_seeding q) then Done (Inr True, q)
          else (case q_sessions q h of None \<Rightarrow> Done (Inr False, q)
            | Some s \<Rightarrow>
                if can_start (is_seeding_session s) q then launch call resume h s q
                else Done (Inr False, update_statistics (set_status h ''queued'' q))))"

definition try_start_torrent :: "sessions_behaviour \<Rightarrow> bool \<Rightarrow> bytes \<Rightarrow> bool action" where
  "try_start_torrent call resume h = with_queue_lock (try_start_locked call resume h)"

definition first_queued :: "(bytes \<times> queue_entry) list \<Rightarrow> bytes option" where
  "first_queued xs = map_option fst (find (\<lambda>(h, e). e_status e = ''queued'') xs)"

definition try_start_next_torrent :: "sessions_behaviour \<Rightarrow> unit action" where
  "try_start_next_torrent call =
     qbind (with_queue_lock (\<lambda>q. Done (Inr (first_queued (q_queue q)), q)))
       (\<lambda>next_hash. case next_hash of None \<Rightarrow> returns ()
          | Some h \<Rightarrow> qbind (try_start_torrent call False h) (\<lambda>_. returns ()))"

section \<open>Operations\<close>

text \<open>
  \<open>add_torrent\<close>: an info hash that is already queued is returned unchanged; the new entry is named
  by its key. The locked part tells whether the entry is new.
\<close>

definition enqueue :: "bytes \<Rightarrow> torrent_priority option \<Rightarrow> rat \<Rightarrow> bool action" where
  "enqueue h priority now q =
     (if map_of (q_queue q) h \<noteq> None then Done (Inr False, q)
      else let entry = \<lparr>e_priority = (case priority of None \<Rightarrow> default_priority (q_config q) | Some p \<Rightarrow> p),
             e_position = length (q_queue q), e_added = now, e_status = ''queued'', e_down = 0, e_up = 0\<rparr>
        in Done (Inr True, update_statistics (reorder_queue (q\<lparr>q_queue := q_queue q @ [(h, entry)]\<rparr>))))"

definition tell_started :: "bytes \<Rightarrow> torrent_priority \<Rightarrow> unit action" where
  "tell_started h p q =
     (case q_sessions q h of None \<Rightarrow> Done (Inr (), q)
      | Some s \<Rightarrow> with_queue_lock (\<lambda>q. Done (Inr (), case map_of (q_queue q) h of None \<Rightarrow> q
            | Some e \<Rightarrow> q\<lparr>q_sessions := (q_sessions q)(h \<mapsto> s\<lparr>info_priority := p, info_position := e_position e\<rparr>)\<rparr>))
          (q\<lparr>q_sessions := (q_sessions q)(h \<mapsto> s\<lparr>info_priority := p\<rparr>)\<rparr>))"

definition add_torrent :: "sessions_behaviour \<Rightarrow> bytes \<Rightarrow> torrent_priority option \<Rightarrow> bool \<Rightarrow> bool \<Rightarrow> rat \<Rightarrow> bytes action" where
  "add_torrent call h priority auto_start resume now q =
     qbind (with_queue_lock (enqueue h priority now))
       (\<lambda>added. if \<not> added \<or> \<not> auto_start \<or> \<not> auto_manage_queue (q_config q) then returns h
          else qbind (try_start_torrent call resume h)
            (\<lambda>started. if \<not> started then returns h
               else qbind (tell_started h (case priority of None \<Rightarrow> default_priority (q_config q) | Some p \<Rightarrow> p))
                 (\<lambda>_. returns h))) q"

definition remove_torrent :: "bytes \<Rightarrow> bool action" where
  "remove_torrent h = with_queue_lock (\<lambda>q.
     if map_of (q_queue q) h = None then Done (Inr False, q)
     else Done (Inr True, update_statistics (reorder_queue (deactivate h
            (q\<lparr>q_queue := filter (\<lambda>(k, _). k \<noteq> h) (q_queue q)\<rparr>)))))"

definition set_priority_locked :: "bytes \<Rightarrow> torrent_priority \<Rightarrow> bool action" where
  "set_priority_locked h p q =
     (if map_of (q_queue q) h = None then Done (Inr False, q)
      else Done (Inr True, update_statistics (reorder_queue (update_entry h (\<lambda>e. e\<lparr>e_priority := p\<rparr>) q))))"

definition tell_priority :: "bytes \<Rightarrow> torrent_priority \<Rightarrow> queue_manager \<Rightarrow> queue_manager" where
  "tell_priority h p q =
     (case q_sessions q h of None \<Rightarrow> q
      | Some s \<Rightarrow> q\<lparr>q_sessions := (q_sessions q)(h \<mapsto> s\<lparr>info_priority := p\<rparr>)\<rparr>)"

text \<open>\<open>list.insert(i, x)\<close> for a position within the list.\<close>

definition insert_at :: "nat \<Rightarrow> 'a \<Rightarrow> 'a list \<Rightarrow> 'a list" where
  "insert_at i x xs = take i xs @ x # drop i xs"

definition reorder_torrent :: "bytes \<Rightarrow> int \<Rightarrow> bool action" where
  "reorder_torrent h new_position = with_queue_lock (\<lambda>q.
     case map_of (q_queue q) h of None \<Rightarrow> Done (Inr False, q)
     | Some e \<Rightarrow>
         if new_position < 0 \<or> int (length (q_queue q)) \<le> new_position then Done (Inr False, q)
         else Done (Inr True, reorder_queue (q\<lparr>q_queue :=
                insert_at (nat new_position) (h, e) (filter (\<lambda>(k, _). k \<noteq> h) (q_queue q))\<rparr>)))"

definition pause_locked :: "bytes \<Rightarrow> bool action" where
  "pause_locked h q =
     (if map_of (q_queue q) h = None then Done (Inr False, q)
      else Done (Inr True, update_statistics (deactivate h (set_status h ''paused'' q))))"

definition pause_session :: "sessions_behaviour \<Rightarrow> bytes \<Rightarrow> unit action" where
  "pause_session call h q =
     (case q_sessions q h of None \<Rightarrow> Done (Inr (), q) | Some s \<Rightarrow> call_session call Pause h s q)"

definition pause_torrent :: "sessions_behaviour \<Rightarrow> bytes \<Rightarrow> bool action" where
  "pause_torrent call h q =
     qbind (with_queue_lock (pause_locked h))
       (\<lambda>found. if \<not> found then returns False
          else qbind (pause_session call h)
            (\<lambda>_. if auto_manage_queue (q_config q)
               then qbind (try_start_next_torrent call) (\<lambda>_. returns True) else returns True)) q"

definition resume_locked :: "bytes \<Rightarrow> bool action" where
  "resume_locked h q =
     (case map_of (q_queue q) h of None \<Rightarrow> Done (Inr False, q)
      | Some e \<Rightarrow> Done (Inr True, if e_status e = ''paused'' then set_status h ''queued'' q else q))"

definition resume_torrent :: "sessions_behaviour \<Rightarrow> bytes \<Rightarrow> bool action" where
  "resume_torrent call h q =
     qbind (with_queue_lock (resume_locked h))
       (\<lambda>found. if \<not> found then returns False
          else if auto_manage_queue (q_config q)
          then qbind (try_start_torrent call False h) (\<lambda>_. returns True)
          else returns True) q"

definition get_queue_status :: "(queue_statistics \<times> (bytes \<times> queue_entry) list) action" where
  "get_queue_status = with_queue_lock (\<lambda>q. Done (Inr (q_stats q, q_queue q), q))"

definition get_torrent_queue_state :: "bytes \<Rightarrow> (nat \<times> torrent_priority) option action" where
  "get_torrent_queue_state h = with_queue_lock (\<lambda>q.
     Done (Inr (map_option (\<lambda>e. (e_position e, e_priority e)) (map_of (q_queue q) h)), q))"

section \<open>Limits and the monitor\<close>

text \<open>\<open>_pause_torrent_internal\<close>: the entry is queued again.\<close>

definition pause_torrent_internal :: "sessions_behaviour \<Rightarrow> bytes \<Rightarrow> unit action" where
  "pause_torrent_internal call h q =
     (if map_of (q_queue q) h = None then Done (Inr (), q)
      else pause_session call h (deactivate h (set_status h ''queued'' q)))"

fun pause_all :: "sessions_behaviour \<Rightarrow> bytes list \<Rightarrow> unit action" where
  "pause_all call [] = returns ()"
| "pause_all call (h # hs) = qbind (pause_torrent_internal call h) (\<lambda>_. pause_all call hs)"

text \<open>
  Python's \<open>sort(key, reverse=True)\<close> keeps the order of equal keys, so it is the stable sort by
  the opposite order.
\<close>

definition reverse_key :: "bytes \<times> queue_entry \<Rightarrow> int \<times> rat" where
  "reverse_key x = (priority_order (e_priority (snd x)), - e_added (snd x))"

definition lowest_first :: "(bytes \<times> queue_entry) list \<Rightarrow> bytes list \<Rightarrow> bytes list" where
  "lowest_first queue active =
     map fst (sort_key reverse_key
       (map (\<lambda>h. (h, the (map_of queue h))) (filter (\<lambda>h. map_of queue h \<noteq> None) active)))"

text \<open>One limit: with 0 there is none, else the lowest torrents over the limit are stopped.\<close>

definition enforce_limit :: "sessions_behaviour \<Rightarrow> (queue_manager \<Rightarrow> bytes list) \<Rightarrow> nat \<Rightarrow> unit action" where
  "enforce_limit call active limit q =
     (if 0 < limit \<and> limit < length (active q)
      then pause_all call (take (length (active q) - limit) (lowest_first (q_queue q) (active q))) q
      else Done (Inr (), q))"

definition all_active :: "queue_manager \<Rightarrow> bytes list" where
  "all_active q = q_downloading q @ filter (\<lambda>h. h \<notin> set (q_downloading q)) (q_seeding q)"

text \<open>The total counts both sets, also when a torrent is in both.\<close>

definition enforce_total :: "sessions_behaviour \<Rightarrow> unit action" where
  "enforce_total call q =
     (let active = length (q_downloading q) + length (q_seeding q); limit = max_active_torrents (q_config q)
      in if 0 < limit \<and> limit < active
         then pause_all call (take (active - limit) (lowest_first (q_queue q) (all_active q))) q
         else Done (Inr (), q))"

definition enforce_locked :: "sessions_behaviour \<Rightarrow> unit action" where
  "enforce_locked call q =
     qbind (enforce_limit call q_downloading (max_active_downloading (q_config q)))
       (\<lambda>_. qbind (enforce_limit call q_seeding (max_active_seeding (q_config q)))
         (\<lambda>_. qbind (enforce_total call) (\<lambda>_ q. Done (Inr (), update_statistics q)))) q"

definition enforce_queue_limits :: "sessions_behaviour \<Rightarrow> unit action" where
  "enforce_queue_limits call = with_queue_lock (enforce_locked call)"

text \<open>\<open>_sync_active_sets\<close>: the active sets follow the status of the sessions.\<close>

definition sync_one :: "bytes \<Rightarrow> queue_manager \<Rightarrow> queue_manager" where
  "sync_one h q =
     (case q_sessions q h of None \<Rightarrow> deactivate h q
      | Some s \<Rightarrow>
          let running = s_status s \<noteq> ''paused'' \<and> s_status s \<noteq> ''stopped''
          in if is_seeding_session s
             then q\<lparr>q_downloading := removeAll h (q_downloading q),
                    q_seeding := (if running then set_add h (q_seeding q) else removeAll h (q_seeding q))\<rparr>
             else q\<lparr>q_seeding := removeAll h (q_seeding q),
                    q_downloading := (if running then set_add h (q_downloading q) else removeAll h (q_downloading q))\<rparr>)"

definition sync_active_sets :: "queue_manager \<Rightarrow> queue_manager" where
  "sync_active_sets q = fold sync_one (all_active q) q"

text \<open>One round of \<open>_monitor_loop\<close>.\<close>

definition monitor_round :: "sessions_behaviour \<Rightarrow> unit action" where
  "monitor_round call =
     qbind (with_queue_lock (\<lambda>q. enforce_queue_limits call (sync_active_sets q)))
       (\<lambda>_. qbind (try_start_next_torrent call) (\<lambda>_ q. Done (Inr (), update_statistics q)))"

section \<open>Bandwidth\<close>

text \<open>\<open>d.get(p, default)\<close>.\<close>

definition get_or :: "('k \<times> 'v) list \<Rightarrow> 'k \<Rightarrow> 'v \<Rightarrow> 'v" where
  "get_or d k v = (case map_of d k of None \<Rightarrow> v | Some x \<Rightarrow> x)"

text \<open>\<open>int(x)\<close> drops the fraction. The weights are exact rationals here.\<close>

definition py_int :: "rat \<Rightarrow> int" where
  "py_int x = (if x < 0 then \<lceil>x\<rceil> else \<lfloor>x\<rfloor>)"

text \<open>The entries of active torrents are changed in place.\<close>

definition active_entries :: "(bytes \<times> queue_entry) list \<Rightarrow> (bytes \<times> queue_entry) list" where
  "active_entries queue = filter (\<lambda>(h, e). e_status e = ''active'') queue"

definition on_active :: "(queue_entry \<Rightarrow> queue_entry) \<Rightarrow> (bytes \<times> queue_entry) list \<Rightarrow> (bytes \<times> queue_entry) list" where
  "on_active f queue = map (\<lambda>(h, e). (h, if e_status e = ''active'' then f e else e)) queue"

definition weight_of :: "queue_config \<Rightarrow> queue_entry \<Rightarrow> rat" where
  "weight_of cfg e = get_or (priority_weights cfg) (e_priority e) 1"

definition total_weight :: "queue_config \<Rightarrow> (bytes \<times> queue_entry) list \<Rightarrow> rat" where
  "total_weight cfg queue = sum_list (map (weight_of cfg \<circ> snd) (active_entries queue))"

definition share :: "rat \<Rightarrow> rat \<Rightarrow> int \<Rightarrow> int" where
  "share weight weights limit = max 0 (py_int (weight / weights * of_int limit))"

definition allocate_proportional :: "queue_config \<Rightarrow> int \<Rightarrow> int \<Rightarrow> (bytes \<times> queue_entry) list \<Rightarrow> (bytes \<times> queue_entry) list" where
  "allocate_proportional cfg down up queue =
     (let weights = total_weight cfg queue
      in on_active (\<lambda>e. e\<lparr>e_down := (if 0 < down then share (weight_of cfg e) weights down else e_down e),
                          e_up := (if 0 < up then share (weight_of cfg e) weights up else e_up e)\<rparr>) queue)"

definition allocate_equal :: "int \<Rightarrow> int \<Rightarrow> (bytes \<times> queue_entry) list \<Rightarrow> (bytes \<times> queue_entry) list" where
  "allocate_equal down up queue =
     (let n = int (length (active_entries queue))
      in on_active (\<lambda>e. e\<lparr>e_down := (if 0 < down then down div n else 0),
                          e_up := (if 0 < up then up div n else 0)\<rparr>) queue)"

definition allocate_fixed :: "queue_config \<Rightarrow> int \<Rightarrow> int \<Rightarrow> (bytes \<times> queue_entry) list \<Rightarrow> (bytes \<times> queue_entry) list" where
  "allocate_fixed cfg down up queue =
     on_active (\<lambda>e. let fixed = get_or (priority_bandwidth_kib cfg) (e_priority e) 0
        in e\<lparr>e_down := min fixed (if 0 < down then down else fixed),
             e_up := min fixed (if 0 < up then up else fixed)\<rparr>) queue"

text \<open>The calls of \<open>set_rate_limits\<close>, one for each active torrent.\<close>

definition rate_calls :: "(bytes \<times> queue_entry) list \<Rightarrow> (bytes \<times> int \<times> int) list" where
  "rate_calls queue = map (\<lambda>(h, e). (h, e_down e, e_up e)) (active_entries queue)"

definition allocate :: "queue_config \<Rightarrow> int \<Rightarrow> int \<Rightarrow> (bytes \<times> queue_entry) list
    \<Rightarrow> (bytes \<times> queue_entry) list \<times> (bytes \<times> int \<times> int) list" where
  "allocate cfg down up queue =
     (if active_entries queue = [] then (queue, [])
      else if allocation_mode cfg = PROPORTIONAL \<and> total_weight cfg queue = 0 then (queue, [])
      else let queue = (case allocation_mode cfg of
               PROPORTIONAL \<Rightarrow> allocate_proportional cfg down up queue
             | EQUAL \<Rightarrow> allocate_equal down up queue
             | FIXED \<Rightarrow> allocate_fixed cfg down up queue
             | MANUAL \<Rightarrow> queue)
        in (queue, rate_calls queue))"

definition allocate_bandwidth :: "int \<Rightarrow> int \<Rightarrow> queue_manager \<Rightarrow> queue_manager \<times> (bytes \<times> int \<times> int) list" where
  "allocate_bandwidth down up q =
     (let (queue, calls) = allocate (q_config q) down up (q_queue q) in (q\<lparr>q_queue := queue\<rparr>, calls))"

text \<open>\<open>set_priority\<close> allocates the bandwidth anew when the background task exists.\<close>

definition set_priority :: "int \<Rightarrow> int \<Rightarrow> bytes \<Rightarrow> torrent_priority \<Rightarrow> bool action" where
  "set_priority down up h p =
     qbind (with_queue_lock (set_priority_locked h p))
       (\<lambda>found q. if \<not> found then Done (Inr False, q)
          else Done (Inr True, let q = tell_priority h p q
             in if q_bandwidth_task q then fst (allocate_bandwidth down up q) else q))"

section \<open>The queue stays ordered\<close>

lemma set_positions_facts [simp]:
  "map fst (set_positions xs) = map fst xs"
  "map queue_key (set_positions xs) = map queue_key xs"
  "length (set_positions xs) = length xs"
  "map (e_position \<circ> snd) (set_positions xs) = [0..<length xs]"
proof -
  have z: "map snd (zip [0..<length xs] xs) = xs" "map fst (zip [0..<length xs] xs) = [0..<length xs]" by simp_all
  have "map fst (set_positions xs) = map fst (map snd (zip [0..<length xs] xs))"
    and "map queue_key (set_positions xs) = map queue_key (map snd (zip [0..<length xs] xs))"
    and "map (e_position \<circ> snd) (set_positions xs) = map fst (zip [0..<length xs] xs)"
    unfolding set_positions_def map_map
    by (rule map_cong [OF refl], simp add: queue_key_def case_prod_unfold)+
  then show "map fst (set_positions xs) = map fst xs" "map queue_key (set_positions xs) = map queue_key xs"
    "map (e_position \<circ> snd) (set_positions xs) = [0..<length xs]" unfolding z .
qed (simp add: set_positions_def)

lemma fst_set_positions [simp]: "fst ` set (set_positions xs) = fst ` set xs"
  by (metis list.set_map set_positions_facts(1))

text \<open>
  The part of the invariant that needs no lock: the queue is ordered, positions are the places in the
  queue, the active torrents are queued and in one of the two sets, and within their limits.
\<close>

definition queue_ordered :: "queue_manager \<Rightarrow> bool" where
  "queue_ordered q \<longleftrightarrow> distinct (map fst (q_queue q)) \<and> sorted (map queue_key (q_queue q)) \<and>
     map (e_position \<circ> snd) (q_queue q) = [0..<length (q_queue q)]"

definition active_ok :: "queue_manager \<Rightarrow> bool" where
  "active_ok q \<longleftrightarrow> distinct (q_downloading q) \<and> distinct (q_seeding q) \<and>
     set (q_downloading q) \<inter> set (q_seeding q) = {} \<and>
     set (q_downloading q) \<union> set (q_seeding q) \<subseteq> fst ` set (q_queue q)"

definition counts_ok :: "queue_manager \<Rightarrow> bool" where
  "counts_ok q \<longleftrightarrow> active_downloading (q_stats q) = length (q_downloading q) \<and>
     active_seeding (q_stats q) = length (q_seeding q)"

definition limits_ok :: "queue_manager \<Rightarrow> bool" where
  "limits_ok q \<longleftrightarrow>
     (max_active_downloading (q_config q) = 0 \<or> length (q_downloading q) \<le> max_active_downloading (q_config q)) \<and>
     (max_active_seeding (q_config q) = 0 \<or> length (q_seeding q) \<le> max_active_seeding (q_config q))"

definition queue_core :: "queue_manager \<Rightarrow> bool" where
  "queue_core q \<longleftrightarrow> queue_ordered q \<and> active_ok q \<and> counts_ok q \<and> limits_ok q"

lemmas queue_core_defs = queue_core_def queue_ordered_def active_ok_def counts_ok_def limits_ok_def

lemma queue_core_lock [simp]: "queue_core (q\<lparr>q_lock := b\<rparr>) = queue_core q"
  by (simp add: queue_core_defs)

lemma queue_core_sessions [simp]: "queue_core (q\<lparr>q_sessions := f\<rparr>) = queue_core q"
  by (simp add: queue_core_defs)

lemma queue_core_init: "queue_core (queue_manager_init cfg)"
  by (simp add: queue_core_defs queue_manager_init_def)

text \<open>Changes of an entry that keep its priority, time and position.\<close>

lemma update_entry_fst [simp]: "map fst (q_queue (update_entry h f q)) = map fst (q_queue q)"
  by (simp add: update_entry_def case_prod_unfold comp_def)

lemma update_entry_frame [simp]:
  "q_downloading (update_entry h f q) = q_downloading q" "q_seeding (update_entry h f q) = q_seeding q"
  "q_stats (update_entry h f q) = q_stats q" "q_config (update_entry h f q) = q_config q"
  "q_lock (update_entry h f q) = q_lock q" "q_sessions (update_entry h f q) = q_sessions q"
  "q_bandwidth_task (update_entry h f q) = q_bandwidth_task q"
  "length (q_queue (update_entry h f q)) = length (q_queue q)"
  by (simp_all add: update_entry_def)

lemma fst_update_entry [simp]: "fst ` set (q_queue (update_entry h f q)) = fst ` set (q_queue q)"
  by (metis list.set_map update_entry_fst)

lemma set_status_ordered [simp]: "queue_ordered (set_status h st q) = queue_ordered q"
proof -
  have "map queue_key (q_queue (set_status h st q)) = map queue_key (q_queue q)"
    "map (e_position \<circ> snd) (q_queue (set_status h st q)) = map (e_position \<circ> snd) (q_queue q)"
    by (simp_all add: set_status_def update_entry_def queue_key_def case_prod_unfold comp_def)
  then show ?thesis unfolding queue_ordered_def by (simp add: set_status_def)
qed

lemma map_of_update_entry: "map_of (q_queue (update_entry h f q)) k =
    (if k = h then map_option f (map_of (q_queue q) h) else map_of (q_queue q) k)"
proof -
  have "map_of (map (\<lambda>(k, e). (k, if k = h then f e else e)) xs) k =
      (if k = h then map_option f (map_of xs h) else map_of xs k)" for xs
    by (induction xs) auto
  then show ?thesis by (simp add: update_entry_def)
qed

lemma map_of_fst: "map_of xs h \<noteq> None \<longleftrightarrow> h \<in> fst ` set xs"
  by (simp add: map_of_eq_None_iff)

lemma reorder_ordered: "distinct (map fst (q_queue q)) \<Longrightarrow> queue_ordered (reorder_queue q)"
proof -
  assume d: "distinct (map fst (q_queue q))"
  have "distinct (map fst (sort_key queue_key (q_queue q)))"
  proof (rule distinct_map [THEN iffD2], rule conjI)
    show "distinct (sort_key queue_key (q_queue q))" using d by (simp add: distinct_map)
    show "inj_on fst (set (sort_key queue_key (q_queue q)))" using d by (simp add: distinct_map)
  qed
  then show ?thesis by (simp add: queue_ordered_def reorder_queue_def Let_def)
qed

lemma reorder_frame [simp]:
  "q_downloading (reorder_queue q) = q_downloading q" "q_seeding (reorder_queue q) = q_seeding q"
  "q_stats (reorder_queue q) = q_stats q" "q_config (reorder_queue q) = q_config q"
  "q_lock (reorder_queue q) = q_lock q" "q_bandwidth_task (reorder_queue q) = q_bandwidth_task q"
  "fst ` set (q_queue (reorder_queue q)) = fst ` set (q_queue q)"
  by (simp_all add: reorder_queue_def Let_def)

lemma update_statistics_frame [simp]:
  "q_downloading (update_statistics q) = q_downloading q" "q_seeding (update_statistics q) = q_seeding q"
  "q_queue (update_statistics q) = q_queue q" "q_config (update_statistics q) = q_config q"
  "q_lock (update_statistics q) = q_lock q" "q_sessions (update_statistics q) = q_sessions q"
  "queue_ordered (update_statistics q) = queue_ordered q" "active_ok (update_statistics q) = active_ok q"
  "limits_ok (update_statistics q) = limits_ok q"
  by (simp_all add: update_statistics_def queue_ordered_def active_ok_def limits_ok_def)

lemma counts_updated [simp]: "counts_ok (update_statistics q)"
  by (simp add: counts_ok_def update_statistics_def statistics_of_def)

lemma core_updated: "queue_ordered q \<Longrightarrow> active_ok q \<Longrightarrow> limits_ok q \<Longrightarrow> queue_core (update_statistics q)"
  by (simp add: queue_core_def)

lemma deactivate_facts:
  "active_ok q \<Longrightarrow> active_ok (deactivate h q)" "limits_ok q \<Longrightarrow> limits_ok (deactivate h q)"
  "queue_ordered (deactivate h q) = queue_ordered q" "q_queue (deactivate h q) = q_queue q"
proof -
  show "active_ok (deactivate h q)" if "active_ok q"
    using that by (auto simp: active_ok_def deactivate_def distinct_removeAll)
  show "limits_ok (deactivate h q)" if "limits_ok q"
    using that le_trans [OF length_removeAll_less_eq [of h "q_downloading q"]]
      le_trans [OF length_removeAll_less_eq [of h "q_seeding q"]]
    by (auto simp: limits_ok_def deactivate_def)
qed (simp_all add: deactivate_def queue_ordered_def)

lemma set_status_active [simp]:
  "active_ok (set_status h st q) = active_ok q" "limits_ok (set_status h st q) = limits_ok q"
  "counts_ok (set_status h st q) = counts_ok q"
  by (simp_all add: active_ok_def limits_ok_def counts_ok_def set_status_def)

section \<open>Operations return and keep the invariant\<close>

definition body_ok :: "'a action \<Rightarrow> bool" where
  "body_ok m \<longleftrightarrow> (\<forall>q. queue_core q \<longrightarrow> (\<exists>r q'. m q = Done (r, q') \<and> queue_core q'))"

definition keeps :: "'a action \<Rightarrow> bool" where
  "keeps m \<longleftrightarrow> (\<forall>q. queue_core q \<longrightarrow> \<not> q_lock q \<longrightarrow>
     (\<exists>r q'. m q = Done (r, q') \<and> queue_core q' \<and> \<not> q_lock q'))"

lemma body_okI: "(\<And>q. queue_core q \<Longrightarrow> \<exists>r q'. m q = Done (r, q') \<and> queue_core q') \<Longrightarrow> body_ok m"
  by (simp add: body_ok_def)

lemma body_okE:
  assumes "body_ok m" and "queue_core q"
  obtains r q' where "m q = Done (r, q')" and "queue_core q'"
  using assms by (auto simp: body_ok_def)

lemma keepsE:
  assumes "keeps m" and "queue_core q" and "\<not> q_lock q"
  obtains r q' where "m q = Done (r, q')" and "queue_core q'" and "\<not> q_lock q'"
  using assms by (auto simp: keeps_def)

lemma keeps_lock: "body_ok m \<Longrightarrow> keeps (with_queue_lock m)"
  unfolding keeps_def
proof (intro allI impI)
  fix q
  assume m: "body_ok m" and q: "queue_core q" "\<not> q_lock q"
  obtain r q' where "m (q\<lparr>q_lock := True\<rparr>) = Done (r, q')" "queue_core q'"
    by (rule body_okE [OF m, of "q\<lparr>q_lock := True\<rparr>"]) (use q in simp_all)
  then show "\<exists>r q'. with_queue_lock m q = Done (r, q') \<and> queue_core q' \<and> \<not> q_lock q'"
    using q by (simp add: with_queue_lock_def queue_lock.guarded_free)
qed

lemma keeps_returns [intro]: "keeps (returns x)"
  by (simp add: keeps_def)

lemma keeps_bind:
  assumes "keeps m" and "\<And>x. keeps (f q x)"
  shows "queue_core q \<Longrightarrow> \<not> q_lock q \<Longrightarrow> \<exists>r q'. qbind m (f q) q = Done (r, q') \<and> queue_core q' \<and> \<not> q_lock q'"
proof -
  assume "queue_core q" "\<not> q_lock q"
  then obtain r q' where m: "m q = Done (r, q')" "queue_core q'" "\<not> q_lock q'" by (rule keepsE [OF assms(1)])
  show ?thesis
  proof (cases r)
    case (Inr x)
    with m assms(2) [of x] show ?thesis by (auto simp: qbind_def keeps_def)
  qed (use m in \<open>auto simp: qbind_def\<close>)
qed

lemma keeps_bindI: "keeps m \<Longrightarrow> (\<And>x. keeps (f x)) \<Longrightarrow> keeps (qbind m f)"
  using keeps_bind [of m "\<lambda>_. f"] by (simp add: keeps_def)

lemma keeps_bind_state: "keeps m \<Longrightarrow> (\<And>q x. keeps (f q x)) \<Longrightarrow> keeps (\<lambda>q. qbind m (f q) q)"
  using keeps_bind [of m f] by (simp add: keeps_def)

lemma keeps_ite: "(c \<Longrightarrow> keeps m) \<Longrightarrow> (\<not> c \<Longrightarrow> keeps n) \<Longrightarrow> keeps (if c then m else n)"
  by simp

lemma call_session_keeps: "keeps (call_session call c h s)"
  by (auto simp: keeps_def call_session_def Let_def split: prod.splits)

subsection \<open>Starting\<close>

lemma activate_facts:
  assumes "queue_core q" and "can_start seeding q" and "h \<notin> set (q_downloading q) \<union> set (q_seeding q)"
    and "h \<in> fst ` set (q_queue q)"
  shows "active_ok (activate h seeding q)" and "limits_ok (activate h seeding q)"
    and "queue_ordered (activate h seeding q)"
  using assms
  by (auto simp: queue_core_defs activate_def set_add_def can_start_def Let_def split: if_splits)

lemma start_session_result:
  obtains r ss where "start_session call resume h s q = Done (r, q\<lparr>q_sessions := ss\<rparr>)"
proof (cases "s_status s = ''paused'' \<or> s_status s = ''stopped''")
  case True
  define c where "c = (if s_status s = ''paused'' then Resume else Start resume)"
  have "start_session call resume h s q = call_session call c h s q"
    using True by (auto simp add: start_session_def c_def)
  also have "\<dots> = Done (fst (call c h s), q\<lparr>q_sessions := (q_sessions q)(h \<mapsto> snd (call c h s))\<rparr>)"
    by (simp add: call_session_def case_prod_unfold Let_def)
  finally show ?thesis by (rule that)
next
  case False
  then have "start_session call resume h s q = Done (Inr (), q\<lparr>q_sessions := q_sessions q\<rparr>)"
    by (simp add: start_session_def)
  then show ?thesis by (rule that)
qed

lemma parts_sessions [simp]:
  "queue_ordered (q\<lparr>q_sessions := ss\<rparr>) = queue_ordered q" "active_ok (q\<lparr>q_sessions := ss\<rparr>) = active_ok q"
  "limits_ok (q\<lparr>q_sessions := ss\<rparr>) = limits_ok q"
  by (simp_all add: queue_ordered_def active_ok_def limits_ok_def)

lemma launch_core:
  assumes "queue_core q" and "can_start (is_seeding_session s) q"
    and "h \<notin> set (q_downloading q) \<union> set (q_seeding q)" and "h \<in> fst ` set (q_queue q)"
  shows "\<exists>r q'. launch call resume h s q = Done (r, q') \<and> queue_core q'"
proof -
  define t where "t = set_status h ''active'' (activate h (is_seeding_session s) q)"
  have t: "queue_ordered t" "active_ok t" "limits_ok t" using activate_facts [OF assms] by (simp_all add: t_def)
  obtain r ss where r: "start_session call resume h s t = Done (r, t\<lparr>q_sessions := ss\<rparr>)"
    by (rule start_session_result)
  then show ?thesis
    using t unfolding launch_def t_def [symmetric] by (auto intro: core_updated split: sum.splits)
qed

lemma try_start_ok: "body_ok (try_start_locked call resume h)"
proof (rule body_okI)
  fix q
  assume q: "queue_core q"
  show "\<exists>r q'. try_start_locked call resume h q = Done (r, q') \<and> queue_core q'"
  proof (cases "map_of (q_queue q) h")
    case None
    then show ?thesis using q by (simp add: try_start_locked_def)
  next
    case (Some e)
    then have h: "h \<in> fst ` set (q_queue q)" using map_of_fst [of "q_queue q" h] by simp
    have full: "queue_core (update_statistics (set_status h ''queued'' q))"
      using q by (intro core_updated) (simp_all add: queue_core_def)
    show ?thesis
      using launch_core [OF q _ _ h, of _ call resume] q full Some
      by (auto simp: try_start_locked_def split: option.splits)
  qed
qed

lemma try_start_keeps: "keeps (try_start_torrent call resume h)"
  unfolding try_start_torrent_def by (rule keeps_lock [OF try_start_ok])

lemma keeps_option: "keeps n \<Longrightarrow> (\<And>x. keeps (f x)) \<Longrightarrow> keeps (case p of None \<Rightarrow> n | Some x \<Rightarrow> f x)"
  by (cases p) simp_all

lemma try_start_next_keeps: "keeps (try_start_next_torrent call)"
  unfolding try_start_next_torrent_def
  by (intro keeps_bindI keeps_lock keeps_option keeps_returns try_start_keeps) (simp add: body_ok_def)

subsection \<open>The other operations\<close>

lemma reorder_core:
  assumes "distinct (map fst (q_queue q))" and "active_ok q" and "limits_ok q"
  shows "queue_core (update_statistics (reorder_queue q))"
proof (rule core_updated)
  show "queue_ordered (reorder_queue q)" by (rule reorder_ordered [OF assms(1)])
  show "active_ok (reorder_queue q)" using assms(2) by (simp add: active_ok_def)
  show "limits_ok (reorder_queue q)" using assms(3) by (simp add: limits_ok_def)
qed

lemma enqueue_ok: "body_ok (enqueue h priority now)"
proof (rule body_okI)
  fix q
  assume q: "queue_core q"
  show "\<exists>r q'. enqueue h priority now q = Done (r, q') \<and> queue_core q'"
  proof (cases "h \<in> fst ` set (q_queue q)")
    case True
    then show ?thesis using q map_of_fst [of "q_queue q" h] by (simp add: enqueue_def)
  next
    case False
    have "queue_core (update_statistics (reorder_queue (q\<lparr>q_queue := q_queue q @ [(h, e)]\<rparr>)))" for e
      using q False by (intro reorder_core) (auto simp: queue_core_defs)
    then show ?thesis using False map_of_fst [of "q_queue q" h] by (simp add: enqueue_def Let_def)
  qed
qed

lemma filtered_keys:
  assumes "queue_core q"
  shows "distinct (map fst (filter (\<lambda>(k, _). k \<noteq> h) (q_queue q)))"
    and "fst ` set (filter (\<lambda>(k, _). k \<noteq> h) (q_queue q)) = fst ` set (q_queue q) - {h}"
  using assms by (auto simp: queue_core_defs distinct_map inj_on_def)

lemma remove_ok: "body_ok (\<lambda>q. if map_of (q_queue q) h = None then Done (Inr False, q)
     else Done (Inr True, update_statistics (reorder_queue (deactivate h
            (q\<lparr>q_queue := filter (\<lambda>(k, _). k \<noteq> h) (q_queue q)\<rparr>)))))"
proof (rule body_okI)
  fix q
  assume q: "queue_core q"
  define t where "t = deactivate h (q\<lparr>q_queue := filter (\<lambda>(k, _). k \<noteq> h) (q_queue q)\<rparr>)"
  have "queue_core (update_statistics (reorder_queue t))"
  proof (rule reorder_core)
    have f: "q_queue t = filter (\<lambda>(k, _). k \<noteq> h) (q_queue q)" by (simp add: t_def deactivate_def)
    show "distinct (map fst (q_queue t))" unfolding f by (rule filtered_keys [OF q])
    have a: "active_ok (deactivate h q)" "limits_ok (deactivate h q)"
      using q by (simp_all add: deactivate_facts queue_core_def)
    have e: "q_downloading t = removeAll h (q_downloading q)" "q_seeding t = removeAll h (q_seeding q)"
      "q_config t = q_config q"
      by (simp_all add: t_def deactivate_def)
    show "limits_ok t" using a(2) by (simp add: limits_ok_def e) (simp add: deactivate_def)
    show "active_ok t"
      using a(1) unfolding active_ok_def e f filtered_keys(2) [OF q] by (auto simp: deactivate_def)
  qed
  then show "\<exists>r q'. (if map_of (q_queue q) h = None then Done (Inr False, q)
     else Done (Inr True, update_statistics (reorder_queue (deactivate h
            (q\<lparr>q_queue := filter (\<lambda>(k, _). k \<noteq> h) (q_queue q)\<rparr>))))) = Done (r, q') \<and> queue_core q'"
    using q unfolding t_def by auto
qed

lemma set_priority_ok: "body_ok (set_priority_locked h p)"
proof (rule body_okI)
  fix q
  assume q: "queue_core q"
  define t where "t = update_entry h (\<lambda>e. e\<lparr>e_priority := p\<rparr>) q"
  have "queue_core (update_statistics (reorder_queue t))"
    using q unfolding t_def by (intro reorder_core) (auto simp: queue_core_defs)
  then show "\<exists>r q'. set_priority_locked h p q = Done (r, q') \<and> queue_core q'"
    using q by (simp add: set_priority_locked_def t_def)
qed

lemma insert_filter_mset:
  fixes xs :: "('a \<times> 'b) list"
  assumes "distinct (map fst xs)" and "map_of xs h = Some e"
  shows "mset (insert_at i (h, e) (filter (\<lambda>(k, _). k \<noteq> h) xs)) = mset xs"
proof -
  have rest: "mset ((h, e) # filter (\<lambda>(k, _). k \<noteq> h) xs) = mset xs"
    using assms
  proof (induction xs)
    case (Cons x xs)
    show ?case
    proof (cases "fst x = h")
      case True
      then have "h \<notin> fst ` set xs" using Cons.prems(1) by auto
      then have "filter (\<lambda>(k, _). k \<noteq> h) xs = xs" by (force simp: filter_id_conv)
      then show ?thesis using True Cons.prems by (cases x) simp
    next
      case False
      then show ?thesis using Cons by (cases x) auto
    qed
  qed simp
  have "mset (insert_at i x ys) = mset (x # ys)" for x :: "'a \<times> 'b" and ys
  proof -
    have "mset (take i ys) + mset (drop i ys) = mset ys" by (metis mset_append append_take_drop_id)
    then show ?thesis by (simp add: insert_at_def)
  qed
  then show ?thesis using rest by (rule trans)
qed

lemma reorder_torrent_ok: "body_ok (\<lambda>q. case map_of (q_queue q) h of None \<Rightarrow> Done (Inr False, q)
     | Some e \<Rightarrow>
         if pos < 0 \<or> int (length (q_queue q)) \<le> pos then Done (Inr False, q)
         else Done (Inr True, reorder_queue (q\<lparr>q_queue :=
                insert_at (nat pos) (h, e) (filter (\<lambda>(k, _). k \<noteq> h) (q_queue q))\<rparr>)))"
proof (rule body_okI)
  fix q
  assume q: "queue_core q"
  have d: "distinct (map fst (q_queue q))" using q by (simp add: queue_core_defs)
  have "queue_core (reorder_queue (q\<lparr>q_queue :=
      insert_at (nat pos) (h, e) (filter (\<lambda>(k, _). k \<noteq> h) (q_queue q))\<rparr>))"
    if e: "map_of (q_queue q) h = Some e" for e
  proof -
    define xs where "xs = insert_at (nat pos) (h, e) (filter (\<lambda>(k, _). k \<noteq> h) (q_queue q))"
    have m: "mset xs = mset (q_queue q)" unfolding xs_def by (rule insert_filter_mset [OF d e])
    then have "mset (map fst xs) = mset (map fst (q_queue q))" by simp
    with d have dx: "distinct (map fst xs)" by (metis mset_eq_imp_distinct_iff)
    from m have s: "set xs = set (q_queue q)" by (metis set_mset_mset)
    have "queue_ordered (reorder_queue (q\<lparr>q_queue := xs\<rparr>))" by (rule reorder_ordered) (simp add: dx)
    with q s show ?thesis
      unfolding xs_def [symmetric] by (simp add: queue_core_def active_ok_def counts_ok_def limits_ok_def)
  qed
  then show "\<exists>r q'. (case map_of (q_queue q) h of None \<Rightarrow> Done (Inr False, q)
     | Some e \<Rightarrow>
         if pos < 0 \<or> int (length (q_queue q)) \<le> pos then Done (Inr False, q)
         else Done (Inr True, reorder_queue (q\<lparr>q_queue :=
                insert_at (nat pos) (h, e) (filter (\<lambda>(k, _). k \<noteq> h) (q_queue q))\<rparr>))) = Done (r, q') \<and> queue_core q'"
    using q by (auto split: option.splits)
qed

lemma pause_ok: "body_ok (pause_locked h)"
proof (rule body_okI)
  fix q
  assume q: "queue_core q"
  have "queue_core (update_statistics (deactivate h (set_status h ''paused'' q)))"
    using q by (intro core_updated) (simp_all add: queue_core_def deactivate_facts)
  then show "\<exists>r q'. pause_locked h q = Done (r, q') \<and> queue_core q'" using q by (simp add: pause_locked_def)
qed

lemma resume_ok: "body_ok (resume_locked h)"
proof (rule body_okI)
  fix q
  assume q: "queue_core q"
  then have "queue_core (set_status h ''queued'' q)" by (simp add: queue_core_def)
  with q show "\<exists>r q'. resume_locked h q = Done (r, q') \<and> queue_core q'"
    by (cases "map_of (q_queue q) h") (simp_all add: resume_locked_def)
qed

lemma tell_started_keeps: "keeps (tell_started h p)"
  unfolding keeps_def
proof (intro allI impI)
  fix q :: queue_manager
  assume q: "queue_core q" "\<not> q_lock q"
  show "\<exists>r q'. tell_started h p q = Done (r, q') \<and> queue_core q' \<and> \<not> q_lock q'"
  proof (cases "q_sessions q h")
    case (Some s)
    define b :: "unit action" where "b q = Done (Inr () :: unit py, case map_of (q_queue q) h of None \<Rightarrow> q
            | Some e \<Rightarrow> q\<lparr>q_sessions := (q_sessions q)(h \<mapsto> s\<lparr>info_priority := p, info_position := e_position e\<rparr>)\<rparr>)" for q
    have "body_ok b" by (rule body_okI) (auto simp: b_def split: option.splits)
    then have k: "keeps (with_queue_lock b)" by (rule keeps_lock)
    have "tell_started h p q = with_queue_lock b (q\<lparr>q_sessions := (q_sessions q)(h \<mapsto> s\<lparr>info_priority := p\<rparr>)\<rparr>)"
      by (simp add: tell_started_def Some b_def [abs_def])
    then show ?thesis using k q by (simp add: keeps_def)
  qed (use q in \<open>simp add: tell_started_def\<close>)
qed

lemma pause_session_keeps: "keeps (pause_session call h)"
  by (auto simp: keeps_def pause_session_def call_session_def Let_def split: option.splits prod.splits)

lemma allocate_core: "queue_core (fst (allocate_bandwidth down up q)) = queue_core q"
proof -
  define xs where "xs = fst (allocate (q_config q) down up (q_queue q))"
  have "map fst (on_active f ys) = map fst ys \<and> map queue_key (on_active f ys) = map queue_key ys \<and>
      map (e_position \<circ> snd) (on_active f ys) = map (e_position \<circ> snd) ys"
    if "\<And>e. e_priority (f e) = e_priority e \<and> e_added (f e) = e_added e \<and> e_position (f e) = e_position e"
    for f and ys :: "(bytes \<times> queue_entry) list"
    using that by (auto simp: on_active_def queue_key_def)
  then have x: "map fst xs = map fst (q_queue q)" "map queue_key xs = map queue_key (q_queue q)"
    "map (e_position \<circ> snd) xs = map (e_position \<circ> snd) (q_queue q)"
    unfolding xs_def allocate_def allocate_proportional_def allocate_equal_def allocate_fixed_def Let_def
    by (auto split: bandwidth_allocation_mode.splits)
  from x(1) have l: "length xs = length (q_queue q)" by (metis length_map)
  from x(1) have s: "fst ` set xs = fst ` set (q_queue q)" by (metis list.set_map)
  have "fst (allocate_bandwidth down up q) = q\<lparr>q_queue := xs\<rparr>"
    by (simp add: allocate_bandwidth_def xs_def case_prod_unfold Let_def)
  then show ?thesis by (simp add: queue_core_defs x l s)
qed

lemma allocate_lock [simp]: "q_lock (fst (allocate_bandwidth down up q)) = q_lock q"
  by (simp add: allocate_bandwidth_def case_prod_unfold Let_def)

lemma set_priority_keeps: "keeps (set_priority down up h p)"
  unfolding set_priority_def
proof (rule keeps_bindI [OF keeps_lock [OF set_priority_ok]])
  fix found
  have "queue_core (tell_priority h p q) = queue_core q" "q_lock (tell_priority h p q) = q_lock q" for q
    by (simp_all add: tell_priority_def split: option.splits)
  then show "keeps (\<lambda>q. if \<not> found then Done (Inr False, q)
          else Done (Inr True, let q = tell_priority h p q
             in if q_bandwidth_task q then fst (allocate_bandwidth down up q) else q))"
    by (simp add: keeps_def Let_def allocate_core)
qed

lemma add_torrent_keeps: "keeps (add_torrent call h priority auto_start resume now)"
  unfolding add_torrent_def
  by (intro keeps_bind_state keeps_bindI keeps_ite keeps_lock enqueue_ok try_start_keeps tell_started_keeps keeps_returns)

lemma remove_torrent_keeps: "keeps (remove_torrent h)"
  unfolding remove_torrent_def by (rule keeps_lock [OF remove_ok])

lemma reorder_torrent_keeps: "keeps (reorder_torrent h pos)"
  unfolding reorder_torrent_def by (rule keeps_lock [OF reorder_torrent_ok])

lemma pause_torrent_keeps: "keeps (pause_torrent call h)"
  unfolding pause_torrent_def
  by (intro keeps_bind_state keeps_bindI keeps_ite keeps_lock pause_ok pause_session_keeps try_start_next_keeps keeps_returns)

lemma resume_torrent_keeps: "keeps (resume_torrent call h)"
  unfolding resume_torrent_def
  by (intro keeps_bind_state keeps_bindI keeps_ite keeps_lock resume_ok try_start_keeps keeps_returns)

lemma queries_keep: "keeps get_queue_status" "keeps (get_torrent_queue_state h)"
  unfolding get_queue_status_def get_torrent_queue_state_def by (rule keeps_lock, simp add: body_ok_def)+

section \<open>The queue as an object\<close>

text \<open>What clients and the background tasks do, except a round of the monitor.\<close>

datatype queue_call =
    Add_torrent bytes "torrent_priority option" bool bool rat
  | Remove_torrent bytes
  | Set_priority bytes torrent_priority
  | Reorder_torrent bytes int
  | Pause_torrent bytes
  | Resume_torrent bytes
  | Try_start_next
  | Get_queue_status
  | Get_torrent_queue_state bytes

definition ignoring :: "'a action \<Rightarrow> unit action" where
  "ignoring m = qbind m (\<lambda>_. returns ())"

primrec perform :: "sessions_behaviour \<Rightarrow> int \<times> int \<Rightarrow> queue_call \<Rightarrow> unit action" where
  "perform call caps (Add_torrent h p auto res now) = ignoring (add_torrent call h p auto res now)"
| "perform call caps (Remove_torrent h) = ignoring (remove_torrent h)"
| "perform call caps (Set_priority h p) = ignoring (set_priority (fst caps) (snd caps) h p)"
| "perform call caps (Reorder_torrent h pos) = ignoring (reorder_torrent h pos)"
| "perform call caps (Pause_torrent h) = ignoring (pause_torrent call h)"
| "perform call caps (Resume_torrent h) = ignoring (resume_torrent call h)"
| "perform call caps Try_start_next = try_start_next_torrent call"
| "perform call caps Get_queue_status = ignoring get_queue_status"
| "perform call caps (Get_torrent_queue_state h) = ignoring (get_torrent_queue_state h)"

text \<open>A step of the object: a call, an allocation of bandwidth, or a change of the sessions from outside.\<close>

datatype queue_event = Calls queue_call | Allocates | Starts | Stops | Sessions_become "bytes \<Rightarrow> session option"

primrec queue_step :: "sessions_behaviour \<Rightarrow> int \<times> int \<Rightarrow> queue_event \<Rightarrow> queue_manager \<Rightarrow> queue_manager" where
  "queue_step call caps (Calls c) q = (case perform call caps c q of Done (_, q') \<Rightarrow> q' | Waits q' \<Rightarrow> q')"
| "queue_step call caps Allocates q = fst (allocate_bandwidth (fst caps) (snd caps) q)"
| "queue_step call caps Starts q = queue_start q"
| "queue_step call caps Stops q = queue_stop q"
| "queue_step call caps (Sessions_become ss) q = q\<lparr>q_sessions := ss\<rparr>"

lemma perform_keeps: "keeps (perform call caps c)"
  by (cases c) (auto simp: ignoring_def intro!: keeps_bindI add_torrent_keeps remove_torrent_keeps set_priority_keeps
      reorder_torrent_keeps pause_torrent_keeps resume_torrent_keeps try_start_next_keeps queries_keep)

definition queue_inv :: "queue_manager \<Rightarrow> bool" where
  "queue_inv q \<longleftrightarrow> queue_core q \<and> \<not> q_lock q"

lemma queue_start_stop: "queue_inv q \<Longrightarrow> queue_inv (queue_start q)" "queue_inv q \<Longrightarrow> queue_inv (queue_stop q)"
  by (simp_all add: queue_inv_def queue_core_defs queue_start_def queue_stop_def)

interpretation queue: operations "queue_step call caps" queue_inv for call caps
proof
  fix q e
  assume "queue_inv q"
  then show "queue_inv (queue_step call caps e q)"
  proof (cases e)
    case (Calls c)
    show ?thesis
      by (rule keepsE [OF perform_keeps, of q call caps c]) (use \<open>queue_inv q\<close> Calls in \<open>auto simp: queue_inv_def\<close>)
  qed (auto simp: queue_inv_def allocate_core queue_start_stop [unfolded queue_inv_def])
qed

end
