(* ===== verification/Queue_Limits.thy ===== *)
theory Queue_Limits
  imports Queue_Manager
begin

text \<open>
  What the limits of the torrent queue stop, what the object keeps in every run, the calls that wait
  for ever or have no effect, and the shares of bandwidth.
\<close>

section \<open>Limits: what is stopped\<close>

definition key_of :: "queue_manager \<Rightarrow> bytes \<Rightarrow> int \<times> rat" where
  "key_of q h = queue_key (h, the (map_of (q_queue q) h))"

definition pauses_return :: "sessions_behaviour \<Rightarrow> bool" where
  "pauses_return call \<longleftrightarrow> (\<forall>h s. fst (call Pause h s) = Inr ())"

text \<open>\<open>q'\<close> is \<open>q\<close> with the torrents \<open>hs\<close> stopped.\<close>

definition stopped :: "bytes list \<Rightarrow> queue_manager \<Rightarrow> queue_manager \<Rightarrow> bool" where
  "stopped hs q q' \<longleftrightarrow>
     q_downloading q' = filter (\<lambda>h. h \<notin> set hs) (q_downloading q) \<and>
     q_seeding q' = filter (\<lambda>h. h \<notin> set hs) (q_seeding q) \<and>
     fst ` set (q_queue q') = fst ` set (q_queue q) \<and> q_config q' = q_config q \<and> key_of q' = key_of q"

lemma stopped_refl: "stopped [] q q"
  by (simp add: stopped_def)

lemma stopped_trans: "stopped hs q q' \<Longrightarrow> stopped ks q' q'' \<Longrightarrow> stopped (hs @ ks) q q''"
  by (simp add: stopped_def filter_filter conj_commute)

lemma key_of_status [simp]: "fst ` set (q_queue (set_status h st q)) = fst ` set (q_queue q)"
    "h \<in> fst ` set (q_queue q) \<Longrightarrow> key_of (set_status h st q) = key_of q"
proof -
  assume "h \<in> fst ` set (q_queue q)"
  then have h: "map_of (q_queue q) h \<noteq> None" by (simp only: map_of_fst not_False_eq_True)
  have "key_of (set_status h st q) k = key_of q k" for k
    using h by (cases "k = h") (auto simp: key_of_def set_status_def map_of_update_entry queue_key_def)
  then show "key_of (set_status h st q) = key_of q" by blast
qed (simp add: set_status_def)

lemma pause_internal_stops:
  assumes "pauses_return call" and "h \<in> fst ` set (q_queue q)"
  obtains q' where "pause_torrent_internal call h q = Done (Inr (), q')" and "stopped [h] q q'"
proof -
  define t where "t = deactivate h (set_status h ''queued'' q)"
  have r: "removeAll h xs = filter (\<lambda>k. k \<noteq> h) xs" for xs :: "bytes list"
    unfolding removeAll_filter_not_eq by (rule filter_cong) auto
  have t: "q_queue t = q_queue (set_status h ''queued'' q)" by (simp add: t_def deactivate_def)
  have "key_of t = key_of (set_status h ''queued'' q)" by (simp add: key_of_def fun_eq_iff t)
  then have st: "stopped [h] q t"
    using assms(2) by (simp add: stopped_def t) (simp add: t_def deactivate_def set_status_def r)
  have sess: "stopped [h] q (t\<lparr>q_sessions := ss\<rparr>)" for ss
    using st by (simp add: stopped_def key_of_def fun_eq_iff)
  have "map_of (q_queue q) h \<noteq> None" using assms(2) by (simp only: map_of_fst not_False_eq_True)
  then have p: "pause_torrent_internal call h q = pause_session call h t"
    by (auto simp add: pause_torrent_internal_def t_def)
  show ?thesis
  proof (cases "q_sessions t h")
    case None
    then show ?thesis using p st that by (simp add: pause_session_def)
  next
    case (Some s)
    have "fst (call Pause h s) = Inr ()" using assms(1) by (simp add: pauses_return_def)
    then have "pause_session call h t = Done (Inr (), t\<lparr>q_sessions := (q_sessions t)(h \<mapsto> snd (call Pause h s))\<rparr>)"
      by (simp add: pause_session_def Some call_session_def case_prod_unfold Let_def)
    with p sess that show ?thesis by simp
  qed
qed

lemma pause_all_stops:
  assumes "pauses_return call" and "set hs \<subseteq> fst ` set (q_queue q)"
  obtains q' where "pause_all call hs q = Done (Inr (), q')" and "stopped hs q q'"
  using assms(2)
proof (induction hs arbitrary: q thesis)
  case Nil
  then show ?case using stopped_refl by simp
next
  case (Cons h hs)
  obtain q1 where q1: "pause_torrent_internal call h q = Done (Inr (), q1)" "stopped [h] q q1"
    by (rule pause_internal_stops [OF assms(1), of h q]) (use Cons.prems in auto)
  then have "set hs \<subseteq> fst ` set (q_queue q1)" using Cons.prems by (simp add: stopped_def)
  then obtain q2 where q2: "pause_all call hs q1 = Done (Inr (), q2)" "stopped hs q1 q2"
    using Cons.IH by blast
  show ?case
    by (rule Cons.prems(1) [of q2]) (use q1 q2 stopped_trans [of "[h]" q q1 hs q2] in simp_all)
qed

lemma lowest_first_mset:
  assumes "set active \<subseteq> fst ` set queue"
  shows "mset (lowest_first queue active) = mset active"
proof -
  have "filter (\<lambda>h. map_of queue h \<noteq> None) active = active"
    using assms by (auto simp: filter_id_conv map_of_fst [unfolded not_None_eq])
  then show ?thesis by (simp add: lowest_first_def image_mset.compositionality comp_def)
qed

text \<open>The stopped torrents come after the kept ones in the order of the queue.\<close>

lemma lowest_first_order:
  assumes "h \<in> set (take k (lowest_first (q_queue q) active))"
    and "g \<in> set (lowest_first (q_queue q) active)" and "g \<notin> set (take k (lowest_first (q_queue q) active))"
  shows "key_of q g \<le> key_of q h"
proof -
  define xs where "xs = sort_key reverse_key
      (map (\<lambda>h. (h, the (map_of (q_queue q) h))) (filter (\<lambda>h. map_of (q_queue q) h \<noteq> None) active))"
  have l: "lowest_first (q_queue q) active = map fst xs" by (simp add: lowest_first_def xs_def)
  have s: "sorted (map reverse_key xs)" by (simp add: xs_def)
  have e: "x = (fst x, the (map_of (q_queue q) (fst x)))" if "x \<in> set xs" for x
    using that by (auto simp: xs_def)
  obtain x where x: "x \<in> set (take k xs)" "fst x = h" using assms(1) by (auto simp: l take_map)
  obtain y where y: "y \<in> set xs" "fst y = g" using assms(2) by (auto simp: l)
  have "y \<notin> set (take k xs)" using assms(3) y(2) by (auto simp: l take_map)
  then have "y \<in> set (drop k xs)" using y(1) by (metis Un_iff append_take_drop_id set_append)
  moreover have "sorted (map reverse_key (take k xs) @ map reverse_key (drop k xs))"
    using s by (metis append_take_drop_id map_append)
  ultimately have "reverse_key x \<le> reverse_key y" using x(1) by (auto simp: sorted_append)
  moreover have "x \<in> set xs" using x(1) by (rule in_set_takeD)
  then have "reverse_key x = reverse_key (h, the (map_of (q_queue q) h))" using e x(2) by metis
  moreover have "reverse_key y = reverse_key (g, the (map_of (q_queue q) g))" using e y by metis
  ultimately show ?thesis by (auto simp: key_of_def queue_key_def reverse_key_def)
qed

lemma length_without:
  assumes "distinct active" and "distinct hs" and "set hs \<subseteq> set active"
  shows "length (filter (\<lambda>h. h \<notin> set hs) active) = length active - length hs"
proof -
  have "length (filter (\<lambda>h. h \<notin> set hs) active) = card (set active - set hs)"
    using assms(1) by (metis distinct_card distinct_filter set_diff_eq set_filter)
  then show ?thesis using assms by (simp add: card_Diff_subset distinct_card)
qed

lemma take_lowest:
  fixes k :: nat
  assumes "set active \<subseteq> fst ` set queue" and "distinct active"
  defines "hs \<equiv> take k (lowest_first queue active)"
  shows "distinct hs" and "set hs \<subseteq> set active" and "length hs = min k (length active)"
    and "length (filter (\<lambda>h. h \<notin> set hs) active) = length active - k"
proof -
  have m: "mset (lowest_first queue active) = mset active" by (rule lowest_first_mset [OF assms(1)])
  have "distinct (lowest_first queue active)" using m assms(2) by (metis mset_eq_imp_distinct_iff)
  then show d: "distinct hs" by (simp add: hs_def)
  have "set (lowest_first queue active) = set active" using m by (metis set_mset_mset)
  then show s: "set hs \<subseteq> set active" using set_take_subset [of k "lowest_first queue active"] by (simp add: hs_def)
  have "length (lowest_first queue active) = length active" using m by (metis size_mset)
  then show l: "length hs = min k (length active)" by (simp add: hs_def min.commute)
  show "length (filter (\<lambda>h. h \<notin> set hs) active) = length active - k"
    using length_without [OF assms(2) d s] l by simp
qed

text \<open>One limit.\<close>

lemma enforce_limit_stops:
  assumes "pauses_return call" and "set (active q) \<subseteq> fst ` set (q_queue q)" and "distinct (active q)"
  obtains q' hs where "enforce_limit call active limit q = Done (Inr (), q')" and "stopped hs q q'"
    and "set hs \<subseteq> set (active q)" and "distinct hs"
    and "limit = 0 \<or> length (filter (\<lambda>h. h \<notin> set hs) (active q)) \<le> limit"
    and "\<forall>h g. h \<in> set hs \<longrightarrow> g \<in> set (active q) \<longrightarrow> g \<notin> set hs \<longrightarrow> key_of q g \<le> key_of q h"
proof (cases "0 < limit \<and> limit < length (active q)")
  case False
  show ?thesis
    by (rule that [of q "[]"]) (use False stopped_refl in \<open>auto simp: enforce_limit_def\<close>)
next
  case True
  define hs where "hs = take (length (active q) - limit) (lowest_first (q_queue q) (active q))"
  note hs = take_lowest [OF assms(2,3), of "length (active q) - limit", folded hs_def]
  obtain q' where q': "pause_all call hs q = Done (Inr (), q')" "stopped hs q q'"
    by (rule pause_all_stops [OF assms(1), of hs q]) (use hs(2) assms(2) in auto)
  have lo: "key_of q g \<le> key_of q h" if "h \<in> set hs" "g \<in> set (active q)" "g \<notin> set hs" for h g
  proof (rule lowest_first_order)
    show "h \<in> set (take (length (active q) - limit) (lowest_first (q_queue q) (active q)))"
      using that(1) unfolding hs_def .
    show "g \<notin> set (take (length (active q) - limit) (lowest_first (q_queue q) (active q)))"
      using that(3) unfolding hs_def .
    show "g \<in> set (lowest_first (q_queue q) (active q))"
      using lowest_first_mset [OF assms(2)] that(2) by (metis set_mset_mset)
  qed
  show ?thesis
    by (rule that [of q' hs]) (use True q' hs lo in \<open>auto simp: enforce_limit_def hs_def [symmetric]\<close>)
qed

lemma all_active_facts:
  "set (all_active q) = set (q_downloading q) \<union> set (q_seeding q)"
  "distinct (q_downloading q) \<Longrightarrow> distinct (q_seeding q) \<Longrightarrow> distinct (all_active q)"
  by (auto simp: all_active_def)

lemma all_active_length:
  assumes "set (q_downloading q) \<inter> set (q_seeding q) = {}"
  shows "all_active q = q_downloading q @ q_seeding q"
proof -
  have "filter (\<lambda>h. h \<notin> set (q_downloading q)) (q_seeding q) = q_seeding q"
    using assms by (auto simp: filter_id_conv)
  then show ?thesis by (simp add: all_active_def)
qed

lemma stopped_active_ok: "stopped hs q q' \<Longrightarrow> active_ok q \<Longrightarrow> active_ok q'"
  unfolding stopped_def active_ok_def by (elim conjE) (simp, blast)

lemma enforce_total_stops:
  assumes "pauses_return call" and "active_ok q"
  obtains q' hs where "enforce_total call q = Done (Inr (), q')" and "stopped hs q q'"
    and "set hs \<subseteq> set (all_active q)"
    and "max_active_torrents (q_config q) = 0 \<or>
      length (q_downloading q') + length (q_seeding q') \<le> max_active_torrents (q_config q)"
    and "\<forall>h g. h \<in> set hs \<longrightarrow> g \<in> set (all_active q) \<longrightarrow> g \<notin> set hs \<longrightarrow> key_of q g \<le> key_of q h"
proof -
  have d: "set (q_downloading q) \<inter> set (q_seeding q) = {}" using assms(2) by (simp add: active_ok_def)
  have len: "length (all_active q) = length (q_downloading q) + length (q_seeding q)"
    by (simp add: all_active_length [OF d])
  have same: "enforce_total call q = enforce_limit call all_active (max_active_torrents (q_config q)) q"
    by (simp add: enforce_total_def enforce_limit_def Let_def len)
  have known: "set (all_active q) \<subseteq> fst ` set (q_queue q)" "distinct (all_active q)"
    using assms(2) by (simp_all add: all_active_facts active_ok_def)
  obtain hs q' where r: "enforce_limit call all_active (max_active_torrents (q_config q)) q = Done (Inr (), q')"
    "stopped hs q q'" "set hs \<subseteq> set (all_active q)" "distinct hs"
    "max_active_torrents (q_config q) = 0 \<or>
       length (filter (\<lambda>h. h \<notin> set hs) (all_active q)) \<le> max_active_torrents (q_config q)"
    "\<forall>h g. h \<in> set hs \<longrightarrow> g \<in> set (all_active q) \<longrightarrow> g \<notin> set hs \<longrightarrow> key_of q g \<le> key_of q h"
    by (rule enforce_limit_stops [where active = all_active and q = q and limit = "max_active_torrents (q_config q)",
          OF assms(1) known])
  have f: "length (filter (\<lambda>h. h \<notin> set hs) (all_active q)) = length (q_downloading q') + length (q_seeding q')"
    using r(2) by (simp add: all_active_length [OF d] stopped_def)
  show ?thesis
    by (rule that [of q' hs]) (use r same f in simp_all)
qed

text \<open>\<open>_enforce_queue_limits\<close> as a whole.\<close>

lemma enforce_all:
  assumes "pauses_return call" and "active_ok q"
  obtains q' hs where "enforce_locked call q = Done (Inr (), q')" and "stopped hs q q'"
    and "limits_ok q'" and "counts_ok q'"
    and "max_active_torrents (q_config q) = 0 \<or>
      length (q_downloading q') + length (q_seeding q') \<le> max_active_torrents (q_config q)"
    and "\<forall>h g. h \<in> set (q_downloading q) \<longrightarrow> h \<notin> set (q_downloading q') \<longrightarrow> g \<in> set (q_downloading q') \<longrightarrow>
      key_of q g \<le> key_of q h"
    and "\<forall>h g. h \<in> set (q_seeding q) \<longrightarrow> h \<notin> set (q_seeding q') \<longrightarrow> g \<in> set (q_seeding q') \<longrightarrow>
      key_of q g \<le> key_of q h"
proof -
  let ?cfg = "q_config q"
  have a: "set (q_downloading q) \<subseteq> fst ` set (q_queue q)" "distinct (q_downloading q)"
    "set (q_downloading q) \<inter> set (q_seeding q) = {}" using assms(2) by (simp_all add: active_ok_def)
  obtain hs1 q1 where s1: "enforce_limit call q_downloading (max_active_downloading ?cfg) q = Done (Inr (), q1)"
    "stopped hs1 q q1" "set hs1 \<subseteq> set (q_downloading q)" "distinct hs1"
    "max_active_downloading ?cfg = 0 \<or> length (filter (\<lambda>h. h \<notin> set hs1) (q_downloading q)) \<le> max_active_downloading ?cfg"
    "\<forall>h g. h \<in> set hs1 \<longrightarrow> g \<in> set (q_downloading q) \<longrightarrow> g \<notin> set hs1 \<longrightarrow> key_of q g \<le> key_of q h"
    by (rule enforce_limit_stops [where active = q_downloading and q = q and limit = "max_active_downloading ?cfg", OF assms(1) a(1,2)])
  have ok1: "active_ok q1" by (rule stopped_active_ok [OF s1(2) assms(2)])
  have b: "set (q_seeding q1) \<subseteq> fst ` set (q_queue q1)" "distinct (q_seeding q1)" using ok1 by (simp_all add: active_ok_def)
  obtain hs2 q2 where s2: "enforce_limit call q_seeding (max_active_seeding (q_config q1)) q1 = Done (Inr (), q2)"
    "stopped hs2 q1 q2" "set hs2 \<subseteq> set (q_seeding q1)" "distinct hs2"
    "max_active_seeding (q_config q1) = 0 \<or> length (filter (\<lambda>h. h \<notin> set hs2) (q_seeding q1)) \<le> max_active_seeding (q_config q1)"
    "\<forall>h g. h \<in> set hs2 \<longrightarrow> g \<in> set (q_seeding q1) \<longrightarrow> g \<notin> set hs2 \<longrightarrow> key_of q1 g \<le> key_of q1 h"
    by (rule enforce_limit_stops [where active = q_seeding and q = q1 and limit = "max_active_seeding (q_config q1)", OF assms(1) b])
  have ok2: "active_ok q2" by (rule stopped_active_ok [OF s2(2) ok1])
  obtain hs3 q3 where s3: "enforce_total call q2 = Done (Inr (), q3)" "stopped hs3 q2 q3"
    "set hs3 \<subseteq> set (all_active q2)"
    "max_active_torrents (q_config q2) = 0 \<or>
      length (q_downloading q3) + length (q_seeding q3) \<le> max_active_torrents (q_config q2)"
    "\<forall>h g. h \<in> set hs3 \<longrightarrow> g \<in> set (all_active q2) \<longrightarrow> g \<notin> set hs3 \<longrightarrow> key_of q2 g \<le> key_of q2 h"
    by (rule enforce_total_stops [OF assms(1) ok2])
  define q' where "q' = update_statistics q3"
  have cfg: "q_config q1 = ?cfg" "q_config q2 = ?cfg" "q_config q3 = ?cfg"
    and keys: "key_of q1 = key_of q" "key_of q2 = key_of q"
    using s1(2) s2(2) s3(2) by (simp_all add: stopped_def)
  have run: "enforce_locked call q = Done (Inr (), q')"
    using s1(1) s2(1) s3(1) cfg by (simp add: enforce_locked_def q'_def)
  have dl: "q_downloading q1 = filter (\<lambda>h. h \<notin> set hs1) (q_downloading q)" "q_downloading q2 = filter (\<lambda>h. h \<notin> set hs2) (q_downloading q1)"
    "q_downloading q' = filter (\<lambda>h. h \<notin> set hs3) (q_downloading q2)"
    and sd: "q_seeding q1 = filter (\<lambda>h. h \<notin> set hs1) (q_seeding q)" "q_seeding q2 = filter (\<lambda>h. h \<notin> set hs2) (q_seeding q1)"
    "q_seeding q' = filter (\<lambda>h. h \<notin> set hs3) (q_seeding q2)"
    using s1(2) s2(2) s3(2) by (simp_all add: stopped_def q'_def)
  have st: "stopped (hs1 @ hs2 @ hs3) q q'"
  proof -
    have "stopped (hs1 @ hs2 @ hs3) q q3" using stopped_trans [OF s1(2) stopped_trans [OF s2(2) s3(2)]] .
    then show ?thesis by (simp add: stopped_def q'_def key_of_def fun_eq_iff)
  qed
  have lim: "limits_ok q'"
  proof -
    have "length (q_downloading q') \<le> length (q_downloading q1)"
      unfolding dl(2,3) by (metis le_trans length_filter_le)
    moreover have "length (q_seeding q') \<le> length (q_seeding q2)" unfolding sd(3) by (rule length_filter_le)
    ultimately show ?thesis
      using s1(5) s2(5) unfolding limits_ok_def dl(1) [symmetric] sd(2) [symmetric]
      by (auto simp: q'_def cfg)
  qed
  have disj: "set hs2 \<inter> set (q_downloading q) = {}" using s2(3) a(3) by (auto simp: sd)
  have disj1: "set hs1 \<inter> set (q_seeding q) = {}" using s1(3) a(3) by auto
  have odl: "key_of q g \<le> key_of q h"
    if h: "h \<in> set (q_downloading q)" "h \<notin> set (q_downloading q')" "g \<in> set (q_downloading q')" for h g
  proof (cases "h \<in> set hs1")
    case True
    then show ?thesis using s1(6) [rule_format, of h g] h(3) by (auto simp: dl)
  next
    case False
    then have "h \<in> set hs3" using h disj by (auto simp: dl)
    then show ?thesis using s3(5) [rule_format, of h g] h(3) by (auto simp: dl keys all_active_facts)
  qed
  have osd: "key_of q g \<le> key_of q h"
    if h: "h \<in> set (q_seeding q)" "h \<notin> set (q_seeding q')" "g \<in> set (q_seeding q')" for h g
  proof (cases "h \<in> set hs2")
    case True
    then show ?thesis using s2(6) [rule_format, of h g] h(3) by (auto simp: sd keys)
  next
    case False
    then have "h \<in> set hs3" using h disj1 by (auto simp: sd)
    then show ?thesis using s3(5) [rule_format, of h g] h(3) by (auto simp: sd keys all_active_facts)
  qed
  show ?thesis
  proof (rule that [OF run st lim])
    show "counts_ok q'" by (simp add: q'_def)
    show "max_active_torrents ?cfg = 0 \<or>
      length (q_downloading q') + length (q_seeding q') \<le> max_active_torrents ?cfg"
      using s3(4) by (simp add: cfg q'_def)
  qed (use odl osd in blast)+
qed

text \<open>
  C37: Enforcing the limits. With the lock free, the active sets in order and \<open>pause\<close> calls that
  return, \<open>_enforce_queue_limits\<close> returns with the number of downloading, of seeding and of all
  active torrents within the configured limits (0 means none), the statistics right, and only the
  torrents that come last in the order of the queue (priority, then time) stopped.
\<close>

theorem limits_enforced:
  assumes "pauses_return call" and "active_ok q" and "\<not> q_lock q"
  shows "\<exists>q'. enforce_queue_limits call q = Done (Inr (), q') \<and> \<not> q_lock q' \<and> limits_ok q' \<and> counts_ok q' \<and>
    (max_active_torrents (q_config q) = 0 \<or>
       length (q_downloading q') + length (q_seeding q') \<le> max_active_torrents (q_config q)) \<and>
    set (q_downloading q') \<subseteq> set (q_downloading q) \<and> set (q_seeding q') \<subseteq> set (q_seeding q) \<and>
    (\<forall>h g. h \<in> set (q_downloading q) - set (q_downloading q') \<longrightarrow> g \<in> set (q_downloading q') \<longrightarrow>
       key_of q g \<le> key_of q h) \<and>
    (\<forall>h g. h \<in> set (q_seeding q) - set (q_seeding q') \<longrightarrow> g \<in> set (q_seeding q') \<longrightarrow> key_of q g \<le> key_of q h)"
proof -
  let ?u = "q\<lparr>q_lock := True\<rparr>"
  have u: "active_ok ?u" using assms(2) by (simp add: active_ok_def)
  have k: "key_of ?u = key_of q" by (simp add: key_of_def fun_eq_iff)
  obtain hs t where t: "enforce_locked call ?u = Done (Inr (), t)" "stopped hs ?u t" "limits_ok t" "counts_ok t"
    "max_active_torrents (q_config ?u) = 0 \<or>
      length (q_downloading t) + length (q_seeding t) \<le> max_active_torrents (q_config ?u)"
    "\<forall>h g. h \<in> set (q_downloading ?u) \<longrightarrow> h \<notin> set (q_downloading t) \<longrightarrow> g \<in> set (q_downloading t) \<longrightarrow>
      key_of ?u g \<le> key_of ?u h"
    "\<forall>h g. h \<in> set (q_seeding ?u) \<longrightarrow> h \<notin> set (q_seeding t) \<longrightarrow> g \<in> set (q_seeding t) \<longrightarrow>
      key_of ?u g \<le> key_of ?u h"
    by (rule enforce_all [OF assms(1) u])
  have run: "enforce_queue_limits call q = Done (Inr (), t\<lparr>q_lock := False\<rparr>)"
    using assms(3) t(1) by (simp add: enforce_queue_limits_def with_queue_lock_def queue_lock.guarded_free)
  have "limits_ok (t\<lparr>q_lock := False\<rparr>)" "counts_ok (t\<lparr>q_lock := False\<rparr>)"
    using t(3,4) by (simp_all add: limits_ok_def counts_ok_def)
  moreover have "set (q_downloading t) \<subseteq> set (q_downloading q)" "set (q_seeding t) \<subseteq> set (q_seeding q)"
    using t(2) by (auto simp: stopped_def)
  ultimately show ?thesis
    using t(5-7) by (intro exI [of _ "t\<lparr>q_lock := False\<rparr>"] conjI run) (simp_all add: k)
qed

section \<open>Concrete queues\<close>

definition sample_config :: queue_config where
  "sample_config = \<lparr>max_active_torrents = 3, max_active_downloading = 1, max_active_seeding = 2,
     default_priority = NORMAL, allocation_mode = PROPORTIONAL, auto_manage_queue = True,
     priority_weights = [(MAXIMUM, 5), (HIGH, 2), (NORMAL, 1), (LOW, 1/2)],
     priority_bandwidth_kib = [(MAXIMUM, 1000), (HIGH, 500), (NORMAL, 250), (LOW, 100)]\<rparr>"

definition sample_entry :: "torrent_priority \<Rightarrow> nat \<Rightarrow> rat \<Rightarrow> string \<Rightarrow> queue_entry" where
  "sample_entry p n t st = \<lparr>e_priority = p, e_position = n, e_added = t, e_status = st, e_down = 0, e_up = 0\<rparr>"

definition sample_session :: "string \<Rightarrow> session" where
  "sample_session st = \<lparr>s_status = st, s_progress = 0, info_priority = NORMAL, info_position = 0\<rparr>"

text \<open>Two torrents that download although one is allowed.\<close>

definition sample_queue :: queue_manager where
  "sample_queue = (queue_manager_init sample_config)\<lparr>
     q_queue := [([1], sample_entry HIGH 0 5 ''active''), ([2], sample_entry NORMAL 1 3 ''active'')],
     q_downloading := [[2], [1]], q_sessions := (\<lambda>_. Some (sample_session ''downloading''))\<rparr>"

definition obedient :: sessions_behaviour where
  "obedient c h s = (Inr (), s\<lparr>s_status := (case c of Pause \<Rightarrow> ''paused'' | _ \<Rightarrow> ''downloading'')\<rparr>)"

definition failing :: sessions_behaviour where
  "failing c h s = (Inl OSError, s)"

lemma limits_enforced_witness:
  "\<exists>q'. enforce_queue_limits obedient sample_queue = Done (Inr (), q') \<and> \<not> q_lock q' \<and> limits_ok q' \<and> counts_ok q'"
proof -
  have "pauses_return obedient" by (simp add: pauses_return_def obedient_def)
  moreover have "active_ok sample_queue" "\<not> q_lock sample_queue"
    by (simp_all add: active_ok_def sample_queue_def queue_manager_init_def)
  ultimately show ?thesis using limits_enforced [of obedient sample_queue] by blast
qed

section \<open>Runs of the queue\<close>



section \<open>The monitor\<close>

lemma locked_waits: "q_lock q \<Longrightarrow> with_queue_lock m q = Waits q"
  unfolding with_queue_lock_def by (rule queue_lock.guarded_held)

lemma qbind_locked: "q_lock q \<Longrightarrow> qbind (with_queue_lock m) f q = Waits q"
  by (simp add: locked_waits)

lemma perform_locked: "q_lock q \<Longrightarrow> perform call caps c q = Waits q"
  by (cases c) (simp_all add: ignoring_def add_torrent_def remove_torrent_def set_priority_def reorder_torrent_def
      pause_torrent_def resume_torrent_def try_start_next_torrent_def get_queue_status_def
      get_torrent_queue_state_def locked_waits)

lemma sync_lock [simp]: "q_lock (sync_active_sets q) = q_lock q"
proof -
  have one: "q_lock (sync_one h q) = q_lock q" for h q
    by (simp add: sync_one_def deactivate_def Let_def split: option.splits)
  have "q_lock (fold sync_one hs q) = q_lock q" for hs q
    by (induction hs arbitrary: q) (simp_all add: one)
  then show ?thesis by (simp add: sync_active_sets_def)
qed

text \<open>
  C35: The monitor blocks the queue. A round of \<open>_monitor_loop\<close> that gets the lock never returns: it
  holds the lock while \<open>_enforce_queue_limits\<close> asks for it again. From then on every call of the
  queue manager waits for ever. The limits are therefore never enforced by the monitor.
\<close>

theorem monitor_blocks_queue:
  assumes "\<not> q_lock q"
  shows "\<exists>q'. monitor_round call q = Waits q' \<and> q_lock q' \<and> (\<forall>c. perform call caps c q' = Waits q')"
proof -
  define t where "t = sync_active_sets (q\<lparr>q_lock := True\<rparr>)"
  have t: "q_lock t" by (simp add: t_def)
  have "with_queue_lock (\<lambda>q. enforce_queue_limits call (sync_active_sets q)) q = Waits t"
    using assms t by (simp add: with_queue_lock_def enforce_queue_limits_def t_def guarded_def)
  then have "monitor_round call q = Waits t" by (simp add: monitor_round_def)
  then show ?thesis using t perform_locked by blast
qed

lemma monitor_blocks_queue_witness:
  "\<exists>q'. monitor_round obedient (queue_manager_init sample_config) = Waits q' \<and> q_lock q'"
  using monitor_blocks_queue [of "queue_manager_init sample_config" obedient "(0, 0)"] by (auto simp: queue_manager_init_def)

section \<open>Moving a torrent\<close>

lemma set_positions_id:
  assumes "map (e_position \<circ> snd) xs = [0..<length xs]"
  shows "set_positions xs = xs"
proof (rule nth_equalityI)
  fix i
  assume i: "i < length (set_positions xs)"
  then have "(map (e_position \<circ> snd) xs) ! i = i" unfolding assms by simp
  with i have "e_position (snd (xs ! i)) = i" by simp
  then show "set_positions xs ! i = xs ! i" using i by (simp add: set_positions_def case_prod_unfold prod_eq_iff)
qed simp

text \<open>
  \<open>reorder_torrent\<close> does not move. In an ordered queue whose entries differ in priority or time, a
  call with a valid position answers True and leaves the queue as it was: \<open>_reorder_queue\<close> sorts the
  moved entry back.
\<close>

theorem reorder_torrent_does_not_move:
  assumes "queue_ordered q" and "\<not> q_lock q" and "distinct (map queue_key (q_queue q))"
    and "h \<in> fst ` set (q_queue q)" and "0 \<le> pos" and "pos < int (length (q_queue q))"
  shows "\<exists>q'. reorder_torrent h pos q = Done (Inr True, q') \<and> q_queue q' = q_queue q"
proof -
  let ?xs = "q_queue q"
  obtain e where e: "map_of ?xs h = Some e" using assms(4) map_of_fst [of ?xs h] by blast
  define ys where "ys = insert_at (nat pos) (h, e) (filter (\<lambda>(k, _). k \<noteq> h) ?xs)"
  have m: "mset ys = mset ?xs"
    unfolding ys_def by (rule insert_filter_mset [OF _ e]) (use assms(1) in \<open>simp add: queue_ordered_def\<close>)
  then have "set ys = set ?xs" by (metis set_mset_mset)
  then have "sort_key queue_key ys = ?xs"
    using assms(1,3) m by (intro sort_key_inj_key_eq) (simp_all add: queue_ordered_def distinct_map)
  then have "set_positions (sort_key queue_key ys) = ?xs"
    using assms(1) by (simp add: queue_ordered_def set_positions_id)
  then have r: "q_queue (reorder_queue (q\<lparr>q_lock := True, q_queue := ys\<rparr>)) = ?xs" by (simp add: reorder_queue_def Let_def)
  have "reorder_torrent h pos q =
      Done (Inr True, (reorder_queue (q\<lparr>q_lock := True, q_queue := ys\<rparr>))\<lparr>q_lock := False\<rparr>)"
    using assms(2,5,6) e
    by (simp add: reorder_torrent_def with_queue_lock_def queue_lock.guarded_free ys_def)
  with r show ?thesis by simp
qed

lemma reorder_torrent_does_not_move_witness:
  "\<exists>q'. reorder_torrent [2] 0 sample_queue = Done (Inr True, q') \<and> q_queue q' = q_queue sample_queue"
  by (rule reorder_torrent_does_not_move)
    (simp_all add: sample_queue_def queue_manager_init_def sample_entry_def queue_ordered_def queue_key_def
      less_prod_def' less_eq_prod_def)

section \<open>A start that fails\<close>

text \<open>
  C36: A torrent whose start fails is never tried again. When \<open>session.start\<close> raises, the entry goes
  back to "queued", but stays in the set of active torrents: it keeps its slot, every later attempt
  answers True without calling the session, and when it is the first queued torrent,
  \<open>_try_start_next_torrent\<close> picks it each time, so no other torrent is started.
\<close>

theorem failed_start_sticks:
  assumes "\<not> q_lock q" and "map_of (q_queue q) h = Some e" and "e_priority e \<noteq> PAUSED"
    and "h \<notin> set (q_downloading q) \<union> set (q_seeding q)" and "q_sessions q h = Some s"
    and "s_status s = ''stopped''" and "can_start (is_seeding_session s) q"
    and "fst (call (Start resume) h s) = Inl exc" and "exc \<noteq> TimeoutError"
    and "first_queued (q_queue q) = Some h"
  shows "\<exists>q'. try_start_torrent call resume h q = Done (Inr False, q') \<and>
    h \<in> set (q_downloading q') \<union> set (q_seeding q') \<and>
    map_option e_status (map_of (q_queue q') h) = Some ''queued'' \<and>
    (\<forall>call' resume'. try_start_torrent call' resume' h q' = Done (Inr True, q') \<and>
       try_start_next_torrent call' q' = Done (Inr (), q'))"
proof -
  define t where "t = set_status h ''active'' (activate h (is_seeding_session s) (q\<lparr>q_lock := True\<rparr>))"
  define u where "u = t\<lparr>q_sessions := (q_sessions t)(h \<mapsto> snd (call (Start resume) h s))\<rparr>"
  define v where "v = (update_statistics (set_status h ''queued'' u))\<lparr>q_lock := False\<rparr>"
  have run: "start_session call resume h s t = Done (Inl exc, u)"
    using assms(6,8) by (simp add: start_session_def call_session_def u_def case_prod_unfold Let_def)
  have "can_start (is_seeding_session s) (q\<lparr>q_lock := True\<rparr>)" using assms(7) by (simp add: can_start_def)
  then have "try_start_locked call resume h (q\<lparr>q_lock := True\<rparr>) = launch call resume h s (q\<lparr>q_lock := True\<rparr>)"
    using assms(2-5) by (simp add: try_start_locked_def)
  also have "\<dots> = Done (Inr False, update_statistics (set_status h ''queued'' u))"
    using run assms(9) by (simp add: launch_def t_def)
  finally have first: "try_start_torrent call resume h q = Done (Inr False, v)"
    using assms(1) by (simp add: try_start_torrent_def with_queue_lock_def queue_lock.guarded_free v_def)
  have sets: "q_downloading v = q_downloading t" "q_seeding v = q_seeding t" "\<not> q_lock v"
    by (simp_all add: v_def u_def set_status_def)
  have active: "h \<in> set (q_downloading v) \<union> set (q_seeding v)"
    by (simp add: sets) (simp add: t_def activate_def set_add_def set_status_def)
  have queue: "q_queue v = map (\<lambda>(k, e). (k, if k = h then e\<lparr>e_status := ''queued''\<rparr> else e)) (q_queue q)"
    by (simp add: v_def u_def t_def set_status_def update_entry_def activate_def case_prod_unfold comp_def)
  have entry: "map_of (q_queue v) h = Some (e\<lparr>e_status := ''queued''\<rparr>)"
  proof -
    have g: "map_of (map (\<lambda>(k, e). (k, if k = h then e\<lparr>e_status := ''queued''\<rparr> else e)) xs) h =
        map_option (\<lambda>e. e\<lparr>e_status := ''queued''\<rparr>) (map_of xs h)" for xs
      by (induction xs) auto
    show ?thesis unfolding queue g assms(2) by simp
  qed
  have "first_queued (map (\<lambda>(k, e). (k, if k = h then e\<lparr>e_status := ''queued''\<rparr> else e)) xs) = first_queued xs"
    if "first_queued xs = Some h" for xs
    using that by (induction xs) (auto simp: first_queued_def split: if_splits)
  then have head: "first_queued (q_queue v) = Some h" using assms(10) by (simp add: queue)
  have again: "try_start_torrent call' resume' h v = Done (Inr True, v)" for call' resume'
  proof -
    have "try_start_locked call' resume' h (v\<lparr>q_lock := True\<rparr>) = Done (Inr True, v\<lparr>q_lock := True\<rparr>)"
      using active assms(3) entry by (auto simp: try_start_locked_def)
    then show ?thesis using sets(3)
      by (simp add: try_start_torrent_def with_queue_lock_def queue_lock.guarded_free)
  qed
  have "try_start_next_torrent call' v = Done (Inr (), v)" for call'
  proof -
    have "with_queue_lock (\<lambda>q. Done (Inr (first_queued (q_queue q)), q)) v = Done (Inr (Some h), v)"
      using sets(3) by (simp add: with_queue_lock_def queue_lock.guarded_free head)
    then show ?thesis using again [of call' False] by (simp add: try_start_next_torrent_def)
  qed
  with first active entry again show ?thesis by (intro exI [of _ v]) simp
qed

definition waiting_queue :: queue_manager where
  "waiting_queue = (queue_manager_init sample_config)\<lparr>
     q_queue := [([1], sample_entry HIGH 0 5 ''queued''), ([2], sample_entry NORMAL 1 3 ''queued'')],
     q_sessions := (\<lambda>_. Some (sample_session ''stopped''))\<rparr>"

lemma failed_start_sticks_witness:
  "\<exists>q'. try_start_torrent failing False [1] waiting_queue = Done (Inr False, q') \<and>
     try_start_next_torrent obedient q' = Done (Inr (), q')"
proof -
  have f: "fst (failing (Start False) [1] (sample_session ''stopped'')) = Inl OSError" by (simp add: failing_def)
  show ?thesis
    using failed_start_sticks [of waiting_queue "[1]" "sample_entry HIGH 0 5 ''queued''" "sample_session ''stopped''" failing False, OF _ _ _ _ _ _ _ f]
    by (auto simp: waiting_queue_def queue_manager_init_def sample_config_def sample_entry_def sample_session_def
        can_start_def is_seeding_session_def first_queued_def)
qed

section \<open>Bandwidth shares\<close>

lemma active_on_active:
  assumes "\<And>e. e_status (f e) = e_status e"
  shows "active_entries (on_active f queue) = map (\<lambda>(h, e). (h, f e)) (active_entries queue)"
  using assms by (induction queue) (auto simp: active_entries_def on_active_def)

definition sum_down :: "(bytes \<times> queue_entry) list \<Rightarrow> int" where
  "sum_down queue = sum_list (map (e_down \<circ> snd) (active_entries queue))"

definition sum_up :: "(bytes \<times> queue_entry) list \<Rightarrow> int" where
  "sum_up queue = sum_list (map (e_up \<circ> snd) (active_entries queue))"

lemma share_bound:
  assumes "0 \<le> w" and "0 < ws" and "0 < n"
  shows "share w ws n = \<lfloor>w / ws * of_int n\<rfloor>" and "of_int (share w ws n) \<le> w / ws * of_int n"
proof -
  have "0 \<le> w / ws * of_int n" using assms by simp
  then show "share w ws n = \<lfloor>w / ws * of_int n\<rfloor>" by (simp add: share_def py_int_def)
  then show "of_int (share w ws n) \<le> w / ws * of_int n" by simp
qed

lemma sum_shares:
  fixes ws :: "rat list"
  assumes "list_all (\<lambda>w. 0 \<le> w) ws" and "0 < v" and "0 < n"
  shows "of_int (sum_list (map (\<lambda>w. share w v n) ws)) \<le> sum_list ws / v * of_int n"
  using assms(1)
proof (induction ws)
  case (Cons w ws)
  then have "of_int (share w v n) \<le> w / v * of_int n" using share_bound(2) [of w v n] assms by simp
  with Cons show ?case by (simp add: add_divide_distrib distrib_right)
qed simp

lemma sum_shares_total:
  assumes "list_all (\<lambda>w. 0 \<le> w) ws" and "0 < sum_list ws" and "0 < n"
  shows "sum_list (map (\<lambda>w. share w (sum_list ws) n) ws) \<le> n"
proof -
  have "of_int (sum_list (map (\<lambda>w. share w (sum_list ws) n) ws)) \<le> sum_list ws / sum_list ws * (of_int n :: rat)"
    by (rule sum_shares [OF assms])
  with assms(2) show ?thesis by simp
qed

lemma weight_nonneg:
  assumes "\<forall>(p, w) \<in> set (priority_weights cfg). 0 \<le> w"
  shows "0 \<le> weight_of cfg e"
proof (cases "map_of (priority_weights cfg) (e_priority e)")
  case (Some w)
  then have "(e_priority e, w) \<in> set (priority_weights cfg)" by (rule map_of_SomeD)
  with assms Some show ?thesis by (auto simp: weight_of_def get_or_def)
qed (simp add: weight_of_def get_or_def)



end
