(* ===== verification/Disk_Io.thy ===== *)
theory Disk_Io
  imports Ccbt_Prelude "HOL-Library.Product_Lexorder" "HOL-Library.Multiset" Complex_Main
begin

text \<open>
  The disk writer and reader (\<open>ccbt/storage/disk_io.py\<close>): a queue of write requests, the batcher that
  collects them by file, the merging of requests that are close to each other, the staging buffer of
  the write calls, and reads through memory maps or the file. The file system is a map from paths to
  contents; \<open>os.write\<close> at an offset fills a gap with zeros. The two ring buffers of the code have no
  effect on it: \<open>self.ring_buffer\<close> is only written to, and the one of the flushing thread is always
  empty. The lemmas show when a batch of requests ends as if each was carried out, and when it does not.
\<close>

section \<open>Files\<close>

text \<open>\<open>os.lseek\<close> and \<open>os.write\<close>.\<close>

definition pwrite :: "nat \<Rightarrow> bytes \<Rightarrow> bytes \<Rightarrow> bytes" where
  "pwrite off data f =
     (if data = [] then f
      else take off (f @ replicate (off - length f) 0) @ data @ drop (off + length data) f)"

lemma length_pwrite: "length (pwrite off data f) = (if data = [] then length f else max (length f) (off + length data))"
  by (auto simp: pwrite_def)

lemma pwrite_Nil [simp]: "pwrite off [] f = f"
  by (simp add: pwrite_def)

lemma nth_pwrite:
  assumes "i < length (pwrite off data f)"
  shows "pwrite off data f ! i =
    (if off \<le> i \<and> i < off + length data then data ! (i - off) else if i < length f then f ! i else 0)"
proof (cases "data = []")
  case False
  define g where "g = take off (f @ replicate (off - length f) 0)"
  have g: "length g = off" by (simp add: g_def)
  have lo: "g ! i = (if i < length f then f ! i else 0)" if "i < off"
    using that by (simp add: g_def nth_append)
  have "pwrite off data f = g @ data @ drop (off + length data) f" using False by (simp add: pwrite_def g_def)
  then show ?thesis using assms g lo by (auto simp: nth_append length_pwrite)
qed (use assms in auto)

lemma pwrite_append: "pwrite off (a @ b) f = pwrite (off + length a) b (pwrite off a f)"
proof (cases "a = [] \<or> b = []")
  case False
  show ?thesis
  proof (rule nth_equalityI)
    show "length (pwrite off (a @ b) f) = length (pwrite (off + length a) b (pwrite off a f))"
      using False by (simp add: length_pwrite)
    fix i
    assume i: "i < length (pwrite off (a @ b) f)"
    then have "i < length (pwrite (off + length a) b (pwrite off a f))" using False by (simp add: length_pwrite)
    then show "pwrite off (a @ b) f ! i = pwrite (off + length a) b (pwrite off a f) ! i"
      using i False by (auto simp: nth_pwrite length_pwrite nth_append)
  qed
qed auto

definition pwrites :: "(nat \<times> bytes) list \<Rightarrow> bytes \<Rightarrow> bytes" where
  "pwrites ws = fold (\<lambda>(off, data). pwrite off data) ws"

lemma pwrites_simps [simp]:
  "pwrites [] f = f" "pwrites ((off, data) # ws) f = pwrites ws (pwrite off data f)"
  by (simp_all add: pwrites_def)

section \<open>Requests, configuration and state\<close>

record write_request =
  w_path :: pystr
  w_offset :: nat
  w_data :: bytes
  w_time :: rat
  w_priority :: int

datatype preallocation = PreallocateNone | PreallocateSparse | PreallocateFull | PreallocateFallocate

record disk_config =
  write_contiguous_threshold :: nat
  write_queue_priority :: bool
  write_queue_size :: nat
  write_batch_kib :: nat
  write_buffer_kib :: nat
  write_batch_timeout_adaptive :: bool
  write_batch_timeout_ms :: rat
  preallocate :: preallocation
  use_mmap :: bool
  read_ahead_adaptive :: bool
  read_ahead_kib :: nat
  read_ahead_max_kib :: nat

record read_pattern =
  last_offset :: int
  sequential_count :: nat
  random_count :: nat

text \<open>
  \<open>d_maps\<close> holds the size each mapped file had when it was mapped; the map shows the bytes the file
  has now, but no more of them. \<open>d_storage\<close> is the detected kind of storage.
\<close>

record disk =
  d_config :: disk_config
  d_storage :: string
  d_files :: "pystr \<Rightarrow> bytes option"
  d_queue :: "write_request list"
  d_pending :: "(pystr \<times> write_request list) list"
  d_maps :: "pystr \<Rightarrow> nat option"
  d_patterns :: "pystr \<Rightarrow> read_pattern option"

definition disk_init :: "disk_config \<Rightarrow> string \<Rightarrow> (pystr \<Rightarrow> bytes option) \<Rightarrow> disk" where
  "disk_init cfg storage files =
     \<lparr>d_config = cfg, d_storage = storage, d_files = files, d_queue = [], d_pending = [],
      d_maps = (\<lambda>_. None), d_patterns = (\<lambda>_. None)\<rparr>"

section \<open>Writing\<close>

text \<open>
  \<open>write_block\<close> answers at once with a future; False stands for a future that holds the error of a
  full queue. The priority queue has no bound.
\<close>

definition write_block :: "pystr \<Rightarrow> nat \<Rightarrow> bytes \<Rightarrow> int \<Rightarrow> rat \<Rightarrow> disk \<Rightarrow> bool \<times> disk" where
  "write_block path offset data priority now d =
     (let request = \<lparr>w_path = path, w_offset = offset, w_data = data, w_time = now, w_priority = priority\<rparr>
      in if write_queue_priority (d_config d) \<or> length (d_queue d) < write_queue_size (d_config d)
           \<or> write_queue_size (d_config d) = 0
         then (True, d\<lparr>d_queue := d_queue d @ [request]\<rparr>)
         else (False, d))"

text \<open>\<open>WriteRequest.__lt__\<close>: higher priority first, then earlier.\<close>

definition request_key :: "write_request \<Rightarrow> int \<times> rat" where
  "request_key w = (- w_priority w, w_time w)"

definition get_write_request :: "disk \<Rightarrow> (write_request \<times> disk) option" where
  "get_write_request d =
     (case (if write_queue_priority (d_config d) then sort_key request_key (d_queue d) else d_queue d) of
        [] \<Rightarrow> None
      | w # ws \<Rightarrow> Some (w, d\<lparr>d_queue := ws\<rparr>))"

text \<open>\<open>_combine_contiguous_writes\<close>: a small gap is filled with zeros and becomes part of the write.\<close>

fun combine_loop :: "nat \<Rightarrow> nat \<Rightarrow> bytes \<Rightarrow> write_request list \<Rightarrow> (nat \<times> bytes) list" where
  "combine_loop threshold off data [] = [(off, data)]"
| "combine_loop threshold off data (w # ws) =
     (let gap = int (w_offset w) - int (off + length data)
      in if gap \<le> int threshold
         then combine_loop threshold off (data @ replicate (nat gap) 0 @ w_data w) ws
         else (off, data) # combine_loop threshold (w_offset w) (w_data w) ws)"

definition combine_contiguous_writes :: "nat \<Rightarrow> write_request list \<Rightarrow> (nat \<times> bytes) list" where
  "combine_contiguous_writes threshold ws =
     (case sort_key w_offset ws of [] \<Rightarrow> []
      | w # ws \<Rightarrow> combine_loop threshold (w_offset w) (w_data w) ws)"

text \<open>
  The loop of \<open>_write_combined_sync\<close>: adjacent writes are collected in a buffer of \<open>cap\<close> bytes;
  \<open>rs\<close> is the start of the current run and \<open>pe\<close> the end of the last write.
\<close>

definition flush_run :: "nat option \<Rightarrow> bytes \<Rightarrow> bytes \<Rightarrow> bytes" where
  "flush_run rs buf f = (case rs of None \<Rightarrow> f | Some start \<Rightarrow> pwrite start buf f)"

fun stage_writes :: "nat \<Rightarrow> nat option \<Rightarrow> nat option \<Rightarrow> bytes \<Rightarrow> (nat \<times> bytes) list \<Rightarrow> bytes \<Rightarrow> bytes" where
  "stage_writes cap rs pe buf [] f = flush_run rs buf f"
| "stage_writes cap rs pe buf ((off, data) # ws) f =
     (let (rs, pe, buf) = (if rs = None then (Some off, Some off, []) else (rs, pe, buf));
          (rs, pe, buf, f) = (if pe \<noteq> Some off then (Some off, Some off, [], flush_run rs buf f)
                              else (rs, pe, buf, f))
      in if cap \<le> length data
         then stage_writes cap None (Some (off + length data)) [] ws (pwrite off data (flush_run rs buf f))
         else let (rs, buf, f) = (if cap < length buf + length data then (Some off, [], flush_run rs buf f)
                                  else (rs, buf, f))
              in stage_writes cap rs (Some (off + length data)) (buf @ data) ws f)"

definition staging_size :: "disk_config \<Rightarrow> nat" where
  "staging_size cfg = max (64 * 1024) (write_buffer_kib cfg * 1024)"

text \<open>A file that does not exist is created with zeros up to the end of the last write.\<close>

definition write_combined :: "disk_config \<Rightarrow> (nat \<times> bytes) list \<Rightarrow> bytes option \<Rightarrow> bytes" where
  "write_combined cfg ws file =
     stage_writes (staging_size cfg) None None [] ws
       (case file of Some f \<Rightarrow> f
        | None \<Rightarrow> replicate (Max (set (map (\<lambda>(off, data). off + length data) ws))) 0)"

text \<open>
  \<open>_flush_file_writes\<close>. \<open>io_ok\<close> tells whether the operating system carries the writes out; when it
  does not, the requests are gone and their futures never complete.
\<close>

definition flush_file_writes :: "(pystr \<Rightarrow> bool) \<Rightarrow> pystr \<Rightarrow> disk \<Rightarrow> disk" where
  "flush_file_writes io_ok path d =
     (case map_of (d_pending d) path of
        None \<Rightarrow> d
      | Some ws \<Rightarrow>
          let d = d\<lparr>d_pending := AList.delete path (d_pending d)\<rparr>
          in if ws = [] \<or> \<not> io_ok path then d
             else d\<lparr>d_files := (d_files d)(path \<mapsto>
                    write_combined (d_config d)
                      (combine_contiguous_writes (write_contiguous_threshold (d_config d)) (sort_key w_offset ws))
                      (d_files d path))\<rparr>)"

definition adaptive_timeout :: "disk \<Rightarrow> rat" where
  "adaptive_timeout d =
     (if write_batch_timeout_adaptive (d_config d)
      then (if d_storage d = ''nvme'' then 1 / 10000 else if d_storage d = ''ssd'' then 5 / 1000 else 5 / 100)
      else write_batch_timeout_ms (d_config d) / 1000)"

definition flush_stale_writes :: "(pystr \<Rightarrow> bool) \<Rightarrow> rat \<Rightarrow> disk \<Rightarrow> disk" where
  "flush_stale_writes io_ok now d =
     fold (flush_file_writes io_ok)
       (map fst (filter (\<lambda>(path, ws). ws \<noteq> [] \<and> 5 / 1000 < now - Min (set (map w_time ws))) (d_pending d))) d"

definition flush_all_writes :: "(pystr \<Rightarrow> bool) \<Rightarrow> disk \<Rightarrow> disk" where
  "flush_all_writes io_ok d = fold (flush_file_writes io_ok) (map fst (d_pending d)) d"

definition batch_full :: "rat \<Rightarrow> write_request \<Rightarrow> write_request list \<Rightarrow> disk \<Rightarrow> bool" where
  "batch_full now w ws d \<longleftrightarrow>
     max 1 (write_batch_kib (d_config d) * 1024 div 16384) \<le> length ws
     \<or> max (64 * 1024) (write_buffer_kib (d_config d) * 1024) \<le> sum_list (map (length \<circ> w_data) ws)
     \<or> adaptive_timeout d < now - w_time w"

text \<open>One turn of \<open>_write_batcher\<close>; without a request it flushes what has waited too long.\<close>

definition write_batcher_turn :: "(pystr \<Rightarrow> bool) \<Rightarrow> rat \<Rightarrow> disk \<Rightarrow> disk" where
  "write_batcher_turn io_ok now d =
     (case get_write_request d of
        None \<Rightarrow> flush_stale_writes io_ok now d
      | Some (w, d) \<Rightarrow>
          let ws = (case map_of (d_pending d) (w_path w) of None \<Rightarrow> [] | Some ws \<Rightarrow> ws) @ [w];
              d = d\<lparr>d_pending := AList.update (w_path w) ws (d_pending d)\<rparr>
          in if batch_full now w ws d then flush_file_writes io_ok (w_path w) d else d)"

text \<open>\<open>stop\<close>: what the batcher has collected is written, what is still queued is dropped.\<close>

definition disk_stop :: "(pystr \<Rightarrow> bool) \<Rightarrow> disk \<Rightarrow> disk" where
  "disk_stop io_ok d = (flush_all_writes io_ok d)\<lparr>d_queue := [], d_maps := (\<lambda>_. None)\<rparr>"

text \<open>\<open>preallocate_file\<close>; a sparse file of size 0 raises after the file was emptied.\<close>

definition preallocate_file :: "pystr \<Rightarrow> nat \<Rightarrow> disk \<Rightarrow> unit py \<times> disk" where
  "preallocate_file path len d =
     (case preallocate (d_config d) of
        PreallocateNone \<Rightarrow> (Inr (), d)
      | PreallocateSparse \<Rightarrow>
          if len = 0 then (Inl DiskError, d\<lparr>d_files := (d_files d)(path \<mapsto> [])\<rparr>)
          else (Inr (), d\<lparr>d_files := (d_files d)(path \<mapsto> replicate len 0)\<rparr>)
      | PreallocateFull \<Rightarrow> (Inr (), d\<lparr>d_files := (d_files d)(path \<mapsto> replicate len 0)\<rparr>)
      | PreallocateFallocate \<Rightarrow>
          if len = 0 then (Inl DiskError, d\<lparr>d_files := (d_files d)(path \<mapsto> (case d_files d path of None \<Rightarrow> [] | Some f \<Rightarrow> f))\<rparr>)
          else (Inr (), d\<lparr>d_files := (d_files d)(path \<mapsto>
               (let f = (case d_files d path of None \<Rightarrow> [] | Some f \<Rightarrow> f)
                in f @ replicate (len - length f) 0))\<rparr>))"

section \<open>Reading\<close>

definition is_sequential :: "int \<Rightarrow> read_pattern \<Rightarrow> bool" where
  "is_sequential offset p \<longleftrightarrow> 0 \<le> last_offset p \<and> \<bar>offset - last_offset p\<bar> < 1024 * 1024"

definition update_pattern :: "int \<Rightarrow> read_pattern \<Rightarrow> read_pattern" where
  "update_pattern offset p =
     (if is_sequential offset p then p\<lparr>sequential_count := sequential_count p + 1, last_offset := offset\<rparr>
      else p\<lparr>random_count := random_count p + 1, last_offset := offset\<rparr>)"

definition read_ahead_size :: "pystr \<Rightarrow> int \<Rightarrow> nat \<Rightarrow> disk \<Rightarrow> nat" where
  "read_ahead_size path offset n d =
     (if \<not> read_ahead_adaptive (d_config d) then read_ahead_kib (d_config d) * 1024
      else (case d_patterns d path of
          Some p \<Rightarrow> if is_sequential offset p then min (read_ahead_max_kib (d_config d) * 1024) (n * 4)
            else read_ahead_kib (d_config d) * 1024
        | None \<Rightarrow> read_ahead_kib (d_config d) * 1024))"

text \<open>\<open>_get_mmap_entry\<close>: an existing map, or a new one of the len the file has now.\<close>

definition get_mmap_entry :: "pystr \<Rightarrow> disk \<Rightarrow> nat option \<times> disk" where
  "get_mmap_entry path d =
     (case d_maps d path of
        Some n \<Rightarrow> (Some n, d)
      | None \<Rightarrow> (case d_files d path of
            None \<Rightarrow> (None, d)
          | Some f \<Rightarrow> if f = [] then (None, d)
              else (Some (length f), d\<lparr>d_maps := (d_maps d)(path \<mapsto> length f)\<rparr>)))"

definition read_block_sync :: "pystr \<Rightarrow> nat \<Rightarrow> nat \<Rightarrow> disk \<Rightarrow> bytes py" where
  "read_block_sync path offset n d =
     (case d_files d path of None \<Rightarrow> Inl FileNotFoundError | Some f \<Rightarrow> Inr (take n (drop offset f)))"

definition file_bytes :: "pystr \<Rightarrow> disk \<Rightarrow> bytes" where
  "file_bytes path d = (case d_files d path of None \<Rightarrow> [] | Some f \<Rightarrow> f)"

definition read_disk :: "pystr \<Rightarrow> nat \<Rightarrow> nat \<Rightarrow> disk \<Rightarrow> bytes py \<times> disk" where
  "read_disk path offset n d =
     (let p = (case d_patterns d path of None \<Rightarrow> \<lparr>last_offset = -1, sequential_count = 0, random_count = 0\<rparr> | Some p \<Rightarrow> p);
          d = d\<lparr>d_patterns := (d_patterns d)(path \<mapsto> update_pattern (int offset) p)\<rparr>;
          (entry, d) = (if use_mmap (d_config d) then get_mmap_entry path d else (None, d))
      in case entry of
           Some len \<Rightarrow> (Inr (take n (drop offset (take len (file_bytes path d)))), d)
         | None \<Rightarrow> (read_block_sync path offset (max n (read_ahead_size path (int offset) n d)) d, d))"

text \<open>\<open>read_block_mmap\<close> maps the file for one read.\<close>

definition read_block_mmap :: "pystr \<Rightarrow> nat \<Rightarrow> nat \<Rightarrow> disk \<Rightarrow> bytes py" where
  "read_block_mmap path offset n d =
     (case d_files d path of None \<Rightarrow> Inl FileNotFoundError | Some f \<Rightarrow> Inr (take n (drop offset f)))"

section \<open>The staging buffer does not matter\<close>

lemma stage_writes_eq:
  assumes "rs = None \<longrightarrow> buf = []" and "\<forall>r. rs = Some r \<longrightarrow> pe = Some (r + length buf)"
  shows "stage_writes cap rs pe buf ws f = pwrites ws (flush_run rs buf f)"
  using assms
proof (induction ws arbitrary: rs pe buf f)
  case (Cons w ws)
  obtain off data where w: "w = (off, data)" by (cases w)
  have direct: "stage_writes cap None p [] ws g = pwrites ws g" for p g
    using Cons.IH [of None "[]" p g] by (simp add: flush_run_def)
  have staged: "stage_writes cap (Some r) (Some e) b ws g = pwrites ws (pwrite r b g)" if "e = r + length b" for r e b g
    using Cons.IH [of "Some r" b "Some e" g] that by (simp add: flush_run_def)
  show ?case
  proof (cases "rs = None \<or> pe \<noteq> Some off")
    case True
    then have "stage_writes cap rs pe buf (w # ws) f =
        (if cap \<le> length data
         then stage_writes cap None (Some (off + length data)) [] ws (pwrite off data (flush_run rs buf f))
         else stage_writes cap (Some off) (Some (off + length data)) data ws (flush_run rs buf f))"
      using Cons.prems by (auto simp: flush_run_def w)
    then show ?thesis by (simp add: direct staged w)
  next
    case False
    then obtain r where r: "rs = Some r" "pe = Some off" "off = r + length buf" using Cons.prems by auto
    then have "stage_writes cap rs pe buf (w # ws) f =
        (if cap \<le> length data
         then stage_writes cap None (Some (off + length data)) [] ws (pwrite off data (pwrite r buf f))
         else if cap < length buf + length data
         then stage_writes cap (Some off) (Some (off + length data)) data ws (pwrite r buf f)
         else stage_writes cap (Some r) (Some (off + length data)) (buf @ data) ws f)"
      by (simp add: flush_run_def w)
    then show ?thesis using r(3) by (simp add: direct staged w r(1) flush_run_def pwrite_append)
  qed
qed simp

lemma write_combined_existing: "write_combined cfg ws (Some f) = pwrites ws f"
  by (simp add: write_combined_def stage_writes_eq flush_run_def)

lemma write_combined_new:
  "write_combined cfg ws None = pwrites ws (replicate (Max (set (map (\<lambda>(off, data). off + length data) ws))) 0)"
  by (simp add: write_combined_def stage_writes_eq flush_run_def)

section \<open>Merging requests\<close>

text \<open>Requests in ascending order, each at the end of the one before or farther away than the threshold.\<close>

fun spaced :: "nat \<Rightarrow> nat \<Rightarrow> write_request list \<Rightarrow> bool" where
  "spaced t e [] = True"
| "spaced t e (w # ws) \<longleftrightarrow> (w_offset w = e \<or> e + t < w_offset w) \<and> spaced t (w_offset w + length (w_data w)) ws"

definition write_of :: "write_request \<Rightarrow> nat \<times> bytes" where
  "write_of w = (w_offset w, w_data w)"

lemma combine_loop_eq:
  "spaced t (off + length data) ws \<Longrightarrow>
     pwrites (combine_loop t off data ws) f = pwrites (map write_of ws) (pwrite off data f)"
proof (induction ws arbitrary: off data f)
  case (Cons w ws)
  show ?case
  proof (cases "w_offset w = off + length data")
    case True
    then have "spaced t (off + length (data @ w_data w)) ws" using Cons.prems by (simp add: add.assoc)
    then have "pwrites (combine_loop t off (data @ w_data w) ws) f =
        pwrites (map write_of ws) (pwrite off (data @ w_data w) f)" by (rule Cons.IH)
    then show ?thesis using True by (simp add: write_of_def [abs_def] pwrite_append)
  next
    case False
    then have far: "off + length data + t < w_offset w" and s: "spaced t (w_offset w + length (w_data w)) ws"
      using Cons.prems by auto
    have "\<not> int (w_offset w) - int (off + length data) \<le> int t" using far by linarith
    then show ?thesis using Cons.IH [OF s] by (simp add: write_of_def Let_def)
  qed
qed simp

definition batch_spaced :: "nat \<Rightarrow> write_request list \<Rightarrow> bool" where
  "batch_spaced t ws \<longleftrightarrow>
     (case sort_key w_offset ws of [] \<Rightarrow> True | w # ws \<Rightarrow> spaced t (w_offset w + length (w_data w)) ws)"

lemma combine_eq:
  assumes "batch_spaced t ws"
  shows "pwrites (combine_contiguous_writes t ws) f = pwrites (map write_of (sort_key w_offset ws)) f"
  using assms by (auto simp: batch_spaced_def combine_contiguous_writes_def combine_loop_eq write_of_def split: list.splits)

text \<open>The ends of the merged writes.\<close>

definition end_of :: "nat \<times> bytes \<Rightarrow> nat" where
  "end_of w = fst w + length (snd w)"

lemma combine_loop_end:
  assumes "spaced t (off + length data) ws"
  shows "Max (set (map end_of (combine_loop t off data ws))) =
    Max (set (map end_of ((off, data) # map write_of ws)))"
  using assms
proof (induction ws arbitrary: off data)
  case (Cons w ws)
  show ?case
  proof (cases "w_offset w = off + length data")
    case True
    then have "spaced t (off + length (data @ w_data w)) ws" using Cons.prems by (simp add: add.assoc)
    then have "Max (set (map end_of (combine_loop t off (data @ w_data w) ws))) =
        Max (set (map end_of ((off, data @ w_data w) # map write_of ws)))" by (rule Cons.IH)
    also have "\<dots> = Max (set (map end_of ((off, data) # write_of w # map write_of ws)))"
    proof -
      have e: "end_of (off, data @ w_data w) = end_of (write_of w)" "end_of (off, data) \<le> end_of (write_of w)"
        using True by (simp_all add: end_of_def write_of_def)
      have "Max (insert b S) = Max (insert a (insert b S))" if "a \<le> b" "finite S" for a b :: nat and S
      proof -
        have "Max (insert a (insert b S)) = max a (Max (insert b S))" using that(2) by simp
        moreover have "a \<le> Max (insert b S)" using that by (intro Max_ge_iff [THEN iffD2]) auto
        ultimately show ?thesis by simp
      qed
      from this [OF e(2)] show ?thesis by (simp add: e(1))
    qed
    finally show ?thesis using True by simp
  next
    case False
    then have far: "off + length data + t < w_offset w" and s: "spaced t (w_offset w + length (w_data w)) ws"
      using Cons.prems by auto
    have "\<not> int (w_offset w) - int (off + length data) \<le> int t" using far by linarith
    moreover have "combine_loop t a b ws \<noteq> []" for a b by (induction t a b ws rule: combine_loop.induct) (simp_all add: Let_def)
    ultimately show ?thesis using Cons.IH [OF s] by (simp add: Let_def write_of_def)
  qed
qed simp

lemma combine_end:
  assumes "batch_spaced t ws" and "ws \<noteq> []"
  shows "Max (set (map end_of (combine_contiguous_writes t ws))) = Max (set (map (end_of \<circ> write_of) ws))"
proof (cases "sort_key w_offset ws")
  case Nil
  then show ?thesis using assms(2) by (metis length_0_conv length_sort)
next
  case (Cons w vs)
  then have sp: "spaced t (w_offset w + length (w_data w)) vs" using assms(1) by (simp add: batch_spaced_def)
  have "Max (set (map end_of (combine_contiguous_writes t ws))) =
      Max (set (map end_of (map write_of (sort_key w_offset ws))))"
    using combine_loop_end [OF sp] by (simp only: combine_contiguous_writes_def Cons list.case list.map write_of_def)
  then show ?thesis by (simp add: image_comp)
qed

text \<open>What flushing a well-spaced batch leaves in the file.\<close>

definition flushed :: "write_request list \<Rightarrow> bytes option \<Rightarrow> bytes" where
  "flushed ws file = pwrites (map write_of (sort_key w_offset ws))
     (case file of Some f \<Rightarrow> f | None \<Rightarrow> replicate (Max (set (map (end_of \<circ> write_of) ws))) 0)"

lemma sort_sort: "sort_key w_offset (sort_key w_offset ws) = sort_key w_offset ws"
  by (simp add: sort_key_id_if_sorted)

lemma batch_spaced_sorted: "batch_spaced t (sort_key w_offset ws) = batch_spaced t ws"
  by (simp add: batch_spaced_def sort_sort)

lemma flush_spaced:
  assumes "map_of (d_pending d) path = Some ws" and "ws \<noteq> []" and "io_ok path"
    and "batch_spaced (write_contiguous_threshold (d_config d)) ws"
  shows "flush_file_writes io_ok path d = d\<lparr>d_pending := AList.delete path (d_pending d),
    d_files := (d_files d)(path \<mapsto> flushed ws (d_files d path))\<rparr>"
proof -
  let ?t = "write_contiguous_threshold (d_config d)" and ?ss = "sort_key w_offset ws"
  have s: "batch_spaced ?t ?ss" using assms(4) by (simp add: batch_spaced_sorted)
  have ne: "?ss \<noteq> []" using assms(2) by (metis length_0_conv length_sort)
  have e: "map (\<lambda>(off, data). off + length data) (combine_contiguous_writes ?t ?ss) = map end_of (combine_contiguous_writes ?t ?ss)"
    by (simp add: end_of_def case_prod_unfold)
  have "write_combined (d_config d) (combine_contiguous_writes ?t ?ss) (d_files d path) = flushed ws (d_files d path)"
    using combine_end [OF s ne] combine_eq [OF s]
    by (cases "d_files d path") (simp_all add: write_combined_existing write_combined_new flushed_def e sort_sort)
  then show ?thesis using assms(1-3) by (simp add: flush_file_writes_def Let_def)
qed

section \<open>Which bytes a flush leaves\<close>

definition covers :: "nat \<times> bytes \<Rightarrow> nat \<Rightarrow> bool" where
  "covers w i \<longleftrightarrow> fst w \<le> i \<and> i < end_of w"

definition carries :: "(nat \<Rightarrow> byte) \<Rightarrow> nat \<times> bytes \<Rightarrow> bool" where
  "carries c w \<longleftrightarrow> (\<forall>k < length (snd w). snd w ! k = c (fst w + k))"

lemma length_pwrites:
  assumes "\<forall>w \<in> set ws. snd w \<noteq> []"
  shows "length (pwrites ws f) = Max (insert (length f) (end_of ` set ws))"
  using assms
proof (induction ws arbitrary: f)
  case (Cons w ws)
  obtain off data where w: "w = (off, data)" by (cases w)
  have l: "length (pwrite off data f) = max (length f) (end_of w)" using Cons.prems by (simp add: length_pwrite w end_of_def)
  have "length (pwrites (w # ws) f) = Max (insert (length (pwrite off data f)) (end_of ` set ws))"
    using Cons by (simp add: w)
  also have "\<dots> = Max (insert (length f) (insert (end_of w) (end_of ` set ws)))"
    unfolding l by (cases "ws = []") (simp_all add: max.assoc)
  finally show ?case by simp
qed simp

lemma nth_pwrites:
  assumes "\<forall>w \<in> set ws. carries c w" and "i < length (pwrites ws f)"
  shows "pwrites ws f ! i = (if \<exists>w \<in> set ws. covers w i then c i else if i < length f then f ! i else 0)"
  using assms
proof (induction ws arbitrary: f)
  case (Cons w ws)
  obtain off data where w: "w = (off, data)" by (cases w)
  have ih: "pwrites (w # ws) f ! i = (if \<exists>w \<in> set ws. covers w i then c i
      else if i < length (pwrite off data f) then pwrite off data f ! i else 0)"
    using Cons by (simp add: w)
  show ?case
  proof (cases "\<exists>w \<in> set ws. covers w i")
    case False
    have c: "covers w i \<longleftrightarrow> off \<le> i \<and> i < off + length data" by (simp add: covers_def end_of_def w)
    have "pwrite off data f ! i = (if covers w i then c i else if i < length f then f ! i else 0)"
      if "i < length (pwrite off data f)"
    proof (cases "covers w i")
      case True
      have "\<forall>k < length data. data ! k = c (off + k)" using Cons.prems(1) by (simp add: carries_def w)
      moreover have "off \<le> i" "i - off < length data" using True c by auto
      ultimately have "data ! (i - off) = c i" by (metis le_add_diff_inverse)
      then show ?thesis using True c that by (simp add: nth_pwrite)
    qed (use that c in \<open>auto simp: nth_pwrite\<close>)
    moreover have "i < length (pwrite off data f)" if "covers w i" using that c by (auto simp: length_pwrite)
    moreover have "length f \<le> length (pwrite off data f)" by (simp add: length_pwrite)
    ultimately show ?thesis using ih False by auto
  qed (use ih in auto)
qed simp

definition old_byte :: "bytes option \<Rightarrow> nat \<Rightarrow> byte" where
  "old_byte old i = (case old of None \<Rightarrow> 0 | Some f \<Rightarrow> if i < length f then f ! i else 0)"

definition old_length :: "bytes option \<Rightarrow> nat" where
  "old_length old = (case old of None \<Rightarrow> 0 | Some f \<Rightarrow> length f)"

lemma flushed_bytes:
  assumes "ws \<noteq> []" and "\<forall>w \<in> set ws. w_data w \<noteq> [] \<and> carries c (write_of w)"
  shows "length (flushed ws old) = Max (insert (old_length old) ((end_of \<circ> write_of) ` set ws))"
    and "i < length (flushed ws old) \<Longrightarrow> flushed ws old ! i =
      (if \<exists>w \<in> set ws. covers (write_of w) i then c i else old_byte old i)"
proof -
  define xs where "xs = map write_of (sort_key w_offset ws)"
  define base where "base = (case old of Some f \<Rightarrow> f | None \<Rightarrow> replicate (Max (set (map (end_of \<circ> write_of) ws))) (0 :: byte))"
  have f: "flushed ws old = pwrites xs base" by (simp add: flushed_def xs_def base_def)
  have set: "set xs = write_of ` set ws" by (simp add: xs_def)
  have ne: "\<forall>w \<in> set xs. snd w \<noteq> []" "\<forall>w \<in> set xs. carries c w" using assms(2) by (auto simp: set write_of_def)
  have e: "end_of ` set xs = (end_of \<circ> write_of) ` set ws" by (auto simp: set)
  have "length (pwrites xs base) = Max (insert (length base) (end_of ` set xs))" by (rule length_pwrites [OF ne(1)])
  also have "\<dots> = Max (insert (old_length old) ((end_of \<circ> write_of) ` set ws))"
  proof (cases old)
    case None
    have fin: "finite ((end_of \<circ> write_of) ` set ws)" "(end_of \<circ> write_of) ` set ws \<noteq> {}" using assms(1) by auto
    then have "Max (insert (Max ((end_of \<circ> write_of) ` set ws)) ((end_of \<circ> write_of) ` set ws)) = Max ((end_of \<circ> write_of) ` set ws)"
      by simp
    moreover have "Max (insert 0 ((end_of \<circ> write_of) ` set ws)) = Max ((end_of \<circ> write_of) ` set ws)" using fin by simp
    ultimately show ?thesis by (simp only: e base_def None old_length_def option.case length_replicate set_map)
  qed (simp add: e base_def old_length_def)
  finally show "length (flushed ws old) = Max (insert (old_length old) ((end_of \<circ> write_of) ` set ws))" unfolding f .
  show "flushed ws old ! i = (if \<exists>w \<in> set ws. covers (write_of w) i then c i else old_byte old i)"
    if "i < length (flushed ws old)"
    using nth_pwrites [OF ne(2), of i base] that unfolding f
    by (cases old) (auto simp: set base_def old_byte_def)
qed

lemma flush_other_paths: "q \<noteq> path \<Longrightarrow> d_files (flush_file_writes io_ok path d) q = d_files d q"
  by (simp add: flush_file_writes_def Let_def split: option.splits)

text \<open>
  A batch of writes. When the pending requests of a file, in ascending order, are each adjacent to
  the one before or farther away than the merge threshold, flushing them (merged and staged) leaves
  exactly the requested bytes: a byte of a request is the byte it carries, every other byte is the one
  the file had (zero where it had none), the file ends with the last request or where it ended before,
  and no other file changes.
\<close>

theorem flush_writes_exact:
  assumes "map_of (d_pending d) path = Some ws" and "ws \<noteq> []" and "io_ok path"
    and "batch_spaced (write_contiguous_threshold (d_config d)) ws"
    and "\<forall>w \<in> set ws. w_data w \<noteq> [] \<and> carries c (write_of w)"
  shows "\<exists>f. d_files (flush_file_writes io_ok path d) = (d_files d)(path \<mapsto> f) \<and>
    length f = Max (insert (old_length (d_files d path)) ((end_of \<circ> write_of) ` set ws)) \<and>
    (\<forall>i < length f. f ! i = (if \<exists>w \<in> set ws. covers (write_of w) i then c i else old_byte (d_files d path) i))"
proof (intro exI conjI allI impI)
  show "d_files (flush_file_writes io_ok path d) = (d_files d)(path \<mapsto> flushed ws (d_files d path))"
    using flush_spaced [where d = d and path = path and ws = ws and io_ok = io_ok, OF assms(1-4)] by simp
qed (rule flushed_bytes [OF assms(2,5)], assumption?)+

definition sample_disk_config :: disk_config where
  "sample_disk_config = \<lparr>write_contiguous_threshold = 2, write_queue_priority = True, write_queue_size = 200,
     write_batch_kib = 64, write_buffer_kib = 1024, write_batch_timeout_adaptive = True, write_batch_timeout_ms = 5,
     preallocate = PreallocateNone, use_mmap = True, read_ahead_adaptive = True, read_ahead_kib = 64, read_ahead_max_kib = 1024\<rparr>"

definition sample_request :: "nat \<Rightarrow> bytes \<Rightarrow> write_request" where
  "sample_request off data = \<lparr>w_path = [102], w_offset = off, w_data = data, w_time = 0, w_priority = 0\<rparr>"

definition sample_disk :: "write_request list \<Rightarrow> bytes option \<Rightarrow> disk" where
  "sample_disk ws old = (disk_init sample_disk_config ''ssd'' (\<lambda>_. old))\<lparr>d_pending := [([102], ws)]\<rparr>"

lemma flush_writes_exact_witness:
  "\<exists>f. d_files (flush_file_writes (\<lambda>_. True) [102]
      (sample_disk [sample_request 2 [3, 4], sample_request 0 [1, 2], sample_request 9 [10]] None)) =
        (\<lambda>_. None)([102] \<mapsto> f) \<and> length f = 10"
proof -
  have b: "batch_spaced 2 [sample_request 2 [3, 4], sample_request 0 [1, 2], sample_request 9 [10]]"
    by (simp add: batch_spaced_def sample_request_def)
  have k: "k = 0 \<or> k = 1" if "k < Suc (Suc 0)" for k :: nat using that by linarith
  have c: "carries (\<lambda>i. of_nat (i + 1)) (write_of w) \<and> w_data w \<noteq> []"
    if "w \<in> set [sample_request 2 [3, 4], sample_request 0 [1, 2], sample_request 9 [10]]" for w
    using that k by (fastforce simp: carries_def write_of_def sample_request_def)
  let ?ws = "[sample_request 2 [3, 4], sample_request 0 [1, 2], sample_request 9 [10]]"
  let ?d = "sample_disk ?ws None"
  have p: "map_of (d_pending ?d) [102] = Some ?ws" and t: "write_contiguous_threshold (d_config ?d) = 2"
    and n: "d_files ?d = (\<lambda>_. None)"
    by (simp_all add: sample_disk_def disk_init_def sample_disk_config_def)
  obtain f where f: "d_files (flush_file_writes (\<lambda>_. True) [102] ?d) = (d_files ?d)([102] \<mapsto> f)"
    and l: "length f = Max (insert (old_length (d_files ?d [102])) ((end_of \<circ> write_of) ` set ?ws))"
    using flush_writes_exact [OF p, of "\<lambda>_. True" "\<lambda>i. of_nat (i + 1)"] b c unfolding t by auto
  show ?thesis using f l unfolding n
    by (intro exI [of _ f]) (simp add: old_length_def end_of_def write_of_def sample_request_def)
qed

section \<open>Requests that are close but not adjacent\<close>

text \<open>
  C40: Two requests of a batch that leave a gap of at most the merge threshold (4096 bytes by default)
  overwrite the gap with zeros, whatever the file held there; and when the second starts before the end
  of the first, its data is written after the first instead of at its offset.
\<close>

theorem close_requests_damage:
  assumes "map_of (d_pending d) path = Some ws" and "mset ws = {#v, w#}" and "io_ok path"
    and "w_offset v \<le> w_offset w" and "w_offset w \<le> w_offset v + length (w_data v) + write_contiguous_threshold (d_config d)"
    and "w_offset v = w_offset w \<longrightarrow> ws = [v, w]" and "w_data v \<noteq> []" and "w_data w \<noteq> []"
  defines "e \<equiv> w_offset v + length (w_data v)"
  shows "\<exists>f. d_files (flush_file_writes io_ok path d) path = Some f \<and>
    (\<forall>i. e \<le> i \<and> i < w_offset w \<longrightarrow> i < length f \<and> f ! i = 0) \<and>
    (w_offset w < e \<longrightarrow> take (length (w_data w)) (drop e f) = w_data w \<and>
       take (length (w_data v)) (drop (w_offset v) f) = w_data v)"
proof -
  let ?t = "write_contiguous_threshold (d_config d)"
  define gap where "gap = nat (int (w_offset w) - int e)"
  define data where "data = w_data v @ replicate gap 0 @ w_data w"
  have perm: "ws = [v, w] \<or> ws = [w, v]"
  proof -
    have "length ws = 2" using assms(2) by (metis size_mset size_add_mset size_empty One_nat_def Suc_1)
    then obtain a b where ab: "ws = [a, b]" by (metis length_0_conv length_Suc_conv numeral_2_eq_2)
    then have "{#a, b#} = {#v, w#}" using assms(2) by simp
    then show ?thesis using ab by (auto simp: add_eq_conv_ex)
  qed
  have sorted: "sort_key w_offset ws = [v, w]"
    using perm assms(4,6) by auto
  have ne: "ws \<noteq> []" using perm by auto
  have "combine_contiguous_writes ?t (sort_key w_offset ws) = [(w_offset v, data)]"
  proof -
    have "int (w_offset w) - int e \<le> int ?t" using assms(5) by (simp add: e_def)
    then show ?thesis
      using sort_sort [of ws] by (simp add: combine_contiguous_writes_def sorted data_def gap_def e_def)
  qed
  then have f: "d_files (flush_file_writes io_ok path d) path =
      Some (write_combined (d_config d) [(w_offset v, data)] (d_files d path))" (is "_ = Some ?f")
    using assms(1,3) ne by (simp add: flush_file_writes_def)
  obtain base where base: "?f = pwrite (w_offset v) data base"
    by (cases "d_files d path") (simp_all add: write_combined_existing write_combined_new)
  have dne: "data \<noteq> []" using assms(7) by (simp add: data_def)
  have len: "w_offset v + length data \<le> length ?f" using dne by (simp add: base length_pwrite)
  have nth: "?f ! i = data ! (i - w_offset v)" if "w_offset v \<le> i" "i < w_offset v + length data" for i
  proof -
    have "i < length (pwrite (w_offset v) data base)" using that len by (simp add: base)
    then show ?thesis using that by (simp add: base nth_pwrite)
  qed
  have zero: "i < length ?f \<and> ?f ! i = 0" if "e \<le> i" "i < w_offset w" for i
  proof -
    have "gap = w_offset w - e" using that by (simp add: gap_def)
    with that have "w_offset v \<le> i" "i < w_offset v + length data" "length (w_data v) \<le> i - w_offset v"
      "i - w_offset v - length (w_data v) < gap" by (auto simp: e_def data_def)
    then show ?thesis using nth len by (simp add: data_def nth_append)
  qed
  have slices: "take (length (w_data w)) (drop e ?f) = w_data w" "take (length (w_data v)) (drop (w_offset v) ?f) = w_data v"
    if "w_offset w < e"
  proof -
    have g: "data = w_data v @ w_data w" using that by (simp add: data_def gap_def)
    have "take (length (w_data w)) (drop e ?f) ! k = w_data w ! k" if "k < length (w_data w)" for k
      using that len nth [of "e + k"] by (simp add: e_def g nth_append)
    then show "take (length (w_data w)) (drop e ?f) = w_data w"
      using len by (intro nth_equalityI) (auto simp: g e_def)
    have "take (length (w_data v)) (drop (w_offset v) ?f) ! k = w_data v ! k" if "k < length (w_data v)" for k
      using that len nth [of "w_offset v + k"] by (simp add: g nth_append)
    then show "take (length (w_data v)) (drop (w_offset v) ?f) = w_data v"
      using len by (intro nth_equalityI) (auto simp: g)
  qed
  show ?thesis using f zero slices by (intro exI [of _ ?f]) blast
qed

lemma close_requests_damage_witness:
  "\<exists>f. d_files (flush_file_writes (\<lambda>_. True) [102]
      (sample_disk [sample_request 0 [1, 2], sample_request 3 [4]] (Some [1, 2, 3, 4]))) [102] = Some f \<and> f ! 2 = 0"
proof -
  have "\<exists>f. d_files (flush_file_writes (\<lambda>_. True) [102]
      (sample_disk [sample_request 0 [1, 2], sample_request 3 [4]] (Some [1, 2, 3, 4]))) [102] = Some f \<and>
      (\<forall>i. w_offset (sample_request 0 [1, 2]) + length (w_data (sample_request 0 [1, 2])) \<le> i \<and>
         i < w_offset (sample_request 3 [4]) \<longrightarrow> i < length f \<and> f ! i = 0) \<and>
      (w_offset (sample_request 3 [4]) < w_offset (sample_request 0 [1, 2]) + length (w_data (sample_request 0 [1, 2])) \<longrightarrow>
       take (length (w_data (sample_request 3 [4]))) (drop (w_offset (sample_request 0 [1, 2]) + length (w_data (sample_request 0 [1, 2]))) f) = w_data (sample_request 3 [4]) \<and>
       take (length (w_data (sample_request 0 [1, 2]))) (drop (w_offset (sample_request 0 [1, 2])) f) = w_data (sample_request 0 [1, 2]))"
    by (rule close_requests_damage [where ws = "[sample_request 0 [1, 2], sample_request 3 [4]]"])
      (simp_all add: sample_disk_def sample_request_def sample_disk_config_def disk_init_def)
  then show ?thesis by (auto simp: sample_request_def)
qed

end
