(* ===== verification/File_Assembler.thy ===== *)
theory File_Assembler
  imports Disk_Io File_Selection
begin

text \<open>
  The file assembler (\<open>AsyncFileAssembler\<close> in \<open>ccbt/storage/file_assembler.py\<close>), which maps pieces
  to blocks of files and reads and writes them through the disk manager of \<open>Disk_Io\<close>. Its state is
  the list of blocks and the set of written pieces; the operations return the new state of the disk.
  The blocks of a torrent with several files are those of the piece mapping of \<open>File_Selection\<close>.
  Chunking for Xet (off by default), creation of directories and file attributes are not modelled.
\<close>

section \<open>Files and blocks\<close>

record named_file = torrent_file +
  nf_name :: pystr
  nf_full_path :: "pystr option"

definition padding_file :: "named_file \<Rightarrow> bool" where
  "padding_file f \<longleftrightarrow> is_padding (torrent_file.truncate f)"

text \<open>\<open>FileSegment\<close>.\<close>

record file_block =
  fs_path :: pystr
  fs_start :: nat
  fs_end :: nat
  fs_piece :: nat
  fs_offset :: nat

record assembler =
  as_files :: "named_file list"
  as_total_length :: nat
  as_piece_length :: nat
  as_num_pieces :: nat
  as_output_dir :: pystr
  as_blocks :: "file_block list"
  as_written :: "nat list"

text \<open>\<open>file_info.full_path or file_info.name\<close>.\<close>

definition file_path_of :: "pystr \<Rightarrow> named_file \<Rightarrow> pystr" where
  "file_path_of output_dir f = path_join output_dir
     (case nf_full_path f of Some p \<Rightarrow> if p = [] then nf_name f else p | None \<Rightarrow> nf_name f)"

fun single_blocks :: "pystr \<Rightarrow> nat \<Rightarrow> nat \<Rightarrow> nat \<Rightarrow> nat \<Rightarrow> nat list \<Rightarrow> file_block list" where
  "single_blocks path total_length piece_length num_pieces current_offset [] = []"
| "single_blocks path total_length piece_length num_pieces current_offset (i # rest) =
     (let piece_end = (if Suc i = num_pieces then total_length else current_offset + piece_length)
      in \<lparr>fs_path = path, fs_start = current_offset, fs_end = piece_end, fs_piece = i, fs_offset = 0\<rparr>
         # single_blocks path total_length piece_length num_pieces piece_end rest)"

text \<open>The \<open>while\<close> loop over the pieces for one file; it returns the piece it stopped at.\<close>

function file_loop :: "pystr \<Rightarrow> nat \<Rightarrow> nat \<Rightarrow> nat \<Rightarrow> nat \<Rightarrow> nat \<Rightarrow> nat \<Rightarrow> file_block list \<times> nat" where
  "file_loop path total_length piece_length num_pieces file_begin file_end current_piece =
     (if current_piece < num_pieces
      then let piece_start = current_piece * piece_length;
               piece_end = min (piece_start + piece_length) total_length;
               overlap_start = max piece_start file_begin;
               overlap_end = min piece_end file_end;
               blocks = (if overlap_start < overlap_end
                 then [\<lparr>fs_path = path, fs_start = overlap_start - file_begin, fs_end = overlap_end - file_begin,
                        fs_piece = current_piece, fs_offset = overlap_start - piece_start\<rparr>]
                 else [])
           in if file_end \<le> piece_end then (blocks, current_piece)
              else let (rest, stop) = file_loop path total_length piece_length num_pieces file_begin file_end (Suc current_piece)
                   in (blocks @ rest, stop)
      else ([], current_piece))"
  by pat_completeness auto
termination
  by (relation "measure (\<lambda>(_, _, _, n, _, _, p). n - p)") auto

declare file_loop.simps [simp del]

fun multi_blocks :: "pystr \<Rightarrow> nat \<Rightarrow> nat \<Rightarrow> nat \<Rightarrow> nat \<Rightarrow> nat \<Rightarrow> named_file list \<Rightarrow> file_block list" where
  "multi_blocks output_dir total_length piece_length num_pieces current_offset current_piece [] = []"
| "multi_blocks output_dir total_length piece_length num_pieces current_offset current_piece (f # fs) =
     (if padding_file f
      then multi_blocks output_dir total_length piece_length num_pieces (current_offset + tf_length f) current_piece fs
      else let file_end = current_offset + tf_length f;
               (blocks, stop) = file_loop (file_path_of output_dir f) total_length piece_length num_pieces
                 current_offset file_end current_piece
           in blocks @ multi_blocks output_dir total_length piece_length num_pieces file_end stop fs)"

definition build_file_segments :: "named_file list \<Rightarrow> nat \<Rightarrow> nat \<Rightarrow> nat \<Rightarrow> pystr \<Rightarrow> file_block list" where
  "build_file_segments files total_length piece_length num_pieces output_dir =
     (case files of
        [f] \<Rightarrow> if padding_file f then []
          else single_blocks (path_join output_dir (nf_name f)) total_length piece_length num_pieces 0 [0..<num_pieces]
      | _ \<Rightarrow> multi_blocks output_dir total_length piece_length num_pieces 0 0 files)"

definition assembler_init :: "named_file list \<Rightarrow> nat \<Rightarrow> nat \<Rightarrow> nat \<Rightarrow> pystr \<Rightarrow> assembler" where
  "assembler_init files total_length piece_length num_pieces output_dir =
     \<lparr>as_files = files, as_total_length = total_length, as_piece_length = piece_length, as_num_pieces = num_pieces,
      as_output_dir = output_dir,
      as_blocks = build_file_segments files total_length piece_length num_pieces output_dir, as_written = []\<rparr>"

section \<open>Writing\<close>

definition piece_blocks :: "assembler \<Rightarrow> nat \<Rightarrow> file_block list" where
  "piece_blocks a i = filter (\<lambda>b. fs_piece b = i) (as_blocks a)"

text \<open>
  \<open>_write_segment_to_file_async\<close>: the whole data of the piece is passed to \<open>write_block\<close>, and the
  future it returns is not awaited.
\<close>

definition write_segment :: "rat \<Rightarrow> bytes \<Rightarrow> file_block \<Rightarrow> disk \<Rightarrow> disk" where
  "write_segment now data b d = snd (write_block (fs_path b) (fs_start b) data 0 now d)"

definition write_piece_to_file :: "nat \<Rightarrow> bytes \<Rightarrow> rat \<Rightarrow> assembler \<times> disk \<Rightarrow> unit py \<times> assembler \<times> disk" where
  "write_piece_to_file i data now s =
     (let (a, d) = s
      in if i \<in> set (as_written a) then (Inr (), a, d)
         else if piece_blocks a i = [] then (Inl FileAssemblerError, a, d)
         else (Inr (), a\<lparr>as_written := as_written a @ [i]\<rparr>,
               fold (write_segment now data) (piece_blocks a i) d))"

section \<open>Reading\<close>

text \<open>
  The loop that plans the reads of a block: (block, offset in the file, length), the bytes still
  missing, and the position in the piece.
\<close>

definition plan_step :: "file_block \<Rightarrow> (file_block \<times> nat \<times> nat) list \<times> nat \<times> nat \<Rightarrow> (file_block \<times> nat \<times> nat) list \<times> nat \<times> nat" where
  "plan_step b = (\<lambda>(reads, remaining, position).
     if remaining = 0 then (reads, remaining, position)
     else let block_end = fs_offset b + (fs_end b - fs_start b);
              overlap_start = max position (fs_offset b);
              overlap_end = min (position + remaining) block_end
          in if overlap_start < overlap_end
             then (reads @ [(b, fs_start b + (overlap_start - fs_offset b), overlap_end - overlap_start)],
                   remaining - (overlap_end - overlap_start), overlap_end)
             else (reads, remaining, position))"

definition plan_reads :: "file_block list \<Rightarrow> nat \<Rightarrow> nat \<Rightarrow> (file_block \<times> nat \<times> nat) list \<times> nat" where
  "plan_reads blocks begin_pos n =
     (let (reads, remaining, _) = fold plan_step (sort_key fs_offset blocks) ([], n, begin_pos) in (reads, remaining))"

text \<open>Reading the planned parts; a part that cannot be read in full makes the answer None.\<close>

fun read_parts :: "bool \<Rightarrow> (file_block \<times> nat \<times> nat) list \<Rightarrow> disk \<Rightarrow> bytes option \<times> disk" where
  "read_parts parallel [] d = (Some [], d)"
| "read_parts parallel ((b, off, n) # reads) d =
     (let (r, d) = read_disk (fs_path b) off n d
      in case r of
           Inr part \<Rightarrow>
             if length part = n
             then (let (rest, d) = read_parts parallel reads d in (map_option (\<lambda>rest. part @ rest) rest, d))
             else if parallel then (None, snd (read_parts parallel reads d)) else (None, d)
         | Inl _ \<Rightarrow> if parallel then (None, snd (read_parts parallel reads d)) else (None, d))"

definition read_block :: "bool \<Rightarrow> int \<Rightarrow> nat \<Rightarrow> nat \<Rightarrow> assembler \<Rightarrow> disk \<Rightarrow> bytes option \<times> disk" where
  "read_block parallel i begin_pos n a d =
     (if i < 0 \<or> int (as_num_pieces a) \<le> i then (None, d)
      else case piece_blocks a (nat i) of
          [] \<Rightarrow> (None, d)
        | [b] \<Rightarrow> (let (r, d) = read_disk (fs_path b) (fs_start b + begin_pos) n d
                  in (case r of Inr part \<Rightarrow> Some part | Inl _ \<Rightarrow> None, d))
        | blocks \<Rightarrow>
            let (reads, remaining) = plan_reads blocks begin_pos n;
                (parts, d) = read_parts parallel reads d
            in (if remaining \<noteq> 0 then None else parts, d))"

section \<open>Paths, checkpoints and cleaning up\<close>

definition get_file_paths :: "assembler \<Rightarrow> pystr list" where
  "get_file_paths a = remdups (map fs_path (as_blocks a))"

definition is_piece_written :: "assembler \<Rightarrow> nat \<Rightarrow> bool" where
  "is_piece_written a i \<longleftrightarrow> i \<in> set (as_written a)"

definition download_complete :: "assembler \<Rightarrow> bool" where
  "download_complete a \<longleftrightarrow> length (as_written a) = as_num_pieces a"

record file_checkpoint =
  cp_path :: pystr
  cp_size :: nat

record validation =
  v_valid :: bool
  v_missing_files :: "pystr list"
  v_corrupted_pieces :: "nat list"
  v_missing_pieces :: "nat list"

definition check_file :: "assembler \<Rightarrow> disk \<Rightarrow> nat list \<Rightarrow> file_checkpoint \<Rightarrow> validation \<Rightarrow> validation" where
  "check_file a d verified cf v =
     (case d_files d (cp_path cf) of
        None \<Rightarrow> v\<lparr>v_missing_files := v_missing_files v @ [cp_path cf], v_valid := False\<rparr>
      | Some f \<Rightarrow>
          if length f \<noteq> cp_size cf
          then v\<lparr>v_corrupted_pieces := v_corrupted_pieces v @
                   filter (\<lambda>i. list_ex (\<lambda>b. fs_path b = cp_path cf) (piece_blocks a i)) verified,
                 v_valid := False\<rparr>
          else v)"

definition check_piece :: "assembler \<Rightarrow> nat \<Rightarrow> validation \<Rightarrow> validation" where
  "check_piece a i v =
     (if i \<in> set (as_written a) then v
      else v\<lparr>v_missing_pieces := v_missing_pieces v @ [i], v_valid := False\<rparr>)"

definition verify_existing_pieces :: "file_checkpoint list \<Rightarrow> nat list \<Rightarrow> assembler \<Rightarrow> disk \<Rightarrow> validation" where
  "verify_existing_pieces files verified a d =
     fold (check_piece a) verified (fold (check_file a d verified) files
       \<lparr>v_valid = True, v_missing_files = [], v_corrupted_pieces = [], v_missing_pieces = []\<rparr>)"

definition cleanup_file :: "assembler \<Rightarrow> pystr \<Rightarrow> disk \<Rightarrow> disk" where
  "cleanup_file a path d =
     (case d_files d path of
        None \<Rightarrow> d
      | Some f \<Rightarrow> if length f \<noteq> as_total_length a then d\<lparr>d_files := (d_files d)(path := None)\<rparr> else d)"

definition cleanup_incomplete_files :: "assembler \<Rightarrow> disk \<Rightarrow> disk" where
  "cleanup_incomplete_files a d = fold (cleanup_file a) (get_file_paths a) d"

section \<open>The blocks are those of the piece mapping\<close>

definition piece_end_of :: "nat \<Rightarrow> nat \<Rightarrow> nat \<Rightarrow> nat" where
  "piece_end_of total_length piece_length k = min (k * piece_length + piece_length) total_length"

text \<open>The block of one piece in one file, if they overlap.\<close>

definition overlap :: "pystr \<Rightarrow> nat \<Rightarrow> nat \<Rightarrow> nat \<Rightarrow> nat \<Rightarrow> nat \<Rightarrow> file_block list" where
  "overlap path total_length piece_length a b k =
     (let s = max (k * piece_length) a; e = min (piece_end_of total_length piece_length k) b
      in if s < e then [\<lparr>fs_path = path, fs_start = s - a, fs_end = e - a, fs_piece = k, fs_offset = s - k * piece_length\<rparr>]
         else [])"

lemma file_loop_rec:
  "file_loop path T pl n a b k =
     (if k < n then if b \<le> piece_end_of T pl k then (overlap path T pl a b k, k)
        else (overlap path T pl a b k @ fst (file_loop path T pl n a b (Suc k)), snd (file_loop path T pl n a b (Suc k)))
      else ([], k))"
  unfolding file_loop.simps [of path T pl n a b k]
  by (simp add: overlap_def piece_end_of_def Let_def case_prod_unfold)

lemma overlap_before: "piece_end_of T pl k \<le> a \<Longrightarrow> overlap path T pl a b k = []"
  by (auto simp: overlap_def Let_def)

lemma overlap_after:
  assumes "b \<le> piece_end_of T pl j" and "j < k"
  shows "overlap path T pl a b k = []"
proof -
  have "Suc j * pl \<le> k * pl" using assms(2) by (intro mult_right_mono) simp_all
  then have "b \<le> k * pl" using assms(1) by (simp add: piece_end_of_def)
  then show ?thesis by (simp add: overlap_def Let_def)
qed

lemma file_loop_blocks:
  "fst (file_loop path T pl n a b k) = concat (map (overlap path T pl a b) [k..<n]) \<and>
   (\<forall>j. k \<le> j \<and> j < snd (file_loop path T pl n a b k) \<longrightarrow> piece_end_of T pl j < b)"
proof (induction "n - k" arbitrary: k)
  case 0
  then show ?case by (simp add: file_loop_rec [of path T pl n a b k])
next
  case (Suc m)
  then have k: "k < n" by simp
  have upt: "[k..<n] = k # [Suc k..<n]" using k by (simp add: upt_conv_Cons)
  show ?case
  proof (cases "b \<le> piece_end_of T pl k")
    case True
    have "concat (map (overlap path T pl a b) [Suc k..<n]) = []"
      using overlap_after [OF True] by auto
    then show ?thesis using True k by (simp add: file_loop_rec [of path T pl n a b k] upt)
  next
    case False
    have ih: "fst (file_loop path T pl n a b (Suc k)) = concat (map (overlap path T pl a b) [Suc k..<n]) \<and>
        (\<forall>j. Suc k \<le> j \<and> j < snd (file_loop path T pl n a b (Suc k)) \<longrightarrow> piece_end_of T pl j < b)"
      using Suc(2) by (intro Suc(1)) simp
    then show ?thesis using False k
      by (auto simp: file_loop_rec [of path T pl n a b k] upt) (metis Suc_leI le_neq_implies_less not_le)
  qed
qed

lemma file_loop_all:
  assumes "\<forall>j < k. piece_end_of T pl j \<le> a" and "a \<le> b"
  shows "fst (file_loop path T pl n a b k) = concat (map (overlap path T pl a b) [0..<n])"
    and "\<forall>j < snd (file_loop path T pl n a b k). piece_end_of T pl j \<le> b"
proof -
  have before: "concat (map (overlap path T pl a b) [0..<m]) = []" if "m \<le> k" for m
    using assms(1) that by (auto simp: overlap_before)
  show "fst (file_loop path T pl n a b k) = concat (map (overlap path T pl a b) [0..<n])"
  proof (cases "k \<le> n")
    case True
    then have "[0..<n] = [0..<k] @ [k..<n]" by (metis le0 le_add_diff_inverse upt_add_eq_append)
    then show ?thesis using file_loop_blocks [of path T pl n a b k] before [of k] by simp
  next
    case False
    then show ?thesis using file_loop_blocks [of path T pl n a b k] before [of n] by simp
  qed
  show "\<forall>j < snd (file_loop path T pl n a b k). piece_end_of T pl j \<le> b"
    using file_loop_blocks [of path T pl n a b k] assms by (meson le_trans less_imp_le not_le)
qed

lemma filter_overlaps:
  "filter (\<lambda>b. fs_piece b = p) (concat (map (overlap path T pl a b) [0..<n])) =
     (if p < n then overlap path T pl a b p else [])"
proof -
  have one: "filter (\<lambda>b. fs_piece b = p) (overlap path T pl a b k) = (if k = p then overlap path T pl a b p else [])" for k
    by (simp add: overlap_def Let_def)
  show ?thesis by (induction n) (auto simp: one less_Suc_eq)
qed

text \<open>The block that belongs to a segment of the piece mapping.\<close>

definition block_of_segment :: "named_file list \<Rightarrow> nat list \<Rightarrow> pystr \<Rightarrow> nat \<Rightarrow> nat \<Rightarrow> nat \<times> nat \<times> nat \<Rightarrow> file_block" where
  "block_of_segment files offsets output_dir pl p = (\<lambda>(j, off, len).
     \<lparr>fs_path = file_path_of output_dir (files ! j), fs_start = off, fs_end = off + len, fs_piece = p,
      fs_offset = offsets ! j + off - p * pl\<rparr>)"

lemma overlap_segment:
  assumes "files ! j = f" and "offsets ! j = a"
  shows "(if padding_file f then [] else overlap (file_path_of output_dir f) T pl a (a + tf_length f) p) =
    map (block_of_segment files offsets output_dir pl p)
      (file_segment (p * pl) (piece_end_of T pl p) (j, a, torrent_file.truncate f))"
  using assms
  by (auto simp: overlap_def block_of_segment_def file_segment_def padding_file_def torrent_file.truncate_def Let_def)

definition indexed_named :: "nat \<Rightarrow> nat \<Rightarrow> named_file list \<Rightarrow> (nat \<times> nat \<times> torrent_file) list" where
  "indexed_named j a fs = zip [j..<j + length fs] (zip (file_offsets a (map torrent_file.truncate fs)) (map torrent_file.truncate fs))"

lemma indexed_named_Cons:
  "indexed_named j a (f # fs) = (j, a, torrent_file.truncate f) # indexed_named (Suc j) (a + tf_length f) fs"
  by (simp add: indexed_named_def upt_conv_Cons torrent_file.truncate_def del: upt_Suc)

lemma multi_blocks_segments:
  assumes "\<forall>k < cp. piece_end_of T pl k \<le> a"
    and "\<forall>i < length fs. files ! (j + i) = fs ! i \<and> offsets ! (j + i) = file_offsets a (map torrent_file.truncate fs) ! i"
    and "p < n"
  shows "filter (\<lambda>b. fs_piece b = p) (multi_blocks output_dir T pl n a cp fs) =
    map (block_of_segment files offsets output_dir pl p)
      (concat (map (file_segment (p * pl) (piece_end_of T pl p)) (indexed_named j a fs)))"
  using assms(1,2)
proof (induction fs arbitrary: j a cp)
  case (Cons f fs)
  have f: "files ! j = f" "offsets ! j = a" using Cons.prems(2) [rule_format, of 0] by simp_all
  have rest: "\<forall>i < length fs. files ! (Suc j + i) = fs ! i \<and>
      offsets ! (Suc j + i) = file_offsets (a + tf_length f) (map torrent_file.truncate fs) ! i"
  proof (intro allI impI)
    fix i
    assume "i < length fs"
    then show "files ! (Suc j + i) = fs ! i \<and>
      offsets ! (Suc j + i) = file_offsets (a + tf_length f) (map torrent_file.truncate fs) ! i"
      using Cons.prems(2) [rule_format, of "Suc i"] by (simp add: torrent_file.truncate_def)
  qed
  note seg = overlap_segment [OF f, of output_dir T pl p]
  have later: "filter (\<lambda>b. fs_piece b = p) (multi_blocks output_dir T pl n (a + tf_length f) cp' fs) =
      map (block_of_segment files offsets output_dir pl p)
        (concat (map (file_segment (p * pl) (piece_end_of T pl p)) (indexed_named (Suc j) (a + tf_length f) fs)))"
    if "\<forall>k < cp'. piece_end_of T pl k \<le> a + tf_length f" for cp'
    using Cons.IH [OF that rest] .
  show ?case
  proof (cases "padding_file f")
    case True
    have "\<forall>k < cp. piece_end_of T pl k \<le> a + tf_length f" using Cons.prems(1) by (auto intro: le_trans)
    then show ?thesis using True seg later [of cp] by (simp add: indexed_named_Cons)
  next
    case False
    let ?l = "file_loop (file_path_of output_dir f) T pl n a (a + tf_length f) cp"
    note loop = file_loop_all [OF Cons.prems(1), of "a + tf_length f" "file_path_of output_dir f" n]
    have "multi_blocks output_dir T pl n a cp (f # fs) =
        fst ?l @ multi_blocks output_dir T pl n (a + tf_length f) (snd ?l) fs"
      using False by (simp add: case_prod_unfold Let_def)
    then show ?thesis
      using seg later [of "snd ?l"] loop False assms(3)
      by (simp add: filter_overlaps indexed_named_Cons)
  qed
qed (simp add: indexed_named_def)

definition torrent_of :: "named_file list \<Rightarrow> nat \<Rightarrow> nat \<Rightarrow> nat \<Rightarrow> torrent_info" where
  "torrent_of files T pl n = \<lparr>ti_files = map torrent_file.truncate files, ti_total_length = T, ti_piece_length = pl, ti_num_pieces = n\<rparr>"

text \<open>
  C13: Two implementations of one mapping. For a torrent with several files the blocks that the file
  assembler computes for a piece (with a loop that never goes back in the pieces) are, in order, the
  segments that the piece mapping of the file selection assigns to it, at the paths of their files and
  at the right position in the piece.
\<close>

theorem assembler_blocks_are_mapping:
  assumes "length files \<noteq> 1" and "p < n"
    and "map_of (mp_piece_to_files (build_mappings (torrent_of files T pl n))) p = Some segments"
  shows "piece_blocks (assembler_init files T pl n output_dir) p =
      map (block_of_segment files (file_offsets 0 (map torrent_file.truncate files)) output_dir pl p) segments"
proof -
  let ?ti = "torrent_of files T pl n"
  have s: "segments = segments_of ?ti p" using assms(2,3) by (simp add: torrent_of_def)
  have "build_file_segments files T pl n output_dir = multi_blocks output_dir T pl n 0 0 files"
  proof (cases files)
    case (Cons f fs)
    then obtain g gs where "fs = g # gs" using assms(1) by (cases fs) auto
    then show ?thesis by (simp add: build_file_segments_def Cons)
  qed (simp add: build_file_segments_def)
  moreover have "indexed_files ?ti = indexed_named 0 0 files"
    by (simp add: indexed_files_def indexed_named_def torrent_of_def)
  moreover have "piece_end_of T pl p = min (p * pl + pl) T" by (simp add: piece_end_of_def)
  ultimately show ?thesis
    using multi_blocks_segments [of 0 T pl 0 files files 0 "file_offsets 0 (map torrent_file.truncate files)" p n output_dir] assms(2)
    by (simp add: piece_blocks_def assembler_init_def s segments_of_def) (simp add: torrent_of_def)
qed

definition demo_file :: "pystr \<Rightarrow> nat \<Rightarrow> named_file" where
  "demo_file path len = \<lparr>tf_length = len, tf_attributes = None, nf_name = path, nf_full_path = Some path\<rparr>"

lemma assembler_blocks_are_mapping_witness:
  "\<exists>segments. map_of (mp_piece_to_files (build_mappings (torrent_of [demo_file [97] 3, demo_file [98] 2] 5 4 2))) 0 = Some segments \<and>
     length (piece_blocks (assembler_init [demo_file [97] 3, demo_file [98] 2] 5 4 2 [46]) 0) = length segments"
proof -
  let ?fs = "[demo_file [97] 3, demo_file [98] 2]"
  obtain segments where s: "map_of (mp_piece_to_files (build_mappings (torrent_of ?fs 5 4 2))) 0 = Some segments"
    by (simp add: torrent_of_def)
  have "piece_blocks (assembler_init ?fs 5 4 2 [46]) 0 =
      map (block_of_segment ?fs (file_offsets 0 (map torrent_file.truncate ?fs)) [46] 4 0) segments"
    by (rule assembler_blocks_are_mapping [OF _ _ s]) simp_all
  with s show ?thesis by auto
qed

section \<open>Torrents with one file\<close>

definition piece_of :: "bytes \<Rightarrow> nat \<Rightarrow> nat \<Rightarrow> bytes" where
  "piece_of c pl i = take pl (drop (i * pl) c)"

definition pieces_of :: "bytes \<Rightarrow> nat \<Rightarrow> nat" where
  "pieces_of c pl = (length c + pl - 1) div pl"

lemma less_pieces: "0 < pl \<Longrightarrow> i < pieces_of c pl \<longleftrightarrow> i * pl < length c"
proof -
  assume pl: "0 < pl"
  have "i < pieces_of c pl \<longleftrightarrow> Suc i \<le> (length c + pl - 1) div pl" by (simp add: pieces_of_def Suc_le_eq)
  also have "\<dots> \<longleftrightarrow> Suc i * pl \<le> length c + pl - 1" using pl by (simp add: less_eq_div_iff_mult_less_eq)
  also have "\<dots> \<longleftrightarrow> i * pl < length c" using pl by auto
  finally show ?thesis .
qed

lemma length_piece_of: "length (piece_of c pl i) = min pl (length c - i * pl)"
  by (simp add: piece_of_def)

lemma piece_not_last:
  assumes "0 < pl" and "i < j" and "j < pieces_of c pl"
  shows "length (piece_of c pl i) = pl"
proof -
  have "j * pl < length c" using assms by (simp add: less_pieces)
  moreover have "Suc i * pl \<le> j * pl" using assms(2) by (intro mult_right_mono) simp_all
  ultimately show ?thesis by (simp add: length_piece_of)
qed

lemma single_blocks_pieces:
  "k \<le> n \<Longrightarrow> map fs_piece (single_blocks path T pl n (k * pl) [k..<n]) = [k..<n] \<and>
     (\<forall>b \<in> set (single_blocks path T pl n (k * pl) [k..<n]). fs_start b = fs_piece b * pl \<and> fs_path b = path)"
proof (induction "n - k" arbitrary: k)
  case (Suc m)
  have upt: "[k..<n] = k # [Suc k..<n]" using Suc(2) by (simp add: upt_conv_Cons)
  show ?case
  proof (cases "Suc k = n")
    case False
    then have "Suc k \<le> n" "m = n - Suc k" using Suc(2) by simp_all
    then show ?thesis using Suc(1) [of "Suc k"] False by (simp add: upt add.commute Let_def)
  qed (simp add: upt)
qed simp

text \<open>The assembler of a torrent with one file that is no padding file, and the path of the file.\<close>

definition one_file :: "named_file \<Rightarrow> bytes \<Rightarrow> nat \<Rightarrow> pystr \<Rightarrow> assembler" where
  "one_file f c pl output_dir = assembler_init [f] (length c) pl (pieces_of c pl) output_dir"

definition path_of_one :: "named_file \<Rightarrow> pystr \<Rightarrow> pystr" where
  "path_of_one f output_dir = path_join output_dir (nf_name f)"

lemma filter_unique:
  "distinct (map g xs) \<Longrightarrow> x \<in> set xs \<Longrightarrow> filter (\<lambda>y. g y = g x) xs = [x]"
proof (induction xs)
  case (Cons y xs)
  show ?case
  proof (cases "x = y")
    case True
    then have "filter (\<lambda>z. g z = g x) xs = []" using Cons.prems by (simp add: filter_empty_conv) (metis image_eqI)
    then show ?thesis using True by simp
  next
    case False
    then have "g y \<noteq> g x" using Cons.prems by (metis Set.set_insert distinct.simps(2) image_eqI insertE list.simps(9) list.set_map set_ConsD)
    then show ?thesis using Cons False by simp
  qed
qed simp

lemma one_file_blocks:
  assumes "0 < pl" and "\<not> padding_file f" and "i < pieces_of c pl"
  obtains b where "filter (\<lambda>b. fs_piece b = i) (as_blocks (one_file f c pl output_dir)) = [b]"
    and "fs_path b = path_of_one f output_dir" and "fs_start b = i * pl"
proof -
  let ?bs = "single_blocks (path_of_one f output_dir) (length c) pl (pieces_of c pl) (0 * pl) [0..<pieces_of c pl]"
  have bs: "as_blocks (one_file f c pl output_dir) = ?bs"
    using assms(2) by (simp add: one_file_def assembler_init_def build_file_segments_def path_of_one_def)
  have m: "map fs_piece ?bs = [0..<pieces_of c pl]" using single_blocks_pieces [of 0 "pieces_of c pl"] by simp
  then have "i \<in> set (map fs_piece ?bs)" using assms(3) by simp
  then obtain b where b: "b \<in> set ?bs" "fs_piece b = i" by auto
  have "distinct (map fs_piece ?bs)" unfolding m by simp
  then have "filter (\<lambda>x. fs_piece x = fs_piece b) ?bs = [b]" using b(1) by (rule filter_unique)
  moreover have "fs_start b = i * pl \<and> fs_path b = path_of_one f output_dir"
    using single_blocks_pieces [of 0 "pieces_of c pl" "path_of_one f output_dir" "length c" pl] b by blast
  ultimately show ?thesis using that [of b] b(2) bs by simp
qed

subsection \<open>Requests for pieces\<close>

definition piece_request :: "bytes \<Rightarrow> nat \<Rightarrow> pystr \<Rightarrow> write_request \<Rightarrow> bool" where
  "piece_request c pl path w \<longleftrightarrow> w_path w = path \<and>
     (\<exists>i < pieces_of c pl. w_offset w = i * pl \<and> w_data w = piece_of c pl i)"

lemma piece_request_carries:
  assumes "0 < pl" and "piece_request c pl path w"
  shows "w_data w \<noteq> [] \<and> carries (\<lambda>i. c ! i) (write_of w) \<and> end_of (write_of w) \<le> length c"
proof -
  obtain i where i: "i < pieces_of c pl" "w_offset w = i * pl" "w_data w = piece_of c pl i"
    using assms(2) by (auto simp: piece_request_def)
  have lt: "i * pl < length c" using i(1) assms(1) by (simp add: less_pieces)
  have "length (piece_of c pl i) \<noteq> 0" using lt assms(1) by (simp add: length_piece_of)
  then show ?thesis using lt by (auto simp: i write_of_def carries_def end_of_def piece_of_def)
qed

lemma piece_requests_spaced:
  assumes "0 < pl" and "t < pl" and "\<forall>w \<in> set (v # ws). piece_request c pl path w"
    and "sorted_wrt (<) (map w_offset (v # ws))"
  shows "spaced t (w_offset v + length (w_data v)) ws"
  using assms(3,4)
proof (induction ws arbitrary: v)
  case (Cons w ws)
  obtain i where i: "i < pieces_of c pl" "w_offset v = i * pl" "w_data v = piece_of c pl i"
    using Cons.prems(1) by (auto simp: piece_request_def)
  obtain j where j: "j < pieces_of c pl" "w_offset w = j * pl" using Cons.prems(1) by (auto simp: piece_request_def)
  have ij: "i < j" using Cons.prems(2) i(2) j(2) by simp
  have len: "length (w_data v) = pl" using piece_not_last [OF assms(1) ij j(1)] i(3) by simp
  have "w_offset w = w_offset v + pl \<or> w_offset v + pl + t < w_offset w"
  proof (cases "j = Suc i")
    case False
    then have "(i + 2) * pl \<le> j * pl" using ij by (intro mult_right_mono) simp_all
    then show ?thesis using i(2) j(2) assms(2) by (simp add: algebra_simps)
  qed (simp add: i(2) j(2))
  moreover have "spaced t (w_offset w + length (w_data w)) ws" using Cons by simp
  ultimately show ?case by (simp add: len)
qed simp

lemma piece_batch_spaced:
  assumes "0 < pl" and "t < pl" and "\<forall>w \<in> set ws. piece_request c pl path w" and "distinct (map w_offset ws)"
  shows "batch_spaced t ws"
proof (cases "sort_key w_offset ws")
  case (Cons v vs)
  have "distinct (map w_offset (sort_key w_offset ws))" using assms(4) by (metis distinct_sort distinct_map set_sort)
  then have "sorted_wrt (<) (map w_offset (sort_key w_offset ws))"
    by (simp add: strict_sorted_iff del: sorted_wrt_map)
  moreover have "\<forall>w \<in> set (sort_key w_offset ws). piece_request c pl path w" using assms(3) by simp
  ultimately show ?thesis using piece_requests_spaced [OF assms(1,2), of v vs c path] by (simp add: Cons batch_spaced_def)
qed (simp add: batch_spaced_def)

subsection \<open>Runs of the assembler and the batcher\<close>

datatype assembly_event = Write_piece nat rat | Batcher rat | Flush_all

text \<open>The operating system carries out every write here.\<close>

primrec assembly_step :: "bytes \<Rightarrow> nat \<Rightarrow> assembly_event \<Rightarrow> assembler \<times> disk \<Rightarrow> assembler \<times> disk" where
  "assembly_step c pl (Write_piece i now) s = snd (write_piece_to_file i (piece_of c pl i) now s)"
| "assembly_step c pl (Batcher now) s = apsnd (write_batcher_turn (\<lambda>_. True) now) s"
| "assembly_step c pl Flush_all s = apsnd (flush_all_writes (\<lambda>_. True)) s"

definition outstanding :: "disk \<Rightarrow> write_request list" where
  "outstanding d = d_queue d @ concat (map snd (d_pending d))"

definition holds_piece :: "bytes \<Rightarrow> nat \<Rightarrow> nat \<Rightarrow> bytes option \<Rightarrow> bool" where
  "holds_piece c pl i old \<longleftrightarrow> (\<exists>f. old = Some f \<and>
     (\<forall>k. i * pl \<le> k \<and> k < i * pl + length (piece_of c pl i) \<longrightarrow> k < length f \<and> f ! k = c ! k))"

definition disk_settings :: "nat \<Rightarrow> disk \<Rightarrow> bool" where
  "disk_settings pl d \<longleftrightarrow> write_contiguous_threshold (d_config d) < pl \<and> write_queue_priority (d_config d)"

text \<open>Every written piece is in the file or still requested; the file is never longer than the content.\<close>

definition assembly_inv :: "bytes \<Rightarrow> nat \<Rightarrow> pystr \<Rightarrow> nat list \<Rightarrow> disk \<Rightarrow> bool" where
  "assembly_inv c pl path written d \<longleftrightarrow>
     disk_settings pl d \<and>
     (d_pending d = [] \<or> (\<exists>ws. d_pending d = [(path, ws)])) \<and>
     (\<forall>w \<in> set (outstanding d). piece_request c pl path w) \<and>
     distinct (map w_offset (outstanding d)) \<and>
     w_offset ` set (outstanding d) \<subseteq> (\<lambda>i. i * pl) ` set written \<and>
     (\<forall>i \<in> set written. i < pieces_of c pl \<and>
        (i * pl \<in> w_offset ` set (outstanding d) \<or> holds_piece c pl i (d_files d path))) \<and>
     old_length (d_files d path) \<le> length c"

lemma assembly_inv_cong:
  assumes "d_config d' = d_config d" and "d_files d' path = d_files d path"
    and "d_pending d' = [] \<or> (\<exists>ws. d_pending d' = [(path, ws)])"
    and "mset (outstanding d') = mset (outstanding d)" and "assembly_inv c pl path W d"
  shows "assembly_inv c pl path W d'"
proof -
  have s: "set (outstanding d') = set (outstanding d)" using assms(4) by (metis set_mset_mset)
  have "mset (map w_offset (outstanding d')) = mset (map w_offset (outstanding d))" using assms(4) by simp
  then have "distinct (map w_offset (outstanding d')) = distinct (map w_offset (outstanding d))"
    by (metis mset_eq_imp_distinct_iff)
  then show ?thesis using assms(1-3,5) unfolding assembly_inv_def disk_settings_def s by simp
qed

lemma flush_keeps:
  assumes "0 < pl" and inv: "assembly_inv c pl path W d" and p: "d_pending d = [(path, ws)]"
  shows "assembly_inv c pl path W (flush_file_writes (\<lambda>_. True) path d) \<and>
    d_pending (flush_file_writes (\<lambda>_. True) path d) = [] \<and> d_queue (flush_file_writes (\<lambda>_. True) path d) = d_queue d"
proof (cases "ws = []")
  case True
  then have "flush_file_writes (\<lambda>_. True) path d = d\<lparr>d_pending := []\<rparr>" using p by (simp add: flush_file_writes_def)
  moreover have "assembly_inv c pl path W (d\<lparr>d_pending := []\<rparr>)"
    by (rule assembly_inv_cong [OF _ _ _ _ inv]) (simp_all add: outstanding_def p True)
  ultimately show ?thesis by simp
next
  case False
  have ws: "\<forall>w \<in> set ws. piece_request c pl path w" "distinct (map w_offset ws)"
    using inv by (simp_all add: assembly_inv_def outstanding_def p)
  have sp: "batch_spaced (write_contiguous_threshold (d_config d)) ws"
    using inv by (intro piece_batch_spaced [OF assms(1) _ ws]) (simp add: assembly_inv_def disk_settings_def)
  define g where "g = flushed ws (d_files d path)"
  have fl: "flush_file_writes (\<lambda>_. True) path d = d\<lparr>d_pending := [], d_files := (d_files d)(path \<mapsto> g)\<rparr>"
    using flush_spaced [where d = d and path = path and io_ok = "\<lambda>_. True", OF _ False _ sp] by (simp add: p g_def)
  have good: "\<forall>w \<in> set ws. w_data w \<noteq> [] \<and> carries (\<lambda>i. c ! i) (write_of w)" "\<forall>w \<in> set ws. end_of (write_of w) \<le> length c"
    using piece_request_carries [OF assms(1)] ws(1) by blast+
  note bytes = flushed_bytes [where old = "d_files d path", OF False good(1), folded g_def]
  have fin: "finite ((end_of \<circ> write_of) ` set ws)" by simp
  have len: "length g \<le> length c" "old_length (d_files d path) \<le> length g"
    "\<forall>w \<in> set ws. end_of (write_of w) \<le> length g"
    using inv good(2) unfolding bytes(1) by (auto simp: assembly_inv_def Max_ge_iff)
  have held: "holds_piece c pl i (Some g)" if i: "i \<in> set W" "i * pl \<notin> w_offset ` set (d_queue d)" for i
  proof (cases "i * pl \<in> w_offset ` set ws")
    case True
    then obtain w where w: "w \<in> set ws" "w_offset w = i * pl" by auto
    then obtain j where "w_offset w = j * pl" "w_data w = piece_of c pl j" using ws(1) unfolding piece_request_def by blast
    then have data: "w_data w = piece_of c pl i" using w(2) assms(1) by simp
    have "k < length g \<and> g ! k = c ! k" if k: "i * pl \<le> k" "k < i * pl + length (piece_of c pl i)" for k
    proof -
      have cov: "covers (write_of w) k" using k by (simp add: covers_def write_of_def end_of_def data w(2))
      have "k < end_of (write_of w)" using cov by (simp add: covers_def)
      then have "k < length g" using len(3) w(1) by fastforce
      then show ?thesis using bytes(2) cov w(1) by auto
    qed
    then show ?thesis by (simp add: holds_piece_def)
  next
    case False
    then have "holds_piece c pl i (d_files d path)" using inv i by (auto simp: assembly_inv_def outstanding_def p)
    then obtain f where f: "d_files d path = Some f"
      "\<forall>k. i * pl \<le> k \<and> k < i * pl + length (piece_of c pl i) \<longrightarrow> k < length f \<and> f ! k = c ! k"
      by (auto simp: holds_piece_def)
    have "k < length g \<and> g ! k = c ! k" if k: "i * pl \<le> k" "k < i * pl + length (piece_of c pl i)" for k
    proof -
      have kf: "k < length f" "f ! k = c ! k" using f(2) k by blast+
      then have kg: "k < length g" using len(2) f(1) by (simp add: old_length_def)
      then show ?thesis using bytes(2) [of k] kf f(1) by (auto simp: old_byte_def)
    qed
    then show ?thesis by (simp add: holds_piece_def)
  qed
  have "assembly_inv c pl path W (d\<lparr>d_pending := [], d_files := (d_files d)(path \<mapsto> g)\<rparr>)"
    unfolding assembly_inv_def
  proof (intro conjI ballI)
    fix i
    assume i: "i \<in> set W"
    show "i < pieces_of c pl" using inv i by (simp add: assembly_inv_def)
    show "i * pl \<in> w_offset ` set (outstanding (d\<lparr>d_pending := [], d_files := (d_files d)(path \<mapsto> g)\<rparr>)) \<or>
        holds_piece c pl i (d_files (d\<lparr>d_pending := [], d_files := (d_files d)(path \<mapsto> g)\<rparr>) path)"
      using held [OF i] by (auto simp: outstanding_def)
  qed (use inv len(1) in \<open>auto simp: assembly_inv_def outstanding_def disk_settings_def old_length_def\<close>)
  then show ?thesis by (simp add: fl)
qed

lemma flush_path_keeps:
  assumes "0 < pl" and "assembly_inv c pl path W d"
  shows "assembly_inv c pl path W (flush_file_writes (\<lambda>_. True) q d) \<and>
    d_queue (flush_file_writes (\<lambda>_. True) q d) = d_queue d \<and>
    (q = path \<longrightarrow> d_pending (flush_file_writes (\<lambda>_. True) q d) = [])"
proof (cases "\<exists>ws. d_pending d = [(q, ws)]")
  case True
  then obtain ws where p: "d_pending d = [(q, ws)]" by blast
  then have "q = path" using assms(2) by (auto simp: assembly_inv_def)
  then show ?thesis using flush_keeps [OF assms] p by blast
next
  case False
  then have "map_of (d_pending d) q = None \<and> (q = path \<longrightarrow> d_pending d = [])" using assms(2) by (auto simp: assembly_inv_def)
  then show ?thesis using assms(2) by (simp add: flush_file_writes_def)
qed

lemma flush_fold_keeps:
  assumes "0 < pl" and "assembly_inv c pl path W d"
  shows "assembly_inv c pl path W (fold (flush_file_writes (\<lambda>_. True)) qs d)"
  using assms(2) by (induction qs arbitrary: d) (simp_all add: flush_path_keeps [OF assms(1)])

lemma batcher_keeps:
  assumes "0 < pl" and inv: "assembly_inv c pl path W d"
  shows "assembly_inv c pl path W (write_batcher_turn (\<lambda>_. True) now d)"
proof (cases "sort_key request_key (d_queue d)")
  case Nil
  then show ?thesis using inv flush_fold_keeps [OF assms]
    by (simp add: write_batcher_turn_def get_write_request_def assembly_inv_def disk_settings_def flush_stale_writes_def)
next
  case (Cons w qs)
  have prio: "write_queue_priority (d_config d)" using inv by (simp add: assembly_inv_def disk_settings_def)
  have mq: "mset (d_queue d) = mset (w # qs)" using Cons by (metis mset_sort)
  then have "w \<in> set (d_queue d)" by (metis list.set_intros(1) set_mset_mset)
  then have path: "w_path w = path" using inv by (auto simp: assembly_inv_def outstanding_def piece_request_def)
  define old where "old = (case map_of (d_pending d) path of None \<Rightarrow> [] | Some ws \<Rightarrow> ws)"
  define e where "e = d\<lparr>d_queue := qs, d_pending := [(path, old @ [w])]\<rparr>"
  have pend: "d_pending d = [] \<or> d_pending d = [(path, old)]"
    using inv by (auto simp: assembly_inv_def old_def)
  have upd: "AList.update path (old @ [w]) (d_pending d) = [(path, old @ [w])]" using pend by auto
  have "assembly_inv c pl path W e"
  proof (rule assembly_inv_cong [OF _ _ _ _ inv])
    have "d_pending d = [] \<Longrightarrow> old = []" by (simp add: old_def)
    then have "concat (map snd (d_pending d)) = old" using pend by fastforce
    then show "mset (outstanding e) = mset (outstanding d)" using mq by (simp add: e_def outstanding_def)
  qed (simp_all add: e_def)
  then have "assembly_inv c pl path W (if batch_full now w (old @ [w]) e then flush_file_writes (\<lambda>_. True) path e else e)"
    using flush_path_keeps [OF assms(1)] by auto
  then show ?thesis using prio Cons
    by (simp add: write_batcher_turn_def get_write_request_def path upd Let_def old_def [symmetric] e_def [symmetric]
        split: if_splits)
qed

lemma assembly_step_keeps:
  assumes "0 < pl" and "\<not> padding_file f"
    and "assembly_inv c pl (path_of_one f output_dir) (as_written a) d"
    and "as_blocks a = as_blocks (one_file f c pl output_dir)" and "assembly_step c pl ev (a, d) = (a', d')"
  shows "assembly_inv c pl (path_of_one f output_dir) (as_written a') d' \<and>
    as_blocks a' = as_blocks (one_file f c pl output_dir)"
proof (cases ev)
  case (Write_piece i now)
  let ?path = "path_of_one f output_dir"
  show ?thesis
  proof (cases "i \<in> set (as_written a) \<or> piece_blocks a i = []")
    case True
    then show ?thesis using assms(3-5) Write_piece by (auto simp: write_piece_to_file_def split: if_splits)
  next
    case False
    obtain g where "g \<in> set (piece_blocks a i)" using False by (cases "piece_blocks a i") auto
    then have "g \<in> set (as_blocks (one_file f c pl output_dir))" "fs_piece g = i" using assms(4) by (auto simp: piece_blocks_def)
    then have mem: "i \<in> set (map fs_piece (as_blocks (one_file f c pl output_dir)))" by auto
    have "map fs_piece (as_blocks (one_file f c pl output_dir)) = [0..<pieces_of c pl]"
      using single_blocks_pieces [of 0 "pieces_of c pl" "path_of_one f output_dir" "length c" pl] assms(2)
      by (simp add: one_file_def assembler_init_def build_file_segments_def path_of_one_def)
    then have i: "i < pieces_of c pl" using mem by simp
    obtain b where b: "filter (\<lambda>b. fs_piece b = i) (as_blocks (one_file f c pl output_dir)) = [b]"
      "fs_path b = ?path" "fs_start b = i * pl"
      by (rule one_file_blocks [OF assms(1,2) i])
    define w where "w = \<lparr>w_path = ?path, w_offset = i * pl, w_data = piece_of c pl i, w_time = now, w_priority = 0\<rparr>"
    have "write_queue_priority (d_config d)" using assms(3) by (simp add: assembly_inv_def disk_settings_def)
    then have res: "a' = a\<lparr>as_written := as_written a @ [i]\<rparr>" "d' = d\<lparr>d_queue := d_queue d @ [w]\<rparr>"
      using assms(4,5) False b by (auto simp: Write_piece write_piece_to_file_def piece_blocks_def write_segment_def write_block_def w_def)
    have out: "set (outstanding d') = insert w (set (outstanding d))"
      "mset (map w_offset (outstanding d')) = mset (i * pl # map w_offset (outstanding d))"
      by (auto simp: outstanding_def res w_def)
    have new: "i * pl \<notin> w_offset ` set (outstanding d)"
      using assms(1,3) False by (auto simp: assembly_inv_def)
    have "distinct (i * pl # map w_offset (outstanding d))" using assms(3) new by (simp add: assembly_inv_def)
    then have dist: "distinct (map w_offset (outstanding d'))" using out(2) by (metis mset_eq_imp_distinct_iff)
    have req: "piece_request c pl ?path w" using i by (auto simp: piece_request_def w_def)
    have "assembly_inv c pl ?path (as_written a') d'"
      unfolding assembly_inv_def out(1)
    proof (intro conjI ballI)
      fix j
      assume "j \<in> set (as_written a')"
      then have j: "j = i \<or> j \<in> set (as_written a)" by (auto simp: res)
      show "j < pieces_of c pl" using j i assms(3) by (auto simp: assembly_inv_def)
      show "j * pl \<in> w_offset ` insert w (set (outstanding d)) \<or> holds_piece c pl j (d_files d' ?path)"
        using j assms(3) by (auto simp: assembly_inv_def res w_def)
    qed (use assms(3) dist req in \<open>auto simp: assembly_inv_def res w_def disk_settings_def\<close>)
    then show ?thesis using assms(4) res(1) by simp
  qed
next
  case (Batcher now)
  then show ?thesis using assms batcher_keeps [OF assms(1,3)] by auto
next
  case Flush_all
  then show ?thesis using assms flush_fold_keeps [OF assms(1,3)] by (auto simp: flush_all_writes_def)
qed

lemma one_file_assembled:
  assumes "0 < pl" and "\<not> padding_file f" and "c \<noteq> []" and "write_queue_priority cfg"
    and "write_contiguous_threshold cfg < pl"
    and "fold (assembly_step c pl) events (one_file f c pl output_dir, disk_init cfg storage (\<lambda>_. None)) = (a, d)"
    and "set (as_written a) = {..<pieces_of c pl}" and "d_queue d = []"
  shows "d_files (flush_all_writes (\<lambda>_. True) d) (path_of_one f output_dir) = Some c"
proof -
  let ?path = "path_of_one f output_dir"
  have keep: "assembly_inv c pl ?path (as_written a') d' \<and> as_blocks a' = as_blocks (one_file f c pl output_dir)"
    if "assembly_inv c pl ?path (as_written b) e" "as_blocks b = as_blocks (one_file f c pl output_dir)"
      "fold (assembly_step c pl) evs (b, e) = (a', d')" for evs b e a' d'
    using that
  proof (induction evs arbitrary: b e)
    case (Cons ev evs)
    obtain b1 e1 where s: "assembly_step c pl ev (b, e) = (b1, e1)" by (cases "assembly_step c pl ev (b, e)")
    show ?case
      by (rule Cons.IH [of b1 e1]) (use assembly_step_keeps [OF assms(1,2) Cons.prems(1,2) s] Cons.prems(3) s in simp_all)
  qed simp
  have "assembly_inv c pl ?path (as_written (one_file f c pl output_dir)) (disk_init cfg storage (\<lambda>_. None))"
    using assms(4,5) by (simp add: assembly_inv_def one_file_def assembler_init_def disk_init_def outstanding_def disk_settings_def old_length_def)
  then have inv: "assembly_inv c pl ?path (as_written a) d" using keep assms(6) by blast
  let ?e = "flush_all_writes (\<lambda>_. True) d"
  have all: "assembly_inv c pl ?path (as_written a) ?e \<and> d_queue ?e = [] \<and> d_pending ?e = []"
  proof (cases "d_pending d")
    case Nil
    then show ?thesis using inv assms(8) by (simp add: flush_all_writes_def)
  next
    case (Cons p ps)
    then obtain ws where "d_pending d = [(?path, ws)]" using inv by (auto simp: assembly_inv_def)
    then show ?thesis using flush_path_keeps [OF assms(1) inv, of ?path] assms(8) by (simp add: flush_all_writes_def)
  qed
  then have out: "outstanding ?e = []" by (simp add: outstanding_def)
  have held: "holds_piece c pl i (d_files ?e ?path)" if "i < pieces_of c pl" for i
    using all that assms(7) unfolding assembly_inv_def out by auto
  have "0 < length c" using assms(3) by simp
  then have "holds_piece c pl 0 (d_files ?e ?path)" using held [of 0] assms(1) by (simp add: less_pieces)
  then obtain g where g: "d_files ?e ?path = Some g" by (auto simp: holds_piece_def)
  have byte: "k < length g \<and> g ! k = c ! k" if k: "k < length c" for k
  proof -
    have m: "k div pl * pl + k mod pl = k" by simp
    have lt: "k mod pl < pl" using assms(1) by simp
    have le: "k div pl * pl \<le> k" using m by linarith
    then have "k div pl * pl < length c" using k by linarith
    then have "k div pl < pieces_of c pl" using assms(1) by (simp only: less_pieces)
    then have "holds_piece c pl (k div pl) (Some g)" using held g by simp
    moreover have "k < k div pl * pl + length (piece_of c pl (k div pl))"
      using k m lt unfolding length_piece_of by linarith
    ultimately show ?thesis using le by (auto simp: holds_piece_def)
  qed
  have "length g \<le> length c" using all g by (simp add: assembly_inv_def old_length_def)
  moreover have "length c \<le> length g" using byte [of "length c - 1"] assms(3) by (cases c) auto
  ultimately have "g = c" using byte by (intro nth_equalityI) auto
  then show ?thesis using g by simp
qed

text \<open>
  A torrent with one file is assembled. From an assembler and a disk manager just made (with the
  priority queue of the default settings, and pieces longer than the merge threshold), for verified
  pieces written in any order and any number of times, with turns of the batcher and flushes at any
  times between: once every piece was written and nothing waits in the queue, flushing leaves exactly
  the content of the torrent in the file.
\<close>

theorem single_file_assembled:
  assumes "0 < pl" and "\<not> padding_file f" and "c \<noteq> []" and "write_queue_priority cfg"
    and "write_contiguous_threshold cfg < pl"
    and "fold (assembly_step c pl) events (one_file f c pl output_dir, disk_init cfg storage (\<lambda>_. None)) = (a, d)"
    and "set (as_written a) = {..<pieces_of c pl}" and "d_queue d = []"
  shows "d_files (flush_all_writes (\<lambda>_. True) d) (path_of_one f output_dir) = Some c"
  using assms by (rule one_file_assembled)

definition sample_content :: bytes where
  "sample_content = [7, 8, 9]"

definition sample_events :: "assembly_event list" where
  "sample_events = [Write_piece 1 0, Batcher 0, Write_piece 0 0, Write_piece 1 0, Batcher 1]"

definition sample_file :: named_file where
  "sample_file = \<lparr>tf_length = 3, tf_attributes = None, nf_name = [120], nf_full_path = None\<rparr>"

definition sample_settings :: disk_config where
  "sample_settings = sample_disk_config\<lparr>write_contiguous_threshold := 1, write_batch_kib := 0\<rparr>"

definition sample_run :: "assembler \<times> disk" where
  "sample_run = fold (assembly_step sample_content 2) sample_events
     (one_file sample_file sample_content 2 [46], disk_init sample_settings ''ssd'' (\<lambda>_. None))"

lemma single_file_assembled_witness:
  "d_files (flush_all_writes (\<lambda>_. True) (snd sample_run)) [46, 47, 120] = Some sample_content"
proof -
  have "d_files (flush_all_writes (\<lambda>_. True) (snd sample_run)) (path_of_one sample_file [46]) = Some sample_content"
  proof (rule single_file_assembled)
    show "fold (assembly_step sample_content 2) sample_events
        (one_file sample_file sample_content 2 [46], disk_init sample_settings ''ssd'' (\<lambda>_. None)) = (fst sample_run, snd sample_run)"
      by (simp add: sample_run_def)
    show "write_queue_priority sample_settings" "write_contiguous_threshold sample_settings < 2"
      by (simp_all add: sample_settings_def sample_disk_config_def)
    show "\<not> padding_file sample_file"
      by (simp add: padding_file_def sample_file_def is_padding_def torrent_file.truncate_def)
    show "sample_content \<noteq> []" by (simp add: sample_content_def)
    have i: "as_blocks (one_file sample_file sample_content 2 [46]) =
       [\<lparr>fs_path = [46, 47, 120], fs_start = 0, fs_end = 2, fs_piece = 0, fs_offset = 0\<rparr>,
        \<lparr>fs_path = [46, 47, 120], fs_start = 2, fs_end = 3, fs_piece = 1, fs_offset = 0\<rparr>]"
      "as_written (one_file sample_file sample_content 2 [46]) = []"
      by code_simp+
    have w: "write_piece_to_file n data t (a, d) = (Inr (), a, d)" if "n \<in> set (as_written a)" for n data t a d
      using that by (simp add: write_piece_to_file_def)
    have "as_written (fst sample_run) = [1, 0] \<and> d_queue (snd sample_run) = []"
      by (simp add: sample_run_def sample_events_def write_piece_to_file_def piece_blocks_def i disk_init_def
          write_segment_def write_block_def sample_settings_def sample_disk_config_def write_batcher_turn_def
          get_write_request_def batch_full_def flush_file_writes_def Let_def)
    then show "set (as_written (fst sample_run)) = {..<pieces_of sample_content 2}" "d_queue (snd sample_run) = []"
      by (auto simp: pieces_of_def sample_content_def)
  qed simp
  then show ?thesis by (simp add: path_of_one_def path_join_def sample_file_def)
qed

section \<open>Torrents with several files\<close>

text \<open>
  C39: Pieces that touch several files. Every block of a written piece is requested with the data of
  the whole piece, at the place of the block in its file. Flushing such a request leaves the first
  bytes of the piece there, whatever the block's position in the piece, and the file reaches beyond
  the block's end whenever the piece is longer than the block.
\<close>

theorem blocks_get_whole_piece:
  assumes "write_piece_to_file i data now (a, d) = (Inr (), a', d')" and "i \<notin> set (as_written a)"
    and "write_queue_priority (d_config d)" and "b \<in> set (piece_blocks a i)" and "data \<noteq> []" and "io_ok (fs_path b)"
  shows "\<exists>w \<in> set (d_queue d'). w_path w = fs_path b \<and> w_offset w = fs_start b \<and> w_data w = data \<and>
    (\<forall>e. d_pending e = [(fs_path b, [w])] \<longrightarrow>
      (\<exists>f. d_files (flush_file_writes io_ok (fs_path b) e) (fs_path b) = Some f \<and>
         take (length data) (drop (fs_start b) f) = data \<and> fs_start b + length data \<le> length f))"
proof -
  define w where "w = \<lparr>w_path = fs_path b, w_offset = fs_start b, w_data = data, w_time = now, w_priority = 0\<rparr>"
  have queue: "d_queue (fold (write_segment now data) bs e) = d_queue e @
      map (\<lambda>b. \<lparr>w_path = fs_path b, w_offset = fs_start b, w_data = data, w_time = now, w_priority = 0\<rparr>) bs"
    if "write_queue_priority (d_config e)" for bs e
    using that by (induction bs arbitrary: e) (simp_all add: write_segment_def write_block_def Let_def)
  have "piece_blocks a i \<noteq> []" using assms(4) by auto
  then have "d' = fold (write_segment now data) (piece_blocks a i) d"
    using assms(1,2) by (simp add: write_piece_to_file_def)
  then have mem: "w \<in> set (d_queue d')" using queue [OF assms(3)] assms(4) by (auto simp: w_def)
  have "\<exists>f. d_files (flush_file_writes io_ok (fs_path b) e) (fs_path b) = Some f \<and>
      take (length data) (drop (fs_start b) f) = data \<and> fs_start b + length data \<le> length f"
    if e: "d_pending e = [(fs_path b, [w])]" for e
  proof -
    obtain base where f: "d_files (flush_file_writes io_ok (fs_path b) e) (fs_path b) = Some (pwrite (fs_start b) data base)"
      using flush_spaced [where d = e and path = "fs_path b" and ws = "[w]" and io_ok = io_ok] assms(6) e
      by (simp add: batch_spaced_def flushed_def write_of_def w_def)
    have len: "fs_start b + length data \<le> length (pwrite (fs_start b) data base)" using assms(5) by (simp add: length_pwrite)
    have "take (length data) (drop (fs_start b) (pwrite (fs_start b) data base)) = data"
      using len by (intro nth_equalityI) (simp_all add: nth_pwrite)
    then show ?thesis using f len by simp
  qed
  with mem show ?thesis by (intro bexI [of _ w]) (simp_all add: w_def)
qed

definition two_files :: assembler where
  "two_files = assembler_init [demo_file [97] 1, demo_file [98] 1] 2 2 1 [46]"

text \<open>Two files of one byte in one piece: the second file would get both bytes.\<close>

lemma blocks_get_whole_piece_witness:
  "\<exists>d' w. snd (snd (write_piece_to_file 0 [1, 2] 0 (two_files, disk_init sample_disk_config ''ssd'' (\<lambda>_. None)))) = d' \<and>
     w \<in> set (d_queue d') \<and> w_path w = [46, 47, 98] \<and> w_offset w = 0 \<and> w_data w = [1, 2]"
proof -
  let ?d = "disk_init sample_disk_config ''ssd'' (\<lambda>_. None)"
  let ?b = "\<lparr>fs_path = [46, 47, 98], fs_start = 0, fs_end = 1, fs_piece = 0, fs_offset = 1\<rparr>"
  have b: "piece_blocks two_files 0 = [\<lparr>fs_path = [46, 47, 97], fs_start = 0, fs_end = 1, fs_piece = 0, fs_offset = 0\<rparr>, ?b]"
    by code_simp
  obtain a' d' where r: "write_piece_to_file 0 [1, 2] 0 (two_files, ?d) = (Inr (), a', d')"
    using b by (simp add: write_piece_to_file_def two_files_def assembler_init_def)
  have "\<exists>w \<in> set (d_queue d'). w_path w = fs_path ?b \<and> w_offset w = fs_start ?b \<and> w_data w = [1, 2] \<and>
    (\<forall>e. d_pending e = [(fs_path ?b, [w])] \<longrightarrow>
      (\<exists>f. d_files (flush_file_writes (\<lambda>_. True) (fs_path ?b) e) (fs_path ?b) = Some f \<and>
         take (length [1, 2 :: byte]) (drop (fs_start ?b) f) = [1, 2] \<and> fs_start ?b + length [1, 2 :: byte] \<le> length f))"
    by (rule blocks_get_whole_piece [OF r])
      (simp_all add: b, simp_all add: two_files_def assembler_init_def disk_init_def sample_disk_config_def)
  then show ?thesis using r by auto
qed

section \<open>Reading, checking and cleaning up\<close>

text \<open>A memory map made when the file was shorter hides the bytes written since.\<close>

lemma read_block_of_map:
  assumes "piece_blocks a i = [b]" and "i < as_num_pieces a" and "use_mmap (d_config d)" and "d_maps d (fs_path b) = Some m"
  shows "fst (read_block parallel (int i) pos n a d) =
    Some (take n (drop (fs_start b + pos) (take m (file_bytes (fs_path b) d))))"
  using assms by (simp add: read_block_def read_disk_def get_mmap_entry_def file_bytes_def Let_def)

text \<open>Without memory maps more bytes than requested are returned (up to four times as many).\<close>

lemma read_block_unmapped:
  assumes "piece_blocks a i = [b]" and "i < as_num_pieces a" and "\<not> use_mmap (d_config d)"
    and "read_ahead_adaptive (d_config d)" and "d_files d (fs_path b) = Some f"
  shows "fst (read_block parallel (int i) pos n a d) =
    Some (take (max n (min (read_ahead_max_kib (d_config d) * 1024) (n * 4))) (drop (fs_start b + pos) f))"
  using assms
  by (simp add: read_block_def read_disk_def read_block_sync_def read_ahead_size_def is_sequential_def update_pattern_def Let_def)

lemma fold_check_piece:
  "v_valid (fold (check_piece a) is v) \<longleftrightarrow> v_valid v \<and> set is \<subseteq> set (as_written a)"
  "v_missing_pieces (fold (check_piece a) is v) = v_missing_pieces v @ filter (\<lambda>i. i \<notin> set (as_written a)) is"
  by (induction "is" arbitrary: v) (auto simp: check_piece_def)

lemma fold_check_file_missing: "v_missing_pieces (fold (check_file a d verified) cfs v) = v_missing_pieces v"
  by (induction cfs arbitrary: v) (simp_all add: check_file_def split: option.splits)

text \<open>
  Resuming and cleaning up. A new assembler rejects every checkpoint with a verified piece: none of
  them is known as written, so all are reported missing, whatever the files hold. And cleaning up
  removes every file whose length is not that of the whole torrent, so of a complete torrent with
  several nonempty files it removes all.
\<close>

theorem resume_rejected_and_files_removed:
  assumes "verified \<noteq> []" and "path \<in> set (get_file_paths a)" and "d_files d path = Some f" and "length f \<noteq> as_total_length a"
    and "as_written a = []"
  shows "\<not> v_valid (verify_existing_pieces cfs verified a d) \<and>
    v_missing_pieces (verify_existing_pieces cfs verified a d) = verified \<and>
    d_files (cleanup_incomplete_files a d) path = None"
proof -
  have one: "d_files (cleanup_file a p e) q =
      (if p = q \<and> (case d_files e q of None \<Rightarrow> False | Some g \<Rightarrow> length g \<noteq> as_total_length a) then None else d_files e q)" for p q e
    by (auto simp: cleanup_file_def split: option.splits)
  have "d_files (fold (cleanup_file a) ps e) path = None"
    if "path \<in> set ps \<and> (\<exists>g. d_files e path = Some g \<and> length g \<noteq> as_total_length a) \<or> d_files e path = None" for ps e
    using that
  proof (induction ps arbitrary: e)
    case (Cons p ps)
    show ?case by (simp, rule Cons.IH) (use Cons.prems in \<open>auto simp: one split: if_splits\<close>)
  qed auto
  then have "d_files (cleanup_incomplete_files a d) path = None"
    using assms(2-4) by (auto simp: cleanup_incomplete_files_def)
  then show ?thesis using assms(1,5)
    by (simp add: verify_existing_pieces_def fold_check_piece fold_check_file_missing)
qed

lemma resume_rejected_and_files_removed_witness:
  "\<exists>d. d_files (cleanup_incomplete_files two_files d) [46, 47, 97] = None \<and> d_files d [46, 47, 97] = Some [1] \<and>
     \<not> v_valid (verify_existing_pieces [] [0] two_files d)"
proof -
  have "[46, 47, 97] \<in> set (get_file_paths two_files)" by code_simp
  then show ?thesis
    using resume_rejected_and_files_removed [of "[0]" "[46, 47, 97]" two_files
        "disk_init sample_disk_config ''ssd'' (\<lambda>_. Some [1])" "[1]" "[]"]
    by (auto simp: two_files_def assembler_init_def disk_init_def)
qed

text \<open>An absolute name in the torrent decides where its file is written.\<close>

lemma absolute_path_escapes: "nf_full_path f = Some (47 # p) \<Longrightarrow> file_path_of output_dir f = 47 # p"
  by (simp add: file_path_of_def path_join_def)

end
