(* ===== verification/Session_Torrent.thy ===== *)
theory Session_Torrent
  imports Torrent_Parser File_Assembler Piece_Progress
begin

text \<open>
  From a parsed torrent to a download: what \<open>AsyncSessionManager.add_torrent\<close> and
  \<open>AsyncTorrentSession\<close> (\<open>ccbt/session/session.py\<close>) hand on to the piece manager, and the
  \<open>AsyncDownloadManager\<close> of \<open>ccbt/storage/file_assembler.py\<close> with its registry of file assemblers.
  The dictionary \<open>torrent_data\<close> is a record with one optional field for each key. The lemmas compose the
  components: the bytes of a metainfo file, the pieces of the piece manager, the bytes of the file.
\<close>

section \<open>The dictionary of a torrent\<close>

record pieces_dict =
  pi_piece_hashes :: "bytes list"
  pi_piece_length :: int
  pi_num_pieces :: int
  pi_total_length :: int

record torrent_dict =
  sd_name :: "pystr option"
  sd_info_hash :: "bytes option"
  sd_announce :: "pystr option"
  sd_pieces_info :: "pieces_dict option"
  sd_file_info_total :: "int option"    \<comment> \<open>\<open>td["file_info"]["total_length"]\<close>\<close>
  sd_files :: "named_file list option"
  sd_total_length :: "int option"
  sd_piece_length :: "int option"
  sd_pieces :: "bytes list option"
  sd_num_pieces :: "int option"
  sd_meta_version :: "int option"
  sd_piece_layers :: "(bytes \<times> bytes list) list option"

definition empty_dict :: torrent_dict where
  "empty_dict = \<lparr>sd_name = None, sd_info_hash = None, sd_announce = None, sd_pieces_info = None,
     sd_file_info_total = None, sd_files = None, sd_total_length = None, sd_piece_length = None, sd_pieces = None,
     sd_num_pieces = None, sd_meta_version = None, sd_piece_layers = None\<rparr>"

definition pieces_dict_of :: "torrent_meta \<Rightarrow> pieces_dict" where
  "pieces_dict_of t =
     \<lparr>pi_piece_hashes = tm_pieces t, pi_piece_length = tm_piece_length t, pi_num_pieces = tm_num_pieces t,
      pi_total_length = tm_total_length t\<rparr>"

text \<open>The dictionary \<open>add_torrent\<close> makes of the parsed torrent.\<close>

definition add_torrent_dict :: "torrent_meta \<Rightarrow> torrent_dict" where
  "add_torrent_dict t = empty_dict\<lparr>sd_name := Some (tm_name t), sd_info_hash := Some (tm_info_hash t),
     sd_pieces_info := Some (pieces_dict_of t), sd_file_info_total := Some (tm_total_length t)\<rparr>"

text \<open>Every failure of the parser is logged, and \<open>None\<close> is returned.\<close>

definition load_torrent :: "torrent_meta py \<Rightarrow> torrent_dict option" where
  "load_torrent parsed =
     (case parsed of
        Inl _ \<Rightarrow> None
      | Inr t \<Rightarrow> Some ((add_torrent_dict t)\<lparr>sd_announce := Some (tm_announce t)\<rparr>))"

datatype torrent_source = Dict torrent_dict | Info torrent_meta

definition normalize_torrent_data :: "torrent_source \<Rightarrow> torrent_dict" where
  "normalize_torrent_data td =
     (case td of
        Dict d \<Rightarrow>
          let d1 = (case (sd_pieces_info d, sd_pieces d, sd_piece_length d, sd_num_pieces d) of
                (None, Some hashes, Some len, Some n) \<Rightarrow>
                  d\<lparr>sd_pieces_info := Some \<lparr>pi_piece_hashes = hashes, pi_piece_length = len, pi_num_pieces = n,
                      pi_total_length = (case sd_total_length d of Some x \<Rightarrow> x | None \<Rightarrow> 0)\<rparr>\<rparr>
              | _ \<Rightarrow> d)
          in if sd_file_info_total d = None
             then d1\<lparr>sd_file_info_total := Some (case sd_total_length d of Some x \<Rightarrow> x | None \<Rightarrow> 0)\<rparr>
             else d1
      | Info t \<Rightarrow> add_torrent_dict t)"

text \<open>What \<open>AsyncPieceManager.__init__\<close> reads of the dictionary.\<close>

definition piece_manager_data :: "torrent_dict \<Rightarrow> torrent_data" where
  "piece_manager_data d =
     \<lparr>td_num_pieces = (case sd_pieces_info d of None \<Rightarrow> 0 | Some p \<Rightarrow> nat (pi_num_pieces p)),
      td_piece_length = map_option (\<lambda>p. nat (pi_piece_length p)) (sd_pieces_info d),
      td_piece_hashes = map_option pi_piece_hashes (sd_pieces_info d),
      td_total_length = (case sd_file_info_total d of Some x \<Rightarrow> Some x | None \<Rightarrow> sd_total_length d),
      td_piece_layers = (case sd_piece_layers d of None \<Rightarrow> [] | Some l \<Rightarrow> l),
      td_meta_version = (case sd_meta_version d of None \<Rightarrow> 1 | Some v \<Rightarrow> nat v)\<rparr>"

section \<open>The download manager\<close>

text \<open>A \<open>FileInfo\<close> as the file assembler reads it.\<close>

definition named_of :: "file_entry \<Rightarrow> named_file" where
  "named_of f = \<lparr>tf_length = nat (fi_length f),
     tf_attributes = map_option (map (\<lambda>c. if c < 128 then char_of c else CHR ''?'')) (fe_attributes f),
     nf_name = fi_name f, nf_full_path = Some (fi_full_path f)\<rparr>"

text \<open>The constructor of the assembler, for a \<open>TorrentInfo\<close> and for a dictionary.\<close>

definition assembler_of :: "torrent_source \<Rightarrow> pystr \<Rightarrow> assembler" where
  "assembler_of td output_dir =
     (case td of
        Info t \<Rightarrow> assembler_init (map named_of (tm_files t)) (nat (tm_total_length t)) (nat (tm_piece_length t))
                    (nat (tm_num_pieces t)) output_dir
      | Dict d \<Rightarrow> assembler_init (case sd_files d of None \<Rightarrow> [] | Some fs \<Rightarrow> fs)
                    (case sd_total_length d of None \<Rightarrow> 0 | Some x \<Rightarrow> nat x)
                    (case sd_piece_length d of None \<Rightarrow> 0 | Some x \<Rightarrow> nat x)
                    (case sd_num_pieces d of None \<Rightarrow> 0 | Some x \<Rightarrow> nat x) output_dir)"

definition assembler_pieces :: "torrent_source \<Rightarrow> bytes list" where
  "assembler_pieces td =
     (case td of Info t \<Rightarrow> tm_pieces t | Dict d \<Rightarrow> (case sd_pieces d of None \<Rightarrow> [] | Some ps \<Rightarrow> ps))"

definition source_hash :: "torrent_source \<Rightarrow> bytes" where
  "source_hash td =
     (case td of Info t \<Rightarrow> tm_info_hash t | Dict d \<Rightarrow> (case sd_info_hash d of None \<Rightarrow> [] | Some h \<Rightarrow> h))"

text \<open>
  Assemblers are objects: the registry maps info hashes to addresses of \<open>dm_objs\<close>, and
  \<open>dm_file_assembler\<close> is the address of the assembler that \<open>start\<close> made.
\<close>

record assembler_object =
  ao_assembler :: assembler
  ao_pieces :: "bytes list"
  ao_disk_started :: bool

record download_manager =
  dm_torrent :: "torrent_source option"
  dm_output_dir :: pystr
  dm_objs :: "assembler_object list"
  dm_assemblers :: "(bytes \<times> nat) list"
  dm_file_assembler :: "nat option"

definition dm_init :: "torrent_source option \<Rightarrow> pystr \<Rightarrow> download_manager" where
  "dm_init td output_dir =
     \<lparr>dm_torrent = td, dm_output_dir = output_dir, dm_objs = [], dm_assemblers = [], dm_file_assembler = None\<rparr>"

definition dm_start_download :: "torrent_source \<Rightarrow> pystr \<Rightarrow> download_manager \<Rightarrow> nat \<times> download_manager" where
  "dm_start_download td output_dir m =
     (case map_of (dm_assemblers m) (source_hash td) of
        Some r \<Rightarrow> (r, m)
      | None \<Rightarrow>
          let new = \<lparr>ao_assembler = assembler_of td output_dir, ao_pieces = assembler_pieces td, ao_disk_started = True\<rparr>;
              r = length (dm_objs m)
          in (r, m\<lparr>dm_objs := dm_objs m @ [new], dm_assemblers := dm_assemblers m @ [(source_hash td, r)]\<rparr>))"

definition dm_start :: "download_manager \<Rightarrow> download_manager" where
  "dm_start m =
     (case (dm_file_assembler m, dm_torrent m) of
        (None, Some td) \<Rightarrow>
          (case dm_start_download td (dm_output_dir m) m of (r, m) \<Rightarrow> m\<lparr>dm_file_assembler := Some r\<rparr>)
      | _ \<Rightarrow> m)"

definition stop_object :: "nat \<Rightarrow> download_manager \<Rightarrow> download_manager" where
  "stop_object r m = m\<lparr>dm_objs := (dm_objs m)[r := (dm_objs m ! r)\<lparr>ao_disk_started := False\<rparr>]\<rparr>"

definition dm_stop_download :: "torrent_source \<Rightarrow> download_manager \<Rightarrow> download_manager" where
  "dm_stop_download td m =
     (case map_of (dm_assemblers m) (source_hash td) of
        None \<Rightarrow> m
      | Some r \<Rightarrow> (stop_object r m)\<lparr>dm_assemblers := AList.delete (source_hash td) (dm_assemblers m)\<rparr>)"

definition dm_get_assembler :: "torrent_source \<Rightarrow> download_manager \<Rightarrow> nat option" where
  "dm_get_assembler td m = map_of (dm_assemblers m) (source_hash td)"

definition dm_stop_all :: "download_manager \<Rightarrow> download_manager" where
  "dm_stop_all m = (fold stop_object (map snd (dm_assemblers m)) m)\<lparr>dm_assemblers := []\<rparr>"

text \<open>\<open>write_piece_to_file\<close> of the assembler at an address.\<close>

definition dm_write_piece :: "nat \<Rightarrow> nat \<Rightarrow> bytes \<Rightarrow> rat \<Rightarrow> download_manager \<times> disk \<Rightarrow> unit py \<times> download_manager \<times> disk" where
  "dm_write_piece r i data now s =
     (let (m, d) = s;
          (res, a, d') = write_piece_to_file i data now (ao_assembler (dm_objs m ! r), d)
      in (res, m\<lparr>dm_objs := (dm_objs m)[r := (dm_objs m ! r)\<lparr>ao_assembler := a, ao_disk_started := True\<rparr>]\<rparr>, d'))"

text \<open>
  \<open>get_status\<close>: number of pieces, number of completed pieces, completed. The pieces of an assembler are
  the hashes, which have no attribute \<open>completed\<close>.
\<close>

definition dm_get_status :: "download_manager \<Rightarrow> nat \<times> nat \<times> bool" where
  "dm_get_status m =
     (case dm_file_assembler m of
        None \<Rightarrow> (0, 0, False)
      | Some r \<Rightarrow>
          let total_pieces = length (ao_pieces (dm_objs m ! r)); completed_pieces = 0
          in (total_pieces, completed_pieces, total_pieces \<in> {0, completed_pieces}))"

definition dm_download_complete :: "download_manager \<Rightarrow> bool" where
  "dm_download_complete m =
     (case dm_file_assembler m of None \<Rightarrow> False | Some r \<Rightarrow> download_complete (ao_assembler (dm_objs m ! r)))"

section \<open>A torrent added by its path\<close>

lemma add_torrent_dict_fields [simp]:
  "sd_files (add_torrent_dict t) = None" "sd_num_pieces (add_torrent_dict t) = None" "sd_pieces (add_torrent_dict t) = None"
  "sd_total_length (add_torrent_dict t) = None" "sd_piece_length (add_torrent_dict t) = None"
  "sd_meta_version (add_torrent_dict t) = None" "sd_piece_layers (add_torrent_dict t) = None"
  "sd_pieces_info (add_torrent_dict t) = Some (pieces_dict_of t)" "sd_file_info_total (add_torrent_dict t) = Some (tm_total_length t)"
  "sd_info_hash (add_torrent_dict t) = Some (tm_info_hash t)"
  by (simp_all add: add_torrent_dict_def empty_dict_def)

lemma normalize_added [simp]:
  "normalize_torrent_data (Dict (add_torrent_dict t)) = add_torrent_dict t" "normalize_torrent_data (Info t) = add_torrent_dict t"
  by (simp_all add: normalize_torrent_data_def)

lemma piece_manager_data_added [simp]:
  "td_num_pieces (piece_manager_data (add_torrent_dict t)) = nat (tm_num_pieces t)"
  "td_piece_length (piece_manager_data (add_torrent_dict t)) = Some (nat (tm_piece_length t))"
  "td_piece_hashes (piece_manager_data (add_torrent_dict t)) = Some (tm_pieces t)"
  "td_total_length (piece_manager_data (add_torrent_dict t)) = Some (tm_total_length t)"
  "td_meta_version (piece_manager_data (add_torrent_dict t)) = 1"
  by (simp_all add: piece_manager_data_def pieces_dict_of_def)

text \<open>
  C17: the download manager of a torrent added by its path, once started, reports the download as
  complete, and nothing of it can be written: the dictionary made of it has no files and no number of pieces where the assembler looks for
  them, so the assembler has no blocks, and every write of a piece raises and leaves the disk as it is.
\<close>

theorem added_torrent_complete_at_once:
  "let m = dm_start (dm_init (Some (Dict (add_torrent_dict t))) output_dir)
   in dm_download_complete m \<and> dm_get_status m = (0, 0, True) \<and>
     (\<exists>r. dm_file_assembler m = Some r \<and> as_written (ao_assembler (dm_objs m ! r)) = [] \<and>
        (\<forall>i data now d. dm_write_piece r i data now (m, d) = (Inl FileAssemblerError, m, d)))"
proof -
  define m where "m = dm_start (dm_init (Some (Dict (add_torrent_dict t))) output_dir)"
  let ?a = "assembler_of (Dict (add_torrent_dict t)) output_dir"
  have a: "as_written ?a = []" "as_num_pieces ?a = 0" "as_blocks ?a = []"
    by (simp_all add: assembler_of_def assembler_init_def build_file_segments_def)
  have m: "dm_file_assembler m = Some 0" "dm_objs m = [\<lparr>ao_assembler = ?a, ao_pieces = [], ao_disk_started = True\<rparr>]"
    by (simp_all add: m_def dm_start_def dm_init_def dm_start_download_def assembler_pieces_def Let_def)
  have w: "write_piece_to_file i data now (?a, d) = (Inl FileAssemblerError, ?a, d)" for i data now d
    by (simp add: write_piece_to_file_def piece_blocks_def a)
  have "m\<lparr>dm_objs := dm_objs m\<rparr> = m" by simp
  then have "dm_write_piece 0 i data now (m, d) = (Inl FileAssemblerError, m, d)" for i data now d
    by (simp add: dm_write_piece_def m(2) w)
  then show ?thesis using a m by (simp add: Let_def m_def [symmetric] dm_download_complete_def dm_get_status_def download_complete_def)
qed

text \<open>Given as \<open>TorrentInfo\<close>, a torrent with piece hashes never has the status completed.\<close>

lemma info_status_never_completed:
  assumes "tm_pieces t \<noteq> []" and "dm_file_assembler m = Some r" and "ao_pieces (dm_objs m ! r) = tm_pieces t"
  shows "dm_get_status m = (length (tm_pieces t), 0, False)"
  using assms by (simp add: dm_get_status_def)

section \<open>v2 torrents\<close>

lemma torrent_kept_steps:
  assumes "(pm_step cfg)\<^sup>*\<^sup>* s t" and "pm_inv cfg s" and "0 < m_num_pieces (fst s)"
  shows "pm_inv cfg t \<and> torrent_kept (fst s) (fst t) \<and> 0 < m_num_pieces (fst t)"
  using assms
proof (induction rule: rtranclp_induct)
  case base
  then show ?case by (simp add: torrent_kept_def)
next
  case (step t u)
  then have inv: "pm_inv cfg t" and k: "torrent_kept (fst s) (fst t)" "0 < m_num_pieces (fst t)" by simp_all
  then have "\<not> m_lock (fst t)" by (cases t) (simp add: pm_inv_def)
  then have "torrent_kept (fst t) (fst u)" using pm_step_torrent_kept step.hyps(2) k(2) by blast
  then show ?case using k pm_step_inv [OF step.hyps(2) inv] torrent_kept_trans by (auto simp: torrent_kept_def)
qed

text \<open>
  C16: no piece of a v2 or hybrid torrent that a session was made from is ever verified, whatever its
  layers, the data received and the order of events: the session hands on neither the version nor the
  piece layers, and there are no v1 hashes.
\<close>

theorem v2_session_never_verifies:
  assumes "parse lax str_of uni depth fuel torrent_data = Some (Inr t)" and "tm_meta_version t \<noteq> 1"
    and "0 < tm_num_pieces t" and "td \<in> {Dict (add_torrent_dict t), Info t}" and "0 < pc_block_size cfg"
    and "(pm_step cfg)\<^sup>*\<^sup>* (pm_init cfg fs (piece_manager_data (normalize_torrent_data td)), {}) (m, V)"
  shows "m_verified m = {} \<and> V = {} \<and> m_piece_hashes m = []"
proof -
  obtain data where "extract_torrent_data lax str_of depth data = Inr t" using parse_extracted [OF assms(1)] by blast
  then have t: "tm_pieces t = []" "0 < tm_piece_length t"
    using extract_torrent_data_ok assms(2) by (auto simp: torrent_ok_def)
  let ?td = "piece_manager_data (add_torrent_dict t)"
  have td: "normalize_torrent_data td = add_torrent_dict t" using assms(4) by auto
  have inv: "pm_inv cfg (pm_init cfg fs ?td, {})" using t(2) by (intro pm_init_inv [OF assms(5)]) simp
  have "0 < m_num_pieces (fst (pm_init cfg fs ?td, {} :: nat set))" using assms(3) by simp
  from torrent_kept_steps [OF assms(6) [unfolded td] inv this]
  have "pm_inv cfg (m, V)" "m_piece_hashes m = []" "m_meta_version m = 1"
    using t by (simp_all add: torrent_kept_def)
  then show ?thesis using no_hashes_no_verification by blast
qed

section \<open>Absolute paths\<close>

definition absolute :: "pystr \<Rightarrow> bool" where
  "absolute p \<longleftrightarrow> take 1 p = lit ''/''"

lemma absolute_join: "absolute q \<Longrightarrow> path_join p q = q"
  by (simp add: absolute_def path_join_def)

lemma join_absolute: "absolute p \<Longrightarrow> absolute (path_join p q)"
  by (cases p) (auto simp: absolute_def path_join_def lit_def)

lemma foldl_join_absolute: "absolute p \<Longrightarrow> absolute (foldl path_join p qs)"
  by (induction qs arbitrary: p) (simp_all add: join_absolute)

lemma join_parts_absolute:
  assumes "absolute p"
  shows "join_parts (ps @ p # qs) = Inr (foldl path_join p qs)"
proof (cases ps)
  case Nil
  then show ?thesis by (simp add: join_parts_def)
next
  case (Cons q rs)
  then show ?thesis using absolute_join [OF assms] by (simp add: join_parts_def)
qed

text \<open>Every file with bytes that the pieces cover gets a block at its path.\<close>

lemma multi_blocks_path:
  assumes "\<forall>k < cp. piece_end_of T pl k \<le> a" and "f \<in> set fs" and "\<not> padding_file f" and "0 < tf_length f"
    and "0 < pl" and "T \<le> n * pl" and "a + sum_list (map tf_length fs) \<le> T"
  shows "file_path_of output_dir f \<in> fs_path ` set (multi_blocks output_dir T pl n a cp fs)"
  using assms(1,2,7)
proof (induction fs arbitrary: a cp)
  case (Cons g fs)
  let ?l = "file_loop (file_path_of output_dir g) T pl n a (a + tf_length g) cp"
  have later: "file_path_of output_dir f \<in> fs_path ` set (multi_blocks output_dir T pl n (a + tf_length g) cp' fs)"
    if "\<forall>k < cp'. piece_end_of T pl k \<le> a + tf_length g" "f \<in> set fs" for cp'
    using Cons.IH [OF that] Cons.prems(3) by simp
  show ?case
  proof (cases "padding_file g")
    case True
    then have "f \<in> set fs" using Cons.prems(2) assms(3) by auto
    moreover have "\<forall>k < cp. piece_end_of T pl k \<le> a + tf_length g" using Cons.prems(1) by (auto intro: le_trans)
    ultimately show ?thesis using True later by simp
  next
    case False
    note loop = file_loop_all [OF Cons.prems(1), of "a + tf_length g" "file_path_of output_dir g" n]
    have mb: "multi_blocks output_dir T pl n a cp (g # fs) = fst ?l @ multi_blocks output_dir T pl n (a + tf_length g) (snd ?l) fs"
      using False by (simp add: case_prod_unfold Let_def)
    show ?thesis
    proof (cases "f = g")
      case True
      let ?k = "a div pl"
      have a: "a < T" using Cons.prems(3) assms(4) True by simp
      then have k: "?k < n" using assms(6) by (simp add: less_mult_imp_div_less)
      have le: "?k * pl \<le> a" by simp
      have gt: "a < ?k * pl + pl" using assms(5) by (metis add.commute dividend_less_div_times mult.commute)
      have "overlap (file_path_of output_dir g) T pl a (a + tf_length g) ?k \<noteq> []"
        using le gt a True assms(4) by (simp add: overlap_def Let_def piece_end_of_def max_def)
      then obtain b where b: "b \<in> set (overlap (file_path_of output_dir g) T pl a (a + tf_length g) ?k)"
        by (cases "overlap (file_path_of output_dir g) T pl a (a + tf_length g) ?k") auto
      then have "b \<in> set (fst ?l)" using loop(1) k by auto
      moreover have "fs_path b = file_path_of output_dir f" using b True by (auto simp: overlap_def Let_def split: if_splits)
      ultimately show ?thesis unfolding mb by (metis UnI1 image_eqI set_append)
    next
      case False
      then have "file_path_of output_dir f \<in> fs_path ` set (multi_blocks output_dir T pl n (a + tf_length g) (snd ?l) fs)"
        using later loop(2) Cons.prems(2) by simp
      then show ?thesis unfolding mb by auto
    qed
  qed
qed simp

lemma several_files_path:
  assumes "1 < length files" and "f \<in> set files" and "\<not> padding_file f" and "0 < tf_length f"
    and "0 < pl" and "T \<le> n * pl" and "sum_list (map tf_length files) \<le> T"
  shows "file_path_of output_dir f \<in> set (get_file_paths (assembler_init files T pl n output_dir))"
proof -
  obtain g h gs where "files = g # h # gs" using assms(1) by (cases files; cases "tl files") auto
  then have "build_file_segments files T pl n output_dir = multi_blocks output_dir T pl n 0 0 files"
    by (simp add: build_file_segments_def)
  then show ?thesis using multi_blocks_path [of 0 T pl 0 f files n output_dir] assms(2-7)
    by (simp add: get_file_paths_def assembler_init_def)
qed

lemma v1_file_ok:
  assumes "v1_torrent t" and "f \<in> set (tm_files t)" and "fi_path f = Some ps"
  shows "multi_ok f" and "join_parts ps = Inr (fi_full_path f)"
proof -
  have "single_file t = None" using assms(2,3) single_fileD by (cases "single_file t") fastforce+
  then show "multi_ok f" using assms(1,2) by (simp add: v1_torrent_def list_all_iff)
  then show "join_parts ps = Inr (fi_full_path f)" using assms(3) by (simp add: multi_ok_def)
qed

lemma v1_lengths: "v1_torrent t \<Longrightarrow> f \<in> set (tm_files t) \<Longrightarrow> 0 \<le> fi_length f"
  using single_fileD by (cases "single_file t") (fastforce simp: v1_torrent_def list_all_iff multi_ok_def entry_ok_def)+

lemma sum_lengths_nat: "\<forall>f\<in>set fs. 0 \<le> fi_length f \<Longrightarrow> sum_list (map (\<lambda>f. nat (fi_length f)) fs) = nat (sum_list (map fi_length fs))"
proof (induction fs)
  case (Cons f fs)
  then have "0 \<le> sum_list (map fi_length fs)" by (intro sum_list_nonneg) auto
  with Cons show ?case by (simp add: nat_add_distrib)
qed simp


definition evil_torrent :: torrent_meta where
  "evil_torrent = sample_torrent\<lparr>tm_files := [sample_file_entry\<lparr>fi_path := Some [lit ''a'', lit ''/b'', lit ''c''],
       fi_name := lit ''c'', fi_full_path := lit ''/b/c''\<rparr>, sample_file_entry], tm_total_length := 6,
     tm_pieces := replicate 3 (replicate 20 1), tm_num_pieces := 3\<rparr>"


section \<open>From the metainfo file to the file on disk\<close>

text \<open>A session that writes what the piece manager gives as the data of its verified pieces.\<close>

primrec transfer_step :: "piece_manager \<Rightarrow> assembly_event \<Rightarrow> assembler \<times> disk \<Rightarrow> assembler \<times> disk" where
  "transfer_step m (Write_piece i now) s =
     (if i \<notin> m_verified m then s
      else case get_piece_data i m of
        Inr (Some data) \<Rightarrow> snd (write_piece_to_file i data now s)
      | _ \<Rightarrow> s)"
| "transfer_step m (Batcher now) s = apsnd (write_batcher_turn (\<lambda>_. True) now) s"
| "transfer_step m Flush_all s = apsnd (flush_all_writes (\<lambda>_. True)) s"

text \<open>The event does something: its piece, if it has one, is verified.\<close>

primrec effective :: "piece_manager \<Rightarrow> assembly_event \<Rightarrow> bool" where
  "effective m (Write_piece i now) \<longleftrightarrow> i \<in> m_verified m \<and> (\<exists>data. get_piece_data i m = Inr (Some data))"
| "effective m (Batcher now) \<longleftrightarrow> True"
| "effective m Flush_all \<longleftrightarrow> True"

lemma transfer_is_assembly:
  assumes "\<And>i data. i \<in> m_verified m \<Longrightarrow> get_piece_data i m = Inr (Some data) \<Longrightarrow> data = piece_of c pl i"
  shows "fold (transfer_step m) evs s = fold (assembly_step c pl) (filter (effective m) evs) s"
proof (induction evs arbitrary: s)
  case (Cons ev evs)
  have "transfer_step m ev s = (if effective m ev then assembly_step c pl ev s else s)"
    using assms by (cases ev) (auto split: sum.splits option.splits)
  then show ?case using Cons by simp
qed simp

lemma sha1_of_hash:
  assumes "hash_function a data = sha1 x"
  shows "sha1 data = sha1 x"
proof (cases a)
  case SHA1
  then show ?thesis using assms by (simp add: hash_function_def)
next
  case SHA256
  then have "length (sha1 x) = 32" using assms sha256.length_H [of data] by (simp add: hash_function_def)
  then show ?thesis using sha1.length_H [of x] by simp
qed

text \<open>In a download of a v1 torrent the data of a verified piece has the hash of the torrent.\<close>

lemma verified_sha1:
  assumes "v1_torrent t" and "0 < tm_num_pieces t" and "0 < pc_block_size cfg" and "0 < pc_chunk_size cfg"
    and "(pm_step cfg)\<^sup>*\<^sup>* (pm_init cfg fs (piece_manager_data (add_torrent_dict t)), {}) (m, V)"
    and "i \<in> m_verified m" and "tm_pieces t = map (\<lambda>i. sha1 (piece_of c pl i)) [0..<pieces_of c pl]"
  shows "\<exists>data. get_data (m_pieces m ! i) = Inr data \<and> sha1 data = sha1 (piece_of c pl i)"
proof -
  let ?m0 = "pm_init cfg fs (piece_manager_data (add_torrent_dict t))"
  have "0 < tm_piece_length t" using assms(1) by (simp add: v1_torrent_def)
  then have inv: "pm_inv cfg (?m0, {})" by (intro pm_init_inv [OF assms(3)]) simp
  have "0 < m_num_pieces (fst (?m0, {} :: nat set))" using assms(2) by simp
  from torrent_kept_steps [OF assms(5) inv this]
  have m: "pm_inv cfg (m, V)" "m_piece_hashes m = tm_pieces t" "m_meta_version m = 1" by (simp_all add: torrent_kept_def)
  have "piece_hash_valid cfg i m" using m(1) assms(6) by (auto simp: pm_inv_def)
  from piece_hash_valid_matches [OF this assms(4)]
  obtain data where d: "get_data (m_pieces m ! i) = Inr data" "data_matches m i data" by blast
  then obtain a where "i < length (tm_pieces t)" "hash_function a data = tm_pieces t ! i" using m by (auto simp: data_matches_def)
  then have "hash_function a data = sha1 (piece_of c pl i)" using assms(7) by simp
  then show ?thesis using d(1) sha1_of_hash by blast
qed


section \<open>Examples\<close>

definition tiny_file :: file_entry where
  "tiny_file = \<lparr>fi_name = [120], fi_length = 2, fi_path = None, fi_full_path = [120],
     fe_attributes = None, fe_symlink_path = None, fe_sha1 = None\<rparr>"

definition tiny_torrent :: torrent_meta where
  "tiny_torrent = \<lparr>tm_name = [120], tm_info_hash = [], tm_announce = [], tm_announce_list = None,
     tm_comment = None, tm_created_by = None, tm_creation_date = None, tm_encoding = None, tm_is_private = False,
     tm_files = [tiny_file], tm_total_length = 2, tm_piece_length = 2,
     tm_pieces = [sha1 [1, 2]], tm_num_pieces = 1, tm_meta_version = 1, tm_info_hash_v2 = None,
     tm_info_hash_v1 = None, tm_file_tree = None, tm_piece_layers = None\<rparr>"

lemma tiny_torrent_ok: "v1_torrent tiny_torrent" "single_file tiny_torrent = Some tiny_file"
  by (simp_all add: tiny_torrent_def tiny_file_def v1_torrent_def single_file_def entry_ok_def sha1.length_H
      opt_text_def scalar_def wrong_length_def missing_target_def has_attr_def)

text \<open>Its only block arrives and is verified.\<close>

lemma tiny_download:
  obtains m where "(pm_step demo_cfg)\<^sup>*\<^sup>* (pm_init demo_cfg None (piece_manager_data (add_torrent_dict
       (tiny_torrent\<lparr>tm_info_hash := h\<rparr>))), {}) (m, {0})" and "m_verified m = {0}"
    and "get_piece_data 0 m = Inr (Some [1, 2])" and "get_data (m_pieces m ! 0) = Inr [1, 2]"
proof -
  let ?m = "pm_init demo_cfg None (piece_manager_data (add_torrent_dict (tiny_torrent\<lparr>tm_info_hash := h\<rparr>)))"
  have p: "m_pieces ?m = [new_piece 2 0 2]"
    by (simp add: pm_init_def init_pieces_def initial_priority_def actual_piece_length_def
        demo_cfg_def new_piece_def Let_def tiny_torrent_def)
  have new: "new_piece 2 0 2 = demo_piece\<lparr>p_blocks := [new_block 0 0 2], p_state := MISSING\<rparr>"
    by (simp add: new_piece_def demo_piece_def make_blocks_def)
  have added: "piece_add_block 0 [1, 2] (new_piece 2 0 2) = (True, demo_piece)"
    by (simp add: new piece_add_block_def demo_piece_def demo_block_def new_block_def)
  obtain m where m: "handle_piece_block 0 0 [1, 2] ?m = Done ((), m)" "m_pieces m = [demo_piece]"
      "m_piece_hashes m = [sha1 [1, 2]]" "m_meta_version m = 1" "\<not> m_lock m" "m_verified m = {}"
    using p by (auto simp: handle_piece_block_def locked_Done added Let_def tiny_torrent_def)
  define h1 where "h1 = hash_function SHA1 [1, 2]"
  have "hash_piece_optimized 1 demo_piece h1"
    using hash_piece_optimized_iff [of 1 demo_piece h1] algorithm.length_H demo_piece_complete by (auto simp: h1_def)
  moreover have "h1 = sha1 [1, 2]" by (simp add: h1_def hash_function_def)
  ultimately have "hash_piece_optimized 1 demo_piece (sha1 [1, 2])" by simp
  then have "piece_hash_valid demo_cfg 0 m" by (simp add: piece_hash_valid_def m)
  then have V: "pm_step demo_cfg (m, {}) (m, {0})" using pm_step.hash [of 0 m demo_cfg "{}"] m(2) by simp
  obtain m' where m': "finish_verification 0 m = Done ((), m')" "m_verified m' = {0}"
      "m_pieces m' = [demo_piece\<lparr>p_state := VERIFIED\<rparr>]"
    using m by (cases "m_num_pieces m = 1") (auto simp: finish_verification_def locked_def with_lock_eq update_piece_def)
  have d: "get_data (m_pieces m' ! 0) = Inr [1, 2]" "p_state (m_pieces m' ! 0) = VERIFIED"
    by (simp_all add: m'(3) demo_piece_def demo_block_def get_data_def is_complete_def)
  have "pm_step demo_cfg (?m, {}) (m, {})" using m(1) by (rule pm_step.block)
  moreover have "pm_step demo_cfg (m, {0}) (m', {0})" using m'(1) by (intro pm_step.verify) simp_all
  ultimately have "(pm_step demo_cfg)\<^sup>*\<^sup>* (?m, {}) (m', {0})"
    using V by (meson r_into_rtranclp rtranclp_trans)
  moreover have "get_piece_data 0 m' = Inr (Some [1, 2])" using d m'(3) by (simp add: get_piece_data_def)
  ultimately show thesis using that m'(2) d(1) by blast
qed


theorem v2_session_never_verifies_witness:
  "\<exists>bs t. parse (\<lambda>_. None) (\<lambda>_. []) (\<lambda>_. None) (Suc 0) (length bs) (Inr bs) = Some (Inr t) \<and> 0 < tm_num_pieces t \<and>
     m_verified (pm_init demo_cfg None (piece_manager_data (normalize_torrent_data (Info t)))) = {}"
proof -
  obtain bs t where p: "parse (\<lambda>_. None) (\<lambda>_. []) (\<lambda>_. None) (Suc 0) (length bs) (Inr bs) = Some (Inr t)"
    and t: "tm_num_pieces t = 1" "tm_meta_version t = 3"
    by (rule sample_hybrid_bytes)
  let ?m = "pm_init demo_cfg None (piece_manager_data (normalize_torrent_data (Info t)))"
  have "m_verified ?m = {}"
    using v2_session_never_verifies [OF p, where td = "Info t" and cfg = demo_cfg and fs = None and m = ?m and V = "{}"] t
    by simp
  then show ?thesis using p t by fastforce
qed

end
