(* ===== verification/Spec2Isabelle.thy ===== *)
theory Spec2Isabelle
  imports Bencode Peer_Wire Bittorrent_V2 Message_Decoder Hash_V2 Torrent_V2 Torrent_Parser Utp_Packet Utp_Connection
    Piece_Progress Ip_Filter Dht_Client Queue_Limits File_Assembler Session_Torrent
begin

text \<open>
  A verification library for ccBitTorrent (\<open>ccbt/\<close>), a BitTorrent client in Python: shallow models of
  the parts of the program that carry its data path, and the theorems that make them correct or that
  pin down where they are not.

  \<^bold>\<open>The program and how its parts interact.\<close> A session parses a metainfo file (bencoding, v1 and v2
  metainfo), finds peers (trackers, DHT), filters their addresses, and connects over TCP or uTP. The
  byte stream of a connection is cut into messages by a decoder; bitfields, have messages and blocks
  go to the piece manager, which chooses pieces, requests their blocks, assembles and verifies them
  against the hashes of the metainfo. The file selection decides which pieces are wanted. A verified
  piece goes to the file assembler, which maps it to blocks of files and hands them to the disk manager,
  whose queue of write requests is merged and written by threads. A torrent queue starts and stops
  sessions within limits and divides the bandwidth. All of this runs in coroutines of one event
  loop; a lock of asyncio guards the piece manager, another the torrent queue.

  \<^bold>\<open>Theories, in the order of the data.\<close>

  \<^item> \<open>Ccbt_Prelude\<close>: bytes as lists of 8-bit words, Python's exceptions as values (\<open>py\<close>, with
    \<open>pbind\<close> for sequencing), \<open>struct\<close> integers, slices, dictionaries as association lists in
    insertion order, coroutines (\<open>Done\<close> a result or \<open>Waits\<close>), and the interfaces below.
  \<^item> \<open>Bencode\<close>: \<open>ccbt/core/bencode.py\<close>. \<open>encode\<close>, the decoder's methods as \<open>decode_value\<close> and its
    companions on a position that is an integer, UTF-8 and \<open>int()\<close> as the decoder uses them. Lemmas:
    round trip, the type of decoded values, termination without minus signs, an input of 11 bytes on
    which the decoder never returns.
  \<^item> \<open>Peer_Wire\<close>, \<open>Message_Decoder\<close>: \<open>ccbt/peer/peer.py\<close>. Handshake and message classes with their
    layouts; the two decoders with their buffers and pools of reused message objects (an explicit heap
    \<open>objs\<close>). Lemmas: the exact language of each decoder, segmentation independence, what happens after
    an undecodable message, no live message is overwritten.
  \<^item> \<open>Bittorrent_V2\<close>: \<open>ccbt/protocols/bittorrent_v2.py\<close>, with the envelope of extension messages of
    \<open>ccbt/extensions/protocol.py\<close>. Handshakes of the three versions, negotiation, upgrade, v2 messages.
  \<^item> \<open>Sha\<close>, \<open>Hash_V2\<close>, \<open>Torrent_V2\<close>: SHA-1 and SHA-256 as executable functions;
    \<open>ccbt/piece/hash_v2.py\<close>, \<open>ccbt/core/torrent_v2.py\<close>. Merkle roots, piece layers, streamed
    verification; file trees and the parsing of v2 metainfo. Security statements have an explicit
    collision as the alternative (\<open>colliding\<close>), so no assumption about the hash functions is made.
  \<^item> \<open>Torrent_Parser\<close>: \<open>ccbt/core/torrent.py\<close> with the models of \<open>ccbt/models.py\<close>,
    \<open>ccbt/core/torrent_attributes.py\<close> and \<open>parse_hybrid\<close>. Lemmas: round trip of v1 metainfo, the invariant
    of what is returned, the recursion of hybrid torrents.
  \<^item> \<open>Session_Torrent\<close>: the dictionaries that \<open>ccbt/session/session.py\<close> makes of a parsed torrent, and
    \<open>AsyncDownloadManager\<close> of \<open>ccbt/storage/file_assembler.py\<close>. Lemmas that compose the components: from the
    bytes of a metainfo file to the bytes of the downloaded file; what the session loses on the way.
  \<^item> \<open>Utp_Packet\<close>, \<open>Utp_Connection\<close>: \<open>ccbt/transport/utp.py\<close> and \<open>utp_extensions.py\<close>. Packets with
    extensions and selective acknowledgements; the connection with its state machine, one definition
    per method, the step relation \<open>utp_step\<close> over all of them. Lemmas: the invariant and the absence of
    exceptions, in-order delivery of streams whatever the network does to the order, and why two
    connections never get connected.
  \<^item> \<open>Piece_Data\<close>, \<open>Piece_Manager\<close>, \<open>Piece_Selection\<close>, \<open>Piece_Download\<close>, \<open>Piece_Progress\<close>:
    \<open>ccbt/piece/async_piece_manager.py\<close> (and the hand-over of metadata in \<open>ccbt/session/dht_setup.py\<close>).
    The state of the manager is one record; a coroutine that gives up control is one definition per
    part, and the step relation \<open>pm_step\<close> interleaves the parts of all calls. Lemmas: pieces are
    reassembled, a verified piece is authentic in every reachable state, frequencies count peers,
    rarest-first order, pieces that are never requested again, strategies that wait for their own lock.
  \<^item> \<open>File_Selection\<close>: \<open>ccbt/piece/file_selection.py\<close>. The piece mapping as a partition of the bytes;
    needed pieces and priorities in every reachable selection.
  \<^item> \<open>Disk_Io\<close>, \<open>File_Assembler\<close>: \<open>ccbt/storage/disk_io.py\<close>, \<open>ccbt/storage/file_assembler.py\<close>. The
    file system is a map from paths to contents; requests, batches, merging, staging, reading; blocks
    of files, writing and reading of pieces. Lemmas: a batch ends as if each request was carried out
    when requests are apart, and what it does when they are close or overlap; the composition from
    the piece manager's content to the bytes of the file.
  \<^item> \<open>Ip_Filter\<close>: \<open>ccbt/security/ip_filter.py\<close> and the lists of \<open>security_manager.py\<close>.
  \<^item> \<open>Dht_Routing\<close>, \<open>Dht_Client\<close>: \<open>ccbt/discovery/dht.py\<close>. The routing table with node objects shared by
    addresses, lookups, announcements, tokens, datagrams.
  \<^item> \<open>Queue_Manager\<close>, \<open>Queue_Limits\<close>: \<open>ccbt/queue/manager.py\<close>, \<open>ccbt/queue/bandwidth.py\<close>. The ordered
    queue with its sets of active torrents, every call under the lock, the monitor round, the four
    modes of bandwidth allocation.

  The enums and configuration records of \<open>ccbt/models.py\<close> stand in the theories that use them.

  \<^bold>\<open>Interfaces.\<close> The locales of the library and the models that implement them:

  \<^item> \<open>codec\<close> and \<open>strict_codec\<close> (an encoder and a decoder that inverts it; that accepts nothing else),
    interpreted by the message classes, the handshake, the v2 messages and the uTP extensions;
  \<^item> \<open>framing\<close> (a splitter of a stream that depends only on a prefix), interpreted by the message
    framing of the decoders: the lemmas about segmentation are proved once in it;
  \<^item> \<open>digest\<close> (a hash function of fixed length), interpreted by SHA-1 and SHA-256 and by the choice
    between them: binding of hashes and of Merkle roots;
  \<^item> \<open>operations\<close> (an operation preserves an invariant), interpreted by the routing table and the
    queue: invariants over runs, also those interleaved with other coroutines;
  \<^item> \<open>lock\<close> (a field of the state that a coroutine takes and gives back), interpreted by the piece
    manager and the queue: a coroutine that meets a held lock waits, one that finds it free keeps it free.

  \<^bold>\<open>Bounds and fuel.\<close> The decoder of bencoding may loop for ever, so it has fuel, one unit for each call
  and loop turn. \<open>Bencode.decode_terminates\<close> proves that twice the length of the input and one more is
  enough when the input has no minus sign, and \<open>decode_diverges_on_negative_key_length\<close> that no fuel is
  enough on a concrete input; the round trip states the fuel it needs. Every other loop of the
  models is a total function: loops over lists are recursions on them, and the loops of the decoders, of the
  write queue and of the SHA padding have termination proofs. Integers are unbounded as in Python,
  the fields of packets are checked against their width by \<open>struct\<close>, bytes and the words inside
  the hash functions have their width.

  \<^bold>\<open>Assumptions.\<close> What is not under \<open>ccbt/\<close> is an argument of the definitions: the value \<open>int()\<close> gives to
  a text with characters outside ASCII (\<open>uni\<close>), what a session's methods do (\<open>sessions_behaviour\<close>),
  the replies of the network, the clock, random identifiers, the order in which a batch of write
  requests is picked. Floating-point numbers are exact rationals (bandwidth shares), or tests given as
  arguments (thresholds of the piece manager). The device writes what it is given or raises, and never
  a part. A coroutine runs alone between two of its awaits, as the event loop guarantees.

  \<^bold>\<open>Not modelled.\<close> Sockets, asyncio streams and their timeouts
  (\<open>ccbt/peer/async_peer_connection.py\<close>, the trackers), because what they compute is mostly I/O around
  the modelled messages; encryption, because the ciphers and the key exchange belong to a package that
  is not part of the repository; sessions, the daemon, the command line, the user
  interface, configuration, monitoring, plugins and the adapters of external services (IPFS, WebRTC, Xet),
  which arrange the modelled components or observe them; statistics, log messages and events, of which no
  modelled result depends; the recursion limit of the interpreter. Inside the modelled components the
  text at the head of each theory says what is left out.
\<close>

end
